(* ===== verification/Prelude.thy ===== *)
theory Prelude
  imports Main "HOL-Library.Word" "HOL-Library.Finite_Map" "HOL-Library.List_Lexorder"
    "HOL-Library.Char_ord" "HOL-Library.Monad_Syntax" "HOL-Library.State_Monad"
begin

text \<open>
  The prelude of the development: Go's basic types as the other theories use them, and the
  generic lemmas the components share.

  \<^item> A Go \<^verbatim>\<open>[]byte\<close> is a list of 8-bit words. A Go \<^verbatim>\<open>string\<close> is a byte sequence, kept as an
    Isabelle \<^typ>\<open>string\<close> (one \<^typ>\<open>char\<close> is one byte); comparison of Go strings is
    byte-wise lexicographic, which is the order of List_Lexorder over Char_ord.
  \<^item> \<^verbatim>\<open>encoding/binary\<close>'s little-endian integers (\<open>le_bytes\<close>, \<open>le_val\<close>), \<^verbatim>\<open>bytes.Reader.Read\<close>
    and \<^verbatim>\<open>io.ReadFull\<close>.
  \<^item> \<^verbatim>\<open>int64\<close> arithmetic with its wrap-around written out (\<open>wrap64\<close>).
  \<^item> \<^verbatim>\<open>hash/crc32\<close> (IEEE) and \<^verbatim>\<open>hash/fnv\<close> (64-bit FNV-1a), bit by bit.
  \<^item> A Go map is a finite map \<open>('k, 'v) fmap\<close>; iterating it in sorted key order is
    \<^const>\<open>sorted_list_of_fmap\<close>, and \<open>fm_sum\<close> sums over its entries.

  The collection \<open>codec_simps\<close> holds the rewrite rules that carry the encode/decode proofs.
\<close>

unbundle bit_operations_syntax

named_theorems codec_simps \<open>rewrite rules for encode/decode round trips\<close>

type_synonym byte = "8 word"
type_synonym bytes = "byte list"

section \<open>Strings and bytes\<close>

definition bytes_of :: "string \<Rightarrow> bytes" where
  "bytes_of s = map of_char s"

definition string_of :: "bytes \<Rightarrow> string" where
  "string_of bs = map (\<lambda>b. char_of (unat b)) bs"

lemma length_bytes_of [simp, codec_simps]: "length (bytes_of s) = length s"
  by (simp add: bytes_of_def)

lemma length_string_of [simp]: "length (string_of bs) = length bs"
  by (simp add: string_of_def)

lemma unat_of_char_byte [simp]: "unat (of_char c :: byte) = of_char c"
proof -
  have e: "(of_char c :: byte) = word_of_nat (of_char c)" by (rule of_nat_of_char [symmetric])
  have "unat (of_char c :: byte) = of_char c mod 256" unfolding e unat_of_nat by simp
  then show ?thesis by simp
qed

lemma string_of_bytes_of [simp, codec_simps]: "string_of (bytes_of s) = s"
  by (simp add: bytes_of_def string_of_def comp_def)

lemma bytes_of_Nil [simp, codec_simps]: "bytes_of [] = []"
  by (simp add: bytes_of_def)

lemma bytes_of_inject [simp]: "bytes_of s = bytes_of t \<longleftrightarrow> s = t"
  by (metis string_of_bytes_of)

text \<open>Decimal output, as \<^verbatim>\<open>strconv.Itoa\<close> and \<^verbatim>\<open>fmt\<close>'s \<^verbatim>\<open>%d\<close> print it.\<close>

fun show_nat :: "nat \<Rightarrow> string" where
  "show_nat n = (if n < 10 then [char_of (48 + n)] else show_nat (n div 10) @ [char_of (48 + n mod 10)])"

declare show_nat.simps [simp del]

definition show_int :: "int \<Rightarrow> string" where
  "show_int i = (if i < 0 then ''-'' @ show_nat (nat (- i)) else show_nat (nat i))"

section \<open>Little-endian integers\<close>

lemma unat_byte: "unat (b :: byte) < 256"
  using unsigned_less [of b, where 'a = nat] by simp

lemma unat_w32: "unat (w :: 32 word) < 2 ^ 32"
  using unsigned_less [of w, where 'a = nat] by simp

lemma unat_w64: "unat (w :: 64 word) < 2 ^ 64"
  using unsigned_less [of w, where 'a = nat] by simp

text \<open>\<open>le_bytes n v\<close> is what \<^verbatim>\<open>binary.LittleEndian.PutUint\<close> writes for an \<open>n\<close>-byte integer of
  value \<open>v\<close>; \<open>le_val\<close> reads it back.\<close>

fun le_bytes :: "nat \<Rightarrow> nat \<Rightarrow> bytes" where
  "le_bytes 0 v = []"
| "le_bytes (Suc n) v = word_of_nat (v mod 256) # le_bytes n (v div 256)"

fun le_val :: "bytes \<Rightarrow> nat" where
  "le_val [] = 0"
| "le_val (b # bs) = unat b + 256 * le_val bs"

lemma length_le_bytes [simp, codec_simps]: "length (le_bytes n v) = n"
  by (induction n arbitrary: v) auto

lemma le_val_le_bytes: "le_val (le_bytes n v) = v mod 256 ^ n"
proof (induction n arbitrary: v)
  case (Suc n)
  have "unat (word_of_nat (v mod 256) :: byte) = v mod 256"
    by (simp add: unat_word_ariths take_bit_eq_mod unsigned_of_nat)
  with Suc show ?case
    by (simp add: mod_mult2_eq)
qed simp

lemma le_val_less: "le_val bs < 256 ^ length bs"
proof (induction bs)
  case (Cons b bs)
  have b: "unat b \<le> 255" using unat_byte [of b] by simp
  have v: "256 * le_val bs \<le> 256 * (256 ^ length bs - 1)" using Cons.IH by auto
  have p: "(1::nat) \<le> 256 ^ length bs" by simp
  have "unat b + 256 * le_val bs \<le> 255 + 256 * (256 ^ length bs - 1)" using b v by linarith
  also have "\<dots> < 256 * 256 ^ length bs" using p by linarith
  finally show ?case by simp
qed simp

lemma le_bytes_neq_Nil [simp]: "0 < n \<Longrightarrow> le_bytes n v \<noteq> []"
  by (cases n) auto

lemma take_le_bytes: "k \<le> n \<Longrightarrow> take k (le_bytes n v) = le_bytes k v"
proof (induction n arbitrary: v k)
  case (Suc n)
  then show ?case by (cases k) auto
qed simp

lemma le_val_append_zeros: "le_val (bs @ replicate n 0) = le_val bs"
proof (induction bs)
  case Nil
  show ?case by (induction n) auto
qed simp

abbreviation put16 :: "nat \<Rightarrow> bytes" where "put16 \<equiv> le_bytes 2"
abbreviation put32 :: "nat \<Rightarrow> bytes" where "put32 \<equiv> le_bytes 4"
abbreviation put64 :: "nat \<Rightarrow> bytes" where "put64 \<equiv> le_bytes 8"

lemma le_val_put16 [simp, codec_simps]: "v < 65536 \<Longrightarrow> le_val (put16 v) = v"
  by (simp add: le_val_le_bytes)

lemma le_val_put32 [simp, codec_simps]: "v < 2 ^ 32 \<Longrightarrow> le_val (put32 v) = v"
  by (simp add: le_val_le_bytes)

lemma le_val_put64 [simp, codec_simps]: "v < 2 ^ 64 \<Longrightarrow> le_val (put64 v) = v"
  by (simp add: le_val_le_bytes)

lemma le_val_put64_word [simp, codec_simps]: "le_val (put64 (unat (w :: 64 word))) = unat w"
  using unat_w64 [of w] by (simp add: le_val_le_bytes)

lemma le_val_put32_word [simp, codec_simps]: "le_val (put32 (unat (w :: 32 word))) = unat w"
  using unat_w32 [of w] by (simp add: le_val_le_bytes)

section \<open>Readers of the standard library\<close>

text \<open>\<^verbatim>\<open>bytes.Reader.Read\<close> into a buffer of \<open>n\<close> bytes: at the end of the data it is \<^verbatim>\<open>io.EOF\<close> (here
  \<^const>\<open>None\<close>), also for \<open>n = 0\<close>; otherwise it copies what there is and reports no error, so a
  short read leaves the rest of the freshly made buffer zero.\<close>

definition reader_Read :: "nat \<Rightarrow> bytes \<Rightarrow> (bytes \<times> bytes) option" where
  "reader_Read n bs =
     (if bs = [] then None
      else Some (take n bs @ replicate (n - length bs) 0, drop n bs))"

text \<open>\<^verbatim>\<open>io.ReadFull\<close>: the count of bytes read, and whether the buffer was filled.\<close>

definition io_ReadFull :: "nat \<Rightarrow> bytes \<Rightarrow> nat \<times> bytes option \<times> bytes" where
  "io_ReadFull n bs =
     (if length bs < n then (length bs, None, []) else (n, Some (take n bs), drop n bs))"

lemma reader_Read_append [simp, codec_simps]:
  "n = length xs \<Longrightarrow> xs \<noteq> [] \<Longrightarrow> reader_Read n (xs @ ys) = Some (xs, ys)"
  by (simp add: reader_Read_def)

lemma reader_Read_exact [simp, codec_simps]:
  "n = length xs \<Longrightarrow> xs \<noteq> [] \<Longrightarrow> reader_Read n xs = Some (xs, [])"
  by (simp add: reader_Read_def)

lemma reader_Read_zero [codec_simps]: "bs \<noteq> [] \<Longrightarrow> reader_Read 0 bs = Some ([], bs)"
  by (simp add: reader_Read_def)

lemma io_ReadFull_exact [simp, codec_simps]:
  "n = length xs \<Longrightarrow> io_ReadFull n xs = (n, Some xs, [])"
  by (simp add: io_ReadFull_def)

section \<open>int64\<close>

text \<open>The value of an \<^verbatim>\<open>int64\<close> after a wrapping operation whose exact result is \<open>x\<close>.\<close>

definition wrap64 :: "int \<Rightarrow> int" where
  "wrap64 x = (x + 2 ^ 63) mod 2 ^ 64 - 2 ^ 63"

definition in_int64 :: "int \<Rightarrow> bool" where
  "in_int64 x \<longleftrightarrow> - (2 ^ 63) \<le> x \<and> x < 2 ^ 63"

lemma wrap64_id [simp]: "in_int64 x \<Longrightarrow> wrap64 x = x"
  by (simp add: wrap64_def in_int64_def)

lemma in_int64_wrap64 [simp]: "in_int64 (wrap64 x)"
proof -
  have "0 \<le> (x + 2 ^ 63) mod 2 ^ 64" "(x + 2 ^ 63) mod 2 ^ 64 < 2 ^ 64"
    by (rule pos_mod_sign, simp, rule pos_mod_bound, simp)
  then show ?thesis unfolding wrap64_def in_int64_def by auto
qed

lemma wrap64_add_left [simp]: "wrap64 (wrap64 a + b) = wrap64 (a + b)"
proof -
  have "wrap64 (wrap64 a + b) = ((a + 2 ^ 63) mod 2 ^ 64 + b) mod 2 ^ 64 - 2 ^ 63"
    unfolding wrap64_def by (simp add: algebra_simps)
  also have "\<dots> = (a + 2 ^ 63 + b) mod 2 ^ 64 - 2 ^ 63"
    by (simp only: mod_add_left_eq)
  also have "\<dots> = wrap64 (a + b)"
    unfolding wrap64_def by (simp only: add.assoc add.commute add.left_commute)
  finally show ?thesis .
qed

lemma wrap64_add_right [simp]: "wrap64 (a + wrap64 b) = wrap64 (a + b)"
  by (metis add.commute wrap64_add_left)

lemma wrap64_overflow: "2 ^ 63 \<le> x \<Longrightarrow> x < 2 ^ 63 + 2 ^ 64 \<Longrightarrow> wrap64 x = x - 2 ^ 64"
proof -
  assume "2 ^ 63 \<le> x" "x < 2 ^ 63 + 2 ^ 64"
  then have "in_int64 (x - 2 ^ 64)" by (simp add: in_int64_def)
  then have "x - 2 ^ 64 = wrap64 (x - 2 ^ 64)" by simp
  also have "\<dots> = (x + 2 ^ 63 - 2 ^ 64) mod 2 ^ 64 - 2 ^ 63" by (simp add: wrap64_def algebra_simps)
  also have "\<dots> = wrap64 x" unfolding wrap64_def by (simp only: minus_mod_self2)
  finally show ?thesis by simp
qed

text \<open>\<^verbatim>\<open>uint64(v)\<close> of an \<^verbatim>\<open>int64\<close>, and back.\<close>

definition u64_of_int64 :: "int \<Rightarrow> nat" where
  "u64_of_int64 x = nat (x mod 2 ^ 64)"

definition int64_of_u64 :: "nat \<Rightarrow> int" where
  "int64_of_u64 v = wrap64 (int v)"

lemma u64_of_int64_less [simp, codec_simps]: "u64_of_int64 x < 2 ^ 64"
proof -
  have "x mod 2 ^ 64 < 2 ^ 64" by (rule pos_mod_bound) simp
  then show ?thesis unfolding u64_of_int64_def by (simp add: nat_less_iff)
qed

lemma int64_u64_roundtrip [simp, codec_simps]:
  assumes "in_int64 x" shows "int64_of_u64 (u64_of_int64 x) = x"
proof -
  have "0 \<le> x mod 2 ^ 64" by (rule pos_mod_sign) simp
  then have "int64_of_u64 (u64_of_int64 x) = (x mod 2 ^ 64 + 2 ^ 63) mod 2 ^ 64 - 2 ^ 63"
    by (simp add: int64_of_u64_def u64_of_int64_def wrap64_def)
  also have "\<dots> = wrap64 x" by (simp only: mod_add_left_eq wrap64_def)
  finally show ?thesis using assms by simp
qed

lemma le_val_put64_int64 [simp, codec_simps]: "le_val (put64 (u64_of_int64 x)) = u64_of_int64 x"
  using u64_of_int64_less [of x] by (simp add: le_val_le_bytes)

text \<open>A Go loop that sums \<^verbatim>\<open>int64\<close> values wraps at every addition; only the last wrap counts, so
  the order in which a map is iterated does not matter.\<close>

definition wsum :: "int list \<Rightarrow> int" where
  "wsum xs = fold (\<lambda>x acc. wrap64 (acc + x)) xs 0"

lemma fold_wrap64: "fold (\<lambda>x acc. wrap64 (acc + x)) xs (wrap64 a) = wrap64 (a + sum_list xs)"
  by (induction xs arbitrary: a) (simp_all add: algebra_simps)

lemma wsum_eq: "wsum xs = wrap64 (sum_list xs)"
  using fold_wrap64 [of xs 0] by (simp add: wsum_def in_int64_def)

section \<open>Checksums and hashes of the standard library\<close>

definition crc32_bit :: "32 word \<Rightarrow> 32 word" where
  "crc32_bit c = (if c AND 1 = 1 then drop_bit 1 c XOR 0xEDB88320 else drop_bit 1 c)"

fun crc32_bits :: "nat \<Rightarrow> 32 word \<Rightarrow> 32 word" where
  "crc32_bits 0 c = c"
| "crc32_bits (Suc n) c = crc32_bits n (crc32_bit c)"

fun crc32_update :: "32 word \<Rightarrow> bytes \<Rightarrow> 32 word" where
  "crc32_update c [] = c"
| "crc32_update c (b # bs) =
     crc32_update (crc32_bits 8 (c XOR ucast b)) bs"

definition crc32_ChecksumIEEE :: "bytes \<Rightarrow> 32 word" where
  "crc32_ChecksumIEEE bs = NOT (crc32_update (NOT 0) bs)"

definition fnv64a :: "bytes \<Rightarrow> 64 word" where
  "fnv64a bs = fold (\<lambda>b h. (h XOR ucast b) * 1099511628211) bs
     14695981039346656037"

lemma crc32_check_value: "crc32_ChecksumIEEE (bytes_of ''a'') = 0xE8B7BE43"
  by code_simp

lemma fnv64a_check_value: "fnv64a (bytes_of ''a'') = 0xAF63DC4C8601EC8C"
  by code_simp

section \<open>Go maps\<close>

lemma sorted_list_of_fmap_keys [simp]:
  "map fst (sorted_list_of_fmap m) = sorted_list_of_fset (fmdom m)"
  by (simp add: sorted_list_of_fmap_def comp_def)

lemma sorted_list_of_fmap_empty [simp]: "sorted_list_of_fmap fmempty = []"
  by (simp add: sorted_list_of_fmap_def sorted_list_of_fset.rep_eq)

lemma length_sorted_list_of_fmap: "length (sorted_list_of_fmap m) = fcard (fmdom m)"
  by (simp add: sorted_list_of_fmap_def sorted_list_of_fset.rep_eq fcard.rep_eq)

lemma set_sorted_list_of_fmap:
  "set (sorted_list_of_fmap m) = {(k, v). fmlookup m k = Some v}"
  by (auto simp: sorted_list_of_fmap_def sorted_list_of_fset_simps image_iff fmlookup_dom_iff)

lemma distinct_sorted_list_of_fset [simp]: "distinct (sorted_list_of_fset A)"
  by (simp add: sorted_list_of_fset.rep_eq)

lemma map_of_sorted_list_of_fmap: "map_of (sorted_list_of_fmap m) = fmlookup m"
proof
  fix k
  show "map_of (sorted_list_of_fmap m) k = fmlookup m k"
  proof (cases "fmlookup m k")
    case None
    then have "k \<notin> fst ` set (sorted_list_of_fmap m)"
      by (auto simp: set_sorted_list_of_fmap)
    then show ?thesis using None by (simp add: map_of_eq_None_iff)
  next
    case (Some v)
    then have "(k, v) \<in> set (sorted_list_of_fmap m)" by (simp add: set_sorted_list_of_fmap)
    then show ?thesis using Some by (simp add: map_of_is_SomeI)
  qed
qed

text \<open>Storing the entries of a list one after the other, as a decoding loop does.\<close>

lemma fold_fmupd_lookup:
  assumes "distinct (map fst kvs)"
  shows "fmlookup (fold (\<lambda>(k, v). fmupd k v) kvs m) = fmlookup m ++ map_of kvs"
  using assms
proof (induction kvs arbitrary: m)
  case (Cons kv kvs)
  obtain k v where kv: "kv = (k, v)" by (cases kv)
  have "k \<notin> dom (map_of kvs)" using Cons.prems kv by (simp add: dom_map_of_conv_image_fst)
  then have "fmlookup (fmupd k v m) ++ map_of kvs = fmlookup m ++ map_of (kv # kvs)"
    by (auto simp: kv map_add_def fun_eq_iff dom_def split: option.splits)
  moreover have "fmlookup (fold (\<lambda>(k, v). fmupd k v) (kv # kvs) m) = fmlookup (fmupd k v m) ++ map_of kvs"
    using Cons kv by simp
  ultimately show ?case by (simp only:)
qed simp

lemma fold_fmupd_sorted [simp, codec_simps]:
  "fold (\<lambda>(k, v). fmupd k v) (sorted_list_of_fmap m) fmempty = m"
proof (rule fmap_ext)
  fix k
  have "fmlookup (fold (\<lambda>(k, v). fmupd k v) (sorted_list_of_fmap m) fmempty)
      = fmlookup fmempty ++ map_of (sorted_list_of_fmap m)"
    by (rule fold_fmupd_lookup) simp
  then show "fmlookup (fold (\<lambda>(k, v). fmupd k v) (sorted_list_of_fmap m) fmempty) k = fmlookup m k"
    by (simp add: map_of_sorted_list_of_fmap map_add_def split: option.split)
qed

lemma fold_fmupd_sorted_map:
  "fold (\<lambda>(k, v). fmupd k (f v)) (sorted_list_of_fmap m) fmempty = fmmap f m"
proof (rule fmap_ext)
  fix k
  let ?kvs = "map (\<lambda>(k, v). (k, f v)) (sorted_list_of_fmap m)"
  have 1: "fold (\<lambda>(k, v). fmupd k (f v)) (sorted_list_of_fmap m) fmempty = fold (\<lambda>(k, v). fmupd k v) ?kvs fmempty"
    by (simp add: fold_map comp_def split_def)
  have 2: "fmlookup (fold (\<lambda>(k, v). fmupd k v) ?kvs fmempty) = fmlookup fmempty ++ map_of ?kvs"
    by (rule fold_fmupd_lookup) (simp add: split_def comp_def)
  show "fmlookup (fold (\<lambda>(k, v). fmupd k (f v)) (sorted_list_of_fmap m) fmempty) k
      = fmlookup (fmmap f m) k"
    unfolding 1 2 by (simp add: map_of_map map_of_sorted_list_of_fmap map_add_def split: option.split)
qed

section \<open>Sums over the entries of a Go map\<close>

definition fm_sum :: "('k \<Rightarrow> 'v \<Rightarrow> int) \<Rightarrow> ('k, 'v) fmap \<Rightarrow> int" where
  "fm_sum f m = (\<Sum>k\<in>fset (fmdom m). f k (the (fmlookup m k)))"

lemma fm_sum_empty [simp]: "fm_sum f fmempty = 0"
  by (simp add: fm_sum_def)

lemma fm_sum_drop:
  "fm_sum f (fmdrop k m) = fm_sum f m - (case fmlookup m k of None \<Rightarrow> 0 | Some v \<Rightarrow> f k v)"
proof (cases "fmlookup m k")
  case None
  then have "fmdrop k m = m" by (simp add: fmdom_notI fmdrop_idle)
  with None show ?thesis by simp
next
  case (Some v)
  then have k: "k \<in> fset (fmdom m)" by (simp add: fmdomI)
  have "fm_sum f (fmdrop k m) = (\<Sum>j\<in>fset (fmdom m) - {k}. f j (the (fmlookup m j)))"
    unfolding fm_sum_def by (rule sum.cong) (auto simp: minus_fset.rep_eq)
  then show ?thesis using k Some by (simp add: fm_sum_def sum_diff1)
qed

lemma fm_sum_upd:
  "fm_sum f (fmupd k v m) =
     fm_sum f m - (case fmlookup m k of None \<Rightarrow> 0 | Some w \<Rightarrow> f k w) + f k v"
proof -
  have "fm_sum f (fmupd k v m) = (\<Sum>j\<in>insert k (fset (fmdom m) - {k}). f j (the (fmlookup (fmupd k v m) j)))"
    unfolding fm_sum_def by (rule sum.cong) auto
  also have "\<dots> = f k v + (\<Sum>j\<in>fset (fmdom m) - {k}. f j (the (fmlookup (fmupd k v m) j)))"
    by (subst sum.insert) auto
  also have "(\<Sum>j\<in>fset (fmdom m) - {k}. f j (the (fmlookup (fmupd k v m) j))) = fm_sum f (fmdrop k m)"
    unfolding fm_sum_def by (rule sum.cong) (auto simp: minus_fset.rep_eq)
  finally show ?thesis by (simp add: fm_sum_drop)
qed

lemma fm_sum_nonneg:
  assumes "\<And>k v. fmlookup m k = Some v \<Longrightarrow> 0 \<le> f k v"
  shows "0 \<le> fm_sum f m"
  unfolding fm_sum_def
  by (rule sum_nonneg) (metis assms fmdomE option.sel)

lemma fm_sum_member_le:
  assumes "fmlookup m k = Some v" and "\<And>j w. fmlookup m j = Some w \<Longrightarrow> 0 \<le> f j w"
  shows "f k v \<le> fm_sum f m"
proof -
  have "0 \<le> fm_sum f (fmdrop k m)"
    by (rule fm_sum_nonneg) (use assms(2) in \<open>auto split: if_splits\<close>)
  then show ?thesis using assms(1) by (simp add: fm_sum_drop)
qed

lemma sum_list_sorted_fmap:
  "sum_list (map (\<lambda>(k, v). f k v) (sorted_list_of_fmap m)) = fm_sum f m"
proof -
  have "sum_list (map (\<lambda>(k, v). f k v) (sorted_list_of_fmap m))
      = (\<Sum>k\<leftarrow>sorted_list_of_fset (fmdom m). f k (the (fmlookup m k)))"
    by (simp add: sorted_list_of_fmap_def comp_def)
  also have "\<dots> = fm_sum f m"
    unfolding fm_sum_def sorted_list_of_fset.rep_eq
    by (subst sum_list_distinct_conv_sum_set) simp_all
  finally show ?thesis .
qed

end
