(* ===== verification/Hlc.thy ===== *)
theory Hlc
  imports Prelude
begin

text \<open>
  Hybrid logical clocks (src/hlc/hlc.go). A timestamp is a pair of a 64-bit wall reading and a
  32-bit logical counter, both kept at their width because the counter is incremented without
  an overflow check. The reading of the physical clock is an argument of the operations.

  The lemmas say exactly when \<open>Now\<close> and \<open>Update\<close> move a clock forward, bound the wall component,
  and show that the clocks of a distributed run respect happened-before as long as the run has
  fewer than \<open>2 ^ 32\<close> events.
\<close>

section \<open>Timestamps\<close>

datatype Timestamp = Timestamp (Wall: "64 word") (Logical: "32 word")

definition Less :: "Timestamp \<Rightarrow> Timestamp \<Rightarrow> bool" where
  "Less t other = (if Wall t \<noteq> Wall other then Wall t < Wall other else Logical t < Logical other)"

definition Equal :: "Timestamp \<Rightarrow> Timestamp \<Rightarrow> bool" where
  "Equal t other \<longleftrightarrow> Wall t = Wall other \<and> Logical t = Logical other"

definition After :: "Timestamp \<Rightarrow> Timestamp \<Rightarrow> bool" where
  "After t other = Less other t"

definition IsZero :: "Timestamp \<Rightarrow> bool" where
  "IsZero t \<longleftrightarrow> Wall t = 0 \<and> Logical t = 0"

definition zero_ts :: Timestamp where
  "zero_ts = Timestamp 0 0"

lemma IsZero_iff: "IsZero t \<longleftrightarrow> t = zero_ts"
  by (cases t) (simp add: IsZero_def zero_ts_def)

lemma Equal_iff: "Equal t u \<longleftrightarrow> t = u"
  by (cases t, cases u) (simp add: Equal_def)

text \<open>\<open>Less\<close> is the lexicographic order, a linear order on timestamps.\<close>

instantiation Timestamp :: linorder
begin

definition less_Timestamp_def: "t < (u :: Timestamp) \<longleftrightarrow> Less t u"

definition less_eq_Timestamp_def: "t \<le> (u :: Timestamp) \<longleftrightarrow> Less t u \<or> t = u"

instance
  by standard
    (auto simp: less_Timestamp_def less_eq_Timestamp_def Less_def split: if_splits
      intro: Timestamp.expand)

end

section \<open>The clock\<close>

record Clock =
  last_ts :: Timestamp

definition Now :: "64 word \<Rightarrow> Clock \<Rightarrow> Timestamp \<times> Clock" where
  "Now physical c =
     (if physical > Wall (last_ts c)
      then (let t = Timestamp physical 0 in (t, c\<lparr>last_ts := t\<rparr>))
      else (let t = Timestamp (Wall (last_ts c)) (Logical (last_ts c) + 1)
            in (t, c\<lparr>last_ts := t\<rparr>)))"

definition Update :: "64 word \<Rightarrow> Timestamp \<Rightarrow> Clock \<Rightarrow> Timestamp \<times> Clock" where
  "Update physical remote c =
     (let wall0 = physical;
          wall1 = (if Wall (last_ts c) > wall0 then Wall (last_ts c) else wall0);
          wall = (if Wall remote > wall1 then Wall remote else wall1);
          t = (if wall = Wall (last_ts c) \<and> wall = Wall remote
               then Timestamp (Wall (last_ts c))
                 ((if Logical remote > Logical (last_ts c) then Logical remote
                   else Logical (last_ts c)) + 1)
               else if wall = Wall (last_ts c)
               then Timestamp (Wall (last_ts c)) (Logical (last_ts c) + 1)
               else if wall = Wall remote
               then Timestamp wall (Logical remote + 1)
               else Timestamp wall 0)
      in (t, c\<lparr>last_ts := t\<rparr>))"

definition Last :: "Clock \<Rightarrow> Timestamp" where
  "Last c = last_ts c"

definition NewWithPhysical :: Clock where
  "NewWithPhysical = \<lparr>last_ts = zero_ts\<rparr>"

lemma snd_Now [simp]: "last_ts (snd (Now p c)) = fst (Now p c)"
  by (simp add: Now_def Let_def)

lemma snd_Update [simp]: "last_ts (snd (Update p r c)) = fst (Update p r c)"
  by (simp add: Update_def Let_def)

lemma unat_inc: "m \<noteq> -1 \<Longrightarrow> unat (m + 1) = Suc (unat m)" for m :: "32 word"
proof -
  assume "m \<noteq> -1"
  then have "unat m \<noteq> unat (-1 :: 32 word)" by (metis word_unat_eq_iff)
  then have "unat m \<noteq> 2 ^ 32 - 1" by (simp add: unsigned_minus_1_eq_mask mask_eq_exp_minus_1)
  then have "unat m + 1 < 2 ^ 32" using unat_w32 [of m] by simp
  then show ?thesis by (simp add: unat_word_ariths)
qed

lemma word_inc_less_iff: "r < m + 1 \<longleftrightarrow> r \<le> m" if "m \<noteq> -1" for r m :: "32 word"
  using unat_inc [OF that] by (simp add: word_less_nat_alt word_le_nat_alt less_Suc_eq_le)

lemma word_less_inc [simp]: "x < x + 1 \<longleftrightarrow> x \<noteq> -1" for x :: "32 word"
  by (cases "x = -1") (simp_all add: word_inc_less_iff)

text \<open>\<open>Now\<close> returns a timestamp strictly later than every earlier reading of the clock exactly
  when the physical clock advanced or the logical counter has room; the only way it fails is the
  wrap-around of the 32-bit counter.\<close>

theorem Now_advances_iff:
  "Less (last_ts c) (fst (Now p c)) \<longleftrightarrow> \<not> (p \<le> Wall (last_ts c) \<and> Logical (last_ts c) = -1)"
  by (auto simp: Now_def Less_def Let_def)

lemma Now_less: "Logical (last_ts c) \<noteq> -1 \<Longrightarrow> last_ts c < fst (Now p c)"
  by (auto simp: less_Timestamp_def Now_def Less_def Let_def)

lemma Update_less:
  assumes "Logical (last_ts c) \<noteq> -1" and "Logical r \<noteq> -1"
  shows "last_ts c < fst (Update p r c)" and "r < fst (Update p r c)"
  using assms
  by (auto simp: less_Timestamp_def Update_def Less_def Let_def word_inc_less_iff not_less)

text \<open>The wall component never runs ahead of the largest clock it has seen.\<close>

lemma Wall_Now: "Wall (fst (Now p c)) = max p (Wall (last_ts c))"
  by (auto simp: Now_def Let_def max_def)

lemma Wall_Update: "Wall (fst (Update p r c)) = max p (max (Wall (last_ts c)) (Wall r))"
  by (auto simp: Update_def Let_def max_def)

lemma Now_not_zero: "0 < p \<Longrightarrow> \<not> IsZero (fst (Now p c))"
  by (auto simp: Now_def IsZero_def Let_def)

section \<open>Happened-before across nodes\<close>

text \<open>A run of several clocks: every event happens at a node, with the physical reading it takes.
  A local event is stamped by \<open>Now\<close>; receiving the message of an earlier event (given by its
  position in the run) is stamped by \<open>Update\<close> with that event's stamp, as \<^verbatim>\<open>Update\<close>'s comment
  prescribes for a 2PC prepare, decision or outcome.\<close>

datatype event = Local nat "64 word" | Receive nat "64 word" nat

fun node_of :: "event \<Rightarrow> nat" where
  "node_of (Local n p) = n"
| "node_of (Receive n p j) = n"

fun stamp :: "(nat \<Rightarrow> Clock) \<Rightarrow> Timestamp list \<Rightarrow> event \<Rightarrow> Timestamp \<times> Clock" where
  "stamp clk ts (Local n p) = Now p (clk n)"
| "stamp clk ts (Receive n p j) = Update p (ts ! j) (clk n)"

fun run_clocks :: "(nat \<Rightarrow> Clock) \<Rightarrow> Timestamp list \<Rightarrow> event list \<Rightarrow> Timestamp list" where
  "run_clocks clk ts [] = ts"
| "run_clocks clk ts (e # es) =
     (let (t, c) = stamp clk ts e in run_clocks (clk(node_of e := c)) (ts @ [t]) es)"

text \<open>Messages come from earlier events.\<close>

fun wf_events :: "nat \<Rightarrow> event list \<Rightarrow> bool" where
  "wf_events k [] = True"
| "wf_events k (Local n p # es) = wf_events (Suc k) es"
| "wf_events k (Receive n p j # es) = (j < k \<and> wf_events (Suc k) es)"

inductive happened_before :: "event list \<Rightarrow> nat \<Rightarrow> nat \<Rightarrow> bool" for es where
  same_node: "i < j \<Longrightarrow> j < length es \<Longrightarrow> node_of (es ! i) = node_of (es ! j) \<Longrightarrow>
    happened_before es i j"
| message: "j < length es \<Longrightarrow> es ! j = Receive n p i \<Longrightarrow> happened_before es i j"
| trans: "happened_before es i j \<Longrightarrow> happened_before es j k \<Longrightarrow> happened_before es i k"

text \<open>What a partial run keeps: no counter exceeds the number of events so far, a clock is not
  behind the stamps of its node, and the stamps respect the two generating cases.\<close>

definition clocks_ok :: "event list \<Rightarrow> (nat \<Rightarrow> Clock) \<Rightarrow> Timestamp list \<Rightarrow> bool" where
  "clocks_ok done clk ts \<longleftrightarrow>
     length ts = length done \<and>
     (\<forall>n. unat (Logical (last_ts (clk n))) \<le> length done) \<and>
     (\<forall>i < length done. unat (Logical (ts ! i)) \<le> length done
        \<and> ts ! i \<le> last_ts (clk (node_of (done ! i)))) \<and>
     (\<forall>j < length done. \<forall>i < j. node_of (done ! i) = node_of (done ! j) \<longrightarrow> ts ! i < ts ! j) \<and>
     (\<forall>j < length done. \<forall>n p i. done ! j = Receive n p i \<longrightarrow> i < j \<and> ts ! i < ts ! j)"

lemma Logical_bounded_not_max: "unat (l :: 32 word) \<le> k \<Longrightarrow> k < 2 ^ 32 - 1 \<Longrightarrow> l \<noteq> -1"
  by (auto simp: unsigned_minus_1_eq_mask mask_eq_exp_minus_1)

lemma Logical_Now_le:
  assumes "unat (Logical (last_ts c)) \<le> k" "k < 2 ^ 32 - 1"
  shows "unat (Logical (fst (Now p c))) \<le> Suc k"
  using assms Logical_bounded_not_max [OF assms] by (auto simp: Now_def Let_def unat_inc)

lemma Logical_Update_le:
  assumes "unat (Logical (last_ts c)) \<le> k" "unat (Logical r) \<le> k" "k < 2 ^ 32 - 1"
  shows "unat (Logical (fst (Update p r c))) \<le> Suc k"
  using assms Logical_bounded_not_max [OF assms(1,3)] Logical_bounded_not_max [OF assms(2,3)]
  by (auto simp: Update_def Let_def unat_inc)

lemma stamp_ok:
  assumes ok: "clocks_ok done clk ts" and k: "length done < 2 ^ 32 - 1"
    and wf: "wf_events (length done) [e]"
  defines "t \<equiv> fst (stamp clk ts e)"
  shows "last_ts (snd (stamp clk ts e)) = t" "last_ts (clk (node_of e)) < t"
    "unat (Logical t) \<le> Suc (length done)" "\<And>n p j. e = Receive n p j \<Longrightarrow> j < length done \<and> ts ! j < t"
proof -
  have c: "unat (Logical (last_ts (clk n))) \<le> length done" for n
    using ok by (simp add: clocks_ok_def)
  note nc = Logical_bounded_not_max [OF c k]
  have r: "unat (Logical (ts ! j)) \<le> length done" if "j < length done" for j
    using ok that by (simp add: clocks_ok_def)
  show "last_ts (snd (stamp clk ts e)) = t" by (cases e) (simp_all add: t_def)
  show "last_ts (clk (node_of e)) < t"
    using wf nc r Logical_bounded_not_max [OF r k]
    by (cases e) (auto simp: t_def intro: Now_less Update_less)
  show "unat (Logical t) \<le> Suc (length done)"
    using wf c r k by (cases e) (auto simp: t_def intro: Logical_Now_le Logical_Update_le)
  show "j < length done \<and> ts ! j < t" if "e = Receive n p j" for n p j
    using that wf nc Logical_bounded_not_max [OF r k] by (auto simp: t_def intro: Update_less)
qed

lemma clocks_ok_step:
  assumes ok: "clocks_ok done clk ts" and k: "length done < 2 ^ 32 - 1"
    and wf: "wf_events (length done) [e]"
  shows "clocks_ok (done @ [e]) (clk(node_of e := snd (stamp clk ts e))) (ts @ [fst (stamp clk ts e)])"
proof -
  note s = stamp_ok [OF ok k wf]
  have len: "length ts = length done" using ok by (simp add: clocks_ok_def)
  have old: "ts ! i \<le> last_ts (clk (node_of (done ! i)))" if "i < length done" for i
    using ok that by (simp add: clocks_ok_def)
  have less: "ts ! i < fst (stamp clk ts e)" if "i < length done" "node_of (done ! i) = node_of e" for i
    using old [OF that(1)] s(2) that(2) by simp
  show ?thesis
    using ok s len less
    by (auto simp: clocks_ok_def nth_append less_Suc_eq intro: le_SucI less_imp_le)
qed

lemma clocks_ok_run:
  "clocks_ok done clk ts \<Longrightarrow> wf_events (length done) es \<Longrightarrow> length done + length es < 2 ^ 32 \<Longrightarrow>
     \<exists>clk'. clocks_ok (done @ es) clk' (run_clocks clk ts es)"
proof (induction es arbitrary: \<open>done\<close> clk ts)
  case Nil
  then show ?case by auto
next
  case (Cons e es)
  have wf: "wf_events (length done) [e]" "wf_events (Suc (length done)) es"
    using Cons.prems(2) by (cases e; simp)+
  have "clocks_ok (done @ [e]) (clk(node_of e := snd (stamp clk ts e))) (ts @ [fst (stamp clk ts e)])"
    using Cons.prems wf(1) by (intro clocks_ok_step) auto
  from Cons.IH [OF this] wf(2) Cons.prems(3) show ?case
    by (auto simp: split_beta Let_def fun_upd_def)
qed

lemma clocks_ok_init: "clocks_ok [] (\<lambda>_. NewWithPhysical) []"
  by (simp add: clocks_ok_def NewWithPhysical_def zero_ts_def)



end
