(* ===== verification/Ledger.thy ===== *)
theory Ledger
  imports Hlc
begin

text \<open>
  The bank domain (src/ledger/ledger.go and src/ledger/reserve.go): accounts, the double-entry
  state machine, and the fund reservations of cross-shard transfers.

  Money is an \<^verbatim>\<open>int64\<close>: its values are Isabelle integers and every arithmetic step that the code
  does without a check is wrapped (\<^const>\<open>wrap64\<close>). The state record has the fields of
  \<^verbatim>\<open>ledger.State\<close>, with Go maps as finite maps. An operation returns its \<^verbatim>\<open>Result\<close> and the new
  state; \<^const>\<open>None\<close> is the panic of \<^verbatim>\<open>record\<close>.

  Shown here: the invariant of the ledger (the balance cache is the fold of the history, no
  balance and no available balance is negative, sequence numbers are gap-free) is kept by every
  operation and no operation panics; the effect of every operation on the total; idempotency of
  retries over arbitrary later operations; and that a reservation is an unretractable promise.
\<close>

section \<open>Data\<close>

type_synonym Money = int
type_synonym AccountID = string
type_synonym Op = byte

definition maxMoney :: Money where
  "maxMoney = 2 ^ 63 - 1"

definition Money_String :: "Money \<Rightarrow> string" where
  "Money_String m =
     (let neg = m < 0;
          v = (if neg then wrap64 (- m) else m);
          q = sgn v * (\<bar>v\<bar> div 100);
          r = sgn v * (\<bar>v\<bar> mod 100);
          s = show_int q @ ''.'' @
              (if \<bar>r\<bar> < 10 \<and> 0 \<le> r then ''0'' @ show_int r else show_int r)
      in if neg then ''-'' @ s else s)"

definition internalKeyPrefix :: string where
  "internalKeyPrefix = ''!2pc!:''"

definition OpDeposit :: Op where "OpDeposit = 1"
definition OpWithdraw :: Op where "OpWithdraw = 2"
definition OpTransfer :: Op where "OpTransfer = 3"
definition OpOpenAccount :: Op where "OpOpenAccount = 4"

lemmas Op_defs = OpDeposit_def OpWithdraw_def OpTransfer_def OpOpenAccount_def

definition Op_String :: "Op \<Rightarrow> string" where
  "Op_String opr =
     (if opr = OpDeposit then ''Deposit''
      else if opr = OpWithdraw then ''Withdraw''
      else if opr = OpTransfer then ''Transfer''
      else if opr = OpOpenAccount then ''OpenAccount''
      else ''Unknown'')"

record Command =
  cmd_Op :: Op
  cmd_IdempotencyKey :: string
  cmd_From :: AccountID
  cmd_To :: AccountID
  cmd_Amount :: Money
  cmd_Timestamp :: Timestamp

record Result =
  OK :: bool
  Err :: string
  Balance :: Money

definition ErrInsufficientFunds :: string where "ErrInsufficientFunds = ''insufficient funds''"
definition ErrNoSuchAccount :: string where "ErrNoSuchAccount = ''no such account''"
definition ErrAccountExists :: string where "ErrAccountExists = ''account already exists''"
definition ErrInvalidAmount :: string where "ErrInvalidAmount = ''amount must be positive''"
definition ErrSameAccount :: string where
  "ErrSameAccount = ''cannot transfer to the same account''"
definition ErrMissingKey :: string where "ErrMissingKey = ''idempotency key required''"
definition ErrIdempotencyConflict :: string where
  "ErrIdempotencyConflict = ''idempotency key already used for a different request''"

text \<open>The composite literals \<^verbatim>\<open>Result{Err: e}\<close> and \<^verbatim>\<open>Result{OK: true, Balance: b}\<close>.\<close>

abbreviation failed :: "string \<Rightarrow> Result" where
  "failed e \<equiv> \<lparr>OK = False, Err = e, Balance = 0\<rparr>"

abbreviation succeeded :: "Money \<Rightarrow> Result" where
  "succeeded b \<equiv> \<lparr>OK = True, Err = [], Balance = b\<rparr>"

definition fingerprint :: "Command \<Rightarrow> 64 word" where
  "fingerprint c = fnv64a
     ([cmd_Op c] @ bytes_of (cmd_From c) @ [0] @ bytes_of (cmd_To c) @ [0]
      @ put64 (u64_of_int64 (cmd_Amount c)))"

record Entry =
  ent_Account :: AccountID
  ent_Amount :: Money

record Transaction =
  tx_Seq :: "64 word"
  tx_Op :: Op
  tx_IdempotencyKey :: string
  tx_Entries :: "Entry list"
  tx_Timestamp :: Timestamp

text \<open>\<^verbatim>\<open>Transaction.balances\<close>: the double-entry check.\<close>

definition tx_balances :: "Transaction \<Rightarrow> bool" where
  "tx_balances t =
     (if tx_Op t \<noteq> OpTransfer then True
      else if length (tx_Entries t) = 1 then True
      else wsum (map ent_Amount (tx_Entries t)) = 0)"

record Reserve =
  rsv_TxID :: string
  rsv_Account :: AccountID
  rsv_Amount :: Money

record State =
  balances :: "(AccountID, Money) fmap"
  applied :: "(string, Result) fmap"
  fingerprints :: "(string, 64 word) fmap"
  history :: "Transaction list"
  reserves :: "(string, Reserve) fmap"
  seq :: "64 word"

definition New :: State where
  "New = \<lparr>balances = fmempty, applied = fmempty, fingerprints = fmempty, history = [],
     reserves = fmempty, seq = 0\<rparr>"

text \<open>A Go map read without the \<^verbatim>\<open>ok\<close> result gives the zero value for a missing key.\<close>

definition getm :: "('k, Money) fmap \<Rightarrow> 'k \<Rightarrow> Money" where
  "getm m k = (case fmlookup m k of None \<Rightarrow> 0 | Some v \<Rightarrow> v)"

lemma getm_Some [simp]: "fmlookup m k = Some v \<Longrightarrow> getm m k = v"
  by (simp add: getm_def)

lemma getm_upd [simp]: "getm (fmupd k v m) j = (if j = k then v else getm m j)"
  by (simp add: getm_def)

abbreviation has_account :: "State \<Rightarrow> AccountID \<Rightarrow> bool" where
  "has_account s a \<equiv> fmlookup (balances s) a \<noteq> None"

section \<open>Available and reserved funds\<close>

definition reservedLocked :: "AccountID \<Rightarrow> State \<Rightarrow> Money" where
  "reservedLocked a s =
     wsum (map (\<lambda>(k, r). if rsv_Account r = a then rsv_Amount r else 0)
       (sorted_list_of_fmap (reserves s)))"

definition availableLocked :: "AccountID \<Rightarrow> State \<Rightarrow> Money \<times> bool" where
  "availableLocked a s =
     (case fmlookup (balances s) a of
        None \<Rightarrow> (0, False)
      | Some bal \<Rightarrow> (wrap64 (bal - reservedLocked a s), True))"

definition Available :: "AccountID \<Rightarrow> State \<Rightarrow> Money \<times> bool" where
  "Available a s = availableLocked a s"

definition Reserved :: "AccountID \<Rightarrow> State \<Rightarrow> Money" where
  "Reserved a s = reservedLocked a s"

section \<open>Applying commands\<close>

text \<open>\<^verbatim>\<open>record\<close>; \<^const>\<open>None\<close> is its panic on a transfer that does not balance.\<close>

definition record_tx :: "Command \<Rightarrow> Entry list \<Rightarrow> State \<Rightarrow> State option" where
  "record_tx cmd entries s =
     (let sq = seq s + 1;
          t = \<lparr>tx_Seq = sq, tx_Op = cmd_Op cmd, tx_IdempotencyKey = cmd_IdempotencyKey cmd,
               tx_Entries = entries, tx_Timestamp = cmd_Timestamp cmd\<rparr>
      in if \<not> tx_balances t then None
         else Some (s\<lparr>seq := sq, history := history s @ [t]\<rparr>))"

definition set_balance :: "AccountID \<Rightarrow> Money \<Rightarrow> State \<Rightarrow> State" where
  "set_balance a b s = s\<lparr>balances := fmupd a b (balances s)\<rparr>"

definition applyLocked :: "Command \<Rightarrow> State \<Rightarrow> (Result \<times> State) option" where
  "applyLocked cmd s =
     (let amt = cmd_Amount cmd; src = cmd_From cmd; dst = cmd_To cmd in
      if cmd_Op cmd = OpOpenAccount then
        (if has_account s dst then Some (failed ErrAccountExists, s)
         else if amt < 0 then Some (failed ErrInvalidAmount, s)
         else do {
           s' \<leftarrow> record_tx cmd [\<lparr>ent_Account = dst, ent_Amount = amt\<rparr>] (set_balance dst amt s);
           Some (succeeded amt, s')
         })
      else if cmd_Op cmd = OpDeposit then
        (if amt \<le> 0 then Some (failed ErrInvalidAmount, s)
         else if \<not> has_account s dst then Some (failed ErrNoSuchAccount, s)
         else if getm (balances s) dst > wrap64 (maxMoney - amt)
         then Some (failed ''deposit would overflow the account balance'', s)
         else do {
           s' \<leftarrow> record_tx cmd [\<lparr>ent_Account = dst, ent_Amount = amt\<rparr>]
                  (set_balance dst (wrap64 (getm (balances s) dst + amt)) s);
           Some (succeeded (getm (balances s') dst), s')
         })
      else if cmd_Op cmd = OpWithdraw then
        (if amt \<le> 0 then Some (failed ErrInvalidAmount, s)
         else if \<not> has_account s src then Some (failed ErrNoSuchAccount, s)
         else let bal = fst (availableLocked src s) in
         if bal < amt
         then Some (\<lparr>OK = False, Err = ErrInsufficientFunds, Balance = bal\<rparr>, s)
         else do {
           s' \<leftarrow> record_tx cmd [\<lparr>ent_Account = src, ent_Amount = wrap64 (- amt)\<rparr>]
                  (set_balance src (wrap64 (getm (balances s) src - amt)) s);
           Some (succeeded (getm (balances s') src), s')
         })
      else if cmd_Op cmd = OpTransfer then
        (if amt \<le> 0 then Some (failed ErrInvalidAmount, s)
         else if src = dst then Some (failed ErrSameAccount, s)
         else if \<not> has_account s src then Some (failed ErrNoSuchAccount, s)
         else let avail = fst (availableLocked src s) in
         if \<not> has_account s dst then Some (failed ErrNoSuchAccount, s)
         else if avail < amt
         then Some (\<lparr>OK = False, Err = ErrInsufficientFunds, Balance = avail\<rparr>, s)
         else if getm (balances s) dst > wrap64 (maxMoney - amt)
         then Some (failed ''transfer would overflow the destination balance'', s)
         else
           let s1 = set_balance src (wrap64 (getm (balances s) src - amt)) s;
               s2 = set_balance dst (wrap64 (getm (balances s1) dst + amt)) s1
           in do {
             s' \<leftarrow> record_tx cmd
                    [\<lparr>ent_Account = src, ent_Amount = wrap64 (- amt)\<rparr>,
                     \<lparr>ent_Account = dst, ent_Amount = amt\<rparr>] s2;
             Some (succeeded (getm (balances s') src), s')
           })
      else Some (failed (''unknown op '' @ show_nat (unat (cmd_Op cmd))), s))"

definition has_prefix :: "string \<Rightarrow> string \<Rightarrow> bool" where
  "has_prefix p s \<longleftrightarrow> take (length p) s = p"

definition Apply :: "Command \<Rightarrow> State \<Rightarrow> (Result \<times> State) option" where
  "Apply cmd s =
     (let key = cmd_IdempotencyKey cmd in
      if key = [] then Some (failed ErrMissingKey, s)
      else if has_prefix internalKeyPrefix key
      then Some (failed ''idempotency key uses a reserved internal prefix'', s)
      else
        let fp = fingerprint cmd in
        case fmlookup (applied s) key of
          Some prev \<Rightarrow>
            (if (case fmlookup (fingerprints s) key of None \<Rightarrow> 0 | Some f \<Rightarrow> f) \<noteq> fp
             then Some (failed ErrIdempotencyConflict, s)
             else Some (prev, s))
        | None \<Rightarrow> do {
            (res, s') \<leftarrow> applyLocked cmd s;
            Some (res, s'\<lparr>applied := fmupd key res (applied s'),
                          fingerprints := fmupd key fp (fingerprints s')\<rparr>)
          })"

section \<open>Reading\<close>

definition Balance_of :: "AccountID \<Rightarrow> State \<Rightarrow> Money \<times> bool" where
  "Balance_of a s =
     (case fmlookup (balances s) a of None \<Rightarrow> (0, False) | Some b \<Rightarrow> (b, True))"

definition TotalMoney :: "State \<Rightarrow> Money" where
  "TotalMoney s = wsum (map (\<lambda>(a, b). b) (sorted_list_of_fmap (balances s)))"

datatype verify_error =
    Unbalanced "64 word" Op
  | AccountCount nat nat
  | Mismatch AccountID Money Money
  | ConservationViolated Money Money

definition add_entry :: "Entry \<Rightarrow> (AccountID, Money) fmap \<Rightarrow> (AccountID, Money) fmap" where
  "add_entry e m = fmupd (ent_Account e) (wrap64 (getm m (ent_Account e) + ent_Amount e)) m"

fun verify_history ::
  "Transaction list \<Rightarrow> (AccountID, Money) fmap \<Rightarrow> verify_error + (AccountID, Money) fmap" where
  "verify_history [] derived = Inr derived"
| "verify_history (t # ts) derived =
     (if \<not> tx_balances t then Inl (Unbalanced (tx_Seq t) (tx_Op t))
      else verify_history ts (fold add_entry (tx_Entries t) derived))"

fun verify_balances ::
  "(AccountID \<times> Money) list \<Rightarrow> (AccountID, Money) fmap \<Rightarrow> verify_error option" where
  "verify_balances [] derived = None"
| "verify_balances ((a, want) # rest) derived =
     (if getm derived a \<noteq> want then Some (Mismatch a (getm derived a) want)
      else verify_balances rest derived)"

text \<open>\<^verbatim>\<open>VerifyDoubleEntry\<close>: \<^const>\<open>None\<close> is the nil error.\<close>

definition VerifyDoubleEntry :: "State \<Rightarrow> verify_error option" where
  "VerifyDoubleEntry s =
     (case verify_history (history s) fmempty of
        Inl e \<Rightarrow> Some e
      | Inr derived \<Rightarrow>
          (if fcard (fmdom derived) \<noteq> fcard (fmdom (balances s))
           then Some (AccountCount (fcard (fmdom derived)) (fcard (fmdom (balances s))))
           else verify_balances (sorted_list_of_fmap (balances s)) derived))"

section \<open>Reservations\<close>

definition internalKey :: "string \<Rightarrow> string \<Rightarrow> string" where
  "internalKey txID leg = internalKeyPrefix @ txID @ '':'' @ leg"

definition PrepareDebit :: "string \<Rightarrow> AccountID \<Rightarrow> Money \<Rightarrow> State \<Rightarrow> Result \<times> State" where
  "PrepareDebit txID account amount s =
     (if amount \<le> 0 then (failed ErrInvalidAmount, s)
      else if \<not> has_account s account then (failed ErrNoSuchAccount, s)
      else case fmlookup (reserves s) txID of
        Some held \<Rightarrow>
          (if rsv_Account held \<noteq> account \<or> rsv_Amount held \<noteq> amount
           then (failed (''reservation '' @ txID @ '' already holds ''
                  @ Money_String (rsv_Amount held) @ '' for '' @ rsv_Account held
                  @ ''; refusing to rebind to '' @ Money_String amount @ '' for '' @ account), s)
           else (succeeded (fst (availableLocked account s)), s))
      | None \<Rightarrow>
          (let avail = fst (availableLocked account s) in
           if avail < amount
           then (\<lparr>OK = False, Err = ErrInsufficientFunds, Balance = avail\<rparr>, s)
           else
             let s' = s\<lparr>reserves := fmupd txID
                          \<lparr>rsv_TxID = txID, rsv_Account = account, rsv_Amount = amount\<rparr>
                          (reserves s)\<rparr>
             in (succeeded (fst (availableLocked account s')), s')))"

definition PrepareCredit :: "string \<Rightarrow> AccountID \<Rightarrow> Money \<Rightarrow> State \<Rightarrow> Result \<times> State" where
  "PrepareCredit txID account amount s =
     (if amount \<le> 0 then (failed ErrInvalidAmount, s)
      else case fmlookup (balances s) account of
        None \<Rightarrow> (failed ErrNoSuchAccount, s)
      | Some bal \<Rightarrow> (succeeded bal, s))"

definition CommitDebit :: "string \<Rightarrow> Timestamp \<Rightarrow> State \<Rightarrow> (Result \<times> State) option" where
  "CommitDebit txID ts s =
     (case fmlookup (reserves s) txID of
        None \<Rightarrow> Some (failed (''no reservation held for transaction '' @ txID), s)
      | Some r \<Rightarrow>
          let a = rsv_Account r;
              s1 = set_balance a (wrap64 (getm (balances s) a - rsv_Amount r)) s;
              s2 = s1\<lparr>reserves := fmdrop txID (reserves s1)\<rparr>
          in do {
            s' \<leftarrow> record_tx
                   \<lparr>cmd_Op = OpTransfer, cmd_IdempotencyKey = internalKey txID ''debit'',
                    cmd_From = a, cmd_To = [], cmd_Amount = rsv_Amount r, cmd_Timestamp = ts\<rparr>
                   [\<lparr>ent_Account = a, ent_Amount = wrap64 (- rsv_Amount r)\<rparr>] s2;
            Some (succeeded (getm (balances s') a), s')
          })"

definition CommitCredit ::
  "string \<Rightarrow> AccountID \<Rightarrow> Money \<Rightarrow> Timestamp \<Rightarrow> State \<Rightarrow> (Result \<times> State) option" where
  "CommitCredit txID account amount ts s =
     (let key = internalKey txID ''credit'' in
      case fmlookup (applied s) key of
        Some prev \<Rightarrow> Some (prev, s)
      | None \<Rightarrow>
          (if \<not> has_account s account then Some (failed ErrNoSuchAccount, s)
           else if getm (balances s) account > wrap64 (maxMoney - amount)
           then Some (failed ''credit would overflow the account balance'', s)
           else do {
             s' \<leftarrow> record_tx
                    \<lparr>cmd_Op = OpTransfer, cmd_IdempotencyKey = key, cmd_From = [],
                     cmd_To = account, cmd_Amount = amount, cmd_Timestamp = ts\<rparr>
                    [\<lparr>ent_Account = account, ent_Amount = amount\<rparr>]
                    (set_balance account (wrap64 (getm (balances s) account + amount)) s);
             let res = succeeded (getm (balances s') account);
             Some (res, s'\<lparr>applied := fmupd key res (applied s')\<rparr>)
           }))"

definition AbortTx :: "string \<Rightarrow> State \<Rightarrow> Result \<times> State" where
  "AbortTx txID s =
     (case fmlookup (reserves s) txID of
        None \<Rightarrow> (succeeded 0, s)
      | Some r \<Rightarrow>
          let s' = s\<lparr>reserves := fmdrop txID (reserves s)\<rparr>
          in (succeeded (fst (availableLocked (rsv_Account r) s')), s'))"

definition InFlight :: "State \<Rightarrow> string list" where
  "InFlight s = sorted_list_of_fset (fmdom (reserves s))"

definition VerifyConservation :: "Money \<Rightarrow> State \<Rightarrow> verify_error option" where
  "VerifyConservation expected s =
     (let total = wsum (map (\<lambda>(a, b). b) (sorted_list_of_fmap (balances s))) in
      if total \<noteq> expected then Some (ConservationViolated total expected) else None)"

section \<open>The operations as one step function\<close>

datatype ledger_op =
    DoApply Command
  | DoPrepareDebit string AccountID Money
  | DoPrepareCredit string AccountID Money
  | DoCommitDebit string Timestamp
  | DoCommitCredit string AccountID Money Timestamp
  | DoAbortTx string

fun ledger_step :: "ledger_op \<Rightarrow> State \<Rightarrow> (Result \<times> State) option" where
  "ledger_step (DoApply c) s = Apply c s"
| "ledger_step (DoPrepareDebit tx a n) s = Some (PrepareDebit tx a n s)"
| "ledger_step (DoPrepareCredit tx a n) s = Some (PrepareCredit tx a n s)"
| "ledger_step (DoCommitDebit tx ts) s = CommitDebit tx ts s"
| "ledger_step (DoCommitCredit tx a n ts) s = CommitCredit tx a n ts s"
| "ledger_step (DoAbortTx tx) s = Some (AbortTx tx s)"

fun ledger_run :: "ledger_op list \<Rightarrow> State \<Rightarrow> State option" where
  "ledger_run [] s = Some s"
| "ledger_run (p # ps) s = do { (r, s') \<leftarrow> ledger_step p s; ledger_run ps s' }"

text \<open>Amounts are \<^verbatim>\<open>int64\<close> values.\<close>

fun wf_op :: "ledger_op \<Rightarrow> bool" where
  "wf_op (DoApply c) = in_int64 (cmd_Amount c)"
| "wf_op (DoPrepareDebit tx a n) = in_int64 n"
| "wf_op (DoPrepareCredit tx a n) = in_int64 n"
| "wf_op (DoCommitCredit tx a n ts) = in_int64 n"
| "wf_op _ = True"

section \<open>The invariant\<close>

abbreviation held :: "AccountID \<Rightarrow> (string, Reserve) fmap \<Rightarrow> Money" where
  "held a rs \<equiv> fm_sum (\<lambda>k r. if rsv_Account r = a then rsv_Amount r else 0) rs"

definition derive :: "Transaction list \<Rightarrow> (AccountID, Money) fmap" where
  "derive ts = fold (\<lambda>t. fold add_entry (tx_Entries t)) ts fmempty"

definition reserves_ok :: "State \<Rightarrow> bool" where
  "reserves_ok s \<longleftrightarrow>
     (\<forall>k r. fmlookup (reserves s) k = Some r \<longrightarrow>
        rsv_TxID r = k \<and> 0 < rsv_Amount r \<and> has_account s (rsv_Account r))"

definition funds_ok :: "State \<Rightarrow> bool" where
  "funds_ok s \<longleftrightarrow>
     (\<forall>a b. fmlookup (balances s) a = Some b \<longrightarrow> held a (reserves s) \<le> b \<and> b \<le> maxMoney)"

definition history_ok :: "State \<Rightarrow> bool" where
  "history_ok s \<longleftrightarrow> derive (history s) = balances s \<and> list_all tx_balances (history s)
     \<and> map tx_Seq (history s) = map of_nat [1..<Suc (length (history s))]
     \<and> seq s = of_nat (length (history s))"

definition keys_ok :: "State \<Rightarrow> bool" where
  "keys_ok s \<longleftrightarrow>
     (\<forall>k. fmlookup (applied s) k \<noteq> None \<longrightarrow>
        has_prefix internalKeyPrefix k \<or> fmlookup (fingerprints s) k \<noteq> None)"

definition ledger_inv :: "State \<Rightarrow> bool" where
  "ledger_inv s \<longleftrightarrow> reserves_ok s \<and> funds_ok s \<and> history_ok s \<and> keys_ok s"

lemmas inv_defs = ledger_inv_def reserves_ok_def funds_ok_def history_ok_def keys_ok_def

lemma ledger_inv_New: "ledger_inv New"
  by (simp add: inv_defs New_def derive_def)

lemma held_nonneg: "reserves_ok s \<Longrightarrow> 0 \<le> held a (reserves s)"
  by (rule fm_sum_nonneg) (auto simp: reserves_ok_def order_less_imp_le)

lemma held_member_le:
  assumes "reserves_ok s" "fmlookup (reserves s) k = Some r"
  shows "rsv_Amount r \<le> held (rsv_Account r) (reserves s)"
  using fm_sum_member_le [OF assms(2), of "\<lambda>k q. if rsv_Account q = rsv_Account r then rsv_Amount q else 0"]
    assms by (auto simp: reserves_ok_def order_less_imp_le)

lemma reservedLocked_eq: "reservedLocked a s = wrap64 (held a (reserves s))"
  by (simp add: reservedLocked_def wsum_eq sum_list_sorted_fmap)

lemma available_eq:
  assumes "ledger_inv s" "fmlookup (balances s) a = Some b"
  shows "availableLocked a s = (b - held a (reserves s), True)"
proof -
  have "0 \<le> held a (reserves s)" "held a (reserves s) \<le> b" "b \<le> maxMoney"
    using assms held_nonneg by (auto simp: inv_defs)
  then have "in_int64 (held a (reserves s))" "in_int64 (b - held a (reserves s))"
    by (auto simp: in_int64_def maxMoney_def)
  then show ?thesis using assms(2) by (simp add: availableLocked_def reservedLocked_eq)
qed

section \<open>Posting a transaction\<close>

text \<open>Every operation that moves money adds its entries to the balances and one transaction to
  the history.\<close>

definition mk_tx :: "Command \<Rightarrow> Entry list \<Rightarrow> State \<Rightarrow> Transaction" where
  "mk_tx cmd es s = \<lparr>tx_Seq = seq s + 1, tx_Op = cmd_Op cmd,
     tx_IdempotencyKey = cmd_IdempotencyKey cmd, tx_Entries = es,
     tx_Timestamp = cmd_Timestamp cmd\<rparr>"

definition post :: "Command \<Rightarrow> Entry list \<Rightarrow> State \<Rightarrow> State" where
  "post cmd es s = s\<lparr>balances := fold add_entry es (balances s), seq := seq s + 1,
     history := history s @ [mk_tx cmd es s]\<rparr>"

definition post_ok :: "Command \<Rightarrow> Entry list \<Rightarrow> State \<Rightarrow> bool" where
  "post_ok cmd es s \<longleftrightarrow> tx_balances (mk_tx cmd es s) \<and>
     (\<forall>a b. fmlookup (fold add_entry es (balances s)) a = Some b \<longrightarrow>
        held a (reserves s) \<le> b \<and> b \<le> maxMoney)"

lemma record_tx_eq:
  "tx_balances (mk_tx cmd es s) \<Longrightarrow> bs = fold add_entry es (balances s) \<Longrightarrow>
     record_tx cmd es (s\<lparr>balances := bs\<rparr>) = Some (post cmd es s)"
  by (simp add: record_tx_def post_def mk_tx_def Let_def)

lemma dom_add_entry: "fmdom (add_entry e m) = finsert (ent_Account e) (fmdom m)"
  by (simp add: add_entry_def)

lemma fold_add_entry_keeps:
  "fmlookup m a \<noteq> None \<Longrightarrow> fmlookup (fold add_entry es m) a \<noteq> None"
proof (induction es arbitrary: m)
  case (Cons e es)
  then have "fmlookup (add_entry e m) a \<noteq> None" by (simp add: add_entry_def)
  then show ?case using Cons.IH by simp
qed simp

lemma post_sel [simp]:
  "reserves (post cmd es s) = reserves s" "applied (post cmd es s) = applied s"
  "fingerprints (post cmd es s) = fingerprints s"
  "balances (post cmd es s) = fold add_entry es (balances s)"
  "history (post cmd es s) = history s @ [mk_tx cmd es s]"
  by (simp_all add: post_def)

lemma derive_snoc: "derive (ts @ [t]) = fold add_entry (tx_Entries t) (derive ts)"
  by (simp add: derive_def)

lemma ledger_inv_post:
  assumes inv: "ledger_inv s" and ok: "post_ok cmd es s"
  shows "ledger_inv (post cmd es s)"
proof -
  have "reserves_ok (post cmd es s)"
    using inv fold_add_entry_keeps [of "balances s"] by (auto simp: inv_defs)
  moreover have "funds_ok (post cmd es s)"
    using ok by (auto simp: funds_ok_def post_ok_def)
  moreover have "history_ok (post cmd es s)"
    using inv ok by (auto simp: inv_defs derive_snoc post_ok_def mk_tx_def)
      (simp_all add: post_def mk_tx_def add.commute)
  moreover have "keys_ok (post cmd es s)"
    using inv by (simp add: inv_defs)
  ultimately show ?thesis by (simp add: ledger_inv_def)
qed

definition money :: "State \<Rightarrow> int" where
  "money s = fm_sum (\<lambda>a b. b) (balances s)"

lemma TotalMoney_eq: "TotalMoney s = wrap64 (money s)"
  by (simp add: TotalMoney_def wsum_eq sum_list_sorted_fmap money_def)

lemma held_no_account: "reserves_ok s \<Longrightarrow> fmlookup (balances s) a = None \<Longrightarrow> held a (reserves s) = 0"
  unfolding fm_sum_def by (rule sum.neutral) (fastforce simp: reserves_ok_def elim!: fmdomE)

lemma tx_balances_single: "tx_balances (mk_tx cmd [e] s)"
  by (simp add: tx_balances_def mk_tx_def)

lemma tx_balances_pair: "tx_balances (mk_tx cmd [\<lparr>ent_Account = a, ent_Amount = - n\<rparr>, \<lparr>ent_Account = b, ent_Amount = n\<rparr>] s)"
  by (simp add: tx_balances_def mk_tx_def wsum_eq in_int64_def)

lemma funds_bounds:
  assumes "ledger_inv s" "fmlookup (balances s) a = Some b"
  shows "held a (reserves s) \<le> b" "b \<le> maxMoney" "0 \<le> b"
proof -
  show "held a (reserves s) \<le> b" "b \<le> maxMoney"
    using assms by (auto simp: ledger_inv_def funds_ok_def)
  moreover have "0 \<le> held a (reserves s)"
    using assms by (simp add: ledger_inv_def held_nonneg)
  ultimately show "0 \<le> b" by linarith
qed

lemma getm_bounds: "ledger_inv s \<Longrightarrow> 0 \<le> getm (balances s) a \<and> getm (balances s) a \<le> maxMoney"
  using funds_bounds [of s a] by (auto simp: getm_def maxMoney_def split: option.splits)

lemma fm_sum_upd_getm: "fm_sum (\<lambda>a b. b) (fmupd a x m) = fm_sum (\<lambda>a b. b) m - getm m a + x"
  by (simp add: fm_sum_upd getm_def)

lemma post_single:
  assumes inv: "ledger_inv s"
    and le: "held a (reserves s) \<le> getm (balances s) a + n" "getm (balances s) a + n \<le> maxMoney"
  defines "es \<equiv> [\<lparr>ent_Account = a, ent_Amount = n\<rparr>]"
  shows "post_ok cmd es s" "money (post cmd es s) = money s + n"
    "fold add_entry es (balances s) = fmupd a (getm (balances s) a + n) (balances s)"
proof -
  have "0 \<le> held a (reserves s)" using inv by (auto simp: ledger_inv_def held_nonneg)
  then have "in_int64 (getm (balances s) a + n)" using le by (auto simp: in_int64_def maxMoney_def)
  then show eq: "fold add_entry es (balances s) = fmupd a (getm (balances s) a + n) (balances s)"
    by (simp add: es_def add_entry_def)
  show "post_ok cmd es s"
    using inv le unfolding post_ok_def eq by (auto simp: tx_balances_single es_def inv_defs)
  show "money (post cmd es s) = money s + n"
    by (simp add: money_def eq fm_sum_upd_getm)
qed

lemma post_pair:
  assumes inv: "ledger_inv s" and ab: "a \<noteq> b" and n: "0 < n"
    and le: "held a (reserves s) \<le> getm (balances s) a - n" "getm (balances s) b + n \<le> maxMoney"
    and ex: "has_account s b"
  defines "es \<equiv> [\<lparr>ent_Account = a, ent_Amount = - n\<rparr>, \<lparr>ent_Account = b, ent_Amount = n\<rparr>]"
  shows "post_ok cmd es s" "money (post cmd es s) = money s"
    "fold add_entry es (balances s) =
       fmupd b (getm (balances s) b + n) (fmupd a (getm (balances s) a - n) (balances s))"
proof -
  have "0 \<le> held a (reserves s)" using inv by (auto simp: ledger_inv_def held_nonneg)
  then have "in_int64 (getm (balances s) a - n)" "in_int64 (getm (balances s) b + n)"
    using le n getm_bounds [OF inv, of a] getm_bounds [OF inv, of b]
    by (auto simp: in_int64_def maxMoney_def)
  then show eq: "fold add_entry es (balances s) =
       fmupd b (getm (balances s) b + n) (fmupd a (getm (balances s) a - n) (balances s))"
    using ab by (simp add: es_def add_entry_def)
  have "held b (reserves s) \<le> getm (balances s) b + n"
    using ex n funds_bounds(1) [OF inv, of b] by (auto simp: getm_def)
  then show "post_ok cmd es s"
    using inv le n getm_bounds [OF inv, of a] unfolding post_ok_def eq
    by (auto simp: tx_balances_pair es_def inv_defs)
  show "money (post cmd es s) = money s"
    using ab by (simp add: money_def eq fm_sum_upd_getm)
qed

section \<open>The effect of every operation\<close>

text \<open>What a successful client command adds to the total.\<close>

definition cmd_delta :: "Command \<Rightarrow> int" where
  "cmd_delta c =
     (if cmd_Op c = OpOpenAccount \<or> cmd_Op c = OpDeposit then cmd_Amount c
      else if cmd_Op c = OpWithdraw then - cmd_Amount c else 0)"

definition refused :: "State \<Rightarrow> (Result \<times> State) option \<Rightarrow> bool" where
  "refused s x \<longleftrightarrow> (\<exists>res. x = Some (res, s) \<and> \<not> OK res \<and> Err res \<noteq> [])"

definition posted :: "Command \<Rightarrow> int \<Rightarrow> State \<Rightarrow> (Result \<times> State) option \<Rightarrow> bool" where
  "posted cmd d s x \<longleftrightarrow>
     (\<exists>res es. x = Some (res, post cmd es s) \<and> OK res \<and> post_ok cmd es s
        \<and> money (post cmd es s) = money s + d)"

lemmas err_defs = ErrInsufficientFunds_def ErrNoSuchAccount_def ErrAccountExists_def
  ErrInvalidAmount_def ErrSameAccount_def ErrMissingKey_def ErrIdempotencyConflict_def

lemma set_balance_record:
  assumes "tx_balances (mk_tx cmd es s)" "fold add_entry es (balances s) = fmupd a x (balances s)"
  shows "record_tx cmd es (set_balance a x s) = Some (post cmd es s)"
  using record_tx_eq [OF assms(1)] assms(2) by (simp add: set_balance_def)

lemma wrap64_neg [simp]: "0 < n \<Longrightarrow> in_int64 n \<Longrightarrow> wrap64 (- n) = - n"
  by (rule wrap64_id) (auto simp: in_int64_def)

lemma wrap64_max_minus [simp]: "0 \<le> n \<Longrightarrow> in_int64 n \<Longrightarrow> wrap64 (maxMoney - n) = maxMoney - n"
  by (rule wrap64_id) (auto simp: in_int64_def maxMoney_def)

lemma apply_open:
  assumes "ledger_inv s" "in_int64 (cmd_Amount cmd)" "cmd_Op cmd = OpOpenAccount"
  shows "refused s (applyLocked cmd s) \<or> posted cmd (cmd_Amount cmd) s (applyLocked cmd s)"
proof (cases "has_account s (cmd_To cmd) \<or> cmd_Amount cmd < 0")
  case True
  then show ?thesis using assms(3) by (auto simp: applyLocked_def refused_def err_defs Let_def)
next
  case False
  let ?a = "cmd_To cmd" and ?n = "cmd_Amount cmd"
  have "getm (balances s) ?a = 0" "held ?a (reserves s) = 0" "?n \<le> maxMoney"
    using False assms held_no_account [of s ?a]
    by (auto simp: getm_def ledger_inv_def in_int64_def maxMoney_def)
  then have p: "post_ok cmd [\<lparr>ent_Account = ?a, ent_Amount = ?n\<rparr>] s"
    "money (post cmd [\<lparr>ent_Account = ?a, ent_Amount = ?n\<rparr>] s) = money s + ?n"
    "fold add_entry [\<lparr>ent_Account = ?a, ent_Amount = ?n\<rparr>] (balances s) = fmupd ?a ?n (balances s)"
    using post_single [OF assms(1), of ?a ?n] False by auto
  have "applyLocked cmd s = Some (succeeded ?n, post cmd [\<lparr>ent_Account = ?a, ent_Amount = ?n\<rparr>] s)"
    using False assms(3) set_balance_record [OF tx_balances_single p(3)]
    by (simp add: applyLocked_def Let_def)
  then show ?thesis using p by (auto simp: posted_def)
qed

lemma apply_deposit:
  assumes "ledger_inv s" "in_int64 (cmd_Amount cmd)" "cmd_Op cmd = OpDeposit"
  shows "refused s (applyLocked cmd s) \<or> posted cmd (cmd_Amount cmd) s (applyLocked cmd s)"
proof (cases "cmd_Amount cmd \<le> 0 \<or> \<not> has_account s (cmd_To cmd)
    \<or> getm (balances s) (cmd_To cmd) > wrap64 (maxMoney - cmd_Amount cmd)")
  case True
  then show ?thesis
    using assms(3) by (auto simp: applyLocked_def refused_def err_defs Op_defs Let_def)
next
  case False
  let ?a = "cmd_To cmd" and ?n = "cmd_Amount cmd"
  let ?es = "[\<lparr>ent_Account = ?a, ent_Amount = ?n\<rparr>]"
  have r: "held ?a (reserves s) \<le> getm (balances s) ?a + ?n" "getm (balances s) ?a + ?n \<le> maxMoney"
    "wrap64 (getm (balances s) ?a + ?n) = getm (balances s) ?a + ?n"
    using False assms funds_bounds [OF assms(1), of ?a]
    by (auto simp: getm_def in_int64_def maxMoney_def intro!: wrap64_id)
  note p = post_single [OF assms(1) r(1,2)]
  have "applyLocked cmd s = Some (succeeded (getm (balances (post cmd ?es s)) ?a), post cmd ?es s)"
    using False assms(3) set_balance_record [OF tx_balances_single p(3)] r(3)
    by (simp add: applyLocked_def Let_def Op_defs)
  then show ?thesis using p by (auto simp: posted_def)
qed

lemma apply_withdraw:
  assumes "ledger_inv s" "in_int64 (cmd_Amount cmd)" "cmd_Op cmd = OpWithdraw"
  shows "refused s (applyLocked cmd s) \<or> posted cmd (- cmd_Amount cmd) s (applyLocked cmd s)"
proof (cases "cmd_Amount cmd \<le> 0 \<or> \<not> has_account s (cmd_From cmd)
    \<or> fst (availableLocked (cmd_From cmd) s) < cmd_Amount cmd")
  case True
  then show ?thesis
    using assms(3) by (auto simp: applyLocked_def refused_def err_defs Op_defs Let_def)
next
  case False
  let ?a = "cmd_From cmd" and ?n = "cmd_Amount cmd"
  let ?es = "[\<lparr>ent_Account = ?a, ent_Amount = - ?n\<rparr>]"
  from False obtain b where b: "fmlookup (balances s) ?a = Some b" by auto
  have r: "held ?a (reserves s) \<le> getm (balances s) ?a + - ?n" "getm (balances s) ?a + - ?n \<le> maxMoney"
    "wrap64 (getm (balances s) ?a - ?n) = getm (balances s) ?a + - ?n"
    using False b funds_bounds [OF assms(1) b] available_eq [OF assms(1) b] held_nonneg [of s ?a] assms(1)
    by (auto simp: in_int64_def maxMoney_def ledger_inv_def intro!: wrap64_id)
  note p = post_single [OF assms(1) r(1,2)]
  have "applyLocked cmd s = Some (succeeded (getm (balances (post cmd ?es s)) ?a), post cmd ?es s)"
    using False assms(2,3) set_balance_record [OF tx_balances_single p(3)] r(3)
    by (simp add: applyLocked_def Let_def Op_defs)
  then show ?thesis using p by (auto simp: posted_def)
qed

lemma apply_transfer:
  assumes "ledger_inv s" "in_int64 (cmd_Amount cmd)" "cmd_Op cmd = OpTransfer"
  shows "refused s (applyLocked cmd s) \<or> posted cmd 0 s (applyLocked cmd s)"
proof (cases "cmd_Amount cmd \<le> 0 \<or> cmd_From cmd = cmd_To cmd \<or> \<not> has_account s (cmd_From cmd)
    \<or> \<not> has_account s (cmd_To cmd) \<or> fst (availableLocked (cmd_From cmd) s) < cmd_Amount cmd
    \<or> getm (balances s) (cmd_To cmd) > wrap64 (maxMoney - cmd_Amount cmd)")
  case True
  then show ?thesis
    using assms(3) by (auto simp: applyLocked_def refused_def err_defs Op_defs Let_def)
next
  case False
  let ?a = "cmd_From cmd" and ?b = "cmd_To cmd" and ?n = "cmd_Amount cmd"
  let ?es = "[\<lparr>ent_Account = ?a, ent_Amount = - ?n\<rparr>, \<lparr>ent_Account = ?b, ent_Amount = ?n\<rparr>]"
  from False obtain x y where b: "fmlookup (balances s) ?a = Some x" "fmlookup (balances s) ?b = Some y"
    by auto
  have r: "held ?a (reserves s) \<le> getm (balances s) ?a - ?n" "getm (balances s) ?b + ?n \<le> maxMoney"
    "wrap64 (getm (balances s) ?a - ?n) = getm (balances s) ?a - ?n"
    "wrap64 (getm (balances s) ?b + ?n) = getm (balances s) ?b + ?n"
    using False b funds_bounds [OF assms(1) b(1)] funds_bounds [OF assms(1) b(2)] assms
      available_eq [OF assms(1) b(1)] held_nonneg [of s ?a]
    by (auto simp: in_int64_def maxMoney_def ledger_inv_def intro!: wrap64_id)
  have p: "post_ok cmd ?es s" "money (post cmd ?es s) = money s"
    "fold add_entry ?es (balances s) =
       fmupd ?b (getm (balances s) ?b + ?n) (fmupd ?a (getm (balances s) ?a - ?n) (balances s))"
    using post_pair [OF assms(1) _ _ r(1,2)] False by (simp_all del: fold.simps)
  have ne: "?b \<noteq> ?a" using False by auto
  have "applyLocked cmd s = Some (succeeded (getm (balances (post cmd ?es s)) ?a), post cmd ?es s)"
    using False ne assms(2,3) record_tx_eq [OF tx_balances_pair p(3) [symmetric]] r(3,4)
    by (simp add: applyLocked_def Let_def Op_defs set_balance_def del: wrap64_max_minus)
  then show ?thesis using p by (auto simp: posted_def)
qed

lemma applyLocked_effect:
  assumes "ledger_inv s" "in_int64 (cmd_Amount cmd)"
  shows "refused s (applyLocked cmd s) \<or> posted cmd (cmd_delta cmd) s (applyLocked cmd s)"
proof -
  consider "cmd_Op cmd = OpOpenAccount" | "cmd_Op cmd = OpDeposit" | "cmd_Op cmd = OpWithdraw"
    | "cmd_Op cmd = OpTransfer"
    | "cmd_Op cmd \<notin> {OpOpenAccount, OpDeposit, OpWithdraw, OpTransfer}" by auto
  then show ?thesis
  proof cases
    case 5
    then show ?thesis by (simp add: applyLocked_def refused_def Let_def)
  qed (use apply_open [OF assms] apply_deposit [OF assms] apply_withdraw [OF assms]
      apply_transfer [OF assms] in \<open>auto simp: cmd_delta_def Op_defs\<close>)
qed

fun op_delta :: "ledger_op \<Rightarrow> State \<Rightarrow> int" where
  "op_delta (DoApply c) s = cmd_delta c"
| "op_delta (DoCommitDebit tx ts) s =
     (case fmlookup (reserves s) tx of None \<Rightarrow> 0 | Some r \<Rightarrow> - rsv_Amount r)"
| "op_delta (DoCommitCredit tx a n ts) s = n"
| "op_delta _ s = 0"

text \<open>A step that does not panic, keeps the invariant, and changes the total by exactly the
  operation's amount when it posts a transaction and not at all otherwise.\<close>

definition good_step :: "ledger_op \<Rightarrow> State \<Rightarrow> bool" where
  "good_step p s \<longleftrightarrow>
     (\<exists>res s'. ledger_step p s = Some (res, s') \<and> ledger_inv s'
        \<and> money s' = money s + (if history s' = history s then 0 else op_delta p s))"

lemma good_stepI:
  "ledger_step p s = Some (res, s') \<Longrightarrow> ledger_inv s' \<Longrightarrow> balances s' = balances s \<Longrightarrow>
     history s' = history s \<Longrightarrow> good_step p s"
  by (auto simp: good_step_def money_def)

lemma good_same: "\<exists>res. ledger_step p s = Some (res, s) \<Longrightarrow> ledger_inv s \<Longrightarrow> good_step p s"
  by (auto simp: good_step_def)

lemma update_balances_reserves:
  "s\<lparr>balances := b, reserves := r\<rparr> = s\<lparr>reserves := r, balances := b\<rparr>"
  by (cases s) simp

lemma ledger_inv_keys:
  "ledger_inv s \<Longrightarrow> ledger_inv (s\<lparr>applied := fmupd k r (applied s), fingerprints := fmupd k f (fingerprints s)\<rparr>)"
  by (auto simp: inv_defs)

lemma good_Apply:
  assumes "ledger_inv s" "in_int64 (cmd_Amount cmd)"
  shows "good_step (DoApply cmd) s"
proof (cases "cmd_IdempotencyKey cmd = [] \<or> has_prefix internalKeyPrefix (cmd_IdempotencyKey cmd)
    \<or> fmlookup (applied s) (cmd_IdempotencyKey cmd) \<noteq> None")
  case True
  then show ?thesis using assms(1) by (intro good_same) (auto simp: Apply_def Let_def)
next
  case False
  from applyLocked_effect [OF assms] show ?thesis
  proof
    assume "refused s (applyLocked cmd s)"
    then obtain res where "applyLocked cmd s = Some (res, s)" by (auto simp: refused_def)
    then show ?thesis using False ledger_inv_keys [OF assms(1)]
      by (auto simp: good_step_def Apply_def Let_def money_def)
  next
    assume "posted cmd (cmd_delta cmd) s (applyLocked cmd s)"
    then obtain res es where e: "applyLocked cmd s = Some (res, post cmd es s)" "post_ok cmd es s"
        "money (post cmd es s) = money s + cmd_delta cmd"
      by (auto simp: posted_def)
    have "ledger_inv (post cmd es s)" using assms(1) e(2) by (rule ledger_inv_post)
    from ledger_inv_keys [OF this] show ?thesis using False e(1,3)
      by (auto simp: good_step_def Apply_def Let_def money_def)
  qed
qed

lemma held_upd:
  "fmlookup rs tx = None \<Longrightarrow>
     held a (fmupd tx r rs) = held a rs + (if rsv_Account r = a then rsv_Amount r else 0)"
  by (simp add: fm_sum_upd)

lemma held_drop:
  "fmlookup rs tx = Some r \<Longrightarrow>
     held a (fmdrop tx rs) = held a rs - (if rsv_Account r = a then rsv_Amount r else 0)"
  by (simp add: fm_sum_drop)

lemma ledger_inv_reserve:
  assumes inv: "ledger_inv s" and n: "0 < n" and a: "fmlookup (balances s) a = Some b"
    and new: "fmlookup (reserves s) tx = None" and avail: "n \<le> b - held a (reserves s)"
  shows "ledger_inv (s\<lparr>reserves := fmupd tx \<lparr>rsv_TxID = tx, rsv_Account = a, rsv_Amount = n\<rparr> (reserves s)\<rparr>)"
  using assms by (auto simp: inv_defs held_upd)

lemma ledger_inv_drop:
  assumes inv: "ledger_inv s" and r: "fmlookup (reserves s) tx = Some r"
  shows "ledger_inv (s\<lparr>reserves := fmdrop tx (reserves s)\<rparr>)"
proof -
  have "held a (fmdrop tx (reserves s)) \<le> held a (reserves s)" for a
    using inv r by (auto simp: held_drop inv_defs order_less_imp_le)
  then have "funds_ok (s\<lparr>reserves := fmdrop tx (reserves s)\<rparr>)"
    using inv by (auto simp: ledger_inv_def funds_ok_def intro: order_trans)
  then show ?thesis using inv by (auto simp: ledger_inv_def reserves_ok_def history_ok_def keys_ok_def)
qed

lemma good_PrepareDebit:
  assumes "ledger_inv s"
  shows "good_step (DoPrepareDebit tx a n) s"
proof (cases "\<exists>b. 0 < n \<and> fmlookup (balances s) a = Some b \<and> fmlookup (reserves s) tx = None
    \<and> n \<le> b - held a (reserves s)")
  case True
  then obtain b where b: "0 < n" "fmlookup (balances s) a = Some b" "fmlookup (reserves s) tx = None"
    "n \<le> b - held a (reserves s)" by auto
  from ledger_inv_reserve [OF assms this] show ?thesis
    using b available_eq [OF assms b(2)]
    by (simp add: good_step_def PrepareDebit_def Let_def money_def)
next
  case False
  then show ?thesis using available_eq [OF assms] assms
    by (intro good_same) (auto simp: PrepareDebit_def Let_def split: option.splits)
qed

lemma good_PrepareCredit: "ledger_inv s \<Longrightarrow> good_step (DoPrepareCredit tx a n) s"
  by (intro good_same) (auto simp: PrepareCredit_def split: option.splits)

lemma good_AbortTx:
  assumes "ledger_inv s"
  shows "good_step (DoAbortTx tx) s"
proof (cases "fmlookup (reserves s) tx")
  case None
  then show ?thesis using assms by (intro good_same) (simp_all add: AbortTx_def)
next
  case (Some r)
  let ?s' = "s\<lparr>reserves := fmdrop tx (reserves s)\<rparr>"
  from Some show ?thesis
    using ledger_inv_drop [OF assms Some] good_stepI [of "DoAbortTx tx" s _ ?s']
    by (simp add: AbortTx_def Let_def)
qed

lemma good_CommitDebit:
  assumes inv: "ledger_inv s"
  shows "good_step (DoCommitDebit tx ts) s"
proof (cases "fmlookup (reserves s) tx")
  case None
  then show ?thesis using inv by (intro good_same) (simp_all add: CommitDebit_def)
next
  case (Some r)
  let ?a = "rsv_Account r" and ?n = "rsv_Amount r" and ?s1 = "s\<lparr>reserves := fmdrop tx (reserves s)\<rparr>"
  let ?cmd = "\<lparr>cmd_Op = OpTransfer, cmd_IdempotencyKey = internalKey tx ''debit'', cmd_From = ?a,
    cmd_To = [], cmd_Amount = ?n, cmd_Timestamp = ts\<rparr>"
  let ?es = "[\<lparr>ent_Account = ?a, ent_Amount = - ?n\<rparr>]"
  have inv1: "ledger_inv ?s1" using inv Some by (rule ledger_inv_drop)
  from Some inv obtain b where b: "fmlookup (balances s) ?a = Some b" and n: "0 < ?n"
    by (auto simp: ledger_inv_def reserves_ok_def)
  have h: "held ?a (reserves ?s1) = held ?a (reserves s) - ?n" using Some by (simp add: held_drop)
  have nb: "?n \<le> held ?a (reserves s)" using inv Some held_member_le by (auto simp: ledger_inv_def)
  note fb = funds_bounds [OF inv b]
  have r: "held ?a (reserves ?s1) \<le> getm (balances ?s1) ?a + - ?n"
      "getm (balances ?s1) ?a + - ?n \<le> maxMoney" using h b n fb by auto
  have w: "wrap64 (getm (balances s) ?a - ?n) = getm (balances s) ?a - ?n" "wrap64 (- ?n) = - ?n"
    using b n nb fb by (auto simp: in_int64_def maxMoney_def intro!: wrap64_id)
  note p = post_single [OF inv1 r]
  have "CommitDebit tx ts s = Some (succeeded (getm (balances (post ?cmd ?es ?s1)) ?a), post ?cmd ?es ?s1)"
    using Some w set_balance_record [OF tx_balances_single p(3)]
    by (simp add: CommitDebit_def Let_def set_balance_def update_balances_reserves)
  then show ?thesis
    using ledger_inv_post [OF inv1 p(1)] p(2) Some by (simp add: good_step_def money_def)
qed

lemma good_CommitCredit:
  assumes inv: "ledger_inv s" and n: "in_int64 n"
  shows "good_step (DoCommitCredit tx a n ts) s"
proof (cases "fmlookup (applied s) (internalKey tx ''credit'') \<noteq> None \<or> \<not> has_account s a
    \<or> getm (balances s) a > wrap64 (maxMoney - n)")
  case True
  then show ?thesis using inv
    by (intro good_same) (auto simp: CommitCredit_def Let_def split: option.splits)
next
  case False
  let ?key = "internalKey tx ''credit''"
  let ?cmd = "\<lparr>cmd_Op = OpTransfer, cmd_IdempotencyKey = ?key, cmd_From = [],
    cmd_To = a, cmd_Amount = n, cmd_Timestamp = ts\<rparr>"
  let ?es = "[\<lparr>ent_Account = a, ent_Amount = n\<rparr>]"
  from False obtain b where b: "fmlookup (balances s) a = Some b" by auto
  note fb = funds_bounds [OF inv b]
  have "0 \<le> n"
  proof (rule ccontr)
    assume "\<not> 0 \<le> n"
    then have "wrap64 (maxMoney - n) = maxMoney - n - 2 ^ 64"
      using n by (intro wrap64_overflow) (simp_all add: maxMoney_def in_int64_def)
    then show False using False b fb(3) n by (simp add: in_int64_def maxMoney_def)
  qed
  then have r: "held a (reserves s) \<le> getm (balances s) a + n" "getm (balances s) a + n \<le> maxMoney"
    "wrap64 (getm (balances s) a + n) = getm (balances s) a + n"
    using b fb n False by (auto simp: in_int64_def maxMoney_def intro!: wrap64_id)
  note p = post_single [OF inv r(1,2)]
  let ?s' = "post ?cmd ?es s"
  let ?res = "succeeded (getm (balances ?s') a)"
  have "CommitCredit tx a n ts s = Some (?res, ?s'\<lparr>applied := fmupd ?key ?res (applied ?s')\<rparr>)"
    using False r(3) set_balance_record [OF tx_balances_single p(3)]
    by (simp add: CommitCredit_def Let_def)
  moreover have "ledger_inv (?s'\<lparr>applied := fmupd ?key ?res (applied ?s')\<rparr>)"
    using ledger_inv_post [OF inv p(1)]
    by (auto simp: inv_defs internalKey_def has_prefix_def)
  ultimately show ?thesis using p(2) by (simp add: good_step_def money_def)
qed

lemma ledger_step_good: "ledger_inv s \<Longrightarrow> wf_op p \<Longrightarrow> good_step p s"
  by (cases p) (simp_all add: good_Apply good_PrepareDebit good_PrepareCredit good_CommitDebit
      good_CommitCredit good_AbortTx)

section \<open>The audit\<close>

lemma verify_history_eq:
  "list_all tx_balances ts \<Longrightarrow>
     verify_history ts d = Inr (fold (\<lambda>t. fold add_entry (tx_Entries t)) ts d)"
  by (induction ts arbitrary: d) auto

lemma verify_balances_None:
  "(\<And>a b. (a, b) \<in> set l \<Longrightarrow> getm d a = b) \<Longrightarrow> verify_balances l d = None"
  by (induction l) auto

lemma ledger_inv_verified: "ledger_inv s \<Longrightarrow> VerifyDoubleEntry s = None"
  by (auto simp: VerifyDoubleEntry_def verify_history_eq ledger_inv_def history_ok_def
      derive_def [symmetric] set_sorted_list_of_fmap intro!: verify_balances_None)

lemma ledger_run_inv:
  "ledger_inv s \<Longrightarrow> list_all wf_op ps \<Longrightarrow> \<exists>s'. ledger_run ps s = Some s' \<and> ledger_inv s'"
proof (induction ps arbitrary: s)
  case (Cons p ps)
  from Cons.prems obtain res s1 where s1: "ledger_step p s = Some (res, s1)" "ledger_inv s1"
    using ledger_step_good [of s p] by (auto simp: good_step_def)
  from Cons.IH [OF s1(2)] Cons.prems s1(1) show ?case by auto
qed simp

lemma available_bounds:
  assumes "ledger_inv s"
  shows "0 \<le> fst (Available a s)" "fst (Available a s) \<le> fst (Balance_of a s)"
    "fst (Balance_of a s) \<le> maxMoney"
proof -
  have "0 \<le> fst (Available a s) \<and> fst (Available a s) \<le> fst (Balance_of a s)
      \<and> fst (Balance_of a s) \<le> maxMoney"
  proof (cases "fmlookup (balances s) a")
    case None
    then show ?thesis by (simp add: Available_def availableLocked_def Balance_of_def maxMoney_def)
  next
    case (Some b)
    have "0 \<le> held a (reserves s)" using assms by (simp add: ledger_inv_def held_nonneg)
    then show ?thesis using available_eq [OF assms Some] funds_bounds [OF assms Some] Some
      by (simp add: Available_def Balance_of_def)
  qed
  then show "0 \<le> fst (Available a s)" "fst (Available a s) \<le> fst (Balance_of a s)"
    "fst (Balance_of a s) \<le> maxMoney" by auto
qed

text \<open>C6: whatever sequence of client commands and 2PC steps a ledger applies, with any \<^verbatim>\<open>int64\<close>
  amounts, no operation panics, the audit \<open>VerifyDoubleEntry\<close> passes (every transfer balances and
  the cached balances are the fold of the history), and for every account the available balance
  lies between zero and the balance, which does not overflow.\<close>

theorem ledger_always_audits:
  assumes "list_all wf_op ps"
  shows "\<exists>s. ledger_run ps New = Some s \<and> VerifyDoubleEntry s = None
    \<and> 0 \<le> fst (Available a s) \<and> fst (Available a s) \<le> fst (Balance_of a s)
    \<and> fst (Balance_of a s) \<le> maxMoney"
  using ledger_run_inv [OF ledger_inv_New assms] ledger_inv_verified available_bounds by blast

abbreviation sample_ops :: "ledger_op list" where
  "sample_ops \<equiv>
     [DoApply \<lparr>cmd_Op = 4, cmd_IdempotencyKey = ''k1'', cmd_From = [], cmd_To = ''a'',
        cmd_Amount = 100, cmd_Timestamp = zero_ts\<rparr>,
      DoPrepareDebit ''t1'' ''a'' 70, DoCommitDebit ''t1'' zero_ts]"

theorem ledger_always_audits_witness:
  "\<exists>s. ledger_run sample_ops New = Some s \<and> VerifyDoubleEntry s = None
    \<and> 0 \<le> fst (Available ''a'' s) \<and> fst (Available ''a'' s) \<le> fst (Balance_of ''a'' s)
    \<and> fst (Balance_of ''a'' s) \<le> maxMoney"
  by (rule ledger_always_audits) (simp add: in_int64_def)

text \<open>C7: money is conserved: an operation that posts no transaction leaves the total unchanged,
  and one that does changes it by exactly the amount that enters or leaves this ledger (zero for a
  transfer, minus the reserved amount for the debit leg and plus the amount for the credit leg of a
  cross-shard transfer). The total is the \<^verbatim>\<open>int64\<close> that \<open>TotalMoney\<close> computes.\<close>

theorem ledger_step_conserves:
  assumes "ledger_inv s" and "wf_op p" and "ledger_step p s = Some (res, s')"
  shows "TotalMoney s' =
    wrap64 (TotalMoney s + (if history s' = history s then 0 else op_delta p s))"
proof -
  have "money s' = money s + (if history s' = history s then 0 else op_delta p s)"
    using ledger_step_good [OF assms(1,2)] assms(3) by (auto simp: good_step_def)
  then show ?thesis by (simp add: TotalMoney_eq)
qed

theorem ledger_step_conserves_witness:
  "\<exists>res s'. ledger_step (hd sample_ops) New = Some (res, s')
    \<and> TotalMoney s' = wrap64 (TotalMoney New + (if history s' = history New then 0 else 100))"
proof -
  have wf: "wf_op (hd sample_ops)" by (simp add: in_int64_def)
  then obtain res s' where s': "ledger_step (hd sample_ops) New = Some (res, s')"
    using ledger_step_good [OF ledger_inv_New wf] by (auto simp: good_step_def)
  from ledger_step_conserves [OF ledger_inv_New wf s'] s' show ?thesis
    by (auto simp: cmd_delta_def Op_defs)
qed

section \<open>Retries\<close>

lemma bind_Some_iff: "Option.bind x f = Some y \<longleftrightarrow> (\<exists>z. x = Some z \<and> f z = Some y)"
  by (cases x) auto

lemma record_tx_frame:
  "record_tx cmd es s = Some s' \<Longrightarrow>
     applied s' = applied s \<and> fingerprints s' = fingerprints s \<and> reserves s' = reserves s"
  by (auto simp: record_tx_def Let_def split: if_splits)

lemma applyLocked_frame:
  "applyLocked cmd s = Some (res, s') \<Longrightarrow>
     applied s' = applied s \<and> fingerprints s' = fingerprints s \<and> reserves s' = reserves s"
  by (auto simp: applyLocked_def Let_def set_balance_def bind_Some_iff split: if_splits
      dest!: record_tx_frame)

lemma step_keeps_key:
  assumes "ledger_step p s = Some (res, s')" and "fmlookup (applied s) k = Some r"
  shows "fmlookup (applied s') k = Some r \<and> fmlookup (fingerprints s') k = fmlookup (fingerprints s) k"
proof (cases p)
  case (DoApply c)
  then show ?thesis using assms
    by (auto simp: Apply_def Let_def bind_Some_iff split: if_splits option.splits dest!: applyLocked_frame)
next
  case (DoCommitDebit tx ts)
  then show ?thesis using assms
    by (auto simp: CommitDebit_def Let_def bind_Some_iff set_balance_def
        split: option.splits dest!: record_tx_frame)
next
  case (DoCommitCredit tx a n ts)
  then show ?thesis using assms
    by (auto simp: CommitCredit_def Let_def bind_Some_iff set_balance_def
        split: option.splits if_splits dest!: record_tx_frame)
qed (use assms in \<open>auto simp: PrepareDebit_def PrepareCredit_def AbortTx_def Let_def
      split: option.splits if_splits\<close>)

lemma run_keeps_key:
  "ledger_run ps s = Some s' \<Longrightarrow> fmlookup (applied s) k = Some r \<Longrightarrow>
     fmlookup (applied s') k = Some r \<and> fmlookup (fingerprints s') k = fmlookup (fingerprints s) k"
proof (induction ps arbitrary: s)
  case (Cons p ps)
  from Cons.prems(1) obtain res s1 where s1: "ledger_step p s = Some (res, s1)" "ledger_run ps s1 = Some s'"
    by (auto simp: bind_Some_iff)
  from step_keeps_key [OF s1(1) Cons.prems(2)] Cons.IH [OF s1(2)] show ?case by auto
qed simp

lemma Apply_memoises:
  assumes "Apply c s = Some (res, s1)" and "cmd_IdempotencyKey c \<noteq> []"
    and "\<not> has_prefix internalKeyPrefix (cmd_IdempotencyKey c)"
    and "fmlookup (applied s) (cmd_IdempotencyKey c) = None"
  shows "fmlookup (applied s1) (cmd_IdempotencyKey c) = Some res"
    "fmlookup (fingerprints s1) (cmd_IdempotencyKey c) = Some (fingerprint c)"
  using assms by (auto simp: Apply_def Let_def bind_Some_iff)

text \<open>C8: exactly-once execution of a request. Once a command has been applied under a fresh
  idempotency key, a retry of it at any later time (after any other operations, with any
  timestamp) returns the original result and changes nothing; using the same key for a request with
  another fingerprint is refused as a conflict and changes nothing either.\<close>

theorem retry_is_idempotent:
  assumes "Apply c s = Some (res, s1)" and "cmd_IdempotencyKey c \<noteq> []"
    and "\<not> has_prefix internalKeyPrefix (cmd_IdempotencyKey c)"
    and "fmlookup (applied s) (cmd_IdempotencyKey c) = None"
    and "ledger_run ps s1 = Some s2" and "cmd_IdempotencyKey c' = cmd_IdempotencyKey c"
  shows "Apply c' s2 = Some (if fingerprint c' = fingerprint c then res
    else failed ErrIdempotencyConflict, s2)"
proof -
  note m = Apply_memoises [OF assms(1-4)]
  from run_keeps_key [OF assms(5) m(1)] m(2)
  have "fmlookup (applied s2) (cmd_IdempotencyKey c) = Some res"
    "fmlookup (fingerprints s2) (cmd_IdempotencyKey c) = Some (fingerprint c)" by auto
  then show ?thesis using assms(2,3,6) by (simp add: Apply_def Let_def)
qed

theorem retry_is_idempotent_witness:
  "\<exists>res s1 s2. Apply \<lparr>cmd_Op = 4, cmd_IdempotencyKey = ''k1'', cmd_From = [], cmd_To = ''a'',
        cmd_Amount = 100, cmd_Timestamp = zero_ts\<rparr> New = Some (res, s1)
    \<and> ledger_run (tl sample_ops) s1 = Some s2
    \<and> Apply \<lparr>cmd_Op = 4, cmd_IdempotencyKey = ''k1'', cmd_From = [], cmd_To = ''a'',
        cmd_Amount = 100, cmd_Timestamp = Timestamp 5 6\<rparr> s2 = Some (res, s2)"
proof -
  let ?c = "\<lambda>ts. \<lparr>cmd_Op = 4, cmd_IdempotencyKey = ''k1'', cmd_From = [], cmd_To = ''a'',
        cmd_Amount = 100, cmd_Timestamp = ts\<rparr>"
  obtain res s1 where s1: "Apply (?c zero_ts) New = Some (res, s1)" "ledger_inv s1"
    using good_Apply [OF ledger_inv_New, of "?c zero_ts"] by (auto simp: good_step_def in_int64_def)
  obtain s2 where s2: "ledger_run (tl sample_ops) s1 = Some s2"
    using ledger_run_inv [OF s1(2), of "tl sample_ops"] by (auto simp: in_int64_def)
  have "Apply (?c (Timestamp 5 6)) s2 = Some (res, s2)"
    using retry_is_idempotent [OF s1(1) _ _ _ s2, of "?c (Timestamp 5 6)"]
    by (simp add: fingerprint_def has_prefix_def internalKeyPrefix_def New_def)
  with s1(1) s2 show ?thesis by blast
qed

section \<open>Reservations as promises\<close>

fun resolves :: "string \<Rightarrow> ledger_op \<Rightarrow> bool" where
  "resolves tx (DoCommitDebit tx' ts) = (tx' = tx)"
| "resolves tx (DoAbortTx tx') = (tx' = tx)"
| "resolves tx _ = False"

lemma step_keeps_reserve:
  assumes "ledger_step p s = Some (res, s')" and "fmlookup (reserves s) tx = Some r"
    and "\<not> resolves tx p"
  shows "fmlookup (reserves s') tx = Some r"
proof (cases p)
  case (DoApply c)
  then show ?thesis using assms
    by (auto simp: Apply_def Let_def bind_Some_iff split: if_splits option.splits dest!: applyLocked_frame)
next
  case (DoCommitDebit tx ts)
  then show ?thesis using assms
    by (auto simp: CommitDebit_def Let_def bind_Some_iff set_balance_def
        split: option.splits dest!: record_tx_frame)
next
  case (DoCommitCredit tx a n ts)
  then show ?thesis using assms
    by (auto simp: CommitCredit_def Let_def bind_Some_iff set_balance_def
        split: option.splits if_splits dest!: record_tx_frame)
qed (use assms in \<open>auto simp: PrepareDebit_def PrepareCredit_def AbortTx_def Let_def
      split: option.splits if_splits\<close>)

lemma run_keeps_reserve:
  "ledger_run ps s = Some s' \<Longrightarrow> fmlookup (reserves s) tx = Some r \<Longrightarrow>
     list_all (\<lambda>p. \<not> resolves tx p) ps \<Longrightarrow> fmlookup (reserves s') tx = Some r"
proof (induction ps arbitrary: s)
  case (Cons p ps)
  from Cons.prems(1) obtain res s1 where s1: "ledger_step p s = Some (res, s1)" "ledger_run ps s1 = Some s'"
    by (auto simp: bind_Some_iff)
  from step_keeps_reserve [OF s1(1) Cons.prems(2)] Cons.prems(3) Cons.IH [OF s1(2)] show ?case by auto
qed simp

lemma PrepareDebit_OK:
  "PrepareDebit tx a n s = (res, s1) \<Longrightarrow> OK res \<Longrightarrow> reserves_ok s \<Longrightarrow>
     fmlookup (reserves s1) tx = Some \<lparr>rsv_TxID = tx, rsv_Account = a, rsv_Amount = n\<rparr>"
  by (auto simp: PrepareDebit_def reserves_ok_def Let_def split: if_splits option.splits)

lemma CommitDebit_held:
  assumes inv: "ledger_inv s" and r: "fmlookup (reserves s) tx = Some r"
  shows "\<exists>res s'. CommitDebit tx ts s = Some (res, s') \<and> OK res
    \<and> fmlookup (reserves s') tx = None
    \<and> getm (balances s') (rsv_Account r) = getm (balances s) (rsv_Account r) - rsv_Amount r
    \<and> money s' = money s - rsv_Amount r"
proof -
  obtain res s' where s': "CommitDebit tx ts s = Some (res, s')"
    "money s' = money s + (if history s' = history s then 0 else - rsv_Amount r)"
    using good_CommitDebit [OF inv, of tx ts] r by (auto simp: good_step_def)
  obtain b where b: "fmlookup (balances s) (rsv_Account r) = Some b" "0 < rsv_Amount r"
    using inv r by (auto simp: ledger_inv_def reserves_ok_def)
  have "rsv_Amount r \<le> b"
    using held_member_le [of s tx r] r funds_bounds(1) [OF inv b(1)] inv by (auto simp: ledger_inv_def)
  then have "wrap64 (b - rsv_Amount r) = b - rsv_Amount r"
    using b(2) funds_bounds [OF inv b(1)] by (intro wrap64_id) (auto simp: in_int64_def maxMoney_def)
  then show ?thesis using s' r b
    by (auto simp: CommitDebit_def Let_def bind_Some_iff set_balance_def record_tx_def split: if_splits)
qed

text \<open>a YES vote is an unretractable promise. Once \<open>PrepareDebit\<close> has reserved an amount, then
  after any later operations other than resolving this very transaction (withdrawals and transfers
  from the same account and other reservations included) the commit still succeeds and debits
  exactly the promised amount from the promised account.\<close>

theorem prepared_debit_can_commit:
  assumes "ledger_inv s" and "PrepareDebit tx a n s = (res, s1)" and "OK res"
    and "list_all wf_op ps" and "list_all (\<lambda>p. \<not> resolves tx p) ps"
    and "ledger_run ps s1 = Some s2"
  shows "\<exists>res' s3. CommitDebit tx ts s2 = Some (res', s3) \<and> OK res'
    \<and> fst (Balance_of a s3) = fst (Balance_of a s2) - n \<and> n \<le> fst (Balance_of a s2)"
proof -
  let ?r = "\<lparr>rsv_TxID = tx, rsv_Account = a, rsv_Amount = n\<rparr>"
  have inv1: "ledger_inv s1"
    using good_PrepareDebit [OF assms(1), of tx a n] assms(2) by (auto simp: good_step_def)
  have r1: "fmlookup (reserves s1) tx = Some ?r"
    using assms(1-3) by (intro PrepareDebit_OK) (auto simp: ledger_inv_def)
  have inv2: "ledger_inv s2" using ledger_run_inv [OF inv1 assms(4)] assms(6) by auto
  have r2: "fmlookup (reserves s2) tx = Some ?r"
    using run_keeps_reserve [OF assms(6) r1 assms(5)] .
  obtain b where b: "fmlookup (balances s2) a = Some b"
    using inv2 r2 by (fastforce simp: ledger_inv_def reserves_ok_def)
  have "n \<le> b" using held_member_le [OF _ r2] funds_bounds(1) [OF inv2 b] inv2
    by (auto simp: ledger_inv_def)
  moreover obtain res' s3 where s3: "CommitDebit tx ts s2 = Some (res', s3)" "OK res'"
      "getm (balances s3) a = getm (balances s2) a - n"
    using CommitDebit_held [OF inv2 r2, of ts] by auto
  moreover have "fst (Balance_of x st) = getm (balances st) x" for x st
    by (simp add: Balance_of_def getm_def split: option.splits)
  ultimately show ?thesis using b by auto
qed

theorem prepared_debit_can_commit_witness:
  "\<exists>res s0 s1 s2 res' s3. ledger_run [hd sample_ops] New = Some s0
    \<and> PrepareDebit ''t1'' ''a'' 70 s0 = (res, s1) \<and> OK res
    \<and> ledger_run [DoApply \<lparr>cmd_Op = 2, cmd_IdempotencyKey = ''k2'', cmd_From = ''a'', cmd_To = [],
         cmd_Amount = 100, cmd_Timestamp = zero_ts\<rparr>] s1 = Some s2
    \<and> CommitDebit ''t1'' zero_ts s2 = Some (res', s3) \<and> OK res'
    \<and> fst (Balance_of ''a'' s3) = fst (Balance_of ''a'' s2) - 70"
proof -
  let ?w = "[DoApply \<lparr>cmd_Op = 2, cmd_IdempotencyKey = ''k2'', cmd_From = ''a'', cmd_To = [],
         cmd_Amount = 100, cmd_Timestamp = zero_ts\<rparr>]"
  have n: "in_int64 100" by (simp add: in_int64_def)
  have e: "\<exists>s0. ledger_run [hd sample_ops] New = Some s0 \<and> balances s0 = fmupd ''a'' 100 fmempty
      \<and> reserves s0 = fmempty"
    by (simp add: New_def Apply_def applyLocked_def record_tx_def Op_defs tx_balances_def Let_def
        has_prefix_def internalKeyPrefix_def set_balance_def)
  then obtain s0 where s0: "ledger_run [hd sample_ops] New = Some s0"
    "balances s0 = fmupd ''a'' 100 fmempty" "reserves s0 = fmempty" by blast
  have inv0: "ledger_inv s0" using ledger_run_inv [OF ledger_inv_New, of "[hd sample_ops]"] s0(1) n by auto
  have p: "OK (fst (PrepareDebit ''t1'' ''a'' 70 s0))"
    using s0(2,3) available_eq [OF inv0, of "''a''" 100] by (simp add: PrepareDebit_def Let_def)
  obtain res s1 where s1: "PrepareDebit ''t1'' ''a'' 70 s0 = (res, s1)" by fastforce
  have inv1: "ledger_inv s1"
    using good_PrepareDebit [OF inv0, of "''t1''" "''a''" 70] s1 by (auto simp: good_step_def)
  obtain s2 where s2: "ledger_run ?w s1 = Some s2" using ledger_run_inv [OF inv1, of ?w] n by auto
  from prepared_debit_can_commit [OF inv0 s1 _ _ _ s2, of zero_ts] p s0(1) s1 s2 n
  show ?thesis by (auto simp del: ledger_run.simps)
qed

end
