(* ===== verification/LedgerCodec.thy ===== *)
theory LedgerCodec
  imports Ledger
begin

text \<open>
  The wire format of ledger commands and the adapter between the ledger and Raft
  (src/ledger/codec.go). A command is decoded with \<^verbatim>\<open>bytes.Reader.Read\<close>, whose short reads are
  modelled as they are (\<^const>\<open>reader_Read\<close>): only \<^verbatim>\<open>io.ReadFull\<close> reports them.

  Shown here: the round trip for commands whose strings fit their 16-bit length fields, that
  records written before the timestamp field existed still decode, what happens to longer strings
  and to truncated amounts, and that \<open>Machine_Apply\<close> answers retries through \<open>ResultFor\<close>.
\<close>

definition errBadEncoding :: string where
  "errBadEncoding = ''ledger: malformed command encoding''"

definition writeStr :: "string \<Rightarrow> bytes" where
  "writeStr s = put16 (length s mod 65536) @ bytes_of s"

definition readStr :: "bytes \<Rightarrow> (string \<times> bytes) option" where
  "readStr r = do {
     (l, r) \<leftarrow> reader_Read 2 r;
     let n = le_val l;
     if n = 0 then Some ([], r)
     else do { (buf, r) \<leftarrow> reader_Read n r; Some (string_of buf, r) }
   }"

definition Encode :: "Command \<Rightarrow> bytes" where
  "Encode c =
     [cmd_Op c] @ writeStr (cmd_IdempotencyKey c) @ writeStr (cmd_From c) @ writeStr (cmd_To c)
     @ put64 (u64_of_int64 (cmd_Amount c))
     @ (put64 (unat (Wall (cmd_Timestamp c))) @ put32 (unat (Logical (cmd_Timestamp c))))"

text \<open>\<^verbatim>\<open>Decode\<close>: every failure is \<^verbatim>\<open>errBadEncoding\<close>.\<close>

definition Decode :: "bytes \<Rightarrow> string + Command" where
  "Decode data =
     (case do {
        (opb, r) \<leftarrow> (case data of [] \<Rightarrow> None | b # r \<Rightarrow> Some (b, r));
        (key, r) \<leftarrow> readStr r;
        (src, r) \<leftarrow> readStr r;
        (dst, r) \<leftarrow> readStr r;
        (amt, r) \<leftarrow> reader_Read 8 r;
        let cmd = \<lparr>cmd_Op = opb, cmd_IdempotencyKey = key, cmd_From = src, cmd_To = dst,
                   cmd_Amount = int64_of_u64 (le_val amt), cmd_Timestamp = zero_ts\<rparr>;
        case io_ReadFull 12 r of
          (n, Some ts, _) \<Rightarrow>
            Some (cmd\<lparr>cmd_Timestamp := Timestamp (word_of_nat (le_val (take 8 ts)))
                     (word_of_nat (le_val (drop 8 ts)))\<rparr>)
        | (n, None, _) \<Rightarrow> (if n \<noteq> 0 then None else Some cmd)
      } of
      None \<Rightarrow> Inl errBadEncoding
    | Some cmd \<Rightarrow> Inr cmd)"

section \<open>The Raft adapter\<close>

record Machine =
  mach_State :: State
  mach_results :: "(string, Result) fmap"
  mach_fingerprints :: "(string, 64 word) fmap"

definition NewMachine :: "State \<Rightarrow> Machine" where
  "NewMachine s = \<lparr>mach_State = s, mach_results = fmempty, mach_fingerprints = fmempty\<rparr>"

definition Machine_Apply :: "bytes \<Rightarrow> Machine \<Rightarrow> (Result \<times> Machine) option" where
  "Machine_Apply cmd m =
     (case Decode cmd of
        Inl e \<Rightarrow> Some (failed errBadEncoding, m)
      | Inr c \<Rightarrow> do {
          (res, s') \<leftarrow> Apply c (mach_State m);
          Some (res, m\<lparr>mach_State := s',
            mach_results := fmupd (cmd_IdempotencyKey c) res (mach_results m),
            mach_fingerprints := fmupd (cmd_IdempotencyKey c) (fingerprint c) (mach_fingerprints m)\<rparr>)
        })"

definition Machine_Result :: "string \<Rightarrow> Machine \<Rightarrow> Result option" where
  "Machine_Result key m = fmlookup (mach_results m) key"

text \<open>\<^verbatim>\<open>ResultFor\<close>: \<open>Inr None\<close> is an unknown key, \<open>Inl\<close> the conflict error.\<close>

definition ResultFor :: "Command \<Rightarrow> Machine \<Rightarrow> string + Result option" where
  "ResultFor cmd m =
     (case fmlookup (mach_results m) (cmd_IdempotencyKey cmd) of
        None \<Rightarrow> Inr None
      | Some r \<Rightarrow>
          (if (case fmlookup (mach_fingerprints m) (cmd_IdempotencyKey cmd) of
                 None \<Rightarrow> 0 | Some f \<Rightarrow> f) \<noteq> fingerprint cmd
           then Inl ErrIdempotencyConflict
           else Inr (Some r)))"

section \<open>Round trips\<close>

lemma readStr_writeStr [codec_simps]:
  assumes "length s < 65536" shows "readStr (writeStr s @ r) = Some (s, r)"
proof (cases "s = []")
  case True
  then show ?thesis by (simp add: readStr_def writeStr_def reader_Read_def)
next
  case False
  then have "bytes_of s \<noteq> []" by (simp add: bytes_of_def)
  with False assms show ?thesis by (simp add: readStr_def writeStr_def)
qed

definition wire_ok :: "Command \<Rightarrow> bool" where
  "wire_ok c \<longleftrightarrow> length (cmd_IdempotencyKey c) < 65536 \<and> length (cmd_From c) < 65536
     \<and> length (cmd_To c) < 65536 \<and> in_int64 (cmd_Amount c)"

lemma Decode_Encode_ok:
  assumes "wire_ok c" shows "Decode (Encode c) = Inr c"
proof -
  obtain w l where ts: "cmd_Timestamp c = Timestamp w l" by (cases "cmd_Timestamp c")
  show ?thesis
    using assms by (simp add: Decode_def Encode_def wire_ok_def codec_simps ts)
qed

text \<open>a command survives its encoding: decoding the bytes written for a command whose strings
  fit the 16-bit length fields gives the command back, timestamp included.\<close>

theorem Decode_Encode:
  assumes "wire_ok c" shows "Decode (Encode c) = Inr c"
  using assms by (rule Decode_Encode_ok)

theorem Decode_Encode_witness:
  "Decode (Encode \<lparr>cmd_Op = 3, cmd_IdempotencyKey = ''k'', cmd_From = ''a'', cmd_To = ''b'',
      cmd_Amount = -5, cmd_Timestamp = Timestamp 7 1\<rparr>)
   = Inr \<lparr>cmd_Op = 3, cmd_IdempotencyKey = ''k'', cmd_From = ''a'', cmd_To = ''b'',
      cmd_Amount = -5, cmd_Timestamp = Timestamp 7 1\<rparr>"
  by (rule Decode_Encode) (simp add: wire_ok_def in_int64_def)

definition encode_body :: "Command \<Rightarrow> bytes" where
  "encode_body c = [cmd_Op c] @ writeStr (cmd_IdempotencyKey c) @ writeStr (cmd_From c)
     @ writeStr (cmd_To c) @ put64 (u64_of_int64 (cmd_Amount c))"

lemma Encode_body: "Encode c =
  encode_body c @ put64 (unat (Wall (cmd_Timestamp c))) @ put32 (unat (Logical (cmd_Timestamp c)))"
  by (simp add: Encode_def encode_body_def)

text \<open>records written before the timestamp existed end after the amount, and still decode, with
  the zero timestamp; a record that ends inside the timestamp is refused. The record cut \<open>k\<close> bytes
  short of its end decodes to the unstamped command exactly for \<open>k = 12\<close> and to an error for
  \<open>0 < k < 12\<close>.\<close>

theorem Decode_timestamp_optional:
  assumes "wire_ok c" "0 < k" "k \<le> 12"
  shows "Decode (take (length (Encode c) - k) (Encode c)) =
     (if k = 12 then Inr (c\<lparr>cmd_Timestamp := zero_ts\<rparr>) else Inl errBadEncoding)"
proof -
  define ts where "ts = put64 (unat (Wall (cmd_Timestamp c))) @ put32 (unat (Logical (cmd_Timestamp c)))"
  have ts: "length ts = 12" by (simp add: ts_def)
  have "take (length (Encode c) - k) (Encode c) = encode_body c @ take (12 - k) ts"
    using ts assms by (simp add: Encode_body ts_def [symmetric])
  then show ?thesis
    using assms ts
    by (auto simp add: Decode_def encode_body_def wire_ok_def codec_simps io_ReadFull_def)
qed

theorem Decode_timestamp_optional_witness:
  "Decode (take (length (Encode \<lparr>cmd_Op = 3, cmd_IdempotencyKey = ''k'', cmd_From = ''a'',
      cmd_To = ''b'', cmd_Amount = 9, cmd_Timestamp = Timestamp 7 1\<rparr>) - 12)
      (Encode \<lparr>cmd_Op = 3, cmd_IdempotencyKey = ''k'', cmd_From = ''a'',
      cmd_To = ''b'', cmd_Amount = 9, cmd_Timestamp = Timestamp 7 1\<rparr>))
   = Inr \<lparr>cmd_Op = 3, cmd_IdempotencyKey = ''k'', cmd_From = ''a'', cmd_To = ''b'',
      cmd_Amount = 9, cmd_Timestamp = zero_ts\<rparr>"
  by (subst Decode_timestamp_optional) (simp_all add: wire_ok_def in_int64_def)

section \<open>What the length fields and short reads do\<close>

text \<open>A truncation inside the amount is not refused: \<^verbatim>\<open>bytes.Reader.Read\<close> fills what there is, so
  the amount is read modulo a power of 256.\<close>

lemma Decode_truncated_amount:
  assumes "wire_ok c" "0 < k" "k < 8"
  shows "Decode (take (length (encode_body c) - (8 - k)) (encode_body c)) =
     Inr (c\<lparr>cmd_Amount := int (u64_of_int64 (cmd_Amount c) mod 256 ^ k), cmd_Timestamp := zero_ts\<rparr>)"
proof -
  have "take (length (encode_body c) - (8 - k)) (encode_body c) =
     [cmd_Op c] @ writeStr (cmd_IdempotencyKey c) @ writeStr (cmd_From c)
     @ writeStr (cmd_To c) @ le_bytes k (u64_of_int64 (cmd_Amount c))"
    using assms by (simp add: encode_body_def take_le_bytes)
  moreover have "int64_of_u64 (u64_of_int64 (cmd_Amount c) mod 256 ^ k)
      = int (u64_of_int64 (cmd_Amount c) mod 256 ^ k)"
  proof -
    have "(256::nat) ^ k \<le> 256 ^ 7" using assms by (intro power_increasing) auto
    moreover have "u64_of_int64 (cmd_Amount c) mod 256 ^ k < 256 ^ k" by simp
    ultimately have "u64_of_int64 (cmd_Amount c) mod 256 ^ k < 256 ^ 7" by linarith
    then have "int (u64_of_int64 (cmd_Amount c) mod 256 ^ k) < 256 ^ 7"
      by (metis of_nat_less_iff of_nat_numeral of_nat_power)
    then have "in_int64 (int (u64_of_int64 (cmd_Amount c) mod 256 ^ k))"
      unfolding in_int64_def by (simp del: of_nat_mod)
    then show ?thesis unfolding int64_of_u64_def by (rule wrap64_id)
  qed
  ultimately show ?thesis
    using assms by (simp add: Decode_def wire_ok_def codec_simps io_ReadFull_def
        reader_Read_def le_val_append_zeros le_val_le_bytes)
qed

text \<open>A key of exactly 65536 bytes is written with length 0, so it cannot be read back.\<close>

lemma Decode_long_key:
  assumes "length (cmd_IdempotencyKey c) = 65536"
  shows "Decode (Encode c) \<noteq> Inr c"
proof
  assume *: "Decode (Encode c) = Inr c"
  have r: "readStr (writeStr (cmd_IdempotencyKey c) @ r) = Some ([], bytes_of (cmd_IdempotencyKey c) @ r)"
    for r using assms by (simp add: readStr_def writeStr_def)
  have "cmd_IdempotencyKey c' = []" if "Decode (Encode c) = Inr c'" for c'
    using that by (simp add: Encode_def r Decode_def Let_def io_ReadFull_def bind_eq_Some_conv
        split: option.splits if_splits) (auto split: if_splits)
  with * assms show False by force
qed

section \<open>Arbitrary log entries\<close>

lemma Decode_cases:
  obtains "Decode data = Inl errBadEncoding"
  | c where "Decode data = Inr c" "in_int64 (cmd_Amount c)"
proof (cases "Decode data")
  case (Inl e)
  then have "Decode data = Inl errBadEncoding" by (simp add: Decode_def split: option.splits)
  then show ?thesis by (rule that(1))
next
  case (Inr c)
  then have "in_int64 (cmd_Amount c)"
    by (simp add: Decode_def Let_def io_ReadFull_def int64_of_u64_def bind_eq_Some_conv
        split: option.splits if_splits) (auto split: if_splits)
  with Inr show ?thesis by (rule that(2))
qed

lemma Machine_Apply_good:
  assumes "ledger_inv (mach_State m)"
  shows "\<exists>res m'. Machine_Apply data m = Some (res, m') \<and> ledger_inv (mach_State m')"
proof (cases rule: Decode_cases [of data])
  case 1
  then show ?thesis using assms by (simp add: Machine_Apply_def)
next
  case (2 c)
  obtain res s' where "Apply c (mach_State m) = Some (res, s')" "ledger_inv s'"
    using good_Apply [OF assms, of c] 2 by (auto simp: good_step_def)
  then show ?thesis using 2 by (simp add: Machine_Apply_def)
qed

lemma inv_NewMachine: "ledger_inv (mach_State (NewMachine New))"
  by (simp add: NewMachine_def ledger_inv_New)

fun apply_all :: "bytes list \<Rightarrow> Machine \<Rightarrow> Machine option" where
  "apply_all [] m = Some m"
| "apply_all (d # ds) m = do { (_, m') \<leftarrow> Machine_Apply d m; apply_all ds m' }"

lemma apply_all_good:
  assumes "ledger_inv (mach_State m)"
  shows "\<exists>m'. apply_all ds m = Some m' \<and> ledger_inv (mach_State m')"
  using assms
proof (induction ds arbitrary: m)
  case (Cons d ds)
  then obtain res m' where "Machine_Apply d m = Some (res, m')" "ledger_inv (mach_State m')"
    using Machine_Apply_good by blast
  with Cons.IH show ?case by simp
qed simp

text \<open>no sequence of log entries, however corrupt, stops the state machine or unbalances the
  books: from a new ledger every sequence of byte strings is applied to the end without a panic, and
  the double-entry audit passes on the result.\<close>

theorem any_log_applies:
  "\<exists>m. apply_all ds (NewMachine New) = Some m \<and> VerifyDoubleEntry (mach_State m) = None"
  using apply_all_good [OF inv_NewMachine, of ds] ledger_inv_verified by blast

section \<open>Retries through the adapter\<close>

text \<open>after a node has applied a command, \<^verbatim>\<open>ResultFor\<close> answers a retry of that same command (any
  command with the same key and the same fingerprint, whatever its timestamp) with the result the
  application produced, and a command with the same key and another fingerprint with the conflict.\<close>

theorem ResultFor_after_apply:
  assumes "wire_ok c" "Machine_Apply (Encode c) m = Some (res, m')"
    "cmd_IdempotencyKey c' = cmd_IdempotencyKey c"
  shows "ResultFor c' m' =
     (if fingerprint c' = fingerprint c then Inr (Some res) else Inl ErrIdempotencyConflict)"
  using assms by (auto simp: Machine_Apply_def Decode_Encode_ok ResultFor_def bind_eq_Some_conv)

abbreviation sample_cmd :: "Money \<Rightarrow> Timestamp \<Rightarrow> Command" where
  "sample_cmd a ts \<equiv> \<lparr>cmd_Op = 4, cmd_IdempotencyKey = ''k'', cmd_From = [], cmd_To = ''a'',
      cmd_Amount = a, cmd_Timestamp = ts\<rparr>"

theorem ResultFor_after_apply_witness:
  "\<exists>res m. Machine_Apply (Encode (sample_cmd 7 (Timestamp 5 0))) (NewMachine New) = Some (res, m)
    \<and> ResultFor (sample_cmd 7 zero_ts) m = Inr (Some res)"
proof -
  have w: "wire_ok (sample_cmd 7 (Timestamp 5 0))" by (simp add: wire_ok_def in_int64_def)
  obtain res m where m: "Machine_Apply (Encode (sample_cmd 7 (Timestamp 5 0))) (NewMachine New) = Some (res, m)"
    using Machine_Apply_good [OF inv_NewMachine] by blast
  from ResultFor_after_apply [OF w m, of "sample_cmd 7 zero_ts"] m show ?thesis
    by (simp add: fingerprint_def)
qed

text \<open>a command that reuses an applied key for a different request makes \<^verbatim>\<open>ResultFor\<close> refuse the
  genuine retry of the original, although the original was executed and its result was available
  before: \<^verbatim>\<open>Machine.Apply\<close> rebinds the key to the fingerprint of the refused request.\<close>

theorem conflicting_replay_displaces_result:
  assumes "wire_ok c" "wire_ok d" "cmd_IdempotencyKey d = cmd_IdempotencyKey c"
    "fingerprint d \<noteq> fingerprint c"
    "Machine_Apply (Encode c) m = Some (res, m1)" "Machine_Apply (Encode d) m1 = Some (res', m2)"
  shows "ResultFor c m1 = Inr (Some res) \<and> ResultFor c m2 = Inl ErrIdempotencyConflict"
  using assms by (auto simp: Machine_Apply_def Decode_Encode_ok ResultFor_def bind_eq_Some_conv)

theorem conflicting_replay_displaces_result_witness:
  "\<exists>res m1 m2. Machine_Apply (Encode (sample_cmd 7 zero_ts)) (NewMachine New) = Some (res, m1)
    \<and> ResultFor (sample_cmd 7 zero_ts) m1 = Inr (Some res)
    \<and> ResultFor (sample_cmd 7 zero_ts) m2 = Inl ErrIdempotencyConflict"
proof -
  have w: "wire_ok (sample_cmd 7 zero_ts)" "wire_ok (sample_cmd 8 zero_ts)"
    by (simp_all add: wire_ok_def in_int64_def)
  obtain res m1 where m1: "Machine_Apply (Encode (sample_cmd 7 zero_ts)) (NewMachine New) = Some (res, m1)"
      "ledger_inv (mach_State m1)"
    using Machine_Apply_good [OF inv_NewMachine] by blast
  obtain res' m2 where m2: "Machine_Apply (Encode (sample_cmd 8 zero_ts)) m1 = Some (res', m2)"
    using Machine_Apply_good [OF m1(2)] by blast
  have "fingerprint (sample_cmd 8 zero_ts) \<noteq> fingerprint (sample_cmd 7 zero_ts)" by code_simp
  from conflicting_replay_displaces_result [OF w _ this m1(1) m2] m1 show ?thesis by auto
qed

end
