(* ===== verification/SnapReader.thy ===== *)
theory SnapReader
  imports Prelude
begin

text \<open>
  The fixed-width encoding both state machines use for their snapshots, and the reader that decodes
  it and latches its first error (src/ledger/snapshot.go, \<^verbatim>\<open>putUint64\<close> to \<^verbatim>\<open>reader.bool\<close>;
  src/shard/snapshot.go repeats the same functions as \<^verbatim>\<open>putU64\<close>, \<^verbatim>\<open>rd.u64\<close>, \<^verbatim>\<open>rd.str\<close>, \<^verbatim>\<open>rd.b\<close> and
  adds \<^verbatim>\<open>rd.bytes\<close>). The reader is threaded through the decoder, so the decoder is written in the
  state monad.

  The predicate \<open>decodes p bs x\<close> says that the decoder \<open>p\<close> reads exactly the bytes \<open>bs\<close> and returns
  \<open>x\<close>, that it fails on every strict prefix of \<open>bs\<close>, and that it keeps an error once latched. It
  composes along the monad, so a snapshot format is verified by following its encoder.
\<close>

section \<open>Writing\<close>

definition putUint64 :: "nat \<Rightarrow> bytes" where
  "putUint64 v = put64 (v mod 2 ^ 64)"

definition putStr :: "string \<Rightarrow> bytes" where
  "putStr s = putUint64 (length s) @ bytes_of s"

definition putBool :: "bool \<Rightarrow> bytes" where
  "putBool v = (if v then [1] else [0])"

section \<open>Reading\<close>

record reader =
  rd_buf :: bytes
  rd_pos :: nat
  rd_err :: "string option"

definition r_uint64 :: "(reader, nat) state" where
  "r_uint64 = State (\<lambda>r.
     if rd_err r \<noteq> None then (0, r)
     else if rd_pos r + 8 > length (rd_buf r) then
       (0, r\<lparr>rd_err := Some (''truncated: want 8 bytes at '' @ show_nat (rd_pos r) @ '', have ''
              @ show_nat (length (rd_buf r) - rd_pos r))\<rparr>)
     else (le_val (take 8 (drop (rd_pos r) (rd_buf r))), r\<lparr>rd_pos := rd_pos r + 8\<rparr>))"

text \<open>The part of \<^verbatim>\<open>str\<close> and \<^verbatim>\<open>bytes\<close> after the length is known; \<open>what\<close> names the field in the
  error.\<close>

definition r_take :: "string \<Rightarrow> nat \<Rightarrow> (reader, bytes) state" where
  "r_take what n = State (\<lambda>r.
     if rd_err r \<noteq> None then ([], r)
     else if length (rd_buf r) - rd_pos r < n then
       ([], r\<lparr>rd_err := Some (''truncated '' @ what @ '': declares '' @ show_nat n @ '' bytes, ''
              @ show_nat (length (rd_buf r) - rd_pos r) @ '' remain'')\<rparr>)
     else (take n (drop (rd_pos r) (rd_buf r)), r\<lparr>rd_pos := rd_pos r + n\<rparr>))"

definition r_str :: "(reader, string) state" where
  "r_str = do { n \<leftarrow> r_uint64; bs \<leftarrow> r_take ''string'' n; State_Monad.return (string_of bs) }"

definition r_bytes :: "nat \<Rightarrow> (reader, bytes) state" where
  "r_bytes n = r_take ''blob'' n"

definition r_bool :: "(reader, bool) state" where
  "r_bool = State (\<lambda>r.
     if rd_err r \<noteq> None then (False, r)
     else if rd_pos r \<ge> length (rd_buf r) then
       (False, r\<lparr>rd_err := Some (''truncated bool at '' @ show_nat (rd_pos r))\<rparr>)
     else (rd_buf r ! rd_pos r = 1, r\<lparr>rd_pos := rd_pos r + 1\<rparr>))"

text \<open>The error of the reader, for the check before anything is assigned.\<close>

definition r_error :: "(reader, string option) state" where
  "r_error = State (\<lambda>r. (rd_err r, r))"

text \<open>\<^verbatim>\<open>for n := ...; n > 0; n-- { body }\<close> with the variables the body assigns as accumulator.\<close>

primrec loop :: "nat \<Rightarrow> ('a \<Rightarrow> (reader, 'a) state) \<Rightarrow> 'a \<Rightarrow> (reader, 'a) state" where
  "loop 0 body acc = State_Monad.return acc"
| "loop (Suc n) body acc = do { acc' \<leftarrow> body acc; loop n body acc' }"

section \<open>Decoders and the bytes they read\<close>

definition rd_at :: "bytes \<Rightarrow> bytes \<Rightarrow> reader" where
  "rd_at pre rest = \<lparr>rd_buf = pre @ rest, rd_pos = length pre, rd_err = None\<rparr>"

definition latching :: "(reader, 'a) state \<Rightarrow> bool" where
  "latching p \<longleftrightarrow> (\<forall>r. rd_err r \<noteq> None \<longrightarrow> rd_err (snd (run_state p r)) = rd_err r)"

definition decodes :: "(reader, 'a) state \<Rightarrow> bytes \<Rightarrow> 'a \<Rightarrow> bool" where
  "decodes p bs x \<longleftrightarrow> latching p
     \<and> (\<forall>pre rest. run_state p (rd_at pre (bs @ rest)) = (x, rd_at (pre @ bs) rest))
     \<and> (\<forall>pre cut vs. vs \<noteq> [] \<longrightarrow> bs = cut @ vs \<longrightarrow>
          rd_err (snd (run_state p (rd_at pre cut))) \<noteq> None)"

named_theorems latching_intros \<open>introduction rules for \<open>latching\<close>\<close>
named_theorems decodes_intros \<open>introduction rules for \<open>decodes\<close>\<close>

lemma run_state_bind: "run_state (State_Monad.bind p f) r =
  (case run_state p r of (x, r') \<Rightarrow> run_state (f x) r')"
  by (simp add: State_Monad.bind_def)

lemma run_state_return [simp]: "run_state (State_Monad.return x) r = (x, r)"
  by (simp add: State_Monad.return_def)

lemma latching_return [latching_intros]: "latching (State_Monad.return x)"
  by (simp add: latching_def)

lemma latching_bind [latching_intros]:
  assumes "latching p" "\<And>x. latching (f x)"
  shows "latching (State_Monad.bind p f)"
  unfolding latching_def
proof (intro allI impI)
  fix r :: reader assume r: "rd_err r \<noteq> None"
  obtain x r' where p: "run_state p r = (x, r')" by (cases "run_state p r")
  from assms(1) r p have "rd_err r' = rd_err r" unfolding latching_def by (metis snd_conv)
  with assms(2) [of x] r p show "rd_err (snd (run_state (State_Monad.bind p f) r)) = rd_err r"
    unfolding latching_def run_state_bind by simp
qed

lemma latching_loop [latching_intros]:
  assumes "\<And>acc. latching (body acc)" shows "latching (loop n body acc)"
  by (induction n arbitrary: acc) (auto intro!: latching_intros assms)

lemma latching_uint64 [latching_intros]: "latching r_uint64"
  by (simp add: latching_def r_uint64_def)

lemma latching_take [latching_intros]: "latching (r_take what n)"
  by (simp add: latching_def r_take_def)

lemma latching_bool [latching_intros]: "latching r_bool"
  by (simp add: latching_def r_bool_def)

lemma latching_str [latching_intros]: "latching r_str"
  unfolding r_str_def by (intro latching_intros)

lemma latching_bytes [latching_intros]: "latching (r_bytes n)"
  unfolding r_bytes_def by (intro latching_intros)

lemma decodesI:
  assumes "latching p"
    and "\<And>pre rest. run_state p (rd_at pre (bs @ rest)) = (x, rd_at (pre @ bs) rest)"
    and "\<And>pre cut vs. vs \<noteq> [] \<Longrightarrow> bs = cut @ vs \<Longrightarrow>
           rd_err (snd (run_state p (rd_at pre cut))) \<noteq> None"
  shows "decodes p bs x"
  using assms by (simp add: decodes_def)

lemma decodes_latching: "decodes p bs x \<Longrightarrow> latching p"
  by (simp add: decodes_def)

lemma decodes_run: "decodes p bs x \<Longrightarrow> run_state p (rd_at pre (bs @ rest)) = (x, rd_at (pre @ bs) rest)"
  by (simp add: decodes_def)

lemma decodes_cut: "decodes p (us @ vs) x \<Longrightarrow> vs \<noteq> [] \<Longrightarrow>
    rd_err (snd (run_state p (rd_at pre us))) \<noteq> None"
  unfolding decodes_def by blast

lemma decodes_return [decodes_intros]: "decodes (State_Monad.return x) [] x"
  by (simp add: decodes_def latching_return)

lemma decodes_bind [decodes_intros]:
  assumes p: "decodes p bs x" and f: "decodes (f x) bs' y" and l: "\<And>z. latching (f z)"
  shows "decodes (State_Monad.bind p f) (bs @ bs') y"
  unfolding decodes_def
proof (intro conjI allI impI)
  show "latching (State_Monad.bind p f)" by (intro latching_intros decodes_latching [OF p] l)
next
  fix pre rest
  show "run_state (State_Monad.bind p f) (rd_at pre ((bs @ bs') @ rest)) = (y, rd_at (pre @ bs @ bs') rest)"
    using decodes_run [OF p, of pre "bs' @ rest"] decodes_run [OF f, of "pre @ bs" rest]
    by (simp add: run_state_bind)
next
  fix pre cut vs :: bytes assume vs: "vs \<noteq> []" and eq: "bs @ bs' = cut @ vs"
  from eq consider us where "bs = cut @ us" "us \<noteq> []" | us where "cut = bs @ us" "bs' = us @ vs"
    by (auto simp: append_eq_append_conv2) blast
  then show "rd_err (snd (run_state (State_Monad.bind p f) (rd_at pre cut))) \<noteq> None"
  proof cases
    case (1 us)
    obtain z r' where z: "run_state p (rd_at pre cut) = (z, r')" by (cases "run_state p (rd_at pre cut)")
    with decodes_cut [of p cut us x pre] p 1 have "rd_err r' \<noteq> None" by simp
    then show ?thesis using l [of z] z by (simp add: run_state_bind latching_def)
  next
    case (2 us)
    then show ?thesis
      using decodes_run [OF p, of pre us] decodes_cut [of "f x" us vs y "pre @ bs"] f vs
      by (simp add: run_state_bind)
  qed
qed

lemma decodes_loop [decodes_intros]:
  assumes "n = length xs" "\<And>a x. x \<in> set xs \<Longrightarrow> decodes (body a) (enc x) (upd x a)"
    and "\<And>a. latching (body a)"
  shows "decodes (loop n body acc) (concat (map enc xs)) (fold upd xs acc)"
  unfolding assms(1) using assms(2)
proof (induction xs arbitrary: acc)
  case (Cons x xs)
  then show ?case by (auto intro!: decodes_bind latching_intros assms(3))
qed (simp add: decodes_return)

lemma decodes_uint64 [decodes_intros]:
  assumes "v < 2 ^ 64" shows "decodes r_uint64 (putUint64 v) v"
proof (rule decodesI, rule latching_uint64)
  fix pre cut vs :: bytes assume vs: "vs \<noteq> []" and eq: "putUint64 v = cut @ vs"
  have "length (putUint64 v) = 8" by (simp add: putUint64_def)
  with vs eq have "length cut < 8" by (cases vs) simp_all
  then show "rd_err (snd (run_state r_uint64 (rd_at pre cut))) \<noteq> None"
    by (simp add: r_uint64_def rd_at_def)
qed (use assms in \<open>simp add: r_uint64_def rd_at_def putUint64_def\<close>)

lemma decodes_take [decodes_intros]: "n = length bs \<Longrightarrow> decodes (r_take what n) bs bs"
  by (rule decodesI, rule latching_take) (auto simp: r_take_def rd_at_def)

lemma decodes_bytes [decodes_intros]: "n = length bs \<Longrightarrow> decodes (r_bytes n) bs bs"
  unfolding r_bytes_def by (rule decodes_take)

lemma decodes_bool [decodes_intros]: "decodes r_bool (putBool v) v"
  by (rule decodesI, rule latching_bool)
    (auto simp: r_bool_def rd_at_def putBool_def nth_append Cons_eq_append_conv split: if_splits)

lemma decodes_str [decodes_intros]:
  assumes "length s < 2 ^ 64" shows "decodes r_str (putStr s) s"
proof -
  have "decodes r_str (putUint64 (length s) @ bytes_of s @ []) (string_of (bytes_of s))"
    unfolding r_str_def using assms
    by (intro decodes_bind [OF decodes_uint64] decodes_bind [OF decodes_take] decodes_return
        latching_intros) simp_all
  then show ?thesis by (simp add: putStr_def)
qed

text \<open>The last read of a decoder, and integers that always fit.\<close>

lemma decodes_last:
  assumes "decodes p bs x" "g x = y"
  shows "decodes (State_Monad.bind p (\<lambda>x. State_Monad.return (g x))) bs y"
  using decodes_bind [OF assms(1) decodes_return latching_return, of g] assms(2) by simp

lemma decodes_fixed:
  "decodes r_uint64 (putUint64 (unat (w :: 64 word))) (unat w)"
  "decodes r_uint64 (putUint64 (unat (v :: 32 word))) (unat v)"
  "decodes r_uint64 (putUint64 (unat (b :: byte))) (unat b)"
  "decodes r_uint64 (putUint64 (u64_of_int64 i)) (u64_of_int64 i)"
proof -
  show "decodes r_uint64 (putUint64 (unat w)) (unat w)" by (rule decodes_uint64 [OF unat_w64])
  show "decodes r_uint64 (putUint64 (unat v)) (unat v)"
    by (rule decodes_uint64, rule less_trans [OF unat_w32]) simp
  show "decodes r_uint64 (putUint64 (unat b)) (unat b)"
    by (rule decodes_uint64, rule less_trans [OF unat_byte]) simp
  show "decodes r_uint64 (putUint64 (u64_of_int64 i)) (u64_of_int64 i)"
    by (rule decodes_uint64 [OF u64_of_int64_less])
qed

lemmas decodes_step = decodes_bind decodes_last decodes_fixed decodes_uint64 decodes_str decodes_bool

text \<open>Loops that store entries into a map, and loops that append to a slice.\<close>

lemma decodes_map_loop:
  assumes "\<And>a k v. (k, v) \<in> set (sorted_list_of_fmap m) \<Longrightarrow> decodes (body a) (enc (k, v)) (fmupd k v a)"
    and "\<And>a. latching (body a)"
  shows "decodes (loop (fcard (fmdom m)) body fmempty) (concat (map enc (sorted_list_of_fmap m))) m"
proof -
  have "decodes (loop (fcard (fmdom m)) body fmempty) (concat (map enc (sorted_list_of_fmap m)))
      (fold (\<lambda>(k, v). fmupd k v) (sorted_list_of_fmap m) fmempty)"
    using assms by (intro decodes_loop) (auto simp: length_sorted_list_of_fmap)
  then show ?thesis by simp
qed

lemma decodes_list_loop:
  assumes "\<And>a x. x \<in> set xs \<Longrightarrow> decodes (body a) (enc x) (a @ [x])" and "\<And>a. latching (body a)"
  shows "decodes (loop (length xs) body []) (concat (map enc xs)) xs"
proof -
  have f: "fold (\<lambda>x a. a @ [x]) ys a = a @ ys" for ys a :: "'a list"
    by (induction ys arbitrary: a) simp_all
  have "decodes (loop (length xs) body []) (concat (map enc xs)) (fold (\<lambda>x a. a @ [x]) xs [])"
    using assms by (intro decodes_loop) auto
  then show ?thesis by (simp add: f)
qed

end
