(* ===== verification/StateMachine.thy ===== *)
theory StateMachine
  imports Prelude
begin

text \<open>
  The interfaces Raft relies on (src/raft/types.go \<^verbatim>\<open>StateMachine\<close> and \<^verbatim>\<open>IndexedStateMachine\<close>,
  src/raft/snapshot.go \<^verbatim>\<open>Snapshotter\<close>) as locales. A state machine's \<open>app\<close> takes the index, the
  command and the machine and returns the reply and the new machine, or \<^const>\<open>None\<close> for a panic.

  \<open>replicated_machine\<close>: on machines that satisfy the invariant, no command panics.
  \<open>snapshotting_machine\<close>: besides, a snapshot restores what later commands depend on. \<open>core\<close> is the
  part of the machine that a snapshot must carry.

  Proved once here, for every such machine: replaying a log from a snapshot gives the same replies
  and the same core as replaying it from the beginning.
\<close>

fun apply_log ::
  "(nat \<Rightarrow> bytes \<Rightarrow> 'm \<Rightarrow> ('r \<times> 'm) option) \<Rightarrow> nat \<Rightarrow> bytes list \<Rightarrow> 'm \<Rightarrow> ('r list \<times> 'm) option" where
  "apply_log ap i [] m = Some ([], m)"
| "apply_log ap i (d # ds) m = do {
     (r, m) \<leftarrow> ap (Suc i) d m;
     (rs, m) \<leftarrow> apply_log ap (Suc i) ds m;
     Some (r # rs, m)
   }"

lemma apply_log_append:
  "apply_log ap i (xs @ ys) m = do {
     (rs, m) \<leftarrow> apply_log ap i xs m;
     (rs', m) \<leftarrow> apply_log ap (i + length xs) ys m;
     Some (rs @ rs', m)
   }"
proof (induction xs arbitrary: i m)
  case Nil
  then show ?case by (cases "apply_log ap i ys m") auto
next
  case (Cons x xs)
  then show ?case
    by (auto split: Option.bind_splits)
qed

locale replicated_machine =
  fixes app :: "nat \<Rightarrow> bytes \<Rightarrow> 'm \<Rightarrow> ('r \<times> 'm) option"
    and good :: "'m \<Rightarrow> bool"
  assumes apply_total: "good m \<Longrightarrow> \<exists>r m'. app i d m = Some (r, m') \<and> good m'"
begin

lemma apply_log_total:
  "good m \<Longrightarrow> \<exists>rs m'. apply_log app i ds m = Some (rs, m') \<and> good m' \<and> length rs = length ds"
proof (induction ds arbitrary: i m)
  case (Cons d ds)
  from apply_total [OF Cons.prems, of "Suc i" d] obtain r m1
    where m1: "app (Suc i) d m = Some (r, m1)" "good m1" by blast
  from Cons.IH [OF m1(2), of "Suc i"] m1 show ?case by auto
qed simp

end

locale snapshotting_machine = replicated_machine app good
  for app :: "nat \<Rightarrow> bytes \<Rightarrow> 'm \<Rightarrow> ('r \<times> 'm) option" and good +
  fixes snap :: "'m \<Rightarrow> bytes"
    and restore :: "bytes \<Rightarrow> 'm \<Rightarrow> string option \<times> 'm"
    and core :: "'m \<Rightarrow> 'c"
    and fits :: "'m \<Rightarrow> bool"
  assumes restore_snap: "fits m \<Longrightarrow> \<exists>m'. restore (snap m) m0 = (None, m') \<and> core m' = core m"
    and restore_inv: "fits m \<Longrightarrow> good m \<Longrightarrow> good (snd (restore (snap m) m0))"
    and apply_core: "core m = core m' \<Longrightarrow>
      map_option (map_prod id core) (app i d m) = map_option (map_prod id core) (app i d m')"
begin

lemma apply_log_core:
  assumes "core m = core m'"
  shows "map_option (map_prod id core) (apply_log app i ds m)
       = map_option (map_prod id core) (apply_log app i ds m')"
  using assms
proof (induction ds arbitrary: i m m')
  case (Cons d ds)
  from apply_core [OF Cons.prems, of "Suc i" d] show ?case
  proof (cases "app (Suc i) d m")
    case None
    with apply_core [OF Cons.prems, of "Suc i" d] show ?thesis by simp
  next
    case (Some p)
    with apply_core [OF Cons.prems, of "Suc i" d] obtain r m1 m1'
      where s: "app (Suc i) d m = Some (r, m1)" "app (Suc i) d m' = Some (r, m1')" "core m1 = core m1'"
      by (cases p; cases "app (Suc i) d m'") auto
    from Cons.IH [OF s(3), of "Suc i"] show ?thesis
      by (cases "apply_log app (Suc i) ds m1"; cases "apply_log app (Suc i) ds m1'")
        (auto simp: s(1,2))
  qed
qed simp

text \<open>Recovery from a snapshot of the first \<open>length xs\<close> entries plus the remaining log.\<close>

lemma snapshot_replay:
  assumes "good m" "apply_log app 0 xs m = Some (rs, m1)" "fits m1"
  shows "\<exists>m1' rs' m2 m2'. restore (snap m1) m0 = (None, m1')
    \<and> apply_log app 0 (xs @ ys) m = Some (rs @ rs', m2)
    \<and> apply_log app (length xs) ys m1' = Some (rs', m2') \<and> core m2' = core m2"
proof -
  obtain m1' where r: "restore (snap m1) m0 = (None, m1')" "core m1' = core m1"
    using restore_snap [OF assms(3)] by blast
  have "good m1" using apply_log_total [OF assms(1), of 0 xs] assms(2) by simp
  then obtain rs' m2 where m2: "apply_log app (length xs) ys m1 = Some (rs', m2)"
    using apply_log_total [of m1 "length xs" ys] by blast
  with apply_log_core [OF r(2), of "length xs" ys] obtain m2'
    where "apply_log app (length xs) ys m1' = Some (rs', m2')" "core m2' = core m2" by auto
  with r m2 show ?thesis by (simp add: apply_log_append assms(2))
qed

end

end
