(* ===== verification/LedgerSnapshot.thy ===== *)
theory LedgerSnapshot
  imports SnapReader StateMachine LedgerCodec
begin

text \<open>
  The ledger's snapshot for log compaction (src/ledger/snapshot.go). A snapshot is read back into a
  state equal to the one that was serialized, and every truncation of it is refused with the ledger
  left untouched.

  \<^verbatim>\<open>sortedAccounts\<close> and \<^verbatim>\<open>sortedKeys\<close> are \<^const>\<open>sorted_list_of_fmap\<close>.
\<close>

section \<open>Writing\<close>

definition put_balance :: "AccountID \<times> Money \<Rightarrow> bytes" where
  "put_balance = (\<lambda>(id, v). putStr id @ putUint64 (u64_of_int64 v))"

definition put_result :: "string \<times> Result \<Rightarrow> bytes" where
  "put_result = (\<lambda>(k, r). putStr k @ putBool (OK r) @ putStr (Err r) @ putUint64 (u64_of_int64 (Balance r)))"

definition put_fingerprint :: "string \<times> 64 word \<Rightarrow> bytes" where
  "put_fingerprint = (\<lambda>(k, f). putStr k @ putUint64 (unat f))"

definition put_reserve :: "string \<times> Reserve \<Rightarrow> bytes" where
  "put_reserve = (\<lambda>(k, r). putStr k @ putStr (rsv_TxID r) @ putStr (rsv_Account r)
     @ putUint64 (u64_of_int64 (rsv_Amount r)))"

definition put_entry :: "Entry \<Rightarrow> bytes" where
  "put_entry e = putStr (ent_Account e) @ putUint64 (u64_of_int64 (ent_Amount e))"

definition put_transaction :: "Transaction \<Rightarrow> bytes" where
  "put_transaction t =
     putUint64 (unat (tx_Seq t)) @ putUint64 (unat (tx_Op t)) @ putStr (tx_IdempotencyKey t)
     @ putUint64 (unat (Wall (tx_Timestamp t))) @ putUint64 (unat (Logical (tx_Timestamp t)))
     @ putUint64 (length (tx_Entries t)) @ concat (map put_entry (tx_Entries t))"

definition Snapshot :: "State \<Rightarrow> bytes" where
  "Snapshot s =
     putUint64 (unat (seq s))
     @ putUint64 (fcard (fmdom (balances s))) @ concat (map put_balance (sorted_list_of_fmap (balances s)))
     @ putUint64 (fcard (fmdom (applied s))) @ concat (map put_result (sorted_list_of_fmap (applied s)))
     @ putUint64 (fcard (fmdom (fingerprints s)))
       @ concat (map put_fingerprint (sorted_list_of_fmap (fingerprints s)))
     @ putUint64 (fcard (fmdom (reserves s))) @ concat (map put_reserve (sorted_list_of_fmap (reserves s)))
     @ putUint64 (length (history s)) @ concat (map put_transaction (history s))"

section \<open>Reading\<close>

definition read_balance :: "(AccountID, Money) fmap \<Rightarrow> (reader, (AccountID, Money) fmap) state" where
  "read_balance m = do {
     id \<leftarrow> r_str;
     v \<leftarrow> r_uint64;
     State_Monad.return (fmupd id (int64_of_u64 v) m)
   }"

definition read_result :: "(string, Result) fmap \<Rightarrow> (reader, (string, Result) fmap) state" where
  "read_result m = do {
     k \<leftarrow> r_str;
     ok \<leftarrow> r_bool;
     err \<leftarrow> r_str;
     bal \<leftarrow> r_uint64;
     State_Monad.return (fmupd k \<lparr>OK = ok, Err = err, Balance = int64_of_u64 bal\<rparr> m)
   }"

definition read_fingerprint :: "(string, 64 word) fmap \<Rightarrow> (reader, (string, 64 word) fmap) state" where
  "read_fingerprint m = do {
     k \<leftarrow> r_str;
     f \<leftarrow> r_uint64;
     State_Monad.return (fmupd k (word_of_nat f) m)
   }"

definition read_reserve :: "(string, Reserve) fmap \<Rightarrow> (reader, (string, Reserve) fmap) state" where
  "read_reserve m = do {
     k \<leftarrow> r_str;
     txid \<leftarrow> r_str;
     acct \<leftarrow> r_str;
     amt \<leftarrow> r_uint64;
     State_Monad.return
       (fmupd k \<lparr>rsv_TxID = txid, rsv_Account = acct, rsv_Amount = int64_of_u64 amt\<rparr> m)
   }"

definition read_entry :: "Entry list \<Rightarrow> (reader, Entry list) state" where
  "read_entry es = do {
     acct \<leftarrow> r_str;
     amt \<leftarrow> r_uint64;
     State_Monad.return (es @ [\<lparr>ent_Account = acct, ent_Amount = int64_of_u64 amt\<rparr>])
   }"

definition read_transaction :: "Transaction list \<Rightarrow> (reader, Transaction list) state" where
  "read_transaction h = do {
     sq \<leftarrow> r_uint64;
     opr \<leftarrow> r_uint64;
     key \<leftarrow> r_str;
     wall \<leftarrow> r_uint64;
     logical \<leftarrow> r_uint64;
     m \<leftarrow> r_uint64;
     entries \<leftarrow> loop m read_entry [];
     State_Monad.return (h @ [\<lparr>tx_Seq = word_of_nat sq, tx_Op = word_of_nat opr,
       tx_IdempotencyKey = key, tx_Entries = entries,
       tx_Timestamp = Timestamp (word_of_nat wall) (word_of_nat logical)\<rparr>])
   }"

definition read_state :: "(reader, State) state" where
  "read_state = do {
     sq \<leftarrow> r_uint64;
     n \<leftarrow> r_uint64; bal \<leftarrow> loop n read_balance fmempty;
     n \<leftarrow> r_uint64; app \<leftarrow> loop n read_result fmempty;
     n \<leftarrow> r_uint64; fps \<leftarrow> loop n read_fingerprint fmempty;
     n \<leftarrow> r_uint64; rsv \<leftarrow> loop n read_reserve fmempty;
     n \<leftarrow> r_uint64; hist \<leftarrow> loop n read_transaction [];
     State_Monad.return \<lparr>balances = bal, applied = app, fingerprints = fps, history = hist,
       reserves = rsv, seq = word_of_nat sq\<rparr>
   }"

text \<open>\<^verbatim>\<open>RestoreSnapshot\<close>: the error, if any, and the ledger afterwards.\<close>

definition RestoreSnapshot :: "bytes \<Rightarrow> State \<Rightarrow> string option \<times> State" where
  "RestoreSnapshot data s =
     (let (s', r) = run_state read_state \<lparr>rd_buf = data, rd_pos = 0, rd_err = None\<rparr> in
      case rd_err r of
        Some e \<Rightarrow> (Some (''ledger: restore snapshot: '' @ e), s)
      | None \<Rightarrow> (None, s'))"

definition Machine_Snapshot :: "Machine \<Rightarrow> bytes" where
  "Machine_Snapshot m = Snapshot (mach_State m)"

definition Machine_RestoreSnapshot :: "bytes \<Rightarrow> Machine \<Rightarrow> string option \<times> Machine" where
  "Machine_RestoreSnapshot data m =
     (let (e, s) = RestoreSnapshot data (mach_State m) in (e, m\<lparr>mach_State := s\<rparr>))"

section \<open>The round trip\<close>

text \<open>The states a snapshot can hold: sizes below \<open>2 ^ 64\<close>, amounts that are \<^verbatim>\<open>int64\<close> values.\<close>

abbreviation short :: "string \<Rightarrow> bool" where "short k \<equiv> length k < 2 ^ 64"

definition snap_ok :: "State \<Rightarrow> bool" where
  "snap_ok s \<longleftrightarrow>
     fcard (fmdom (balances s)) < 2 ^ 64 \<and> fcard (fmdom (applied s)) < 2 ^ 64
   \<and> fcard (fmdom (fingerprints s)) < 2 ^ 64 \<and> fcard (fmdom (reserves s)) < 2 ^ 64
   \<and> length (history s) < 2 ^ 64
   \<and> fmpred (\<lambda>k v. short k \<and> in_int64 v) (balances s)
   \<and> fmpred (\<lambda>k r. short k \<and> short (Err r) \<and> in_int64 (Balance r)) (applied s)
   \<and> fmpred (\<lambda>k f. short k) (fingerprints s)
   \<and> fmpred (\<lambda>k r. short k \<and> short (rsv_TxID r) \<and> short (rsv_Account r) \<and> in_int64 (rsv_Amount r)) (reserves s)
   \<and> list_all (\<lambda>t. short (tx_IdempotencyKey t) \<and> length (tx_Entries t) < 2 ^ 64
        \<and> list_all (\<lambda>e. short (ent_Account e) \<and> in_int64 (ent_Amount e)) (tx_Entries t)) (history s)"

lemmas read_defs = read_balance_def read_result_def read_fingerprint_def read_reserve_def
  read_entry_def read_transaction_def

lemma latching_items [latching_intros]:
  "latching (read_balance m)" "latching (read_result m2)" "latching (read_fingerprint m3)"
  "latching (read_reserve m4)" "latching (read_entry es)"
  unfolding read_defs by (intro latching_intros)+

lemma latching_transaction [latching_intros]: "latching (read_transaction h)"
  unfolding read_transaction_def by (intro latching_intros)

lemma latching_state [latching_intros]: "latching read_state"
  unfolding read_state_def by (intro latching_intros)

lemma record_eta [simp]:
  "\<lparr>OK = OK r, Err = Err r, Balance = Balance r\<rparr> = r"
  "\<lparr>rsv_TxID = rsv_TxID v, rsv_Account = rsv_Account v, rsv_Amount = rsv_Amount v\<rparr> = v"
  "\<lparr>ent_Account = ent_Account e, ent_Amount = ent_Amount e\<rparr> = e"
  "Timestamp (Wall ts) (Logical ts) = ts"
  "\<lparr>tx_Seq = tx_Seq t, tx_Op = tx_Op t, tx_IdempotencyKey = tx_IdempotencyKey t,
     tx_Entries = tx_Entries t, tx_Timestamp = tx_Timestamp t\<rparr> = t"
  "\<lparr>balances = balances s, applied = applied s, fingerprints = fingerprints s, history = history s,
     reserves = reserves s, seq = seq s\<rparr> = s"
  by simp_all

lemma decodes_balance:
  assumes "short k" "in_int64 v"
  shows "decodes (read_balance m) (put_balance (k, v)) (fmupd k v m)"
  using assms unfolding read_balance_def put_balance_def prod.case
  by - (rule decodes_step | (simp; fail) | (intro latching_intros; fail))+

lemma decodes_result:
  assumes "short k" "short (Err r)" "in_int64 (Balance r)"
  shows "decodes (read_result m) (put_result (k, r)) (fmupd k r m)"
  using assms unfolding read_result_def put_result_def prod.case
  by - (rule decodes_step | (simp; fail) | (intro latching_intros; fail))+

lemma decodes_fingerprint:
  assumes "short k"
  shows "decodes (read_fingerprint m) (put_fingerprint (k, f)) (fmupd k f m)"
  using assms unfolding read_fingerprint_def put_fingerprint_def prod.case
  by - (rule decodes_step | (simp; fail) | (intro latching_intros; fail))+

lemma decodes_reserve:
  assumes "short k" "short (rsv_TxID r)" "short (rsv_Account r)" "in_int64 (rsv_Amount r)"
  shows "decodes (read_reserve m) (put_reserve (k, r)) (fmupd k r m)"
  using assms unfolding read_reserve_def put_reserve_def prod.case
  by - (rule decodes_step | (simp; fail) | (intro latching_intros; fail))+

lemma decodes_entry:
  assumes "short (ent_Account e)" "in_int64 (ent_Amount e)"
  shows "decodes (read_entry es) (put_entry e) (es @ [e])"
  using assms unfolding read_entry_def put_entry_def
  by - (rule decodes_step | (simp; fail) | (intro latching_intros; fail))+

lemma decodes_transaction:
  assumes "short (tx_IdempotencyKey t)" "length (tx_Entries t) < 2 ^ 64"
    "list_all (\<lambda>e. short (ent_Account e) \<and> in_int64 (ent_Amount e)) (tx_Entries t)"
  shows "decodes (read_transaction h) (put_transaction t) (h @ [t])"
proof -
  have e: "decodes (loop (length (tx_Entries t)) read_entry []) (concat (map put_entry (tx_Entries t))) (tx_Entries t)"
    using assms(3) by (intro decodes_list_loop decodes_entry latching_intros) (auto simp: list_all_iff)
  show ?thesis
    using assms(1,2) unfolding read_transaction_def put_transaction_def
    by - (rule decodes_step e | (simp; fail) | (intro latching_intros; fail))+
qed

lemma decodes_state:
  assumes "snap_ok s" shows "decodes read_state (Snapshot s) s"
proof -
  have "decodes (loop (fcard (fmdom (balances s))) read_balance fmempty)
      (concat (map put_balance (sorted_list_of_fmap (balances s)))) (balances s)"
    using assms by (intro decodes_map_loop decodes_balance latching_intros) (auto simp: snap_ok_def list_all_iff set_sorted_list_of_fmap dest: fmpredD)
  moreover have "decodes (loop (fcard (fmdom (applied s))) read_result fmempty)
      (concat (map put_result (sorted_list_of_fmap (applied s)))) (applied s)"
    using assms by (intro decodes_map_loop decodes_result latching_intros) (auto simp: snap_ok_def list_all_iff set_sorted_list_of_fmap dest: fmpredD)
  moreover have "decodes (loop (fcard (fmdom (fingerprints s))) read_fingerprint fmempty)
      (concat (map put_fingerprint (sorted_list_of_fmap (fingerprints s)))) (fingerprints s)"
    using assms by (intro decodes_map_loop decodes_fingerprint latching_intros) (auto simp: snap_ok_def list_all_iff set_sorted_list_of_fmap dest: fmpredD)
  moreover have "decodes (loop (fcard (fmdom (reserves s))) read_reserve fmempty)
      (concat (map put_reserve (sorted_list_of_fmap (reserves s)))) (reserves s)"
    using assms by (intro decodes_map_loop decodes_reserve latching_intros) (auto simp: snap_ok_def list_all_iff set_sorted_list_of_fmap dest: fmpredD)
  moreover have "decodes (loop (length (history s)) read_transaction [])
      (concat (map put_transaction (history s))) (history s)"
    using assms by (intro decodes_list_loop decodes_transaction latching_intros) (auto simp: snap_ok_def list_all_iff set_sorted_list_of_fmap dest: fmpredD)
  ultimately show ?thesis
    using assms [unfolded snap_ok_def] unfolding read_state_def Snapshot_def
    by - (rule decodes_step | assumption | (simp; fail) | (intro latching_intros; fail))+
qed

text \<open>C9: compaction loses nothing of the ledger: restoring a snapshot into any ledger gives exactly
  the state the snapshot was taken of.\<close>

theorem RestoreSnapshot_Snapshot:
  assumes "snap_ok s" shows "RestoreSnapshot (Snapshot s) s0 = (None, s)"
  using decodes_run [OF decodes_state [OF assms], of "[]" "[]"]
  by (simp add: RestoreSnapshot_def rd_at_def)

abbreviation sample_state :: State where
  "sample_state \<equiv> \<lparr>balances = fmupd ''a'' 5 fmempty,
     applied = fmupd ''k'' \<lparr>OK = True, Err = [], Balance = 5\<rparr> fmempty,
     fingerprints = fmupd ''k'' 9 fmempty,
     history = [\<lparr>tx_Seq = 1, tx_Op = 4, tx_IdempotencyKey = ''k'',
       tx_Entries = [\<lparr>ent_Account = ''a'', ent_Amount = 5\<rparr>], tx_Timestamp = Timestamp 7 1\<rparr>],
     reserves = fmupd ''t'' \<lparr>rsv_TxID = ''t'', rsv_Account = ''a'', rsv_Amount = 2\<rparr> fmempty,
     seq = 1\<rparr>"

lemma sample_state_ok: "snap_ok sample_state"
  by (auto simp: snap_ok_def in_int64_def fcard.rep_eq intro!: fmpred_upd)

theorem RestoreSnapshot_Snapshot_witness:
  "RestoreSnapshot (Snapshot sample_state) New = (None, sample_state)"
  by (rule RestoreSnapshot_Snapshot [OF sample_state_ok])

text \<open>a torn snapshot is refused and changes nothing: every strict prefix of a snapshot is
  rejected with an error, and the ledger keeps the state it had.\<close>

theorem RestoreSnapshot_truncated:
  assumes "snap_ok s" "k < length (Snapshot s)"
  shows "\<exists>e. RestoreSnapshot (take k (Snapshot s)) s0 = (Some e, s0)"
proof -
  have "drop k (Snapshot s) \<noteq> []" using assms(2) by simp
  with decodes_cut [of read_state "take k (Snapshot s)" "drop k (Snapshot s)" s "[]"]
    decodes_state [OF assms(1)]
  show ?thesis by (auto simp: RestoreSnapshot_def rd_at_def split: prod.splits)
qed

theorem RestoreSnapshot_truncated_witness:
  "\<exists>e. RestoreSnapshot (take 20 (Snapshot sample_state)) New = (Some e, New)"
proof -
  have "20 < length (Snapshot sample_state)"
    by (simp add: Snapshot_def putUint64_def put_transaction_def put_entry_def putStr_def)
  then show ?thesis by (rule RestoreSnapshot_truncated [OF sample_state_ok])
qed

section \<open>The ledger as a replicated state machine\<close>

abbreviation ledger_app :: "nat \<Rightarrow> bytes \<Rightarrow> Machine \<Rightarrow> (Result \<times> Machine) option" where
  "ledger_app i d m \<equiv> Machine_Apply d m"

lemma Machine_Apply_core:
  assumes "mach_State m = mach_State m'"
  shows "map_option (map_prod id mach_State) (Machine_Apply d m)
       = map_option (map_prod id mach_State) (Machine_Apply d m')"
proof (cases "Decode d")
  case (Inr c)
  then show ?thesis using assms
    by (cases "Apply c (mach_State m')") (auto simp: Machine_Apply_def)
qed (use assms in \<open>simp add: Machine_Apply_def\<close>)

interpretation ledger_machine: snapshotting_machine ledger_app "\<lambda>m. ledger_inv (mach_State m)"
  Machine_Snapshot Machine_RestoreSnapshot mach_State "\<lambda>m. snap_ok (mach_State m)"
proof
  show "\<exists>r m'. Machine_Apply d m = Some (r, m') \<and> ledger_inv (mach_State m')"
    if "ledger_inv (mach_State m)" for m :: Machine and d
    using that by (rule Machine_Apply_good)
  have r: "Machine_RestoreSnapshot (Machine_Snapshot m) m0 = (None, m0\<lparr>mach_State := mach_State m\<rparr>)"
    if "snap_ok (mach_State m)" for m m0
    using decodes_run [OF decodes_state [OF that], of "[]" "[]"]
    by (simp add: Machine_RestoreSnapshot_def Machine_Snapshot_def RestoreSnapshot_def rd_at_def)
  show "\<exists>m'. Machine_RestoreSnapshot (Machine_Snapshot m) m0 = (None, m') \<and> mach_State m' = mach_State m"
    if "snap_ok (mach_State m)" for m m0 using r [OF that] by simp
  show "ledger_inv (mach_State (snd (Machine_RestoreSnapshot (Machine_Snapshot m) m0)))"
    if "snap_ok (mach_State m)" "ledger_inv (mach_State m)" for m m0 using r [OF that(1)] that(2) by simp
qed (rule Machine_Apply_core)

text \<open>compaction is invisible. Recovering a node from the snapshot of a log prefix and applying
  the rest of the log gives the same ledger, and the same reply to every entry after the snapshot, as
  applying the whole log from the beginning.\<close>

theorem ledger_compaction_invisible:
  assumes "apply_log ledger_app 0 xs (NewMachine New) = Some (rs, m1)" "snap_ok (mach_State m1)"
  shows "\<exists>m1' rs' m2 m2'. Machine_RestoreSnapshot (Machine_Snapshot m1) m0 = (None, m1')
    \<and> apply_log ledger_app 0 (xs @ ys) (NewMachine New) = Some (rs @ rs', m2)
    \<and> apply_log ledger_app (length xs) ys m1' = Some (rs', m2') \<and> mach_State m2' = mach_State m2"
  using ledger_machine.snapshot_replay [OF inv_NewMachine assms] by simp

theorem ledger_compaction_invisible_witness:
  "\<exists>rs m1 m1' rs' m2 m2'. apply_log ledger_app 0 [[]] (NewMachine New) = Some (rs, m1)
    \<and> Machine_RestoreSnapshot (Machine_Snapshot m1) (NewMachine New) = (None, m1')
    \<and> apply_log ledger_app 0 ([[]] @ [Encode (sample_cmd 7 zero_ts)]) (NewMachine New) = Some (rs @ rs', m2)
    \<and> apply_log ledger_app (length [[] :: bytes]) [Encode (sample_cmd 7 zero_ts)] m1' = Some (rs', m2')
    \<and> mach_State m2' = mach_State m2"
proof -
  have a: "apply_log ledger_app 0 [[]] (NewMachine New) = Some ([failed errBadEncoding], NewMachine New)"
    by (simp add: Machine_Apply_def Decode_def)
  have "snap_ok (mach_State (NewMachine New))"
    by (simp add: NewMachine_def New_def snap_ok_def fcard.rep_eq)
  from ledger_compaction_invisible [OF a this, of "NewMachine New" "[Encode (sample_cmd 7 zero_ts)]"] a
  show ?thesis by blast
qed

end
