(* ===== verification/TwoPC.thy ===== *)
theory TwoPC
  imports LedgerCodec
begin

text \<open>
  The records and the wire format of two-phase commit over Raft (src/shard/twopc.go). The decoder
  works with an explicit position in the data, as the source does; every error is a value.

  Shown here: a sharded command survives its encoding when its strings and its participant list fit
  their 16-bit length fields.
\<close>

type_synonym TxID = string
type_synonym ShardID = string

type_synonym Phase = byte

definition PhaseNone :: Phase where "PhaseNone = 0"
definition PhasePrepared :: Phase where "PhasePrepared = 1"
definition PhaseCommitted :: Phase where "PhaseCommitted = 2"
definition PhaseAborted :: Phase where "PhaseAborted = 3"

lemmas Phase_defs = PhaseNone_def PhasePrepared_def PhaseCommitted_def PhaseAborted_def

definition Phase_String :: "Phase \<Rightarrow> string" where
  "Phase_String p =
     (if p = PhaseNone then ''None''
      else if p = PhasePrepared then ''Prepared''
      else if p = PhaseCommitted then ''Committed''
      else if p = PhaseAborted then ''Aborted''
      else ''Unknown'')"

lemma Phase_distinct [simp]:
  "PhaseNone \<noteq> PhasePrepared" "PhaseNone \<noteq> PhaseCommitted" "PhaseNone \<noteq> PhaseAborted"
  "PhasePrepared \<noteq> PhaseNone" "PhasePrepared \<noteq> PhaseCommitted" "PhasePrepared \<noteq> PhaseAborted"
  "PhaseCommitted \<noteq> PhaseNone" "PhaseCommitted \<noteq> PhasePrepared" "PhaseCommitted \<noteq> PhaseAborted"
  "PhaseAborted \<noteq> PhaseNone" "PhaseAborted \<noteq> PhasePrepared" "PhaseAborted \<noteq> PhaseCommitted"
  by (simp_all add: Phase_defs)

definition OpPrepare :: byte where "OpPrepare = 1"
definition OpDecision :: byte where "OpDecision = 2"
definition OpOutcome :: byte where "OpOutcome = 3"
definition OpSingle :: byte where "OpSingle = 4"

lemmas ShardOp_defs = OpPrepare_def OpDecision_def OpOutcome_def OpSingle_def

record ShardCommand =
  sc_Op :: byte
  sc_TxID :: TxID
  sc_Ledger :: Command
  sc_Commit :: bool
  sc_Debit :: bool
  sc_Participants :: "ShardID list"
  sc_Coordinator :: ShardID

record TxRecord =
  rec_ID :: TxID
  rec_Phase :: Phase
  rec_Cmd :: Command
  rec_Debit :: bool
  rec_Participants :: "ShardID list"
  rec_Coordinator :: ShardID
  rec_Decided :: bool
  rec_Commit :: bool

section \<open>Encoding\<close>

definition be16 :: "nat \<Rightarrow> bytes" where
  "be16 n = [word_of_nat (n div 256), word_of_nat n]"

definition appendStr :: "bytes \<Rightarrow> string \<Rightarrow> bytes" where
  "appendStr buf s = buf @ be16 (length s) @ bytes_of s"

definition EncodeCommand :: "ShardCommand \<Rightarrow> bytes" where
  "EncodeCommand c =
     (let buf = [sc_Op c];
          buf = appendStr buf (sc_TxID c);
          buf = buf @ [if sc_Commit c then 1 else 0];
          buf = buf @ [if sc_Debit c then 1 else 0];
          buf = buf @ be16 (length (sc_Participants c));
          buf = fold (\<lambda>p buf. appendStr buf p) (sc_Participants c) buf;
          buf = appendStr buf (sc_Coordinator c)
      in buf @ Encode (sc_Ledger c))"

section \<open>Decoding\<close>

definition ebind :: "'e + 'a \<Rightarrow> ('a \<Rightarrow> 'e + 'b) \<Rightarrow> 'e + 'b" where
  "ebind x f = (case x of Inl e \<Rightarrow> Inl e | Inr a \<Rightarrow> f a)"

lemma ebind_simps [simp]: "ebind (Inl e) f = Inl e" "ebind (Inr a) f = f a"
  by (simp_all add: ebind_def)

definition get16 :: "bytes \<Rightarrow> nat \<Rightarrow> nat" where
  "get16 data pos = unat (data ! pos) * 256 + unat (data ! (pos + 1))"

definition readStrAt :: "bytes \<Rightarrow> nat \<Rightarrow> string + (string \<times> nat)" where
  "readStrAt data pos =
     (if pos + 2 > length data then Inl ''shard: truncated string header''
      else let n = get16 data pos; pos = pos + 2 in
        if pos + n > length data then Inl ''shard: truncated string body''
        else Inr (string_of (take n (drop pos data)), pos + n))"

text \<open>The participants loop: \<open>n\<close> strings, appended to those read so far.\<close>

fun readParts :: "bytes \<Rightarrow> nat \<Rightarrow> ShardID list \<Rightarrow> nat \<Rightarrow> string + (ShardID list \<times> nat)" where
  "readParts data 0 ps pos = Inr (ps, pos)"
| "readParts data (Suc n) ps pos =
     ebind (readStrAt data pos) (\<lambda>(p, pos). readParts data n (ps @ [p]) pos)"

definition DecodeCommand :: "bytes \<Rightarrow> string + ShardCommand" where
  "DecodeCommand data =
     (if length data < 1 then Inl ''shard: empty command''
      else ebind (readStrAt data 1) (\<lambda>(txid, pos).
        if pos + 2 > length data then Inl ''shard: truncated command''
        else let commit = (data ! pos = 1); debit = (data ! (pos + 1) = 1); pos = pos + 2 in
        if pos + 2 > length data then Inl ''shard: truncated participants''
        else let nParts = get16 data pos; pos = pos + 2 in
        ebind (readParts data nParts [] pos) (\<lambda>(parts, pos).
        ebind (readStrAt data pos) (\<lambda>(coord, pos).
        ebind (Decode (drop pos data)) (\<lambda>lc.
          Inr \<lparr>sc_Op = data ! 0, sc_TxID = txid, sc_Ledger = lc, sc_Commit = commit, sc_Debit = debit,
               sc_Participants = parts, sc_Coordinator = coord\<rparr>)))))"

section \<open>The round trip\<close>

lemma length_be16 [simp]: "length (be16 n) = 2"
  by (simp add: be16_def)

lemma get16_be16 [simp]:
  assumes "n < 65536" shows "get16 (pre @ be16 n @ rest) (length pre) = n"
proof -
  have "unat (word_of_nat (n div 256) :: byte) = n div 256" "unat (word_of_nat n :: byte) = n mod 256"
    using assms by (simp_all add: unsigned_of_nat take_bit_eq_mod)
  then show ?thesis by (simp add: get16_def be16_def nth_append)
qed

definition strB :: "string \<Rightarrow> bytes" where
  "strB s = be16 (length s) @ bytes_of s"

lemma appendStr_strB: "appendStr buf s = buf @ strB s"
  by (simp add: appendStr_def strB_def)

lemma length_strB [simp]: "length (strB s) = 2 + length s"
  by (simp add: strB_def)

lemma readStrAt_strB:
  assumes "length s < 65536"
  shows "readStrAt (pre @ strB s @ rest) (length pre) = Inr (s, length pre + 2 + length s)"
proof -
  have "get16 (pre @ strB s @ rest) (length pre) = length s"
    using assms get16_be16 [of "length s" pre "bytes_of s @ rest"] by (simp add: strB_def)
  then show ?thesis by (simp add: readStrAt_def) (simp add: strB_def)
qed

lemma readParts_strB:
  assumes "\<And>p. p \<in> set ps \<Longrightarrow> length p < 65536"
  shows "readParts (pre @ concat (map strB ps) @ rest) (length ps) acc (length pre)
    = Inr (acc @ ps, length pre + length (concat (map strB ps)))"
  using assms
proof (induction ps arbitrary: pre acc)
  case (Cons p ps)
  then have "readStrAt (pre @ strB p @ concat (map strB ps) @ rest) (length pre)
      = Inr (p, length pre + 2 + length p)"
    by (intro readStrAt_strB) simp
  with Cons.IH [of "pre @ strB p" "acc @ [p]"] Cons.prems show ?case
    by (simp add: add.assoc)
qed simp

lemma fold_appendStr: "fold (\<lambda>p buf. appendStr buf p) ps buf = buf @ concat (map strB ps)"
  by (induction ps arbitrary: buf) (simp_all add: appendStr_strB)

lemma EncodeCommand_flat: "EncodeCommand c =
  [sc_Op c] @ strB (sc_TxID c) @ [if sc_Commit c then 1 else 0, if sc_Debit c then 1 else 0]
  @ be16 (length (sc_Participants c)) @ concat (map strB (sc_Participants c))
  @ strB (sc_Coordinator c) @ Encode (sc_Ledger c)"
  by (simp add: EncodeCommand_def fold_appendStr) (simp add: appendStr_strB)

definition shard_wire_ok :: "ShardCommand \<Rightarrow> bool" where
  "shard_wire_ok c \<longleftrightarrow> length (sc_TxID c) < 65536 \<and> length (sc_Coordinator c) < 65536
     \<and> length (sc_Participants c) < 65536 \<and> list_all (\<lambda>p. length p < 65536) (sc_Participants c)
     \<and> wire_ok (sc_Ledger c)"

lemma DecodeCommand_EncodeCommand_ok:
  assumes "shard_wire_ok c" shows "DecodeCommand (EncodeCommand c) = Inr c"
proof -
  let ?d = "EncodeCommand c"
  let ?ps = "concat (map strB (sc_Participants c))"
  define p1 where "p1 = [sc_Op c] @ strB (sc_TxID c)"
  define fl :: bytes where "fl = [if sc_Commit c then 1 else 0, if sc_Debit c then 1 else 0]"
  define p2 where "p2 = p1 @ fl @ be16 (length (sc_Participants c))"
  define p3 where "p3 = p2 @ ?ps"
  define p4 where "p4 = p3 @ strB (sc_Coordinator c)"
  note ok = assms [unfolded shard_wire_ok_def list_all_iff]
  have d: "?d = p4 @ Encode (sc_Ledger c)"
    by (simp add: EncodeCommand_flat p1_def p2_def p3_def p4_def fl_def)
  have 1: "readStrAt ?d 1 = Inr (sc_TxID c, length p1)"
    using readStrAt_strB [of "sc_TxID c" "[sc_Op c]"] ok by (simp add: EncodeCommand_flat p1_def)
  have f: "?d ! length p1 = (if sc_Commit c then 1 else 0)"
    "?d ! Suc (length p1) = (if sc_Debit c then 1 else 0)" "?d ! 0 = sc_Op c"
    by (simp_all add: d p4_def p3_def p2_def nth_append fl_def) (simp add: p1_def)
  have 2: "get16 ?d (length p1 + 2) = length (sc_Participants c)"
    using get16_be16 [of "length (sc_Participants c)" "p1 @ fl" "?ps @ strB (sc_Coordinator c) @ Encode (sc_Ledger c)"] ok
    by (simp add: d p4_def p3_def p2_def fl_def)
  have 3: "readParts ?d (length (sc_Participants c)) [] (length p2) = Inr (sc_Participants c, length p3)"
    using readParts_strB [of "sc_Participants c" p2 "strB (sc_Coordinator c) @ Encode (sc_Ledger c)" "[]"] ok
    by (simp add: d p4_def p3_def)
  have 4: "readStrAt ?d (length p3) = Inr (sc_Coordinator c, length p4)"
    using readStrAt_strB [of "sc_Coordinator c" p3 "Encode (sc_Ledger c)"] ok by (simp add: d p4_def)
  have 5: "Decode (drop (length p4) ?d) = Inr (sc_Ledger c)"
    using ok by (simp add: d Decode_Encode_ok)
  have l: "length p2 = Suc (Suc (Suc (Suc (length p1))))" by (simp add: p2_def fl_def)
  have len: "length p2 \<le> length ?d" "0 < length ?d" by (simp_all add: d p4_def p3_def l)
  show ?thesis
    using 1 2 3 4 5 f l len unfolding DecodeCommand_def by (simp add: Let_def add.assoc)
qed

text \<open>C22: every step of the commit protocol reaches the replicas as it was proposed: decoding an
  encoded command gives it back, participants and coordinator included.\<close>

theorem DecodeCommand_EncodeCommand:
  assumes "shard_wire_ok c" shows "DecodeCommand (EncodeCommand c) = Inr c"
  using assms by (rule DecodeCommand_EncodeCommand_ok)

abbreviation sample_prepare :: ShardCommand where
  "sample_prepare \<equiv> \<lparr>sc_Op = 1, sc_TxID = ''t1'', sc_Ledger = \<lparr>cmd_Op = 3, cmd_IdempotencyKey = ''k'',
      cmd_From = ''a'', cmd_To = ''b'', cmd_Amount = 5, cmd_Timestamp = Timestamp 7 1\<rparr>,
      sc_Commit = False, sc_Debit = True, sc_Participants = [''s1'', ''s2''], sc_Coordinator = ''s1''\<rparr>"

theorem DecodeCommand_EncodeCommand_witness:
  "DecodeCommand (EncodeCommand sample_prepare) = Inr sample_prepare"
  by (rule DecodeCommand_EncodeCommand) (simp add: shard_wire_ok_def wire_ok_def in_int64_def)

end
