(* ===== verification/ShardMachine.thy ===== *)
theory ShardMachine
  imports TwoPC StateMachine
begin

text \<open>
  The state machine each shard's Raft group replicates (src/shard/machine.go): single-shard ledger
  commands and the prepare, decision and outcome entries of two-phase commit.

  The map of \<^verbatim>\<open>*TxRecord\<close> is a finite map of records; a handler that updates a record through its
  pointer stores the updated record under the same id. \<^verbatim>\<open>InDoubt\<close> ranges over a Go map, so its
  result is a set here.

  The invariant ties the transaction records to the ledger's reservations. Shown here: no log entry
  panics or unbalances the books; terminal phases are final; a YES vote for a debit can always be
  carried out; what each outcome does to the balances; and two places where money can move without
  the vote the comments promise.
\<close>

record ShardMachine =
  sm_ID :: ShardID
  sm_State :: State
  sm_txs :: "(TxID, TxRecord) fmap"
  sm_results :: "(string, Result) fmap"
  sm_byIndex :: "(nat, Result) fmap"

definition NewShardMachine :: "ShardID \<Rightarrow> State \<Rightarrow> ShardMachine" where
  "NewShardMachine sid st = \<lparr>sm_ID = sid, sm_State = st, sm_txs = fmempty, sm_results = fmempty,
     sm_byIndex = fmempty\<rparr>"

definition recordResult :: "string \<Rightarrow> Result \<Rightarrow> ShardMachine \<Rightarrow> ShardMachine" where
  "recordResult key res m =
     (if key = [] then m else m\<lparr>sm_results := fmupd key res (sm_results m)\<rparr>)"

definition put_tx :: "TxRecord \<Rightarrow> ShardMachine \<Rightarrow> ShardMachine" where
  "put_tx r m = m\<lparr>sm_txs := fmupd (rec_ID r) r (sm_txs m)\<rparr>"

text \<open>The reply to a prepare for a known transaction, \<^const>\<open>None\<close> when it must be voted on.\<close>

definition prepare_known :: "ShardCommand \<Rightarrow> ShardMachine \<Rightarrow> Result option" where
  "prepare_known cmd m =
     (case fmlookup (sm_txs m) (sc_TxID cmd) of
        None \<Rightarrow> None
      | Some prev \<Rightarrow>
          if rec_Decided prev \<or> rec_Phase prev = PhaseCommitted \<or> rec_Phase prev = PhaseAborted
          then Some (failed (''shard: transaction '' @ sc_TxID cmd @ '' is already ''
                  @ Phase_String (rec_Phase prev) @ ''; transaction ids are single-use''))
          else if rec_Phase prev = PhasePrepared then Some (succeeded 0)
          else None)"

text \<open>The vote of \<^verbatim>\<open>applyPrepare\<close>.\<close>

definition vote :: "ShardCommand \<Rightarrow> State \<Rightarrow> Result \<times> State" where
  "vote cmd s =
     (if sc_Debit cmd
      then PrepareDebit (sc_TxID cmd) (cmd_From (sc_Ledger cmd)) (cmd_Amount (sc_Ledger cmd)) s
      else PrepareCredit (sc_TxID cmd) (cmd_To (sc_Ledger cmd)) (cmd_Amount (sc_Ledger cmd)) s)"

definition applyPrepare :: "ShardCommand \<Rightarrow> ShardMachine \<Rightarrow> Result \<times> ShardMachine" where
  "applyPrepare cmd m =
     (case prepare_known cmd m of
        Some res \<Rightarrow> (res, m)
      | None \<Rightarrow>
          let (res, st) = vote cmd (sm_State m);
              m = m\<lparr>sm_State := st\<rparr>
          in if OK res
             then (res, put_tx \<lparr>rec_ID = sc_TxID cmd, rec_Phase = PhasePrepared, rec_Cmd = sc_Ledger cmd,
                    rec_Debit = sc_Debit cmd, rec_Participants = sc_Participants cmd,
                    rec_Coordinator = sc_Coordinator cmd, rec_Decided = False, rec_Commit = False\<rparr> m)
             else (res, put_tx \<lparr>rec_ID = sc_TxID cmd, rec_Phase = PhaseAborted, rec_Cmd = sc_Ledger cmd,
                    rec_Debit = sc_Debit cmd, rec_Participants = [], rec_Coordinator = [],
                    rec_Decided = True, rec_Commit = False\<rparr> m))"

text \<open>The record of \<^verbatim>\<open>applyDecision\<close>: the known one or a new decision record, with the decision.\<close>

definition decided_record :: "ShardCommand \<Rightarrow> ShardMachine \<Rightarrow> TxRecord" where
  "decided_record cmd m =
     (let rc = (case fmlookup (sm_txs m) (sc_TxID cmd) of
                  Some r \<Rightarrow> r
                | None \<Rightarrow> \<lparr>rec_ID = sc_TxID cmd, rec_Phase = PhaseNone, rec_Cmd = sc_Ledger cmd,
                    rec_Debit = sc_Debit cmd, rec_Participants = [], rec_Coordinator = [],
                    rec_Decided = False, rec_Commit = False\<rparr>);
          rc = rc\<lparr>rec_Decided := True, rec_Commit := sc_Commit cmd\<rparr>;
          rc = (if sc_Participants cmd \<noteq> [] then rc\<lparr>rec_Participants := sc_Participants cmd\<rparr> else rc)
      in if sc_Coordinator cmd \<noteq> [] then rc\<lparr>rec_Coordinator := sc_Coordinator cmd\<rparr> else rc)"

definition applyDecision :: "ShardCommand \<Rightarrow> ShardMachine \<Rightarrow> Result \<times> ShardMachine" where
  "applyDecision cmd m =
     (succeeded 0, m\<lparr>sm_txs := fmupd (sc_TxID cmd) (decided_record cmd m) (sm_txs m)\<rparr>)"

definition outcomeTimestamp :: "ShardCommand \<Rightarrow> TxRecord \<Rightarrow> Timestamp" where
  "outcomeTimestamp cmd rc =
     (if \<not> IsZero (cmd_Timestamp (sc_Ledger cmd)) then cmd_Timestamp (sc_Ledger cmd)
      else cmd_Timestamp (rec_Cmd rc))"

text \<open>What \<^verbatim>\<open>applyOutcome\<close> does to the ledger.\<close>

definition settle :: "ShardCommand \<Rightarrow> TxRecord \<Rightarrow> State \<Rightarrow> (Result \<times> State) option" where
  "settle cmd rc s =
     (if sc_Commit cmd then
        (if rec_Debit rc then CommitDebit (sc_TxID cmd) (outcomeTimestamp cmd rc) s
         else CommitCredit (sc_TxID cmd) (cmd_To (rec_Cmd rc)) (cmd_Amount (rec_Cmd rc))
                (outcomeTimestamp cmd rc) s)
      else Some (AbortTx (sc_TxID cmd) s))"

definition applyOutcome :: "ShardCommand \<Rightarrow> ShardMachine \<Rightarrow> (Result \<times> ShardMachine) option" where
  "applyOutcome cmd m =
     (case fmlookup (sm_txs m) (sc_TxID cmd) of
        None \<Rightarrow> Some (failed (''shard: outcome for unknown transaction '' @ sc_TxID cmd
                  @ ''; this shard never prepared it''), m)
      | Some rc \<Rightarrow>
          if rec_Phase rc = PhaseCommitted \<or> rec_Phase rc = PhaseAborted then Some (succeeded 0, m)
          else do {
            (res, st) \<leftarrow> settle cmd rc (sm_State m);
            let rc = rc\<lparr>rec_Phase := (if sc_Commit cmd then PhaseCommitted else PhaseAborted),
                        rec_Decided := True, rec_Commit := sc_Commit cmd\<rparr>;
            Some (res, m\<lparr>sm_State := st, sm_txs := fmupd (sc_TxID cmd) rc (sm_txs m)\<rparr>)
          })"

text \<open>\<^verbatim>\<open>apply\<close> after decoding, and on bytes.\<close>

definition apply_cmd :: "ShardCommand \<Rightarrow> ShardMachine \<Rightarrow> (Result \<times> ShardMachine) option" where
  "apply_cmd cmd m =
     (if sc_Op cmd = OpSingle then do {
        (res, st) \<leftarrow> Apply (sc_Ledger cmd) (sm_State m);
        Some (res, recordResult (cmd_IdempotencyKey (sc_Ledger cmd)) res (m\<lparr>sm_State := st\<rparr>))
      }
      else if sc_Op cmd = OpPrepare then Some (applyPrepare cmd m)
      else if sc_Op cmd = OpDecision then Some (applyDecision cmd m)
      else if sc_Op cmd = OpOutcome then applyOutcome cmd m
      else Some (failed ''shard: unknown op'', m))"

definition shard_apply :: "bytes \<Rightarrow> ShardMachine \<Rightarrow> (Result \<times> ShardMachine) option" where
  "shard_apply data m =
     (case DecodeCommand data of
        Inl e \<Rightarrow> Some (failed e, m)
      | Inr cmd \<Rightarrow> apply_cmd cmd m)"

definition ApplyAt :: "nat \<Rightarrow> bytes \<Rightarrow> ShardMachine \<Rightarrow> (Result \<times> ShardMachine) option" where
  "ApplyAt index data m = do {
     (res, m) \<leftarrow> shard_apply data m;
     Some (res, m\<lparr>sm_byIndex := fmupd index res (sm_byIndex m)\<rparr>)
   }"

definition AppliedResult :: "nat \<Rightarrow> ShardMachine \<Rightarrow> Result" where
  "AppliedResult index m =
     (case fmlookup (sm_byIndex m) index of Some r \<Rightarrow> r | None \<Rightarrow> succeeded 0)"

definition Tx :: "TxID \<Rightarrow> ShardMachine \<Rightarrow> TxRecord option" where
  "Tx txid m = fmlookup (sm_txs m) txid"

definition InDoubt :: "ShardMachine \<Rightarrow> TxID fset" where
  "InDoubt m = ffilter (\<lambda>txid. map_option rec_Phase (fmlookup (sm_txs m) txid) = Some PhasePrepared)
     (fmdom (sm_txs m))"

text \<open>\<^verbatim>\<open>Decision\<close>: \<^const>\<open>None\<close> when the outcome is not known here.\<close>

definition Decision :: "TxID \<Rightarrow> ShardMachine \<Rightarrow> bool option" where
  "Decision txid m =
     (case fmlookup (sm_txs m) txid of
        None \<Rightarrow> None
      | Some r \<Rightarrow> if \<not> rec_Decided r then None else Some (rec_Commit r))"

definition ShardResult :: "string \<Rightarrow> ShardMachine \<Rightarrow> Result option" where
  "ShardResult key m = fmlookup (sm_results m) key"

section \<open>What each ledger operation does to reservations and internal keys\<close>

lemma Apply_frame:
  assumes "Apply c s = Some (res, s')"
  shows "reserves s' = reserves s"
    and "has_prefix internalKeyPrefix k \<Longrightarrow> fmlookup (applied s') k = fmlookup (applied s) k"
  using assms
  by (auto simp: Apply_def Let_def bind_Some_iff split: if_splits option.splits dest!: applyLocked_frame)

lemma PrepareDebit_frame:
  assumes "PrepareDebit tx a n s = (res, s')"
  shows "applied s' = applied s" "balances s' = balances s" "history s' = history s"
    and "k \<noteq> tx \<Longrightarrow> fmlookup (reserves s') k = fmlookup (reserves s) k"
    and "\<not> OK res \<Longrightarrow> s' = s"
  using assms by (auto simp: PrepareDebit_def Let_def split: if_splits option.splits)

lemma PrepareCredit_frame: "PrepareCredit tx a n s = (res, s') \<Longrightarrow> s' = s"
  by (auto simp: PrepareCredit_def split: if_splits option.splits)

lemma CommitDebit_frame:
  assumes "CommitDebit tx ts s = Some (res, s')"
  shows "applied s' = applied s" "reserves s' = fmdrop tx (reserves s)"
  using assms
  by (auto simp: CommitDebit_def Let_def bind_Some_iff set_balance_def fmdrop_idle fmdom_notI
      split: option.splits dest!: record_tx_frame)

lemma CommitCredit_frame:
  assumes "CommitCredit tx a n ts s = Some (res, s')"
  shows "reserves s' = reserves s"
    and "k \<noteq> internalKey tx ''credit'' \<Longrightarrow> fmlookup (applied s') k = fmlookup (applied s) k"
  using assms
  by (auto simp: CommitCredit_def Let_def bind_Some_iff set_balance_def
      split: option.splits if_splits dest!: record_tx_frame)

lemma AbortTx_frame:
  "AbortTx tx s = (res, s') \<Longrightarrow> s' = s\<lparr>reserves := fmdrop tx (reserves s)\<rparr> \<and> OK res"
  by (auto simp: AbortTx_def Let_def fmdrop_idle fmdom_notI split: option.splits)

lemma internalKey_prefix [simp]: "has_prefix internalKeyPrefix (internalKey tx leg)"
  by (simp add: has_prefix_def internalKey_def)

lemma internalKey_inject [simp]: "internalKey tx leg = internalKey tx' leg \<longleftrightarrow> tx = tx'"
  by (simp add: internalKey_def)

section \<open>The invariant\<close>

definition record_ok :: "State \<Rightarrow> TxID \<Rightarrow> TxRecord \<Rightarrow> bool" where
  "record_ok s txid r \<longleftrightarrow>
     rec_ID r = txid \<and> in_int64 (cmd_Amount (rec_Cmd r))
   \<and> (rec_Phase r = PhaseNone \<or> rec_Phase r = PhasePrepared \<or> rec_Phase r = PhaseCommitted \<or> rec_Phase r = PhaseAborted)
   \<and> (rec_Phase r = PhaseNone \<longrightarrow> rec_Decided r)
   \<and> (rec_Phase r = PhasePrepared \<longrightarrow> 0 < cmd_Amount (rec_Cmd r)
        \<and> (\<not> rec_Debit r \<longrightarrow> has_account s (cmd_To (rec_Cmd r))))
   \<and> fmlookup (reserves s) txid =
       (if rec_Phase r = PhasePrepared \<and> rec_Debit r
        then Some \<lparr>rsv_TxID = txid, rsv_Account = cmd_From (rec_Cmd r), rsv_Amount = cmd_Amount (rec_Cmd r)\<rparr>
        else None)
   \<and> (fmlookup (applied s) (internalKey txid ''credit'') \<noteq> None \<longrightarrow> rec_Phase r = PhaseCommitted)"

definition shard_inv :: "ShardMachine \<Rightarrow> bool" where
  "shard_inv m \<longleftrightarrow> ledger_inv (sm_State m)
   \<and> (\<forall>txid r. fmlookup (sm_txs m) txid = Some r \<longrightarrow> record_ok (sm_State m) txid r)
   \<and> (\<forall>txid. fmlookup (sm_txs m) txid = None \<longrightarrow>
        fmlookup (reserves (sm_State m)) txid = None
        \<and> fmlookup (applied (sm_State m)) (internalKey txid ''credit'') = None)"

lemma shard_inv_New: "shard_inv (NewShardMachine sid New)"
  using ledger_inv_New by (simp add: shard_inv_def NewShardMachine_def New_def)

lemma record_tx_balances: "record_tx c es s = Some s' \<Longrightarrow> balances s' = balances s"
  by (auto simp: record_tx_def Let_def split: if_splits)

lemma applyLocked_keeps_account:
  "applyLocked c s = Some (res, s') \<Longrightarrow> has_account s a \<Longrightarrow> has_account s' a"
  by (auto simp: applyLocked_def Let_def bind_Some_iff set_balance_def split: if_splits
      dest!: record_tx_balances)

lemma step_keeps_account:
  assumes "ledger_step p s = Some (res, s')" "has_account s a" shows "has_account s' a"
proof (cases p)
  case (DoApply c)
  then show ?thesis using assms
    by (auto simp: Apply_def Let_def bind_Some_iff split: if_splits option.splits
        dest!: applyLocked_keeps_account [where a = a])
next
  case (DoCommitDebit tx ts)
  then show ?thesis using assms
    by (auto simp: CommitDebit_def Let_def bind_Some_iff set_balance_def
        split: option.splits dest!: record_tx_balances)
next
  case (DoCommitCredit tx b n ts)
  then show ?thesis using assms
    by (auto simp: CommitCredit_def Let_def bind_Some_iff set_balance_def
        split: option.splits if_splits dest!: record_tx_balances)
qed (use assms in \<open>auto simp: PrepareDebit_def PrepareCredit_def AbortTx_def Let_def
      split: option.splits if_splits\<close>)

lemma shard_invD:
  assumes "shard_inv m"
  shows "ledger_inv (sm_State m)"
    and "fmlookup (sm_txs m) txid = Some r \<Longrightarrow> record_ok (sm_State m) txid r"
    and "fmlookup (sm_txs m) txid = None \<Longrightarrow> fmlookup (reserves (sm_State m)) txid = None
      \<and> fmlookup (applied (sm_State m)) (internalKey txid ''credit'') = None"
  using assms unfolding shard_inv_def by blast+

lemma record_ok_frame:
  assumes "record_ok s k q" "fmlookup (reserves st) k = fmlookup (reserves s) k"
    and "fmlookup (applied st) (internalKey k ''credit'') = fmlookup (applied s) (internalKey k ''credit'')"
    and "\<And>a. has_account s a \<Longrightarrow> has_account st a"
  shows "record_ok st k q"
  unfolding record_ok_def using assms(1) [unfolded record_ok_def] assms(2-4) by simp

lemma shard_inv_update:
  assumes "shard_inv m" "ledger_inv st" "record_ok st tx r"
    and "\<And>k. k \<noteq> tx \<Longrightarrow> fmlookup (reserves st) k = fmlookup (reserves (sm_State m)) k"
    and "\<And>k. k \<noteq> tx \<Longrightarrow> fmlookup (applied st) (internalKey k ''credit'')
            = fmlookup (applied (sm_State m)) (internalKey k ''credit'')"
    and "\<And>a. has_account (sm_State m) a \<Longrightarrow> has_account st a"
    and "sm_State m' = st" "sm_txs m' = fmupd tx r (sm_txs m)"
  shows "shard_inv m'"
  unfolding shard_inv_def
proof (intro conjI allI impI)
  show "ledger_inv (sm_State m')" using assms(2,7) by simp
next
  fix k q assume "fmlookup (sm_txs m') k = Some q"
  then show "record_ok (sm_State m') k q"
    using assms(3,7,8) record_ok_frame [OF shard_invD(2) [OF assms(1)] assms(4,5,6)]
    by (cases "k = tx") auto
next
  fix k assume k: "fmlookup (sm_txs m') k = None"
  with assms(8) have "k \<noteq> tx" "fmlookup (sm_txs m) k = None" by (auto split: if_splits)
  then show "fmlookup (reserves (sm_State m')) k = None"
    "fmlookup (applied (sm_State m')) (internalKey k ''credit'') = None"
    using shard_invD(3) [OF assms(1)] assms(4,5,7) by simp_all
qed

lemma shard_inv_single:
  assumes "shard_inv m" "Apply c (sm_State m) = Some (res, st)" "in_int64 (cmd_Amount c)"
    and "sm_State m' = st" "sm_txs m' = sm_txs m"
  shows "shard_inv m'"
proof -
  have l: "ledger_inv st"
    using good_Apply [OF shard_invD(1) [OF assms(1)] assms(3)] assms(2) by (auto simp: good_step_def)
  have a: "has_account st a" if "has_account (sm_State m) a" for a
    using step_keeps_account [of "DoApply c" "sm_State m" res st a] assms(2) that by simp
  note f = Apply_frame(1) [OF assms(2)] Apply_frame(2) [OF assms(2) internalKey_prefix]
  show ?thesis
    unfolding shard_inv_def assms(4,5)
    using l shard_invD(3) [OF assms(1)] record_ok_frame [OF shard_invD(2) [OF assms(1)] _ f(2) a]
    by (simp add: f)
qed

lemma prepare_unknown:
  assumes "shard_inv m" "prepare_known cmd m = None"
  shows "fmlookup (sm_txs m) (sc_TxID cmd) = None"
proof (rule ccontr)
  assume "\<not> ?thesis"
  then obtain r where r: "fmlookup (sm_txs m) (sc_TxID cmd) = Some r" by auto
  from shard_invD(2) [OF assms(1) r] r assms(2) show False
    by (auto simp: prepare_known_def record_ok_def split: if_splits)
qed

lemma vote_facts:
  assumes v: "vote cmd s = (res, st)" and l: "ledger_inv s"
    and n: "fmlookup (reserves s) (sc_TxID cmd) = None"
  shows "ledger_inv st" "applied st = applied s" "balances st = balances s"
    and "k \<noteq> sc_TxID cmd \<Longrightarrow> fmlookup (reserves st) k = fmlookup (reserves s) k"
    and "fmlookup (reserves st) (sc_TxID cmd) = (if OK res \<and> sc_Debit cmd
           then Some \<lparr>rsv_TxID = sc_TxID cmd, rsv_Account = cmd_From (sc_Ledger cmd),
                  rsv_Amount = cmd_Amount (sc_Ledger cmd)\<rparr> else None)"
    and "OK res \<Longrightarrow> 0 < cmd_Amount (sc_Ledger cmd)"
    and "OK res \<Longrightarrow> \<not> sc_Debit cmd \<Longrightarrow> has_account s (cmd_To (sc_Ledger cmd))"
proof -
  let ?p = "PrepareDebit (sc_TxID cmd) (cmd_From (sc_Ledger cmd)) (cmd_Amount (sc_Ledger cmd)) s"
  show "ledger_inv st"
    using good_PrepareDebit [OF l, of "sc_TxID cmd" "cmd_From (sc_Ledger cmd)" "cmd_Amount (sc_Ledger cmd)"] v l
    by (auto simp: good_step_def vote_def dest: PrepareCredit_frame split: if_splits)
  show "applied st = applied s" "balances st = balances s"
    using v by (auto simp: vote_def split: if_splits dest: PrepareDebit_frame(1,2) PrepareCredit_frame)
  show "fmlookup (reserves st) k = fmlookup (reserves s) k" if "k \<noteq> sc_TxID cmd"
    using v that by (auto simp: vote_def split: if_splits dest: PrepareDebit_frame(4) PrepareCredit_frame)
  show "fmlookup (reserves st) (sc_TxID cmd) = (if OK res \<and> sc_Debit cmd
           then Some \<lparr>rsv_TxID = sc_TxID cmd, rsv_Account = cmd_From (sc_Ledger cmd),
                  rsv_Amount = cmd_Amount (sc_Ledger cmd)\<rparr> else None)"
    using v n by (auto simp: vote_def PrepareDebit_def PrepareCredit_def Let_def split: if_splits option.splits)
  show "OK res \<Longrightarrow> 0 < cmd_Amount (sc_Ledger cmd)"
    using v by (auto simp: vote_def PrepareDebit_def PrepareCredit_def split: if_splits option.splits)
  show "OK res \<Longrightarrow> \<not> sc_Debit cmd \<Longrightarrow> has_account s (cmd_To (sc_Ledger cmd))"
    using v by (auto simp: vote_def PrepareCredit_def split: if_splits option.splits)
qed

lemma applyPrepare_inv:
  assumes inv: "shard_inv m" and amt: "in_int64 (cmd_Amount (sc_Ledger cmd))"
    and p: "applyPrepare cmd m = (res, m')"
  shows "shard_inv m'"
proof (cases "prepare_known cmd m")
  case (Some r)
  then show ?thesis using p inv by (simp add: applyPrepare_def)
next
  case None
  note u = shard_invD(3) [OF inv prepare_unknown [OF inv None]]
  obtain res1 st where v: "vote cmd (sm_State m) = (res1, st)" by fastforce
  note f = vote_facts [OF v shard_invD(1) [OF inv] conjunct1 [OF u]]
  let ?r = "\<lparr>rec_ID = sc_TxID cmd, rec_Phase = (if OK res1 then PhasePrepared else PhaseAborted),
       rec_Cmd = sc_Ledger cmd, rec_Debit = sc_Debit cmd,
       rec_Participants = (if OK res1 then sc_Participants cmd else []),
       rec_Coordinator = (if OK res1 then sc_Coordinator cmd else []),
       rec_Decided = (\<not> OK res1), rec_Commit = False\<rparr>"
  have m': "sm_State m' = st" "sm_txs m' = fmupd (sc_TxID cmd) ?r (sm_txs m)"
    using p None v by (auto simp: applyPrepare_def put_tx_def Let_def split: if_splits)
  have "record_ok st (sc_TxID cmd) ?r"
    unfolding record_ok_def using f(5-7) u amt f(2,3) by (cases "OK res1") auto
  from shard_inv_update [OF inv f(1) this _ _ _ m'] f(2-4) show ?thesis by simp
qed

lemma decided_record_fields:
  "fmlookup (sm_txs m) (sc_TxID cmd) = Some q \<Longrightarrow>
     rec_ID (decided_record cmd m) = rec_ID q \<and> rec_Phase (decided_record cmd m) = rec_Phase q
     \<and> rec_Cmd (decided_record cmd m) = rec_Cmd q \<and> rec_Debit (decided_record cmd m) = rec_Debit q"
  "fmlookup (sm_txs m) (sc_TxID cmd) = None \<Longrightarrow>
     rec_ID (decided_record cmd m) = sc_TxID cmd \<and> rec_Phase (decided_record cmd m) = PhaseNone
     \<and> rec_Cmd (decided_record cmd m) = sc_Ledger cmd \<and> rec_Debit (decided_record cmd m) = sc_Debit cmd"
  "rec_Decided (decided_record cmd m)" "rec_Commit (decided_record cmd m) = sc_Commit cmd"
  by (simp_all add: decided_record_def Let_def)

lemma applyDecision_inv:
  assumes inv: "shard_inv m" and amt: "in_int64 (cmd_Amount (sc_Ledger cmd))"
    and p: "applyDecision cmd m = (res, m')"
  shows "shard_inv m'"
proof -
  let ?tx = "sc_TxID cmd" and ?r = "decided_record cmd m"
  have m': "sm_State m' = sm_State m" "sm_txs m' = fmupd ?tx ?r (sm_txs m)"
    using p by (auto simp: applyDecision_def)
  have "record_ok (sm_State m) ?tx ?r"
  proof (cases "fmlookup (sm_txs m) ?tx")
    case None
    with shard_invD(3) [OF inv None] amt decided_record_fields show ?thesis
      by (simp add: record_ok_def)
  next
    case (Some q)
    from shard_invD(2) [OF inv Some] decided_record_fields(1) [OF Some] decided_record_fields(3)
    show ?thesis by (simp add: record_ok_def)
  qed
  from shard_inv_update [OF inv shard_invD(1) [OF inv] this _ _ _ m'] show ?thesis by simp
qed

lemma settle_facts:
  assumes l: "ledger_inv s" and r: "record_ok s (sc_TxID cmd) r"
  obtains res st where "settle cmd r s = Some (res, st)" "ledger_inv st"
    "fmlookup (reserves st) (sc_TxID cmd) = None"
    "\<And>k. k \<noteq> sc_TxID cmd \<Longrightarrow> fmlookup (reserves st) k = fmlookup (reserves s) k"
    "\<And>k. k \<noteq> sc_TxID cmd \<Longrightarrow>
       fmlookup (applied st) (internalKey k ''credit'') = fmlookup (applied s) (internalKey k ''credit'')"
    "\<not> sc_Commit cmd \<Longrightarrow> applied st = applied s \<and> balances st = balances s \<and> history st = history s"
    "\<And>a. has_account s a \<Longrightarrow> has_account st a"
proof (cases "sc_Commit cmd")
  case False
  obtain res st where st: "AbortTx (sc_TxID cmd) s = (res, st)" by fastforce
  then have "ledger_inv st" using good_AbortTx [OF l, of "sc_TxID cmd"] by (auto simp: good_step_def)
  with that [of res st] AbortTx_frame [OF st] False st show ?thesis by (simp add: settle_def)
next
  case True
  show ?thesis
  proof (cases "rec_Debit r")
    case D: True
    obtain res st where st: "CommitDebit (sc_TxID cmd) (outcomeTimestamp cmd r) s = Some (res, st)" "ledger_inv st"
      using good_CommitDebit [OF l, of "sc_TxID cmd" "outcomeTimestamp cmd r"] by (auto simp: good_step_def)
    with that [of res st] CommitDebit_frame [OF st(1)] True D
      step_keeps_account [of "DoCommitDebit (sc_TxID cmd) (outcomeTimestamp cmd r)" s res st]
    show ?thesis by (simp add: settle_def)
  next
    case D: False
    let ?p = "DoCommitCredit (sc_TxID cmd) (cmd_To (rec_Cmd r)) (cmd_Amount (rec_Cmd r)) (outcomeTimestamp cmd r)"
    have "wf_op ?p" using r by (simp add: record_ok_def)
    then obtain res st where st: "ledger_step ?p s = Some (res, st)" "ledger_inv st"
      using ledger_step_good [OF l, of ?p] by (auto simp: good_step_def)
    have "fmlookup (reserves s) (sc_TxID cmd) = None" using r D by (simp add: record_ok_def)
    with that [of res st] CommitCredit_frame [OF st(1) [simplified]] True D st step_keeps_account [OF st(1)]
    show ?thesis by (simp add: settle_def)
  qed
qed

lemma applyOutcome_inv:
  assumes inv: "shard_inv m"
  shows "\<exists>res m'. applyOutcome cmd m = Some (res, m') \<and> shard_inv m'"
proof (cases "fmlookup (sm_txs m) (sc_TxID cmd)")
  case None
  then show ?thesis using inv by (simp add: applyOutcome_def)
next
  case (Some r)
  note ok = shard_invD(2) [OF inv Some]
  show ?thesis
  proof (cases "rec_Phase r = PhaseCommitted \<or> rec_Phase r = PhaseAborted")
    case True
    then show ?thesis using inv Some by (simp add: applyOutcome_def)
  next
    case False
    let ?r = "r\<lparr>rec_Phase := (if sc_Commit cmd then PhaseCommitted else PhaseAborted),
                        rec_Decided := True, rec_Commit := sc_Commit cmd\<rparr>"
    obtain res st where st: "settle cmd r (sm_State m) = Some (res, st)" "ledger_inv st"
      "fmlookup (reserves st) (sc_TxID cmd) = None"
      "\<And>k. k \<noteq> sc_TxID cmd \<Longrightarrow> fmlookup (reserves st) k = fmlookup (reserves (sm_State m)) k"
      "\<And>k. k \<noteq> sc_TxID cmd \<Longrightarrow> fmlookup (applied st) (internalKey k ''credit'')
          = fmlookup (applied (sm_State m)) (internalKey k ''credit'')"
      "\<not> sc_Commit cmd \<Longrightarrow> applied st = applied (sm_State m) \<and> balances st = balances (sm_State m)
          \<and> history st = history (sm_State m)"
      "\<And>a. has_account (sm_State m) a \<Longrightarrow> has_account st a"
      using settle_facts [OF shard_invD(1) [OF inv] ok] by blast
    have "record_ok st (sc_TxID cmd) ?r"
      using ok st(3,6) False by (auto simp: record_ok_def)
    from shard_inv_update [OF inv st(2) this st(4,5,7)] Some False st(1) show ?thesis
      by (simp add: applyOutcome_def Let_def)
  qed
qed

lemma recordResult_frame [simp]:
  "sm_State (recordResult key res m) = sm_State m" "sm_txs (recordResult key res m) = sm_txs m"
  by (simp_all add: recordResult_def)

lemma apply_cmd_inv:
  assumes inv: "shard_inv m" and amt: "in_int64 (cmd_Amount (sc_Ledger cmd))"
  shows "\<exists>res m'. apply_cmd cmd m = Some (res, m') \<and> shard_inv m'"
proof -
  obtain res st where st: "Apply (sc_Ledger cmd) (sm_State m) = Some (res, st)"
    using good_Apply [OF shard_invD(1) [OF inv] amt] by (auto simp: good_step_def)
  let ?m = "recordResult (cmd_IdempotencyKey (sc_Ledger cmd)) res (m\<lparr>sm_State := st\<rparr>)"
  have "shard_inv ?m" by (rule shard_inv_single [OF inv st amt]) simp_all
  moreover obtain rp mp where "applyPrepare cmd m = (rp, mp)" by fastforce
  moreover obtain rd md where "applyDecision cmd m = (rd, md)" by fastforce
  moreover obtain ro mo where "applyOutcome cmd m = Some (ro, mo)" "shard_inv mo"
    using applyOutcome_inv [OF inv] by blast
  ultimately show ?thesis
    using st inv applyPrepare_inv [OF inv amt] applyDecision_inv [OF inv amt]
    by (simp add: apply_cmd_def)
qed

lemma DecodeCommand_amount:
  assumes "DecodeCommand data = Inr cmd" shows "in_int64 (cmd_Amount (sc_Ledger cmd))"
proof -
  have "Decode d = Inr lc \<Longrightarrow> in_int64 (cmd_Amount lc)" for d lc
    by (cases rule: Decode_cases [of d]) auto
  with assms show ?thesis
    by (auto simp: DecodeCommand_def ebind_def Let_def split: if_splits sum.splits prod.splits)
qed

lemma shard_apply_inv:
  assumes "shard_inv m"
  shows "\<exists>res m'. shard_apply data m = Some (res, m') \<and> shard_inv m'"
  using apply_cmd_inv [OF assms DecodeCommand_amount] assms
  by (cases "DecodeCommand data") (simp_all add: shard_apply_def)

lemma shard_inv_byIndex: "shard_inv (m\<lparr>sm_byIndex := b\<rparr>) = shard_inv m"
  by (simp add: shard_inv_def)

lemma ApplyAt_inv:
  assumes "shard_inv m"
  shows "\<exists>res m'. ApplyAt i data m = Some (res, m') \<and> shard_inv m'"
proof -
  obtain res m' where "shard_apply data m = Some (res, m')" "shard_inv m'"
    using shard_apply_inv [OF assms] by blast
  then show ?thesis by (simp add: ApplyAt_def shard_inv_byIndex)
qed

interpretation shard_log: replicated_machine ApplyAt shard_inv
  by unfold_locales (rule ApplyAt_inv)

text \<open>C20: no shard log, however corrupt or adversarial, stops the shard or unbalances its books. Every
  sequence of byte strings is applied to the end; afterwards the audit passes, and the funds held
  back are exactly those of the debits this shard has voted YES on and not yet settled: a
  transaction has a reservation if and only if it is a prepared debit.\<close>

theorem any_shard_log_applies:
  "\<exists>rs m. apply_log ApplyAt 0 ds (NewShardMachine sid New) = Some (rs, m)
     \<and> VerifyDoubleEntry (sm_State m) = None
     \<and> (\<forall>txid. txid \<in> set (InFlight (sm_State m)) \<longleftrightarrow>
          (\<exists>r. Tx txid m = Some r \<and> rec_Phase r = PhasePrepared \<and> rec_Debit r))"
proof -
  obtain rs m where m: "apply_log ApplyAt 0 ds (NewShardMachine sid New) = Some (rs, m)" "shard_inv m"
    using shard_log.apply_log_total [OF shard_inv_New] by blast
  have "txid \<in> set (InFlight (sm_State m)) \<longleftrightarrow> fmlookup (reserves (sm_State m)) txid \<noteq> None" for txid
    by (simp add: InFlight_def sorted_list_of_fset_simps fmlookup_dom_iff)
  moreover have "fmlookup (reserves (sm_State m)) txid \<noteq> None \<longleftrightarrow>
      (\<exists>r. Tx txid m = Some r \<and> rec_Phase r = PhasePrepared \<and> rec_Debit r)" for txid
    using shard_invD(2,3) [OF m(2), of txid]
    by (cases "fmlookup (sm_txs m) txid") (auto simp: Tx_def record_ok_def)
  ultimately show ?thesis
    using m ledger_inv_verified [OF shard_invD(1) [OF m(2)]] by auto
qed

section \<open>Terminal phases are final\<close>

abbreviation terminal :: "Phase \<Rightarrow> bool" where
  "terminal p \<equiv> p = PhaseCommitted \<or> p = PhaseAborted"

lemma apply_cmd_terminal:
  assumes "apply_cmd cmd m = Some (res, m')" "fmlookup (sm_txs m) txid = Some r" "terminal (rec_Phase r)"
  shows "\<exists>r'. fmlookup (sm_txs m') txid = Some r' \<and> rec_Phase r' = rec_Phase r \<and> rec_Debit r' = rec_Debit r
    \<and> rec_Cmd r' = rec_Cmd r"
proof -
  have "prepare_known cmd m \<noteq> None" if "sc_TxID cmd = txid"
    using that assms(2,3) by (simp add: prepare_known_def)
  then have p: "applyPrepare cmd m = (res, m') \<Longrightarrow> fmlookup (sm_txs m') txid = Some r"
    using assms(2) by (cases "sc_TxID cmd = txid")
      (auto simp: applyPrepare_def put_tx_def Let_def split: option.splits prod.splits if_splits)
  have o: "applyOutcome cmd m = Some (res, m') \<Longrightarrow> fmlookup (sm_txs m') txid = Some r"
    using assms(2,3) by (cases "sc_TxID cmd = txid")
      (auto simp: applyOutcome_def Let_def bind_Some_iff split: option.splits prod.splits if_splits)
  have d: "applyDecision cmd m = (res, m') \<Longrightarrow> ?thesis"
    using assms(2) decided_record_fields(1) [of m cmd r]
    by (cases "sc_TxID cmd = txid") (auto simp: applyDecision_def)
  show ?thesis
    using assms(1,2) p o d by (auto simp: apply_cmd_def bind_Some_iff split: if_splits)
qed

lemma shard_apply_cases:
  assumes "shard_apply d m = Some (res, m')"
  obtains "m' = m" | cmd where "DecodeCommand d = Inr cmd" "apply_cmd cmd m = Some (res, m')"
  using assms by (auto simp: shard_apply_def split: sum.splits)

lemma ApplyAt_txs:
  assumes "ApplyAt i d m = Some (res, m')"
  obtains m1 where "shard_apply d m = Some (res, m1)" "sm_txs m' = sm_txs m1" "sm_State m' = sm_State m1"
  using assms by (auto simp: ApplyAt_def bind_Some_iff)

lemma log_terminal:
  assumes "apply_log ApplyAt i ds m = Some (rs, m')" "fmlookup (sm_txs m) txid = Some r" "terminal (rec_Phase r)"
  shows "\<exists>r'. fmlookup (sm_txs m') txid = Some r' \<and> rec_Phase r' = rec_Phase r"
  using assms
proof (induction ds arbitrary: i m r rs)
  case (Cons d ds)
  then obtain res m1 rs1 where s: "ApplyAt (Suc i) d m = Some (res, m1)"
    "apply_log ApplyAt (Suc i) ds m1 = Some (rs1, m')" by (auto simp: bind_Some_iff)
  obtain r1 where "fmlookup (sm_txs m1) txid = Some r1" "rec_Phase r1 = rec_Phase r"
  proof (rule ApplyAt_txs [OF s(1)])
    fix m2 assume m2: "shard_apply d m = Some (res, m2)" "sm_txs m1 = sm_txs m2"
    then show ?thesis
      using apply_cmd_terminal [OF _ Cons.prems(2,3)] Cons.prems(2) that
      by (elim shard_apply_cases) fastforce+
  qed
  with Cons.IH [OF s(2)] Cons.prems(3) show ?case by auto
qed auto

text \<open>C19: an outcome takes effect at most once and transaction ids are single-use. Once a transaction
  is committed or aborted at a shard, then after any further log entries whatsoever its phase is
  still the same, every further outcome entry for it leaves the whole machine unchanged, and every
  further prepare for it is refused and leaves the machine unchanged.\<close>

theorem terminal_is_final:
  assumes "Tx txid m = Some r" "rec_Phase r = PhaseCommitted \<or> rec_Phase r = PhaseAborted"
    and "apply_log ApplyAt i ds m = Some (rs, m')" "sc_TxID cmd = txid"
  shows "(\<exists>r'. Tx txid m' = Some r' \<and> rec_Phase r' = rec_Phase r)
    \<and> applyOutcome cmd m' = Some (succeeded 0, m')
    \<and> \<not> OK (fst (applyPrepare cmd m')) \<and> snd (applyPrepare cmd m') = m'"
proof -
  obtain r' where r': "fmlookup (sm_txs m') txid = Some r'" "rec_Phase r' = rec_Phase r"
    using log_terminal [OF assms(3)] assms(1,2) by (auto simp: Tx_def)
  then show ?thesis using assms(2,4)
    by (auto simp: Tx_def applyOutcome_def applyPrepare_def prepare_known_def)
qed

section \<open>A vote is a promise\<close>

definition settles :: "TxID \<Rightarrow> bytes \<Rightarrow> bool" where
  "settles txid d = (case DecodeCommand d of Inl e \<Rightarrow> False | Inr c \<Rightarrow> sc_Op c = OpOutcome \<and> sc_TxID c = txid)"

lemma apply_cmd_prepared:
  assumes "apply_cmd cmd m = Some (res, m')" "fmlookup (sm_txs m) txid = Some r" "rec_Phase r = PhasePrepared"
    and "\<not> (sc_Op cmd = OpOutcome \<and> sc_TxID cmd = txid)"
  shows "\<exists>r'. fmlookup (sm_txs m') txid = Some r' \<and> rec_Phase r' = PhasePrepared \<and> rec_Debit r' = rec_Debit r
    \<and> rec_Cmd r' = rec_Cmd r"
proof -
  have "prepare_known cmd m \<noteq> None" if "sc_TxID cmd = txid"
    using that assms(2,3) by (simp add: prepare_known_def)
  then have p: "applyPrepare cmd m = (res, m') \<Longrightarrow> fmlookup (sm_txs m') txid = Some r"
    using assms(2) by (cases "sc_TxID cmd = txid")
      (auto simp: applyPrepare_def put_tx_def Let_def split: option.splits prod.splits if_splits)
  have o: "applyOutcome cmd m = Some (res, m') \<Longrightarrow> sc_TxID cmd \<noteq> txid \<Longrightarrow> fmlookup (sm_txs m') txid = Some r"
    using assms(2) by (auto simp: applyOutcome_def Let_def bind_Some_iff split: option.splits prod.splits if_splits)
  have d: "applyDecision cmd m = (res, m') \<Longrightarrow> ?thesis"
    using assms(2,3) decided_record_fields(1) [of m cmd r]
    by (cases "sc_TxID cmd = txid") (auto simp: applyDecision_def)
  show ?thesis
    using assms p o d by (auto simp: apply_cmd_def bind_Some_iff split: if_splits)
qed

lemma log_prepared:
  assumes "apply_log ApplyAt i ds m = Some (rs, m')" "fmlookup (sm_txs m) txid = Some r"
    "rec_Phase r = PhasePrepared" "list_all (\<lambda>d. \<not> settles txid d) ds"
  shows "\<exists>r'. fmlookup (sm_txs m') txid = Some r' \<and> rec_Phase r' = PhasePrepared \<and> rec_Debit r' = rec_Debit r
    \<and> rec_Cmd r' = rec_Cmd r"
  using assms
proof (induction ds arbitrary: i m r rs)
  case (Cons d ds)
  then obtain res m1 rs1 where s: "ApplyAt (Suc i) d m = Some (res, m1)"
    "apply_log ApplyAt (Suc i) ds m1 = Some (rs1, m')" by (auto simp: bind_Some_iff)
  obtain r1 where "fmlookup (sm_txs m1) txid = Some r1" "rec_Phase r1 = PhasePrepared"
      "rec_Debit r1 = rec_Debit r" "rec_Cmd r1 = rec_Cmd r"
  proof (rule ApplyAt_txs [OF s(1)])
    fix m2 assume m2: "shard_apply d m = Some (res, m2)" "sm_txs m1 = sm_txs m2"
    then show ?thesis
      using apply_cmd_prepared [OF _ Cons.prems(2,3)] Cons.prems(2-4) that
      by (elim shard_apply_cases) (fastforce simp: settles_def)+
  qed
  with Cons.IH [OF s(2)] Cons.prems(4) show ?case by auto
qed auto

lemma CommitCredit_effect:
  assumes inv: "ledger_inv s" and a: "fmlookup (balances s) a = Some b" and n: "0 < n" "in_int64 n"
    and k: "fmlookup (applied s) (internalKey tx ''credit'') = None"
  shows "\<exists>res st. CommitCredit tx a n ts s = Some (res, st) \<and> OK res = (b + n \<le> maxMoney)
    \<and> balances st = (if b + n \<le> maxMoney then fmupd a (b + n) (balances s) else balances s)
    \<and> money st = money s + (if b + n \<le> maxMoney then n else 0)"
proof -
  note fb = funds_bounds [OF inv a]
  have w: "wrap64 (maxMoney - n) = maxMoney - n"
    using n by (intro wrap64_id) (simp add: in_int64_def maxMoney_def)
  obtain res st where st: "CommitCredit tx a n ts s = Some (res, st)"
    using good_CommitCredit [OF inv n(2), of tx a ts] by (auto simp: good_step_def)
  show ?thesis
  proof (cases "b + n \<le> maxMoney")
    case True
    have "wrap64 (b + n) = b + n"
      using True fb n by (intro wrap64_id) (simp add: in_int64_def maxMoney_def)
    with True st a k w have "OK res" "balances st = fmupd a (b + n) (balances s)"
      by (auto simp: CommitCredit_def Let_def bind_Some_iff set_balance_def getm_def
          dest!: record_tx_balances)
    with st True a show ?thesis by (simp add: money_def fm_sum_upd)
  next
    case False
    with st a k w show ?thesis by (auto simp: CommitCredit_def Let_def getm_def)
  qed
qed

lemma CommitDebit_effect:
  assumes inv: "ledger_inv s" and r: "fmlookup (reserves s) tx = Some r"
  obtains res st b where "CommitDebit tx ts s = Some (res, st)" "OK res"
    "fmlookup (balances s) (rsv_Account r) = Some b" "rsv_Amount r \<le> b"
    "balances st = fmupd (rsv_Account r) (b - rsv_Amount r) (balances s)"
    "money st = money s - rsv_Amount r"
proof -
  obtain res st where st: "CommitDebit tx ts s = Some (res, st)" "OK res" "money st = money s - rsv_Amount r"
    using CommitDebit_held [OF inv r] by blast
  obtain b where b: "fmlookup (balances s) (rsv_Account r) = Some b"
    using inv r by (fastforce simp: ledger_inv_def reserves_ok_def)
  have le: "rsv_Amount r \<le> b" "0 < rsv_Amount r"
    using held_member_le [OF _ r] funds_bounds(1) [OF inv b] inv r
    by (auto simp: ledger_inv_def reserves_ok_def)
  then have "wrap64 (b - rsv_Amount r) = b - rsv_Amount r"
    using funds_bounds [OF inv b] by (intro wrap64_id) (auto simp: in_int64_def maxMoney_def)
  with st r b have "balances st = fmupd (rsv_Account r) (b - rsv_Amount r) (balances s)"
    by (auto simp: CommitDebit_def Let_def bind_Some_iff set_balance_def getm_def dest!: record_tx_balances)
  with that st b le show ?thesis by blast
qed

text \<open>The effect of the outcome on a prepared transaction.\<close>

lemma outcome_effect:
  assumes inv: "shard_inv m" and r: "fmlookup (sm_txs m) (sc_TxID cmd) = Some r" "rec_Phase r = PhasePrepared"
  defines "a \<equiv> (if rec_Debit r then cmd_From (rec_Cmd r) else cmd_To (rec_Cmd r))"
    and "n \<equiv> cmd_Amount (rec_Cmd r)"
  shows "\<exists>res m' b. applyOutcome cmd m = Some (res, m')
    \<and> fmlookup (balances (sm_State m)) a = Some b \<and> 0 < n \<and> (rec_Debit r \<longrightarrow> n \<le> b)
    \<and> OK res = (\<not> (sc_Commit cmd \<and> \<not> rec_Debit r \<and> maxMoney < b + n))
    \<and> balances (sm_State m') =
        (if sc_Commit cmd \<and> OK res then fmupd a (if rec_Debit r then b - n else b + n) (balances (sm_State m))
         else balances (sm_State m))
    \<and> money (sm_State m') = money (sm_State m) +
        (if sc_Commit cmd \<and> OK res then (if rec_Debit r then - n else n) else 0)
    \<and> map_option rec_Phase (Tx (sc_TxID cmd) m') = Some (if sc_Commit cmd then PhaseCommitted else PhaseAborted)"
proof -
  let ?s = "sm_State m" and ?tx = "sc_TxID cmd"
  note l = shard_invD(1) [OF inv] and ok = shard_invD(2) [OF inv r(1), unfolded record_ok_def]
  have n: "0 < n" "in_int64 n" using ok r(2) by (simp_all add: n_def)
  have step: "applyOutcome cmd m = Some (res, m\<lparr>sm_State := st, sm_txs := fmupd ?tx
       (r\<lparr>rec_Phase := (if sc_Commit cmd then PhaseCommitted else PhaseAborted),
          rec_Decided := True, rec_Commit := sc_Commit cmd\<rparr>) (sm_txs m)\<rparr>)"
    if "settle cmd r ?s = Some (res, st)" for res st
    using that r by (simp add: applyOutcome_def Let_def)
  show ?thesis
  proof (cases "rec_Debit r")
    case True
    then have rs: "fmlookup (reserves ?s) ?tx = Some \<lparr>rsv_TxID = ?tx, rsv_Account = a, rsv_Amount = n\<rparr>"
      using ok r(2) by (simp add: a_def n_def)
    obtain res st b where c: "CommitDebit ?tx (outcomeTimestamp cmd r) ?s = Some (res, st)" "OK res"
      "fmlookup (balances ?s) a = Some b" "n \<le> b" "balances st = fmupd a (b - n) (balances ?s)"
      "money st = money ?s - n"
      using CommitDebit_effect [OF l rs, of "outcomeTimestamp cmd r"] by auto
    obtain res2 st2 where ab: "AbortTx ?tx ?s = (res2, st2)" by fastforce
    show ?thesis
    proof (cases "sc_Commit cmd")
      case C: True
      show ?thesis using step [of res st] True C c n by (simp add: settle_def Tx_def)
    next
      case C: False
      show ?thesis using step [of res2 st2] True C c(3,4) n AbortTx_frame [OF ab] ab
        by (simp add: settle_def Tx_def money_def)
    qed
  next
    case False
    then obtain b where b: "fmlookup (balances ?s) a = Some b" using ok r(2) by (auto simp: a_def)
    have "fmlookup (applied ?s) (internalKey ?tx ''credit'') = None"
      using ok r(2) Phase_distinct by metis
    then obtain res st where c: "CommitCredit ?tx a n (outcomeTimestamp cmd r) ?s = Some (res, st)"
      "OK res = (b + n \<le> maxMoney)"
      "balances st = (if b + n \<le> maxMoney then fmupd a (b + n) (balances ?s) else balances ?s)"
      "money st = money ?s + (if b + n \<le> maxMoney then n else 0)"
      using CommitCredit_effect [OF l b n] by blast
    obtain res2 st2 where ab: "AbortTx ?tx ?s = (res2, st2)" by fastforce
    show ?thesis
    proof (cases "sc_Commit cmd")
      case C: True
      have "settle cmd r ?s = Some (res, st)" using False C c(1) by (simp add: settle_def a_def n_def)
      then show ?thesis using step [of res st] False C c(2-4) b n by (simp add: Tx_def)
    next
      case C: False
      show ?thesis using step [of res2 st2] False C b n AbortTx_frame [OF ab] ab
        by (simp add: settle_def Tx_def money_def)
    qed
  qed
qed

text \<open>C18: a YES vote is a promise that survives the log. Once a shard has voted YES on the debit leg of
  a transaction, then after any further log entries (other than outcomes of this very transaction,
  and including withdrawals from the same account and later decisions) a commit outcome still
  succeeds, and takes exactly the promised amount out of the promised account.\<close>

theorem yes_vote_is_kept:
  assumes "shard_inv m" "in_int64 (cmd_Amount (sc_Ledger cmd))" "sc_Debit cmd"
    and "fmlookup (sm_txs m) (sc_TxID cmd) = None"
    and "applyPrepare cmd m = (res, m1)" "OK res"
    and "apply_log ApplyAt i ds m1 = Some (rs, m2)" "list_all (\<lambda>d. \<not> settles (sc_TxID cmd) d) ds"
    and "sc_TxID oc = sc_TxID cmd" "sc_Commit oc"
  shows "\<exists>res' m3. applyOutcome oc m2 = Some (res', m3) \<and> OK res'
    \<and> fst (Balance_of (cmd_From (sc_Ledger cmd)) (sm_State m3))
        = fst (Balance_of (cmd_From (sc_Ledger cmd)) (sm_State m2)) - cmd_Amount (sc_Ledger cmd)"
proof -
  have inv1: "shard_inv m1" by (rule applyPrepare_inv [OF assms(1,2,5)])
  then have inv2: "shard_inv m2" using shard_log.apply_log_total [OF inv1, of i ds] assms(7) by auto
  obtain r where r: "fmlookup (sm_txs m1) (sc_TxID cmd) = Some r" "rec_Phase r = PhasePrepared"
      "rec_Debit r" "rec_Cmd r = sc_Ledger cmd"
    using assms(3-6) by (auto simp: applyPrepare_def prepare_known_def put_tx_def Let_def
        split: prod.splits if_splits)
  obtain r' where r': "fmlookup (sm_txs m2) (sc_TxID oc) = Some r'" "rec_Phase r' = PhasePrepared"
      "rec_Debit r'" "rec_Cmd r' = sc_Ledger cmd"
    using log_prepared [OF assms(7) r(1,2) assms(8)] r assms(9) by auto
  from outcome_effect [OF inv2 r'(1,2)] r'(3,4) assms(10) show ?thesis
    by (auto simp: Balance_of_def)
qed

section \<open>Both legs of a transfer\<close>

text \<open>Debit shard \<open>A\<close> and credit shard \<open>B\<close> have voted YES on the same transaction.\<close>

definition both_prepared :: "TxID \<Rightarrow> Command \<Rightarrow> ShardMachine \<Rightarrow> ShardMachine \<Rightarrow> bool" where
  "both_prepared txid c A B \<longleftrightarrow>
     (case (Tx txid A, Tx txid B) of
        (Some ra, Some rb) \<Rightarrow> rec_Phase ra = PhasePrepared \<and> rec_Debit ra \<and> rec_Cmd ra = c
          \<and> rec_Phase rb = PhasePrepared \<and> \<not> rec_Debit rb \<and> rec_Cmd rb = c
      | _ \<Rightarrow> False)"


text \<open>the credit vote does not reserve room. When the credited balance has grown so far that the
  credit overflows, the commit outcome debits the one shard, credits nothing at the other, and
  marks the transaction committed at both: the amount is lost. \<^verbatim>\<open>PrepareCredit\<close> checks only that the
  account exists.\<close>

theorem credit_overflow_destroys_money:
  assumes "shard_inv A" "shard_inv B" "both_prepared txid c A B"
    and "sc_TxID oA = txid" "sc_TxID oB = txid" "sc_Commit oA" "sc_Commit oB"
    and "maxMoney < fst (Balance_of (cmd_To c) (sm_State B)) + cmd_Amount c"
  shows "\<exists>ra A' rb B'. applyOutcome oA A = Some (ra, A') \<and> applyOutcome oB B = Some (rb, B') \<and> OK ra \<and> \<not> OK rb
    \<and> money (sm_State A') + money (sm_State B') = money (sm_State A) + money (sm_State B) - cmd_Amount c
    \<and> map_option rec_Phase (Tx txid A') = Some PhaseCommitted
    \<and> map_option rec_Phase (Tx txid B') = Some PhaseCommitted"
proof -
  obtain ra rb where r: "fmlookup (sm_txs A) txid = Some ra" "rec_Phase ra = PhasePrepared" "rec_Debit ra"
      "rec_Cmd ra = c" "fmlookup (sm_txs B) txid = Some rb" "rec_Phase rb = PhasePrepared" "\<not> rec_Debit rb"
      "rec_Cmd rb = c"
    using assms(3) by (auto simp: both_prepared_def Tx_def split: option.splits)
  obtain resA A' where A: "applyOutcome oA A = Some (resA, A')" "OK resA"
      "money (sm_State A') = money (sm_State A) - cmd_Amount c"
      "map_option rec_Phase (Tx txid A') = Some PhaseCommitted"
    using outcome_effect [OF assms(1), of oA ra] r assms(4,6) by auto
  obtain resB B' where B: "applyOutcome oB B = Some (resB, B')" "\<not> OK resB"
      "money (sm_State B') = money (sm_State B)" "map_option rec_Phase (Tx txid B') = Some PhaseCommitted"
    using outcome_effect [OF assms(2), of oB rb] r assms(5,7,8) by (auto simp: Balance_of_def)
  show ?thesis using A B by simp
qed

text \<open>a decision record can move money without a vote. When a commit decision for a credit reaches
  a shard that never prepared the transaction, a following commit outcome credits the account,
  although the shard made no promise and no reservation exists anywhere.\<close>

theorem decision_record_credits_without_vote:
  assumes "shard_inv m" "fmlookup (sm_txs m) (sc_TxID d) = None" "\<not> sc_Debit d"
    and "fmlookup (balances (sm_State m)) (cmd_To (sc_Ledger d)) = Some b"
    and "0 < cmd_Amount (sc_Ledger d)" "in_int64 (cmd_Amount (sc_Ledger d))"
    and "b + cmd_Amount (sc_Ledger d) \<le> maxMoney"
    and "sc_TxID oc = sc_TxID d" "sc_Commit oc"
  shows "\<exists>res m'. applyOutcome oc (snd (applyDecision d m)) = Some (res, m') \<and> OK res
    \<and> money (sm_State m') = money (sm_State m) + cmd_Amount (sc_Ledger d)"
proof -
  have k: "fmlookup (applied (sm_State m)) (internalKey (sc_TxID oc) ''credit'') = None"
    using shard_invD(3) [OF assms(1,2)] assms(8) by simp
  let ?r = "decided_record d m"
  note f = decided_record_fields(2) [OF assms(2)]
  obtain res st where "CommitCredit (sc_TxID oc) (cmd_To (sc_Ledger d)) (cmd_Amount (sc_Ledger d))
        (outcomeTimestamp oc ?r) (sm_State m) = Some (res, st)" "OK res"
      "money st = money (sm_State m) + cmd_Amount (sc_Ledger d)"
    using CommitCredit_effect [OF shard_invD(1) [OF assms(1)] assms(4,5,6) k, of "outcomeTimestamp oc ?r"] assms(7)
    by auto
  then show ?thesis
    using f assms(3,8,9) by (simp add: applyDecision_def applyOutcome_def settle_def Let_def)
qed

section \<open>Concrete machines\<close>

text \<open>A shard with one account, and what its transaction table holds.\<close>

abbreviation acct_state :: "AccountID \<Rightarrow> Money \<Rightarrow> (string, Reserve) fmap \<Rightarrow> State" where
  "acct_state a b rs \<equiv> \<lparr>balances = fmupd a b fmempty, applied = fmempty, fingerprints = fmempty,
     history = [\<lparr>tx_Seq = 1, tx_Op = 4, tx_IdempotencyKey = ''k'',
       tx_Entries = [\<lparr>ent_Account = a, ent_Amount = b\<rparr>], tx_Timestamp = zero_ts\<rparr>],
     reserves = rs, seq = 1\<rparr>"

abbreviation sample_transfer :: Command where
  "sample_transfer \<equiv> \<lparr>cmd_Op = 3, cmd_IdempotencyKey = ''k'', cmd_From = ''a'', cmd_To = ''b'',
     cmd_Amount = 4, cmd_Timestamp = zero_ts\<rparr>"

abbreviation sample_record :: "Phase \<Rightarrow> bool \<Rightarrow> TxRecord" where
  "sample_record p d \<equiv> \<lparr>rec_ID = ''t'', rec_Phase = p, rec_Cmd = sample_transfer, rec_Debit = d,
     rec_Participants = [''A'', ''B''], rec_Coordinator = ''A'', rec_Decided = False, rec_Commit = False\<rparr>"

abbreviation sample_step :: "byte \<Rightarrow> bool \<Rightarrow> bool \<Rightarrow> ShardCommand" where
  "sample_step opr commit debit \<equiv> \<lparr>sc_Op = opr, sc_TxID = ''t'', sc_Ledger = sample_transfer,
     sc_Commit = commit, sc_Debit = debit, sc_Participants = [''A'', ''B''], sc_Coordinator = ''A''\<rparr>"

definition debit_shard :: ShardMachine where
  "debit_shard = (NewShardMachine ''A'' (acct_state ''a'' 10
      (fmupd ''t'' \<lparr>rsv_TxID = ''t'', rsv_Account = ''a'', rsv_Amount = 4\<rparr> fmempty)))
     \<lparr>sm_txs := fmupd ''t'' (sample_record PhasePrepared True) fmempty\<rparr>"

definition credit_shard :: "Money \<Rightarrow> ShardMachine" where
  "credit_shard b = (NewShardMachine ''B'' (acct_state ''b'' b fmempty))
     \<lparr>sm_txs := fmupd ''t'' (sample_record PhasePrepared False) fmempty\<rparr>"

definition idle_shard :: "AccountID \<Rightarrow> ShardMachine" where
  "idle_shard a = NewShardMachine ''A'' (acct_state a 10 fmempty)"

lemma acct_state_inv:
  assumes "0 \<le> b" "b \<le> maxMoney" "reserves_ok (acct_state a b rs)" "held a rs \<le> b"
  shows "ledger_inv (acct_state a b rs)"
  using assms
  by (simp add: ledger_inv_def funds_ok_def history_ok_def keys_ok_def derive_def add_entry_def
      tx_balances_def getm_def in_int64_def maxMoney_def)

lemma debit_shard_inv: "shard_inv debit_shard"
proof -
  have "ledger_inv (acct_state ''a'' 10 (fmupd ''t'' \<lparr>rsv_TxID = ''t'', rsv_Account = ''a'', rsv_Amount = 4\<rparr> fmempty))"
    by (rule acct_state_inv) (simp_all add: maxMoney_def reserves_ok_def fm_sum_upd)
  then show ?thesis by (simp add: shard_inv_def debit_shard_def NewShardMachine_def record_ok_def in_int64_def)
qed

lemma credit_shard_inv: "0 \<le> b \<Longrightarrow> b \<le> maxMoney \<Longrightarrow> shard_inv (credit_shard b)"
  using acct_state_inv [of b "''b''" fmempty]
  by (simp add: reserves_ok_def shard_inv_def credit_shard_def NewShardMachine_def record_ok_def in_int64_def)

lemma idle_shard_inv: "shard_inv (idle_shard a)"
  using acct_state_inv [of 10 a fmempty]
  by (simp add: reserves_ok_def maxMoney_def shard_inv_def idle_shard_def NewShardMachine_def)

lemma both_prepared_sample: "both_prepared ''t'' sample_transfer debit_shard (credit_shard b)"
  by (simp add: both_prepared_def Tx_def debit_shard_def credit_shard_def)

theorem terminal_is_final_witness:
  "applyOutcome (sample_step 3 False True) (debit_shard\<lparr>sm_txs := fmupd ''t'' (sample_record PhaseCommitted True) fmempty\<rparr>)
   = Some (succeeded 0, debit_shard\<lparr>sm_txs := fmupd ''t'' (sample_record PhaseCommitted True) fmempty\<rparr>)"
  using terminal_is_final [of "''t''" "debit_shard\<lparr>sm_txs := fmupd ''t'' (sample_record PhaseCommitted True) fmempty\<rparr>"
      "sample_record PhaseCommitted True" 0 "[]" "[]" _ "sample_step 3 False True"]
  by (simp add: Tx_def)

theorem yes_vote_is_kept_witness:
  "\<exists>m1 rs m2 res' m3. applyPrepare (sample_step 1 False True) (idle_shard ''a'') = (succeeded 6, m1)
    \<and> apply_log ApplyAt 0 [[]] m1 = Some (rs, m2)
    \<and> applyOutcome (sample_step 3 True True) m2 = Some (res', m3) \<and> OK res'
    \<and> fst (Balance_of ''a'' (sm_State m3)) = fst (Balance_of ''a'' (sm_State m2)) - 4"
proof -
  obtain res m1 where m1: "applyPrepare (sample_step 1 False True) (idle_shard ''a'') = (res, m1)" by fastforce
  have res: "res = succeeded 6"
    using m1 by (simp add: applyPrepare_def prepare_known_def idle_shard_def NewShardMachine_def vote_def
        PrepareDebit_def Let_def availableLocked_def reservedLocked_def put_tx_def wsum_eq
        sum_list_sorted_fmap fm_sum_upd in_int64_def)
  have "shard_inv m1" by (rule applyPrepare_inv [OF idle_shard_inv _ m1]) (simp add: in_int64_def)
  then obtain rs m2 where m2: "apply_log ApplyAt 0 [[]] m1 = Some (rs, m2)"
    using shard_log.apply_log_total by blast
  have "list_all (\<lambda>d. \<not> settles ''t'' d) [[]]" by (simp add: settles_def DecodeCommand_def)
  with yes_vote_is_kept [OF idle_shard_inv _ _ _ m1 _ m2, of "sample_step 3 True True"] m1 m2 res
  show ?thesis by (simp add: in_int64_def idle_shard_def NewShardMachine_def del: apply_log.simps)
qed


theorem credit_overflow_destroys_money_witness:
  "\<exists>ra A' rb B'. applyOutcome (sample_step 3 True True) debit_shard = Some (ra, A')
    \<and> applyOutcome (sample_step 3 True False) (credit_shard maxMoney) = Some (rb, B') \<and> OK ra \<and> \<not> OK rb
    \<and> money (sm_State A') + money (sm_State B')
        = money (sm_State debit_shard) + money (sm_State (credit_shard maxMoney)) - 4"
proof -
  have "maxMoney < fst (Balance_of ''b'' (sm_State (credit_shard maxMoney))) + 4"
    by (simp add: Balance_of_def credit_shard_def NewShardMachine_def)
  moreover have "0 \<le> maxMoney" by (simp add: maxMoney_def)
  ultimately show ?thesis
    using credit_overflow_destroys_money [OF debit_shard_inv credit_shard_inv both_prepared_sample,
      of maxMoney "sample_step 3 True True" "sample_step 3 True False"] by auto
qed

theorem decision_record_credits_without_vote_witness:
  "\<exists>res m'. applyOutcome (sample_step 3 True False) (snd (applyDecision (sample_step 2 True False) (idle_shard ''b'')))
      = Some (res, m') \<and> OK res \<and> money (sm_State m') = money (sm_State (idle_shard ''b'')) + 4"
  using decision_record_credits_without_vote [where d = "sample_step 2 True False" and b = 10
      and oc = "sample_step 3 True False", OF idle_shard_inv [of "''b''"]]
  by (simp add: idle_shard_def NewShardMachine_def in_int64_def maxMoney_def)

end
