(* ===== verification/ShardSnapshot.thy ===== *)
theory ShardSnapshot
  imports ShardMachine LedgerSnapshot
begin

text \<open>
  The shard machine's snapshot (src/shard/snapshot.go). The ledger's snapshot goes in
  length-prefixed; the transaction records and the single-shard results follow in sorted order;
  \<^verbatim>\<open>byIndex\<close> is reset on restore.

  Shown here: restoring gives back the ledger, the results and every transaction record except for
  the timestamp of its command, which the format omits; replaying the log from a snapshot gives the
  same replies and the same machine up to timestamps; and what the omission costs: a recovered
  outcome is booked at the zero timestamp.
\<close>

section \<open>Writing\<close>

definition put_shard_id :: "ShardID \<Rightarrow> bytes" where
  "put_shard_id p = putStr p"

definition put_txrecord :: "TxID \<times> TxRecord \<Rightarrow> bytes" where
  "put_txrecord = (\<lambda>(k, r).
     putStr (rec_ID r) @ putUint64 (unat (rec_Phase r)) @ putBool (rec_Debit r) @ putBool (rec_Decided r)
     @ putBool (rec_Commit r) @ putStr (rec_Coordinator r)
     @ putUint64 (length (rec_Participants r)) @ concat (map put_shard_id (rec_Participants r))
     @ putUint64 (unat (cmd_Op (rec_Cmd r))) @ putStr (cmd_IdempotencyKey (rec_Cmd r))
     @ putStr (cmd_From (rec_Cmd r)) @ putStr (cmd_To (rec_Cmd r))
     @ putUint64 (u64_of_int64 (cmd_Amount (rec_Cmd r))))"

definition ShardSnapshot :: "ShardMachine \<Rightarrow> bytes" where
  "ShardSnapshot m =
     (let ledgerData = Snapshot (sm_State m) in
      putUint64 (length ledgerData) @ ledgerData
      @ putUint64 (fcard (fmdom (sm_txs m))) @ concat (map put_txrecord (sorted_list_of_fmap (sm_txs m)))
      @ putUint64 (fcard (fmdom (sm_results m))) @ concat (map put_result (sorted_list_of_fmap (sm_results m))))"

section \<open>Reading\<close>

definition read_part :: "ShardID list \<Rightarrow> (reader, ShardID list) state" where
  "read_part ps = do { p \<leftarrow> r_str; State_Monad.return (ps @ [p]) }"

definition read_txrecord :: "(TxID, TxRecord) fmap \<Rightarrow> (reader, (TxID, TxRecord) fmap) state" where
  "read_txrecord txs = do {
     txid \<leftarrow> r_str;
     phase \<leftarrow> r_uint64;
     debit \<leftarrow> r_bool;
     decided \<leftarrow> r_bool;
     commit \<leftarrow> r_bool;
     coord \<leftarrow> r_str;
     n \<leftarrow> r_uint64;
     parts \<leftarrow> loop n read_part [];
     opr \<leftarrow> r_uint64;
     key \<leftarrow> r_str;
     src \<leftarrow> r_str;
     dst \<leftarrow> r_str;
     amt \<leftarrow> r_uint64;
     err \<leftarrow> r_error;
     State_Monad.return (if err = None then fmupd txid
       \<lparr>rec_ID = txid, rec_Phase = word_of_nat phase,
        rec_Cmd = \<lparr>cmd_Op = word_of_nat opr, cmd_IdempotencyKey = key, cmd_From = src, cmd_To = dst,
                   cmd_Amount = int64_of_u64 amt, cmd_Timestamp = zero_ts\<rparr>,
        rec_Debit = debit, rec_Participants = parts, rec_Coordinator = coord,
        rec_Decided = decided, rec_Commit = commit\<rparr> txs else txs)
   }"

definition read_shard ::
  "(reader, bytes \<times> (TxID, TxRecord) fmap \<times> (string, Result) fmap) state" where
  "read_shard = do {
     ledgerLen \<leftarrow> r_uint64;
     ledgerData \<leftarrow> r_bytes ledgerLen;
     n \<leftarrow> r_uint64; txs \<leftarrow> loop n read_txrecord fmempty;
     n \<leftarrow> r_uint64; results \<leftarrow> loop n read_result fmempty;
     State_Monad.return (ledgerData, txs, results)
   }"

definition ShardRestoreSnapshot :: "bytes \<Rightarrow> ShardMachine \<Rightarrow> string option \<times> ShardMachine" where
  "ShardRestoreSnapshot data m =
     (let ((ledgerData, txs, results), r) = run_state read_shard \<lparr>rd_buf = data, rd_pos = 0, rd_err = None\<rparr> in
      case rd_err r of
        Some e \<Rightarrow> (Some (''shard: restore snapshot: '' @ e), m)
      | None \<Rightarrow>
          (case RestoreSnapshot ledgerData (sm_State m) of
             (Some e, st) \<Rightarrow> (Some (''shard: restore ledger: '' @ e), m\<lparr>sm_State := st\<rparr>)
           | (None, st) \<Rightarrow>
               (None, m\<lparr>sm_State := st, sm_txs := txs, sm_results := results, sm_byIndex := fmempty\<rparr>)))"

section \<open>The round trip\<close>

definition unstamp_cmd :: "Command \<Rightarrow> Command" where
  "unstamp_cmd c = c\<lparr>cmd_Timestamp := zero_ts\<rparr>"

definition unstamp_rec :: "TxRecord \<Rightarrow> TxRecord" where
  "unstamp_rec r = r\<lparr>rec_Cmd := unstamp_cmd (rec_Cmd r)\<rparr>"

definition txrecord_ok :: "TxID \<Rightarrow> TxRecord \<Rightarrow> bool" where
  "txrecord_ok k r \<longleftrightarrow> rec_ID r = k \<and> short k \<and> short (rec_Coordinator r)
     \<and> length (rec_Participants r) < 2 ^ 64 \<and> list_all short (rec_Participants r)
     \<and> short (cmd_IdempotencyKey (rec_Cmd r)) \<and> short (cmd_From (rec_Cmd r)) \<and> short (cmd_To (rec_Cmd r))
     \<and> in_int64 (cmd_Amount (rec_Cmd r))"

definition shard_snap_ok :: "ShardMachine \<Rightarrow> bool" where
  "shard_snap_ok m \<longleftrightarrow> snap_ok (sm_State m) \<and> length (Snapshot (sm_State m)) < 2 ^ 64
     \<and> fcard (fmdom (sm_txs m)) < 2 ^ 64 \<and> fcard (fmdom (sm_results m)) < 2 ^ 64
     \<and> fmpred txrecord_ok (sm_txs m)
     \<and> fmpred (\<lambda>k r. short k \<and> short (Err r) \<and> in_int64 (Balance r)) (sm_results m)"

lemma latching_error [latching_intros]: "latching r_error"
  by (simp add: latching_def r_error_def)

lemma decodes_error: "decodes r_error [] None"
  by (auto simp: decodes_def r_error_def latching_def rd_at_def)

lemma latching_part [latching_intros]: "latching (read_part ps)"
  unfolding read_part_def by (intro latching_intros)

lemma latching_txrecord [latching_intros]: "latching (read_txrecord txs)"
  unfolding read_txrecord_def by (intro latching_intros)

lemma decodes_part: "short p \<Longrightarrow> decodes (read_part ps) (put_shard_id p) (ps @ [p])"
  unfolding read_part_def put_shard_id_def
  by (rule decodes_last, rule decodes_str) simp_all

lemma decodes_bind_last:
  assumes "decodes p bs x" "decodes (f x) [] y" "\<And>z. latching (f z)"
  shows "decodes (State_Monad.bind p f) bs y"
  using decodes_bind [of p bs x f "[]" y, OF assms] by simp

lemma unstamp_rec_eta:
  "\<lparr>rec_ID = rec_ID r, rec_Phase = rec_Phase r,
     rec_Cmd = \<lparr>cmd_Op = cmd_Op (rec_Cmd r), cmd_IdempotencyKey = cmd_IdempotencyKey (rec_Cmd r),
       cmd_From = cmd_From (rec_Cmd r), cmd_To = cmd_To (rec_Cmd r), cmd_Amount = cmd_Amount (rec_Cmd r),
       cmd_Timestamp = zero_ts\<rparr>,
     rec_Debit = rec_Debit r, rec_Participants = rec_Participants r, rec_Coordinator = rec_Coordinator r,
     rec_Decided = rec_Decided r, rec_Commit = rec_Commit r\<rparr> = unstamp_rec r"
  by (cases r; cases "rec_Cmd r") (simp add: unstamp_rec_def unstamp_cmd_def)

lemma decodes_return_eq: "x = y \<Longrightarrow> decodes (State_Monad.return x) [] y"
  using decodes_return [of y] by simp

lemma decodes_txrecord:
  assumes "txrecord_ok k r"
  shows "decodes (read_txrecord m) (put_txrecord (k, r)) (fmupd k (unstamp_rec r) m)"
proof -
  have ps: "decodes (loop (length (rec_Participants r)) read_part [])
      (concat (map put_shard_id (rec_Participants r))) (rec_Participants r)"
    using assms by (intro decodes_list_loop decodes_part latching_intros) (auto simp: txrecord_ok_def list_all_iff)
  have k: "k = rec_ID r" using assms by (simp add: txrecord_ok_def)
  show ?thesis
    using assms [unfolded txrecord_ok_def k] unfolding read_txrecord_def put_txrecord_def prod.case k
    by - (rule decodes_bind decodes_fixed decodes_uint64 decodes_str decodes_bool ps
        | rule decodes_bind_last decodes_error decodes_return_eq
        | (simp add: unstamp_rec_eta; fail) | (intro latching_intros; fail))+
qed

lemma decodes_shard:
  assumes "shard_snap_ok m"
  shows "decodes read_shard (ShardSnapshot m)
    (Snapshot (sm_State m), fmmap unstamp_rec (sm_txs m), sm_results m)"
proof -
  have "decodes (loop (fcard (fmdom (sm_txs m))) read_txrecord fmempty)
      (concat (map put_txrecord (sorted_list_of_fmap (sm_txs m))))
      (fold (\<lambda>(k, r). fmupd k (unstamp_rec r)) (sorted_list_of_fmap (sm_txs m)) fmempty)"
    using assms by (intro decodes_loop latching_intros)
      (auto simp: length_sorted_list_of_fmap set_sorted_list_of_fmap shard_snap_ok_def intro: decodes_txrecord dest: fmpredD)
  moreover have "fold (\<lambda>(k, r). fmupd k (unstamp_rec r)) (sorted_list_of_fmap (sm_txs m)) fmempty
      = fmmap unstamp_rec (sm_txs m)" by (rule fold_fmupd_sorted_map)
  moreover have "decodes (loop (fcard (fmdom (sm_results m))) read_result fmempty)
      (concat (map put_result (sorted_list_of_fmap (sm_results m)))) (sm_results m)"
    using assms by (intro decodes_map_loop decodes_result latching_intros)
      (auto simp: shard_snap_ok_def set_sorted_list_of_fmap dest: fmpredD)
  ultimately show ?thesis
    using assms [unfolded shard_snap_ok_def] unfolding read_shard_def ShardSnapshot_def Let_def
    by - (rule decodes_bind decodes_last decodes_uint64 decodes_bytes [OF refl] | (simp; fail)
        | (intro latching_intros; fail))+
qed

lemma ShardRestore_eq:
  assumes "shard_snap_ok m"
  shows "ShardRestoreSnapshot (ShardSnapshot m) m0 =
    (None, m0\<lparr>sm_State := sm_State m, sm_txs := fmmap unstamp_rec (sm_txs m),
              sm_results := sm_results m, sm_byIndex := fmempty\<rparr>)"
proof -
  have "RestoreSnapshot (Snapshot (sm_State m)) s0 = (None, sm_State m)" for s0
    using decodes_run [OF decodes_state, of "sm_State m" "[]" "[]"] assms
    by (simp add: RestoreSnapshot_def rd_at_def shard_snap_ok_def)
  then show ?thesis
    using decodes_run [OF decodes_shard [OF assms], of "[]" "[]"]
    by (simp add: ShardRestoreSnapshot_def rd_at_def)
qed

section \<open>The machine up to timestamps\<close>

definition unstamp_state :: "State \<Rightarrow> State" where
  "unstamp_state s = s\<lparr>history := map (\<lambda>t. t\<lparr>tx_Timestamp := zero_ts\<rparr>) (history s)\<rparr>"

lemma unstamp_state_simps [simp]:
  "balances (unstamp_state s) = balances s" "applied (unstamp_state s) = applied s"
  "fingerprints (unstamp_state s) = fingerprints s" "reserves (unstamp_state s) = reserves s"
  "seq (unstamp_state s) = seq s"
  by (simp_all add: unstamp_state_def)

lemma unstamp_cmd_simps [simp]:
  "cmd_Op (unstamp_cmd c) = cmd_Op c" "cmd_IdempotencyKey (unstamp_cmd c) = cmd_IdempotencyKey c"
  "cmd_From (unstamp_cmd c) = cmd_From c" "cmd_To (unstamp_cmd c) = cmd_To c"
  "cmd_Amount (unstamp_cmd c) = cmd_Amount c" "fingerprint (unstamp_cmd c) = fingerprint c"
  by (simp_all add: unstamp_cmd_def fingerprint_def)

lemma unstamp_upd [simp]:
  "unstamp_state (s\<lparr>balances := b\<rparr>) = (unstamp_state s)\<lparr>balances := b\<rparr>"
  "unstamp_state (s\<lparr>reserves := r\<rparr>) = (unstamp_state s)\<lparr>reserves := r\<rparr>"
  "unstamp_state (s\<lparr>applied := p\<rparr>) = (unstamp_state s)\<lparr>applied := p\<rparr>"
  "unstamp_state (s\<lparr>fingerprints := f\<rparr>) = (unstamp_state s)\<lparr>fingerprints := f\<rparr>"
  by (simp_all add: unstamp_state_def)

lemma unstamp_set_balance [simp]: "unstamp_state (set_balance a v s) = set_balance a v (unstamp_state s)"
  by (simp add: set_balance_def)

lemma reservedLocked_unstamp [simp]: "reservedLocked a (unstamp_state s) = reservedLocked a s"
  by (simp add: reservedLocked_def)

lemma availableLocked_unstamp [simp]: "availableLocked a (unstamp_state s) = availableLocked a s"
  by (simp add: availableLocked_def split: option.split)

lemma record_tx_unstamp:
  "record_tx (unstamp_cmd c) es (unstamp_state s) = map_option unstamp_state (record_tx c es s)"
  by (simp add: record_tx_def tx_balances_def Let_def unstamp_state_def unstamp_cmd_def)

lemmas hom_simps = bind_map_option map_option_bind comp_def

lemma applyLocked_unstamp:
  "applyLocked (unstamp_cmd c) (unstamp_state s) = map_option (map_prod id unstamp_state) (applyLocked c s)"
  by (simp add: applyLocked_def Let_def record_tx_unstamp hom_simps if_distrib [where f = "map_option _"]
      split del: if_split flip: unstamp_set_balance cong: if_cong)

lemma Apply_unstamp:
  "Apply (unstamp_cmd c) (unstamp_state s) = map_option (map_prod id unstamp_state) (Apply c s)"
  by (auto simp: Apply_def Let_def applyLocked_unstamp hom_simps split_def split: option.split)

lemma PrepareDebit_unstamp:
  "PrepareDebit tx a n (unstamp_state s) = map_prod id unstamp_state (PrepareDebit tx a n s)"
  by (simp add: PrepareDebit_def Let_def flip: unstamp_upd split: option.split)

lemma PrepareCredit_unstamp:
  "PrepareCredit tx a n (unstamp_state s) = map_prod id unstamp_state (PrepareCredit tx a n s)"
  by (simp add: PrepareCredit_def split: option.split)

lemma CommitDebit_unstamp:
  "CommitDebit tx zero_ts (unstamp_state s) = map_option (map_prod id unstamp_state) (CommitDebit tx ts s)"
proof (cases "fmlookup (reserves s) tx")
  case (Some r)
  let ?c = "\<lambda>ts. \<lparr>cmd_Op = OpTransfer, cmd_IdempotencyKey = internalKey tx ''debit'',
     cmd_From = rsv_Account r, cmd_To = [], cmd_Amount = rsv_Amount r, cmd_Timestamp = ts\<rparr>"
  have "?c zero_ts = unstamp_cmd (?c ts)" by (simp add: unstamp_cmd_def)
  then show ?thesis using Some
    by (simp add: CommitDebit_def Let_def record_tx_unstamp hom_simps del: unstamp_upd
        flip: unstamp_set_balance unstamp_upd)
qed (simp add: CommitDebit_def)

lemma CommitCredit_unstamp:
  "CommitCredit tx a n zero_ts (unstamp_state s) = map_option (map_prod id unstamp_state) (CommitCredit tx a n ts s)"
proof -
  let ?c = "\<lambda>ts. \<lparr>cmd_Op = OpTransfer, cmd_IdempotencyKey = internalKey tx ''credit'',
     cmd_From = [], cmd_To = a, cmd_Amount = n, cmd_Timestamp = ts\<rparr>"
  have "?c zero_ts = unstamp_cmd (?c ts)" by (simp add: unstamp_cmd_def)
  then show ?thesis
    by (auto simp: CommitCredit_def Let_def record_tx_unstamp hom_simps
        simp flip: unstamp_set_balance split: option.split)
qed

lemma AbortTx_unstamp: "AbortTx tx (unstamp_state s) = map_prod id unstamp_state (AbortTx tx s)"
  by (simp add: AbortTx_def Let_def flip: unstamp_upd split: option.split)

definition unstamp_sc :: "ShardCommand \<Rightarrow> ShardCommand" where
  "unstamp_sc c = c\<lparr>sc_Ledger := unstamp_cmd (sc_Ledger c)\<rparr>"

definition unstamp_machine :: "ShardMachine \<Rightarrow> ShardMachine" where
  "unstamp_machine m = m\<lparr>sm_State := unstamp_state (sm_State m), sm_txs := fmmap unstamp_rec (sm_txs m)\<rparr>"

lemma unstamp_sc_simps [simp]:
  "sc_Op (unstamp_sc c) = sc_Op c" "sc_TxID (unstamp_sc c) = sc_TxID c"
  "sc_Ledger (unstamp_sc c) = unstamp_cmd (sc_Ledger c)" "sc_Commit (unstamp_sc c) = sc_Commit c"
  "sc_Debit (unstamp_sc c) = sc_Debit c" "sc_Participants (unstamp_sc c) = sc_Participants c"
  "sc_Coordinator (unstamp_sc c) = sc_Coordinator c"
  by (simp_all add: unstamp_sc_def)

lemma unstamp_rec_simps [simp]:
  "rec_ID (unstamp_rec r) = rec_ID r" "rec_Phase (unstamp_rec r) = rec_Phase r"
  "rec_Debit (unstamp_rec r) = rec_Debit r" "rec_Participants (unstamp_rec r) = rec_Participants r"
  "rec_Coordinator (unstamp_rec r) = rec_Coordinator r" "rec_Decided (unstamp_rec r) = rec_Decided r"
  "rec_Commit (unstamp_rec r) = rec_Commit r" "rec_Cmd (unstamp_rec r) = unstamp_cmd (rec_Cmd r)"
  by (simp_all add: unstamp_rec_def)

lemma unstamp_rec_upd [simp]:
  "unstamp_rec (r\<lparr>rec_Phase := p\<rparr>) = (unstamp_rec r)\<lparr>rec_Phase := p\<rparr>"
  "unstamp_rec (r\<lparr>rec_Decided := b\<rparr>) = (unstamp_rec r)\<lparr>rec_Decided := b\<rparr>"
  "unstamp_rec (r\<lparr>rec_Commit := b\<rparr>) = (unstamp_rec r)\<lparr>rec_Commit := b\<rparr>"
  by (simp_all add: unstamp_rec_def)

lemma unstamp_idem [simp]:
  "unstamp_state (unstamp_state s) = unstamp_state s"
  "fmmap unstamp_rec (fmmap unstamp_rec txs) = fmmap unstamp_rec txs"
  by (simp add: unstamp_state_def comp_def)
    (rule fmap_ext, simp add: option.map_comp comp_def unstamp_rec_def [abs_def] unstamp_cmd_def)

lemma unstamp_machine_simps [simp]:
  "recordResult k res (unstamp_machine m) = unstamp_machine (recordResult k res m)"
  "(unstamp_machine m)\<lparr>sm_State := unstamp_state st\<rparr> = unstamp_machine (m\<lparr>sm_State := st\<rparr>)"
  "sm_State (unstamp_machine m) = unstamp_state (sm_State m)"
  by (simp_all add: unstamp_machine_def recordResult_def)

lemma vote_unstamp: "vote (unstamp_sc c) (unstamp_state s) = map_prod id unstamp_state (vote c s)"
  by (simp add: vote_def PrepareDebit_unstamp PrepareCredit_unstamp)

lemma settle_unstamp:
  "settle (unstamp_sc c) (unstamp_rec r) (unstamp_state s) = map_option (map_prod id unstamp_state) (settle c r s)"
proof -
  have z: "outcomeTimestamp (unstamp_sc c) (unstamp_rec r) = zero_ts"
    by (simp add: outcomeTimestamp_def unstamp_cmd_def zero_ts_def IsZero_def)
  show ?thesis
    by (simp add: settle_def z AbortTx_unstamp
        CommitDebit_unstamp [where ts = "outcomeTimestamp c r"] CommitCredit_unstamp [where ts = "outcomeTimestamp c r"])
qed

lemma applyPrepare_unstamp:
  "applyPrepare (unstamp_sc c) (unstamp_machine m) = map_prod id unstamp_machine (applyPrepare c m)"
proof -
  have "prepare_known (unstamp_sc c) (unstamp_machine m) = prepare_known c m"
    by (simp add: prepare_known_def unstamp_machine_def split: option.split)
  moreover obtain res st where "vote c (sm_State m) = (res, st)" by fastforce
  ultimately show ?thesis
    by (simp add: applyPrepare_def vote_unstamp put_tx_def Let_def unstamp_machine_def fmmap_fmupd
        unstamp_rec_def split: option.split)
qed

lemma applyDecision_unstamp:
  "applyDecision (unstamp_sc c) (unstamp_machine m) = map_prod id unstamp_machine (applyDecision c m)"
proof -
  have "decided_record (unstamp_sc c) (unstamp_machine m) = unstamp_rec (decided_record c m)"
    by (simp add: decided_record_def unstamp_machine_def Let_def unstamp_rec_def split: option.split)
  then show ?thesis by (simp add: applyDecision_def unstamp_machine_def fmmap_fmupd)
qed

lemma applyOutcome_unstamp:
  "applyOutcome (unstamp_sc c) (unstamp_machine m) = map_option (map_prod id unstamp_machine) (applyOutcome c m)"
proof (cases "fmlookup (sm_txs m) (sc_TxID c)")
  case (Some r)
  then show ?thesis
    by (cases "settle c r (sm_State m)")
      (auto simp: applyOutcome_def unstamp_machine_def settle_unstamp Let_def fmmap_fmupd)
qed (simp add: applyOutcome_def unstamp_machine_def)

lemma apply_cmd_unstamp:
  "apply_cmd (unstamp_sc c) (unstamp_machine m) = map_option (map_prod id unstamp_machine) (apply_cmd c m)"
  by (cases "Apply (sc_Ledger c) (sm_State m)")
    (auto simp: apply_cmd_def applyPrepare_unstamp applyDecision_unstamp applyOutcome_unstamp Apply_unstamp)

lemma shard_apply_unstamp_core:
  "map_option (map_prod id unstamp_machine) (shard_apply d m) =
     (case DecodeCommand d of Inl e \<Rightarrow> Some (failed e, unstamp_machine m)
      | Inr c \<Rightarrow> apply_cmd (unstamp_sc c) (unstamp_machine m))"
  by (simp add: shard_apply_def apply_cmd_unstamp split: sum.split)

text \<open>What later log entries depend on: everything but the shard's name, the results by index, and
  timestamps.\<close>

definition shard_core :: "ShardMachine \<Rightarrow> State \<times> (TxID, TxRecord) fmap \<times> (string, Result) fmap" where
  "shard_core m = (unstamp_state (sm_State m), fmmap unstamp_rec (sm_txs m), sm_results m)"

definition core_machine :: "State \<times> (TxID, TxRecord) fmap \<times> (string, Result) fmap \<Rightarrow> ShardMachine" where
  "core_machine = (\<lambda>(s, txs, rs). \<lparr>sm_ID = [], sm_State = s, sm_txs = txs, sm_results = rs, sm_byIndex = fmempty\<rparr>)"

abbreviation rename :: "ShardID \<Rightarrow> (nat, Result) fmap \<Rightarrow> ShardMachine \<Rightarrow> ShardMachine" where
  "rename i b m \<equiv> m\<lparr>sm_ID := i, sm_byIndex := b\<rparr>"

lemma rename_comm:
  "(rename i b m)\<lparr>sm_State := s\<rparr> = rename i b (m\<lparr>sm_State := s\<rparr>)"
  "(rename i b m)\<lparr>sm_txs := t\<rparr> = rename i b (m\<lparr>sm_txs := t\<rparr>)"
  "(rename i b m)\<lparr>sm_results := r\<rparr> = rename i b (m\<lparr>sm_results := r\<rparr>)"
  by (cases m; simp)+

lemma recordResult_rename: "recordResult k res (rename i b m) = rename i b (recordResult k res m)"
  by (cases m) (simp add: recordResult_def)

lemma apply_cmd_rename:
  "apply_cmd c (rename i b m) = map_option (map_prod id (rename i b)) (apply_cmd c m)"
proof -
  have "prepare_known c (rename i b m) = prepare_known c m" by (simp add: prepare_known_def)
  then have p: "applyPrepare c (rename i b m) = map_prod id (rename i b) (applyPrepare c m)"
    by (cases "vote c (sm_State m)") (simp add: applyPrepare_def put_tx_def Let_def rename_comm split: option.split)
  have "decided_record c (rename i b m) = decided_record c m" by (simp add: decided_record_def)
  then have d: "applyDecision c (rename i b m) = map_prod id (rename i b) (applyDecision c m)"
    by (simp add: applyDecision_def rename_comm)
  have o: "applyOutcome c (rename i b m) = map_option (map_prod id (rename i b)) (applyOutcome c m)"
    by (simp add: applyOutcome_def Let_def map_option_bind comp_def split_def rename_comm split: option.split)
  show ?thesis
    by (simp add: apply_cmd_def p d o recordResult_rename map_option_bind comp_def split_def rename_comm)
qed

lemma ApplyAt_core:
  "map_option (map_prod id shard_core) (ApplyAt i d m) =
     (case DecodeCommand d of Inl e \<Rightarrow> Some (failed e, shard_core m)
      | Inr c \<Rightarrow> map_option (map_prod id shard_core) (apply_cmd (unstamp_sc c) (core_machine (shard_core m))))"
proof (cases "DecodeCommand d")
  case (Inl e)
  then show ?thesis by (simp add: ApplyAt_def shard_apply_def shard_core_def)
next
  case (Inr c)
  have u: "unstamp_machine m = rename (sm_ID m) (sm_byIndex m) (core_machine (shard_core m))"
    by (simp add: unstamp_machine_def core_machine_def shard_core_def)
  have r: "shard_core (rename i b x) = shard_core x" for i b x by (simp add: shard_core_def)
  have s: "shard_core (unstamp_machine x) = shard_core x" for x
    by (simp add: shard_core_def unstamp_machine_def unstamp_idem)
  have "map_option (map_prod id shard_core) (apply_cmd (unstamp_sc c) (core_machine (shard_core m)))
      = map_option (map_prod id shard_core) (apply_cmd (unstamp_sc c) (unstamp_machine m))"
    by (simp add: u apply_cmd_rename r option.map_comp comp_def prod.map_comp map_prod_def split_def)
  also have "\<dots> = map_option (map_prod id shard_core) (apply_cmd c m)"
    by (simp add: apply_cmd_unstamp s option.map_comp comp_def map_prod_def split_def)
  also have "\<dots> = map_option (map_prod id shard_core) (ApplyAt i d m)"
    using Inr by (simp add: ApplyAt_def shard_apply_def map_option_bind comp_def split_def shard_core_def
        map_conv_bind_option map_prod_def)
  finally show ?thesis using Inr by simp
qed

lemma record_ok_unstamp [simp]: "record_ok s k (unstamp_rec r) = record_ok s k r"
  by (simp add: record_ok_def)

lemma shard_inv_unstamp_txs:
  assumes "shard_inv m" "sm_State m' = sm_State m" "sm_txs m' = fmmap unstamp_rec (sm_txs m)"
  shows "shard_inv m'"
  using assms record_ok_unstamp by (auto simp: shard_inv_def)

interpretation shard_machine: snapshotting_machine ApplyAt shard_inv
  ShardSnapshot ShardRestoreSnapshot shard_core shard_snap_ok
proof
  show "\<exists>m'. ShardRestoreSnapshot (ShardSnapshot m) m0 = (None, m') \<and> shard_core m' = shard_core m"
    if "shard_snap_ok m" for m m0 using ShardRestore_eq [OF that] by (simp add: shard_core_def)
  show "shard_inv (snd (ShardRestoreSnapshot (ShardSnapshot m) m0))"
    if "shard_snap_ok m" "shard_inv m" for m m0
    using shard_inv_unstamp_txs [OF that(2)] by (simp add: ShardRestore_eq [OF that(1)])
  show "map_option (map_prod id shard_core) (ApplyAt i d m) = map_option (map_prod id shard_core) (ApplyAt i d m')"
    if "shard_core m = shard_core m'" for i d m m' by (simp only: ApplyAt_core that)
qed

text \<open>C21: compaction of a shard's log is invisible up to timestamps. Recovering a replica from the
  snapshot of a log prefix and applying the rest of the log gives the same reply to every entry
  after the snapshot, and the same balances, reservations, idempotency records, histories,
  transaction records and results, as applying the whole log from the beginning. Only the
  timestamps of transactions may differ.\<close>

theorem shard_compaction_invisible:
  assumes "apply_log ApplyAt 0 xs (NewShardMachine sid New) = Some (rs, m1)" "shard_snap_ok m1"
  shows "\<exists>m1' rs' m2 m2'. ShardRestoreSnapshot (ShardSnapshot m1) m0 = (None, m1')
    \<and> apply_log ApplyAt 0 (xs @ ys) (NewShardMachine sid New) = Some (rs @ rs', m2)
    \<and> apply_log ApplyAt (length xs) ys m1' = Some (rs', m2')
    \<and> unstamp_state (sm_State m2') = unstamp_state (sm_State m2)
    \<and> fmmap unstamp_rec (sm_txs m2') = fmmap unstamp_rec (sm_txs m2) \<and> sm_results m2' = sm_results m2"
  using shard_machine.snapshot_replay [OF shard_inv_New assms] by (auto simp: shard_core_def)

theorem shard_compaction_invisible_witness:
  "\<exists>rs m1 m1' rs' m2 m2'. apply_log ApplyAt 0 [[]] (NewShardMachine ''A'' New) = Some (rs, m1)
    \<and> ShardRestoreSnapshot (ShardSnapshot m1) (NewShardMachine ''A'' New) = (None, m1')
    \<and> apply_log ApplyAt 0 ([[]] @ [EncodeCommand sample_prepare]) (NewShardMachine ''A'' New) = Some (rs @ rs', m2)
    \<and> apply_log ApplyAt (length [[] :: bytes]) [EncodeCommand sample_prepare] m1' = Some (rs', m2')
    \<and> unstamp_state (sm_State m2') = unstamp_state (sm_State m2)"
proof -
  let ?m = "(NewShardMachine ''A'' New)\<lparr>sm_byIndex := fmupd 1 (failed ''shard: empty command'') fmempty\<rparr>"
  have a: "apply_log ApplyAt 0 [[]] (NewShardMachine ''A'' New) = Some ([failed ''shard: empty command''], ?m)"
    by (simp add: ApplyAt_def shard_apply_def DecodeCommand_def NewShardMachine_def)
  have "shard_snap_ok ?m"
    by (simp add: NewShardMachine_def New_def snap_ok_def shard_snap_ok_def fcard.rep_eq Snapshot_def putUint64_def)
  from shard_compaction_invisible [OF a this, of "NewShardMachine ''A'' New" "[EncodeCommand sample_prepare]"] a
  show ?thesis by blast
qed

text \<open>the timestamp of a prepared transaction does not survive compaction. An outcome without a
  timestamp of its own is booked under the timestamp of the prepare; after a restore the record has
  lost it, and the same outcome is booked under the zero timestamp.\<close>

theorem compaction_loses_prepare_timestamp:
  assumes "shard_snap_ok m" "Tx (sc_TxID oc) m = Some r"
    and "cmd_Timestamp (sc_Ledger oc) = zero_ts" "ShardRestoreSnapshot (ShardSnapshot m) m0 = (None, m')"
  shows "outcomeTimestamp oc r = cmd_Timestamp (rec_Cmd r)
    \<and> map_option (outcomeTimestamp oc) (Tx (sc_TxID oc) m') = Some zero_ts"
  using assms ShardRestore_eq [OF assms(1), of m0]
  by (auto simp: Tx_def outcomeTimestamp_def zero_ts_def IsZero_def unstamp_rec_def unstamp_cmd_def)

theorem compaction_loses_prepare_timestamp_witness:
  "\<exists>m'. ShardRestoreSnapshot (ShardSnapshot ((NewShardMachine ''A'' New)
        \<lparr>sm_txs := fmupd ''t'' ((sample_record PhasePrepared False)
          \<lparr>rec_Cmd := sample_transfer\<lparr>cmd_Timestamp := Timestamp 7 1\<rparr>\<rparr>) fmempty\<rparr>)) (NewShardMachine ''A'' New)
      = (None, m')
    \<and> outcomeTimestamp (sample_step 3 True False) ((sample_record PhasePrepared False)
          \<lparr>rec_Cmd := sample_transfer\<lparr>cmd_Timestamp := Timestamp 7 1\<rparr>\<rparr>) = Timestamp 7 1
    \<and> map_option (outcomeTimestamp (sample_step 3 True False)) (Tx ''t'' m') = Some zero_ts"
proof -
  let ?r = "(sample_record PhasePrepared False)\<lparr>rec_Cmd := sample_transfer\<lparr>cmd_Timestamp := Timestamp 7 1\<rparr>\<rparr>"
  let ?m = "(NewShardMachine ''A'' New)\<lparr>sm_txs := fmupd ''t'' ?r fmempty\<rparr>"
  have ok: "shard_snap_ok ?m"
    by (auto simp: NewShardMachine_def New_def snap_ok_def shard_snap_ok_def fcard.rep_eq Snapshot_def
        putUint64_def txrecord_ok_def in_int64_def intro!: fmpred_upd)
  obtain m' where m': "ShardRestoreSnapshot (ShardSnapshot ?m) (NewShardMachine ''A'' New) = (None, m')"
    using ShardRestore_eq [OF ok] by blast
  have "Tx (sc_TxID (sample_step 3 True False)) ?m = Some ?r" by (simp add: Tx_def)
  from compaction_loses_prepare_timestamp [OF ok this _ m'] m' show ?thesis by simp
qed

end
