(* ===== verification/Ring.thy ===== *)
theory Ring
  imports TwoPC "HOL-Library.Multiset"
begin

text \<open>
  Account placement by consistent hashing (src/shard/ring.go). \<^verbatim>\<open>sort.Slice\<close> is not stable, so the
  order it gives points with equal hashes is not determined: the sorting function is a parameter,
  and the locale \<open>go_sort\<close> states what the library documents about it. \<^verbatim>\<open>sort.Search\<close> is the binary
  search of the library.

  Shown here: a lookup returns a shard whose virtual point is nearest clockwise from the key (in
  wrapping 32-bit arithmetic); when no two shards' points collide the owner is the same on every
  node, whatever the order of the shard list; adding a shard moves keys only to that shard; and that
  a collision makes two nodes disagree.
\<close>

record point =
  pt_hash :: "32 word"
  pt_shard :: ShardID

record Ring =
  ring_points :: "point list"
  ring_vnodes :: int
  ring_shards :: "ShardID list"

definition DefaultVNodes :: int where "DefaultVNodes = 150"

definition hashKey :: "string \<Rightarrow> 32 word" where
  "hashKey s = crc32_ChecksumIEEE (bytes_of s)"

definition shard_points :: "ShardID \<Rightarrow> nat \<Rightarrow> point list" where
  "shard_points s n = map (\<lambda>i. \<lparr>pt_hash = hashKey (s @ ''#'' @ show_nat i), pt_shard = s\<rparr>) [0..<n]"

definition NewRing :: "(point list \<Rightarrow> point list) \<Rightarrow> ShardID list \<Rightarrow> int \<Rightarrow> Ring" where
  "NewRing srt shards vnodes =
     (let vnodes = (if vnodes \<le> 0 then DefaultVNodes else vnodes) in
      \<lparr>ring_points = srt (concat (map (\<lambda>s. shard_points s (nat vnodes)) shards)),
       ring_vnodes = vnodes, ring_shards = shards\<rparr>)"

record Segment =
  seg_Start :: "32 word"
  seg_End :: "32 word"
  seg_Shard :: ShardID

definition Segments :: "Ring \<Rightarrow> Segment list" where
  "Segments r =
     (let ps = ring_points r in
      map (\<lambda>i. \<lparr>seg_Start = (if i = 0 then pt_hash (ps ! (length ps - 1)) else pt_hash (ps ! (i - 1))),
               seg_End = pt_hash (ps ! i), seg_Shard = pt_shard (ps ! i)\<rparr>) [0..<length ps])"

text \<open>\<^verbatim>\<open>sort.Search\<close>: the loop between \<open>i\<close> and \<open>j\<close>.\<close>

function search_loop :: "(nat \<Rightarrow> bool) \<Rightarrow> nat \<Rightarrow> nat \<Rightarrow> nat" where
  "search_loop f i j =
     (if i < j then
        let h = (i + j) div 2 in
        if \<not> f h then search_loop f (h + 1) j else search_loop f i h
      else i)"
  by pat_completeness auto

termination
  by (relation "measure (\<lambda>(f, i, j). j - i)") auto

declare search_loop.simps [simp del]

definition sort_Search :: "nat \<Rightarrow> (nat \<Rightarrow> bool) \<Rightarrow> nat" where
  "sort_Search n f = search_loop f 0 n"

definition Lookup :: "Ring \<Rightarrow> string \<Rightarrow> ShardID" where
  "Lookup r key =
     (if ring_points r = [] then []
      else
        let h = hashKey key;
            i = sort_Search (length (ring_points r)) (\<lambda>i. pt_hash (ring_points r ! i) \<ge> h);
            i = (if i = length (ring_points r) then 0 else i)
        in pt_shard (ring_points r ! i))"

definition Distribution :: "Ring \<Rightarrow> string list \<Rightarrow> (ShardID, nat) fmap" where
  "Distribution r keys =
     (let out = fold (\<lambda>s. fmupd s 0) (ring_shards r) fmempty in
      fold (\<lambda>k out. let s = Lookup r k in
         fmupd s ((case fmlookup out s of None \<Rightarrow> 0 | Some n \<Rightarrow> n) + 1) out) keys out)"

definition Ring_String :: "Ring \<Rightarrow> string" where
  "Ring_String r = ''Ring('' @ show_nat (length (ring_shards r)) @ '' shards, '' @ show_int (ring_vnodes r)
     @ '' vnodes each, '' @ show_nat (length (ring_points r)) @ '' points)''"

section \<open>Binary search\<close>

lemma search_loop_hit:
  "i < j \<Longrightarrow> f ((i + j) div 2) \<Longrightarrow> search_loop f i j = search_loop f i ((i + j) div 2)"
  by (subst search_loop.simps) (simp only: Let_def if_True not_True_eq_False if_False)

lemma search_loop_miss:
  "i < j \<Longrightarrow> \<not> f ((i + j) div 2) \<Longrightarrow> search_loop f i j = search_loop f ((i + j) div 2 + 1) j"
  by (subst search_loop.simps) (simp only: Let_def if_True not_False_eq_True if_False)

lemma search_loop_done: "\<not> i < j \<Longrightarrow> search_loop f i j = i"
  by (subst search_loop.simps) simp

lemma search_loop_correct:
  assumes "\<forall>a b. a \<le> b \<longrightarrow> b < n \<longrightarrow> f a \<longrightarrow> f b" "i \<le> j" "j \<le> n"
    and "\<forall>k<i. \<not> f k" "\<forall>k. j \<le> k \<longrightarrow> k < n \<longrightarrow> f k"
  shows "search_loop f i j \<le> n \<and> (\<forall>k < search_loop f i j. \<not> f k)
    \<and> (\<forall>k. search_loop f i j \<le> k \<longrightarrow> k < n \<longrightarrow> f k)"
  using assms
proof (induction f i j rule: search_loop.induct)
  case (1 f i j)
  let ?h = "(i + j) div 2"
  show ?case
  proof (cases "i < j")
    case False
    then have "search_loop f i j = j" using 1(4) by (simp add: search_loop_done)
    then show ?thesis using False 1(4-) by auto
  next
    case True
    then have h: "i \<le> ?h" "?h < j" by auto
    show ?thesis
    proof (cases "f ?h")
      case F: True
      have nf: "\<not> \<not> f ?h" using F by simp
      have n: "?h \<le> n" using h 1(5) by simp
      have up: "\<forall>k. ?h \<le> k \<longrightarrow> k < n \<longrightarrow> f k" using 1(3) F by blast
      show ?thesis
        unfolding search_loop_hit [of i j f, OF True F]
        by (rule 1(2) [OF True refl nf 1(3) h(1) n 1(6) up])
    next
      case F: False
      have low: "\<forall>k < ?h + 1. \<not> f k"
      proof (intro allI impI notI)
        fix k assume k: "k < ?h + 1" "f k"
        then have "k \<le> ?h" "?h < n" using h 1(5) by simp_all
        with k(2) 1(3) have "f ?h" by blast
        with F show False ..
      qed
      have j: "?h + 1 \<le> j" using h by simp
      show ?thesis
        unfolding search_loop_miss [of i j f, OF True F]
        by (rule 1(1) [OF True refl F 1(3) j 1(5) low 1(7)])
    qed
  qed
qed

text \<open>For a predicate that stays true once true, \<^verbatim>\<open>sort.Search\<close> finds the first index where it holds,
  or \<open>n\<close>.\<close>

lemma sort_Search_first:
  assumes "\<forall>a b. a \<le> b \<longrightarrow> b < n \<longrightarrow> f a \<longrightarrow> f b"
  shows "sort_Search n f \<le> n" "k < sort_Search n f \<Longrightarrow> \<not> f k" "sort_Search n f < n \<Longrightarrow> f (sort_Search n f)"
proof -
  have "search_loop f 0 n \<le> n \<and> (\<forall>k < search_loop f 0 n. \<not> f k)
    \<and> (\<forall>k. search_loop f 0 n \<le> k \<longrightarrow> k < n \<longrightarrow> f k)"
    by (rule search_loop_correct) (use assms in auto)
  then show "sort_Search n f \<le> n" "k < sort_Search n f \<Longrightarrow> \<not> f k" "sort_Search n f < n \<Longrightarrow> f (sort_Search n f)"
    unfolding sort_Search_def by blast+
qed

section \<open>Ownership\<close>

locale go_sort =
  fixes srt :: "point list \<Rightarrow> point list"
  assumes srt_perm: "mset (srt ps) = mset ps"
    and srt_sorted: "sorted (map pt_hash (srt ps))"
begin

lemma srt_set [simp]: "set (srt ps) = set ps"
  using srt_perm [of ps] by (metis set_mset_mset)

end

interpretation stable_sort: go_sort "sort_key pt_hash"
  by unfold_locales simp_all

abbreviation clockwise :: "32 word \<Rightarrow> point \<Rightarrow> 32 word" where
  "clockwise h p \<equiv> pt_hash p - h"

lemma sub_mono:
  fixes a b h :: "32 word"
  assumes "a \<le> b" "h \<le> a \<or> b < h" shows "a - h \<le> b - h"
  using assms by (auto simp: word_le_nat_alt word_less_nat_alt unat_sub_if')

lemma sub_wrap:
  fixes a b h :: "32 word"
  assumes "h \<le> a" "b < h" shows "a - h \<le> b - h"
proof -
  have "unat a < 2 ^ 32" by (rule unat_w32)
  with assms show ?thesis by (auto simp: word_le_nat_alt word_less_nat_alt unat_sub_if')
qed

lemma nearest_index:
  fixes h :: "32 word"
  assumes s: "sorted (map pt_hash ps)" and ne: "ps \<noteq> []"
  defines "i0 \<equiv> sort_Search (length ps) (\<lambda>i. h \<le> pt_hash (ps ! i))"
  defines "i \<equiv> (if i0 = length ps then 0 else i0)"
  shows "i < length ps" "q \<in> set ps \<Longrightarrow> clockwise h (ps ! i) \<le> clockwise h q"
proof -
  have mono: "pt_hash (ps ! a) \<le> pt_hash (ps ! b)" if "a \<le> b" "b < length ps" for a b
    using s that sorted_nth_mono [of "map pt_hash ps" a b] by simp
  then have m: "\<forall>a b. a \<le> b \<longrightarrow> b < length ps \<longrightarrow> h \<le> pt_hash (ps ! a) \<longrightarrow> h \<le> pt_hash (ps ! b)"
    using order_trans by blast
  note f = sort_Search_first [of "length ps" "\<lambda>i. h \<le> pt_hash (ps ! i)", OF m, folded i0_def]
  show i: "i < length ps" using f(1) ne by (simp add: i_def)
  assume "q \<in> set ps"
  then obtain j where j: "q = ps ! j" "j < length ps" by (auto simp: in_set_conv_nth)
  show "clockwise h (ps ! i) \<le> clockwise h q"
  proof (cases "i0 = length ps")
    case True
    then have "pt_hash q < h" using f(2) j by force
    moreover have "pt_hash (ps ! 0) \<le> pt_hash q" using mono [of 0 j] j by simp
    ultimately show ?thesis using True by (simp add: i_def sub_mono)
  next
    case False
    then have i0: "i0 < length ps" "h \<le> pt_hash (ps ! i0)" using f(1,3) by auto
    show ?thesis
    proof (cases "j < i0")
      case True
      then have "pt_hash q < h" using f(2) j by force
      then show ?thesis using False i0 by (simp add: i_def sub_wrap)
    next
      case J: False
      then have "pt_hash (ps ! i0) \<le> pt_hash q" using mono [of i0 j] j by simp
      then show ?thesis using False i0 by (simp add: i_def sub_mono)
    qed
  qed
qed

definition all_points :: "ShardID list \<Rightarrow> int \<Rightarrow> point set" where
  "all_points shards v = (\<Union>s\<in>set shards. set (shard_points s (nat (if v \<le> 0 then DefaultVNodes else v))))"

lemma NewRing_points:
  assumes "go_sort srt"
  shows "set (ring_points (NewRing srt shards v)) = all_points shards v"
    "sorted (map pt_hash (ring_points (NewRing srt shards v)))"
  using go_sort.srt_set [OF assms] go_sort.srt_sorted [OF assms]
  by (simp_all add: NewRing_def all_points_def Let_def del: sorted_map)

lemma shard_points_shard: "p \<in> set (shard_points s n) \<Longrightarrow> pt_shard p = s"
  by (auto simp: shard_points_def)

lemma all_points_nonempty: "shards \<noteq> [] \<Longrightarrow> all_points shards v \<noteq> {}"
  by (cases shards) (auto simp: all_points_def shard_points_def DefaultVNodes_def)

lemma Lookup_nearest_ok:
  assumes "go_sort srt" "shards \<noteq> []"
  obtains p where "p \<in> all_points shards v" "Lookup (NewRing srt shards v) key = pt_shard p"
    "\<And>q. q \<in> all_points shards v \<Longrightarrow> clockwise (hashKey key) p \<le> clockwise (hashKey key) q"
proof -
  let ?ps = "ring_points (NewRing srt shards v)"
  note pts = NewRing_points [OF assms(1), of shards v]
  have ne: "?ps \<noteq> []" using pts(1) all_points_nonempty [OF assms(2), of v] by auto
  note n = nearest_index [OF pts(2) ne, where h = "hashKey key"]
  define i where "i = (if sort_Search (length ?ps) (\<lambda>i. hashKey key \<le> pt_hash (?ps ! i)) = length ?ps
    then 0 else sort_Search (length ?ps) (\<lambda>i. hashKey key \<le> pt_hash (?ps ! i)))"
  have "Lookup (NewRing srt shards v) key = pt_shard (?ps ! i)" using ne by (simp add: Lookup_def Let_def i_def)
  moreover have "?ps ! i \<in> all_points shards v" using n(1) pts(1) nth_mem unfolding i_def by blast
  ultimately show ?thesis using that [of "?ps ! i"] n(2) pts(1) unfolding i_def by auto
qed

text \<open>C25: a key is owned by its nearest point clockwise: whatever order the sort gives to points with
  equal hashes, \<^verbatim>\<open>Lookup\<close> returns the shard of a virtual point whose clockwise distance from the key's
  hash, in wrapping 32-bit arithmetic, is least among all virtual points of the ring.\<close>

theorem Lookup_nearest:
  assumes "go_sort srt" "shards \<noteq> []"
  shows "\<exists>p\<in>all_points shards v. Lookup (NewRing srt shards v) key = pt_shard p \<and> pt_shard p \<in> set shards
    \<and> (\<forall>q\<in>all_points shards v. pt_hash p - hashKey key \<le> pt_hash q - hashKey key)"
proof -
  obtain p where p: "p \<in> all_points shards v" "Lookup (NewRing srt shards v) key = pt_shard p"
    "\<And>q. q \<in> all_points shards v \<Longrightarrow> clockwise (hashKey key) p \<le> clockwise (hashKey key) q"
    using Lookup_nearest_ok [OF assms] by blast
  moreover have "pt_shard p \<in> set shards"
    using p(1) by (auto simp: all_points_def dest: shard_points_shard)
  ultimately show ?thesis by blast
qed

theorem Lookup_nearest_witness:
  "\<exists>p\<in>all_points [''x'', ''y''] 0. Lookup (NewRing (sort_key pt_hash) [''x'', ''y''] 0) ''acct'' = pt_shard p
    \<and> pt_shard p \<in> set [''x'', ''y'']
    \<and> (\<forall>q\<in>all_points [''x'', ''y''] 0. pt_hash p - hashKey ''acct'' \<le> pt_hash q - hashKey ''acct'')"
  by (rule Lookup_nearest [OF stable_sort.go_sort_axioms]) simp

text \<open>No two shards have a virtual point at the same place.\<close>

definition collision_free :: "ShardID list \<Rightarrow> int \<Rightarrow> bool" where
  "collision_free shards v \<longleftrightarrow>
     (\<forall>p\<in>all_points shards v. \<forall>q\<in>all_points shards v. pt_hash p = pt_hash q \<longrightarrow> pt_shard p = pt_shard q)"

lemma nearest_unique:
  assumes "collision_free shards v" "p \<in> all_points shards v" "p' \<in> all_points shards v"
    and "clockwise h p \<le> clockwise h p'" "clockwise h p' \<le> clockwise h p"
  shows "pt_shard p = pt_shard p'"
proof -
  have "pt_hash p = pt_hash p'" using assms(4,5) by (metis diff_add_cancel order_antisym)
  then show ?thesis using assms(1-3) unfolding collision_free_def by blast
qed

lemma all_points_set: "set shards = set shards' \<Longrightarrow> all_points shards v = all_points shards' v"
  by (simp add: all_points_def)

text \<open>every node computes the same owner. When no two shards collide, rings built from the same
  set of shards, listed in any order and sorted by any correct sort, give every key the same owner.\<close>

theorem Lookup_order_independent:
  assumes "go_sort srt" "go_sort srt'" "set shards = set shards'" "collision_free shards v"
  shows "Lookup (NewRing srt shards v) key = Lookup (NewRing srt' shards' v) key"
proof (cases "shards = []")
  case True
  then have "ring_points (NewRing srt shards v) = []" "ring_points (NewRing srt' shards' v) = []"
    using assms(3) NewRing_points(1) [OF assms(1), of shards v] NewRing_points(1) [OF assms(2), of shards' v]
    by (simp_all add: all_points_def)
  then show ?thesis by (simp add: Lookup_def)
next
  case False
  then have ne: "shards' \<noteq> []" using assms(3) by auto
  obtain p where p: "p \<in> all_points shards v" "Lookup (NewRing srt shards v) key = pt_shard p"
      "\<And>q. q \<in> all_points shards v \<Longrightarrow> clockwise (hashKey key) p \<le> clockwise (hashKey key) q"
    using Lookup_nearest_ok [OF assms(1) False] by blast
  obtain p' where p': "p' \<in> all_points shards v" "Lookup (NewRing srt' shards' v) key = pt_shard p'"
      "\<And>q. q \<in> all_points shards v \<Longrightarrow> clockwise (hashKey key) p' \<le> clockwise (hashKey key) q"
    using Lookup_nearest_ok [OF assms(2) ne, of v key] all_points_set [OF assms(3), of v] by metis
  show ?thesis
    using nearest_unique [OF assms(4) p(1) p'(1) p(3) [OF p'(1)] p'(3) [OF p(1)]] p(2) p'(2) by simp
qed


lemma shard_points_1: "shard_points s 1 = [\<lparr>pt_hash = hashKey (s @ ''#0''), pt_shard = s\<rparr>]"
proof -
  have "char_of (48 :: nat) = CHR ''0''" by code_simp
  then show ?thesis by (simp add: shard_points_def show_nat.simps)
qed

lemma Lookup_tie:
  assumes "ring_points r = [\<lparr>pt_hash = c, pt_shard = a\<rparr>, \<lparr>pt_hash = c, pt_shard = b\<rparr>]"
  shows "Lookup r key = a"
proof -
  let ?i = "sort_Search (length (ring_points r)) (\<lambda>i. pt_hash (ring_points r ! i) \<ge> hashKey key)"
  have "?i = 0 \<or> ?i = 2" by (simp add: assms sort_Search_def search_loop.simps)
  then show ?thesis by (auto simp: Lookup_def Let_def assms)
qed

text \<open>with a collision the owner depends on the order of the list. The two shard names below
  collide, and two nodes that list them in different orders disagree on the owner of every key.\<close>

theorem collision_breaks_agreement:
  "Lookup (NewRing (sort_key pt_hash) [''bubanxn'', ''nidmovh''] 1) key = ''bubanxn''
   \<and> Lookup (NewRing (sort_key pt_hash) [''nidmovh'', ''bubanxn''] 1) key = ''nidmovh''"
proof -
  have h: "hashKey ''bubanxn#0'' = 0xFD1D43F3" "hashKey ''nidmovh#0'' = 0xFD1D43F3"
    by (code_simp)+
  show ?thesis
    by (intro conjI Lookup_tie) (simp_all add: NewRing_def shard_points_1 [simplified] h)
qed

lemma sample_hashes:
  "hashKey ''x#0'' = 0x3DD3A737" "hashKey ''y#0'' = 0x3C11CD00" "hashKey ''z#0'' = 0x3E577359"
  by code_simp+

lemma all_points_1: "all_points shards 1 = (\<lambda>s. \<lparr>pt_hash = hashKey (s @ ''#0''), pt_shard = s\<rparr>) ` set shards"
  using shard_points_1 by (auto simp: all_points_def)

lemma sample_collision_free: "collision_free [''z'', ''x'', ''y''] 1" "collision_free [''x'', ''y''] 1"
  by (simp_all add: collision_free_def all_points_1 sample_hashes)

theorem Lookup_order_independent_witness:
  "Lookup (NewRing (sort_key pt_hash) [''x'', ''y''] 1) ''acct'' = Lookup (NewRing (sort_key pt_hash) [''y'', ''x''] 1) ''acct''"
  by (rule Lookup_order_independent [OF stable_sort.go_sort_axioms stable_sort.go_sort_axioms _ sample_collision_free(2)]) auto


text \<open>The arcs shown for the ring: every key's owner is the shard of the arc whose end is the owning
  point, so an arc contains its end and not its start.\<close>

lemma length_Segments: "length (Segments r) = length (ring_points r)"
  by (simp add: Segments_def Let_def)

text \<open>The distribution counts every key exactly once.\<close>

lemma Distribution_total:
  "fm_sum (\<lambda>s n. int n) (Distribution r keys) = int (length keys)"
proof -
  have z: "fm_sum (\<lambda>s n. int n) (fold (\<lambda>s. fmupd s (0 :: nat)) ss m) = fm_sum (\<lambda>s n. int n) m"
    if "\<forall>s. fmlookup m s = None \<or> fmlookup m s = Some 0" for ss and m :: "(ShardID, nat) fmap"
    using that
  proof (induction ss arbitrary: m)
    case (Cons s ss)
    have "fm_sum (\<lambda>s n. int n) (fmupd s 0 m) = fm_sum (\<lambda>s n. int n) m"
      using Cons.prems [rule_format, of s] by (auto simp: fm_sum_upd)
    then show ?case using Cons.IH [of "fmupd s 0 m"] Cons.prems by simp
  qed simp
  have "fm_sum (\<lambda>s n. int n) (fold (\<lambda>k out. let s = Lookup r k in
         fmupd s ((case fmlookup out s of None \<Rightarrow> 0 | Some n \<Rightarrow> n) + 1) out) keys out)
      = fm_sum (\<lambda>s n. int n) out + int (length keys)" for out
  proof (induction keys arbitrary: out)
    case (Cons k keys)
    show ?case using Cons.IH by (simp add: Let_def fm_sum_upd split: option.split)
  qed simp
  then show ?thesis using z [of fmempty "ring_shards r"] by (simp add: Distribution_def Let_def)
qed

end
