(* ===== verification/Storage.thy ===== *)
theory Storage
  imports Prelude
begin

text \<open>
  Durable storage (src/storage): framed records, the write-ahead log, the applied-index file, the
  snapshot record, and the atomic replacement of a file.

  A log file is its bytes and the tracked write offset. For the atomic replacement the file system is
  modelled with what a power loss can do: a file's contents are safe only once synced, and of the
  directory changes since the last directory sync any prefix may have reached the disk. The
  outcomes of the system calls are arguments, so every error path is a branch.

  Shown here: what was framed is read back, and a torn file is read as absent; recovery returns
  exactly the records written before a torn append and leaves the log ready for the next one; a
  replaced file is, at every point where power can fail, either wholly old or wholly new.
\<close>

section \<open>Framed records\<close>

definition maxRecordSize :: nat where "maxRecordSize = 67108864"

definition frameRecord :: "bytes \<Rightarrow> bytes" where
  "frameRecord payload =
     put32 (length payload mod 2 ^ 32) @ put32 (unat (crc32_ChecksumIEEE payload)) @ payload"

text \<open>\<^verbatim>\<open>readFramedFile\<close> on the contents of the file, \<^const>\<open>None\<close> when it does not exist. The result \<open>[]\<close>
  is the source's nil: no state.\<close>

definition readFramedFile :: "bytes option \<Rightarrow> bytes" where
  "readFramedFile file =
     (case file of
        None \<Rightarrow> []
      | Some data \<Rightarrow>
          if length data < 8 then []
          else
            let len = le_val (take 4 data); want = le_val (take 4 (drop 4 data)) in
            if len > maxRecordSize \<or> len \<noteq> length data - 8 then []
            else
              let payload = drop 8 data in
              if unat (crc32_ChecksumIEEE payload) \<noteq> want then [] else payload)"

section \<open>The write-ahead log\<close>

record WAL =
  wal_file :: bytes
  wal_offset :: nat

definition Open :: "bytes \<Rightarrow> WAL" where
  "Open file = \<lparr>wal_file = file, wal_offset = length file\<rparr>"

definition write_at :: "bytes \<Rightarrow> nat \<Rightarrow> bytes \<Rightarrow> bytes" where
  "write_at file off bs =
     take off (file @ replicate (off - length file) 0) @ bs @ drop (off + length bs) file"

text \<open>\<^verbatim>\<open>Append\<close>: \<open>wrote\<close> is how many bytes \<^verbatim>\<open>WriteAt\<close> wrote before it failed, if it did; \<open>sync_ok\<close> is
  whether the sync, when there is one, succeeded.\<close>

definition Append :: "nat option \<Rightarrow> bool \<Rightarrow> bytes \<Rightarrow> WAL \<Rightarrow> string option \<times> WAL" where
  "Append wrote sync_ok payload w =
     (if length payload > maxRecordSize then (Some ''storage: record too large'', w)
      else
        let rc = frameRecord payload in
        case wrote of
          Some k \<Rightarrow> (Some ''storage: write record'',
            w\<lparr>wal_file := write_at (wal_file w) (wal_offset w) (take k rc)\<rparr>)
        | None \<Rightarrow>
            let w = w\<lparr>wal_file := write_at (wal_file w) (wal_offset w) rc,
                      wal_offset := wal_offset w + length rc\<rparr>
            in if sync_ok then (None, w) else (Some ''storage: fsync'', w))"

text \<open>The loop of \<^verbatim>\<open>ReadAll\<close>: the records and the offset after the last intact one.\<close>

function read_loop :: "bytes \<Rightarrow> bytes list \<Rightarrow> nat \<Rightarrow> bytes list \<times> nat" where
  "read_loop r records offset =
     (case io_ReadFull 8 r of
        (_, None, _) \<Rightarrow> (records, offset)
      | (_, Some hdr, r) \<Rightarrow>
          let len = le_val (take 4 hdr); want = le_val (drop 4 hdr) in
          if len > maxRecordSize then (records, offset)
          else case io_ReadFull len r of
            (_, None, _) \<Rightarrow> (records, offset)
          | (_, Some payload, r) \<Rightarrow>
              if unat (crc32_ChecksumIEEE payload) \<noteq> want then (records, offset)
              else read_loop r (records @ [payload]) (offset + (8 + len)))"
  by pat_completeness auto

termination
  by (relation "measure (\<lambda>(r, _). length r)") (auto simp: io_ReadFull_def split: if_splits)

declare read_loop.simps [simp del]

definition ReadAll :: "WAL \<Rightarrow> bytes list \<times> WAL" where
  "ReadAll w =
     (let (records, offset) = read_loop (take (wal_offset w) (wal_file w)) [] 0;
          file = (if offset \<noteq> wal_offset w then take offset (wal_file w) else wal_file w)
      in (records, \<lparr>wal_file = file, wal_offset = offset\<rparr>))"

definition WAL_Truncate :: "WAL \<Rightarrow> WAL" where
  "WAL_Truncate w = \<lparr>wal_file = [], wal_offset = 0\<rparr>"

section \<open>The applied index\<close>

definition applied_record :: "nat \<Rightarrow> bytes" where
  "applied_record index = put64 (index mod 2 ^ 64) @ put32 (unat (crc32_ChecksumIEEE (put64 (index mod 2 ^ 64))))"

text \<open>The file after \<^verbatim>\<open>AppliedFile.Save\<close>, and what \<^verbatim>\<open>Load\<close> makes of any contents.\<close>

definition Applied_Save :: "nat \<Rightarrow> bytes \<Rightarrow> bytes" where
  "Applied_Save index file = write_at file 0 (applied_record index)"

definition Applied_Load :: "bytes \<Rightarrow> nat" where
  "Applied_Load file =
     (if length file < 12 then 0
      else if unat (crc32_ChecksumIEEE (take 8 file)) \<noteq> le_val (take 4 (drop 8 file)) then 0
      else le_val (take 8 file))"

section \<open>The snapshot record\<close>

definition encodeSnapshotRecord :: "nat \<Rightarrow> nat \<Rightarrow> bytes \<Rightarrow> bytes" where
  "encodeSnapshotRecord index trm data =
     put64 (index mod 2 ^ 64) @ put64 (trm mod 2 ^ 64) @ put64 (length data mod 2 ^ 64)
     @ put32 (unat (crc32_ChecksumIEEE data)) @ data"

definition decodeSnapshotRecord :: "bytes \<Rightarrow> (nat \<times> nat \<times> bytes) option" where
  "decodeSnapshotRecord raw =
     (if length raw < 28 then None
      else
        let index = le_val (take 8 raw); trm = le_val (take 8 (drop 8 raw));
            n = le_val (take 8 (drop 16 raw)); sum = le_val (take 4 (drop 24 raw)) in
        if length raw - 28 \<noteq> n then None
        else if unat (crc32_ChecksumIEEE (drop 28 raw)) \<noteq> sum then None
        else Some (index, trm, drop 28 raw))"

section \<open>Replacing a file atomically\<close>

text \<open>A file is its contents and whether they have been synced. \<open>fs_dirs\<close> are the states of the
  directory since its last sync, oldest first; the last one is the current directory.\<close>

record inode =
  fl_data :: bytes
  fl_synced :: bool

record fs =
  fs_inodes :: "(nat, inode) fmap"
  fs_dirs :: "(string, nat) fmap list"

definition cur_dir :: "fs \<Rightarrow> (string, nat) fmap" where
  "cur_dir f = last (fs_dirs f)"

definition fs_read :: "string \<Rightarrow> fs \<Rightarrow> bytes option" where
  "fs_read path f = do { i \<leftarrow> fmlookup (cur_dir f) path; fl \<leftarrow> fmlookup (fs_inodes f) i; Some (fl_data fl) }"

text \<open>What a reader may find at \<open>path\<close> after a power loss: one of the directory states since the
  last sync, and in it the file's contents if they were synced, anything otherwise.\<close>

definition crash_view :: "(nat, inode) fmap \<Rightarrow> (string, nat) fmap \<Rightarrow> string \<Rightarrow> bytes option \<Rightarrow> bool" where
  "crash_view inodes d path c =
     (case fmlookup d path of
        None \<Rightarrow> c = None
      | Some i \<Rightarrow> (case fmlookup inodes i of
            None \<Rightarrow> c = None
          | Some fl \<Rightarrow> if fl_synced fl then c = Some (fl_data fl) else c \<noteq> None))"

definition after_crash :: "string \<Rightarrow> fs \<Rightarrow> bytes option \<Rightarrow> bool" where
  "after_crash path f c \<longleftrightarrow> (\<exists>d \<in> set (fs_dirs f). crash_view (fs_inodes f) d path c)"

text \<open>The outcomes of the system calls of one replacement: the temporary name and inode, and which
  calls succeed; a failing \<^verbatim>\<open>Write\<close> has written \<open>sy_wrote\<close> bytes.\<close>

record syscalls =
  sy_tmp :: string
  sy_inode :: nat
  sy_create :: bool
  sy_write :: bool
  sy_wrote :: nat
  sy_sync :: bool
  sy_close :: bool
  sy_rename :: bool
  sy_dirsync :: bool

definition set_dir :: "(string, nat) fmap \<Rightarrow> fs \<Rightarrow> fs" where
  "set_dir d f = f\<lparr>fs_dirs := fs_dirs f @ [d]\<rparr>"

definition fs_create :: "string \<Rightarrow> nat \<Rightarrow> fs \<Rightarrow> fs" where
  "fs_create name i f =
     (set_dir (fmupd name i (cur_dir f)) f)\<lparr>fs_inodes := fmupd i \<lparr>fl_data = [], fl_synced = False\<rparr> (fs_inodes f)\<rparr>"

definition fs_write :: "nat \<Rightarrow> bytes \<Rightarrow> fs \<Rightarrow> fs" where
  "fs_write i bs f = f\<lparr>fs_inodes := fmupd i \<lparr>fl_data = bs, fl_synced = False\<rparr> (fs_inodes f)\<rparr>"

definition fs_sync :: "nat \<Rightarrow> fs \<Rightarrow> fs" where
  "fs_sync i f =
     (case fmlookup (fs_inodes f) i of
        None \<Rightarrow> f
      | Some fl \<Rightarrow> f\<lparr>fs_inodes := fmupd i (fl\<lparr>fl_synced := True\<rparr>) (fs_inodes f)\<rparr>)"

definition fs_remove :: "string \<Rightarrow> fs \<Rightarrow> fs" where
  "fs_remove name f = set_dir (fmdrop name (cur_dir f)) f"

definition fs_rename :: "string \<Rightarrow> string \<Rightarrow> fs \<Rightarrow> fs" where
  "fs_rename old new f =
     (case fmlookup (cur_dir f) old of
        None \<Rightarrow> f
      | Some i \<Rightarrow> set_dir (fmupd new i (fmdrop old (cur_dir f))) f)"

definition syncDir :: "bool \<Rightarrow> fs \<Rightarrow> fs" where
  "syncDir ok f = (if ok then f\<lparr>fs_dirs := [cur_dir f]\<rparr> else f)"

text \<open>\<^verbatim>\<open>writeFileAtomic\<close>: the error, if any, and the file system after each system call in turn, the
  last one being the final state. \<^verbatim>\<open>syncDir\<close> never reports an error.\<close>

definition writeFileAtomic :: "syscalls \<Rightarrow> string \<Rightarrow> bytes \<Rightarrow> fs \<Rightarrow> string option \<times> fs list" where
  "writeFileAtomic e path data f0 =
     (if \<not> sy_create e then (Some ''storage: create temp'', [f0])
      else
        let tmp = sy_tmp e; i = sy_inode e;
            f1 = fs_create tmp i f0 in
        if \<not> sy_write e then
          let f2 = fs_write i (take (sy_wrote e) data) f1
          in (Some ''storage: write temp'', [f0, f1, f2, fs_remove tmp f2])
        else
          let f2 = fs_write i data f1 in
          if \<not> sy_sync e then (Some ''storage: fsync temp'', [f0, f1, f2, fs_remove tmp f2])
          else
            let f3 = fs_sync i f2 in
            if \<not> sy_close e then (Some ''storage: close temp'', [f0, f1, f2, f3, fs_remove tmp f3])
            else if \<not> sy_rename e then (Some ''storage: rename into place'', [f0, f1, f2, f3, fs_remove tmp f3])
            else
              let f4 = fs_rename tmp path f3; f5 = syncDir (sy_dirsync e) f4
              in (None, [f0, f1, f2, f3, f4, f5]))"

text \<open>\<^verbatim>\<open>RaftState\<close>: the state file and the snapshot file beside it.\<close>

definition RaftState_Save :: "syscalls \<Rightarrow> string \<Rightarrow> bytes \<Rightarrow> fs \<Rightarrow> string option \<times> fs list" where
  "RaftState_Save e path st f = writeFileAtomic e path (frameRecord st) f"

definition RaftState_Load :: "string \<Rightarrow> fs \<Rightarrow> bytes" where
  "RaftState_Load path f = readFramedFile (fs_read path f)"

definition snapshotPath :: "string \<Rightarrow> string" where
  "snapshotPath path = path @ ''.snapshot''"

definition SaveSnapshot :: "syscalls \<Rightarrow> string \<Rightarrow> nat \<Rightarrow> nat \<Rightarrow> bytes \<Rightarrow> fs \<Rightarrow> string option \<times> fs list" where
  "SaveSnapshot e path index trm data f =
     writeFileAtomic e (snapshotPath path) (encodeSnapshotRecord index trm data) f"

definition LoadSnapshot :: "string \<Rightarrow> fs \<Rightarrow> (nat \<times> nat \<times> bytes) option" where
  "LoadSnapshot path f =
     (case fs_read (snapshotPath path) f of None \<Rightarrow> None | Some raw \<Rightarrow> decodeSnapshotRecord raw)"

section \<open>Reading back what was written\<close>

lemma take_drop_simps [simp]:
  "take 4 (put32 a @ r) = put32 a" "drop 4 (put32 a @ r) = r"
  "take 8 (put64 a @ r) = put64 a" "drop 8 (put64 a @ r) = r"
  by simp_all

lemma le_val_crc [simp]: "le_val (put32 (unat (crc32_ChecksumIEEE bs))) = unat (crc32_ChecksumIEEE bs)"
  by simp

lemma drop_8_header [simp]: "drop 8 (put32 a @ put32 b @ r) = r"
proof -
  have "drop 8 (put32 a @ put32 b @ r) = drop 4 (drop 4 (put32 a @ put32 b @ r))" by (simp add: drop_drop)
  then show ?thesis by simp
qed

lemma readFramedFile_frame:
  assumes "length p \<le> maxRecordSize" shows "readFramedFile (Some (frameRecord p)) = p"
  using assms by (simp add: readFramedFile_def frameRecord_def Let_def maxRecordSize_def)

lemma readFramedFile_torn:
  assumes "length p \<le> maxRecordSize" "k < length (frameRecord p)"
  shows "readFramedFile (Some (take k (frameRecord p))) = []"
proof (cases "k < 8")
  case False
  then have "take 4 (take k (frameRecord p)) = put32 (length p mod 2 ^ 32)"
    by (simp add: frameRecord_def min_def)
  moreover have "k - 8 \<noteq> length p" using assms(2) False by (simp add: frameRecord_def)
  ultimately show ?thesis
    using assms False by (simp add: readFramedFile_def Let_def maxRecordSize_def)
qed (simp add: readFramedFile_def min_def)

text \<open>Raft's state file is read as it was written, or not at all: a framed record is read back
  exactly, and every strict prefix of it (a torn file) is read as no state.\<close>

theorem framed_file_all_or_nothing:
  assumes "length p \<le> maxRecordSize"
  shows "readFramedFile (Some (take k (frameRecord p))) = (if k < length (frameRecord p) then [] else p)"
  using assms readFramedFile_torn readFramedFile_frame by (cases "k < length (frameRecord p)") simp_all

theorem framed_file_all_or_nothing_witness:
  "readFramedFile (Some (take 11 (frameRecord [1, 2, 3]))) = [1, 2, 3]
   \<and> readFramedFile (Some (take 10 (frameRecord [1, 2, 3]))) = []"
  using framed_file_all_or_nothing [of "[1, 2, 3]" 11] framed_file_all_or_nothing [of "[1, 2, 3]" 10]
  by (simp add: maxRecordSize_def frameRecord_def)

text \<open>a snapshot file is read as it was written, or not at all: index, term and data come back
  exactly, and every strict prefix of the record is refused.\<close>

theorem snapshot_record_all_or_nothing:
  assumes "index < 2 ^ 64" "trm < 2 ^ 64" "length data < 2 ^ 64"
  shows "decodeSnapshotRecord (take k (encodeSnapshotRecord index trm data)) =
    (if k < length (encodeSnapshotRecord index trm data) then None else Some (index, trm, data))"
proof -
  let ?r = "encodeSnapshotRecord index trm data"
  have d: "drop 8 ?r = put64 trm @ put64 (length data) @ put32 (unat (crc32_ChecksumIEEE data)) @ data"
    "drop 16 ?r = put64 (length data) @ put32 (unat (crc32_ChecksumIEEE data)) @ data"
    "drop 24 ?r = put32 (unat (crc32_ChecksumIEEE data)) @ data" "drop 28 ?r = data"
    using assms by (simp_all add: encodeSnapshotRecord_def)
  have l: "length ?r = 28 + length data" by (simp add: encodeSnapshotRecord_def)
  show ?thesis
  proof (cases "k < length ?r")
    case True
    show ?thesis
    proof (cases "k < 28")
      case False
      have "take 8 (drop 16 (take k ?r)) = take 8 (drop 16 ?r)" using False by (simp add: drop_take min_def)
      then have "le_val (take 8 (drop 16 (take k ?r))) = length data" using d assms by simp
      moreover have "k - 28 \<noteq> length data" using True False l by simp
      ultimately show ?thesis using True False l by (simp add: decodeSnapshotRecord_def Let_def)
    qed (use True in \<open>simp add: decodeSnapshotRecord_def\<close>)
  next
    case False
    have "take 8 ?r = put64 index" using assms by (simp add: encodeSnapshotRecord_def)
    with False l d assms show ?thesis by (simp add: decodeSnapshotRecord_def Let_def)
  qed
qed

theorem snapshot_record_all_or_nothing_witness:
  "decodeSnapshotRecord (take 30 (encodeSnapshotRecord 7 2 [4, 5])) = Some (7, 2, [4, 5])
   \<and> decodeSnapshotRecord (take 29 (encodeSnapshotRecord 7 2 [4, 5])) = None"
  using snapshot_record_all_or_nothing [of 7 2 "[4, 5]" 30] snapshot_record_all_or_nothing [of 7 2 "[4, 5]" 29]
  by (simp add: encodeSnapshotRecord_def)

lemma Applied_Load_Save:
  assumes "index < 2 ^ 64" shows "Applied_Load (Applied_Save index file) = index"
proof -
  have r: "Applied_Save index file = put64 index @ put32 (unat (crc32_ChecksumIEEE (put64 index))) @ drop 12 file"
    using assms by (simp add: Applied_Save_def write_at_def applied_record_def)
  show ?thesis using assms by (simp add: r Applied_Load_def)
qed

section \<open>Recovery of the log\<close>

lemma read_loop_frame:
  assumes "length p \<le> maxRecordSize"
  shows "read_loop (frameRecord p @ r) recs off = read_loop r (recs @ [p]) (off + length (frameRecord p))"
proof -
  have "length p < 2 ^ 32" using assms by (simp add: maxRecordSize_def)
  then show ?thesis using assms
    by (subst read_loop.simps) (simp add: frameRecord_def io_ReadFull_def Let_def)
qed

lemma read_loop_frames:
  assumes "\<And>p. p \<in> set ps \<Longrightarrow> length p \<le> maxRecordSize"
  shows "read_loop (concat (map frameRecord ps) @ r) recs off
    = read_loop r (recs @ ps) (off + length (concat (map frameRecord ps)))"
  using assms
proof (induction ps arbitrary: recs off)
  case (Cons p ps)
  then show ?case by (simp add: read_loop_frame add.assoc)
qed simp

lemma read_loop_torn:
  assumes "length q \<le> maxRecordSize" "k < length (frameRecord q)"
  shows "read_loop (take k (frameRecord q)) recs off = (recs, off)"
proof (cases "k < 8")
  case True
  then show ?thesis using assms by (subst read_loop.simps) (simp add: io_ReadFull_def)
next
  case False
  then have "take 8 (take k (frameRecord q)) = put32 (length q) @ put32 (unat (crc32_ChecksumIEEE q))"
    "drop 8 (take k (frameRecord q)) = take (k - 8) q"
    using assms by (simp_all add: frameRecord_def min_def drop_take maxRecordSize_def)
  moreover have "k - 8 < length q" using assms(2) False by (simp add: frameRecord_def)
  moreover have "length q < 2 ^ 32" using assms by (simp add: maxRecordSize_def)
  ultimately show ?thesis
    using False assms by (subst read_loop.simps) (simp add: io_ReadFull_def Let_def min_def)
qed

lemma ReadAll_Open:
  "ReadAll (Open f) = (case read_loop f [] 0 of
     (records, off) \<Rightarrow> (records, \<lparr>wal_file = (if off \<noteq> length f then take off f else f), wal_offset = off\<rparr>))"
  by (simp add: ReadAll_def Open_def split: prod.split)

text \<open>C24: recovery after a crash in the middle of an append. When the log file holds the records \<open>ps\<close>
  followed by any strict prefix of a further record, opening it and reading it returns exactly \<open>ps\<close>,
  cuts the torn tail off, and a following append adds its record after them.\<close>

theorem WAL_recovers_torn_append:
  assumes "list_all (\<lambda>p. length p \<le> maxRecordSize) (ps @ [q])" "k < length (frameRecord q)"
    and "length n \<le> maxRecordSize"
  shows "ReadAll (Open (concat (map frameRecord ps) @ take k (frameRecord q)))
      = (ps, Open (concat (map frameRecord ps)))
    \<and> Append None True n (Open (concat (map frameRecord ps))) = (None, Open (concat (map frameRecord (ps @ [n]))))"
proof -
  let ?good = "concat (map frameRecord ps)"
  have "read_loop (?good @ take k (frameRecord q)) [] 0 = (ps, length ?good)"
    using assms(1,2) by (subst read_loop_frames) (auto simp: list_all_iff read_loop_torn)
  then have "ReadAll (Open (?good @ take k (frameRecord q))) = (ps, Open ?good)"
    unfolding ReadAll_Open using assms(2) by (auto simp: Open_def)
  moreover have "Append None True n (Open ?good) = (None, Open (concat (map frameRecord (ps @ [n]))))"
    using assms(3) by (simp add: Append_def Open_def write_at_def Let_def)
  ultimately show ?thesis ..
qed

theorem WAL_recovers_torn_append_witness:
  "ReadAll (Open (concat (map frameRecord [[1], [2]]) @ take 5 (frameRecord [3])))
      = ([[1], [2]], Open (concat (map frameRecord [[1], [2]])))
   \<and> Append None True [4] (Open (concat (map frameRecord [[1], [2]])))
      = (None, Open (concat (map frameRecord ([[1], [2]] @ [[4]]))))"
  by (rule WAL_recovers_torn_append [of "[[1], [2]]" "[3]" 5 "[4]"]) (simp_all add: maxRecordSize_def frameRecord_def)

section \<open>Crash atomicity of the replacement\<close>

lemmas fs_defs = fs_create_def fs_write_def fs_sync_def fs_remove_def fs_rename_def syncDir_def
  set_dir_def cur_dir_def

text \<open>The file at \<open>path\<close> is the inode \<open>i\<close>, durable with contents \<open>c\<close>, in every directory state.\<close>

definition durable :: "string \<Rightarrow> nat \<Rightarrow> bytes \<Rightarrow> fs \<Rightarrow> bool" where
  "durable path i c f \<longleftrightarrow> fs_dirs f \<noteq> [] \<and> (\<forall>d\<in>set (fs_dirs f). fmlookup d path = Some i)
     \<and> fmlookup (fs_inodes f) i = Some \<lparr>fl_data = c, fl_synced = True\<rparr>"

text \<open>\<open>settled\<close>: the file at \<open>path\<close> is durable with contents \<open>old\<close>, and the temporary name and inode
  are fresh.\<close>

definition settled :: "syscalls \<Rightarrow> string \<Rightarrow> bytes \<Rightarrow> fs \<Rightarrow> bool" where
  "settled e path old f \<longleftrightarrow> sy_tmp e \<noteq> path \<and> (\<exists>i. sy_inode e \<noteq> i \<and> durable path i old f)"

lemma durable_crash: "durable path i c f \<Longrightarrow> after_crash path f x \<Longrightarrow> x = Some c"
  by (auto simp: durable_def after_crash_def crash_view_def)

lemma durable_read: "durable path i c f \<Longrightarrow> fs_read path f = Some c"
  by (simp add: durable_def fs_read_def cur_dir_def)

lemma durable_create: "durable path i c f \<Longrightarrow> tmp \<noteq> path \<Longrightarrow> j \<noteq> i \<Longrightarrow> durable path i c (fs_create tmp j f)"
  by (auto simp: durable_def fs_defs)

lemma durable_write: "durable path i c f \<Longrightarrow> j \<noteq> i \<Longrightarrow> durable path i c (fs_write j bs f)"
  by (auto simp: durable_def fs_defs)

lemma durable_sync: "durable path i c f \<Longrightarrow> j \<noteq> i \<Longrightarrow> durable path i c (fs_sync j f)"
  by (auto simp: durable_def fs_defs split: option.split)

lemma durable_remove: "durable path i c f \<Longrightarrow> tmp \<noteq> path \<Longrightarrow> durable path i c (fs_remove tmp f)"
  by (auto simp: durable_def fs_defs)

lemmas durable_intros = durable_create durable_write durable_sync durable_remove

text \<open>After the rename the directory holds the old file in its earlier states and the new one in the
  last.\<close>

lemma renamed:
  assumes "durable path i old f" "i \<noteq> j" "fmlookup (cur_dir f) tmp = Some j"
    "fmlookup (fs_inodes f) j = Some \<lparr>fl_data = new, fl_synced = True\<rparr>"
  shows "after_crash path (fs_rename tmp path f) x \<Longrightarrow> x = Some old \<or> x = Some new"
    and "fs_read path (fs_rename tmp path f) = Some new"
    and "durable path j new (syncDir True (fs_rename tmp path f))"
proof -
  have r: "fs_rename tmp path f = f\<lparr>fs_dirs := fs_dirs f @ [fmupd path j (fmdrop tmp (cur_dir f))]\<rparr>"
    using assms(3) by (simp add: fs_rename_def set_dir_def)
  show "after_crash path (fs_rename tmp path f) x \<Longrightarrow> x = Some old \<or> x = Some new"
    using assms(1,4) by (auto simp: r after_crash_def durable_def crash_view_def)
  show "fs_read path (fs_rename tmp path f) = Some new"
    using assms(4) by (simp add: r fs_read_def cur_dir_def)
  show "durable path j new (syncDir True (fs_rename tmp path f))"
    using assms(4) by (simp add: r durable_def syncDir_def cur_dir_def)
qed

lemma after_crash_syncDir: "after_crash path (syncDir b f) x \<Longrightarrow> fs_dirs f \<noteq> [] \<Longrightarrow> after_crash path f x"
  by (cases b) (auto simp: after_crash_def syncDir_def cur_dir_def)

lemma fs_read_syncDir [simp]: "fs_read path (syncDir b f) = fs_read path f"
  by (simp add: fs_read_def syncDir_def cur_dir_def)

text \<open>C23: the replacement of the state file is atomic under power loss. Whichever system calls fail
  and wherever power is lost, a reader afterwards finds the whole old contents or the whole new
  contents, never a mixture, an empty file or none; when the call reports an error the old contents
  remain; and when it reports success and the directory sync took effect, only the new contents can
  be found.\<close>

theorem writeFileAtomic_crash_atomic:
  assumes "settled e path old f0" "writeFileAtomic e path data f0 = (err, trace)"
  shows "(\<forall>f\<in>set trace. \<forall>c. after_crash path f c \<longrightarrow> c = Some old \<or> c = Some data)
    \<and> (err \<noteq> None \<longrightarrow> (\<forall>c. after_crash path (last trace) c \<longrightarrow> c = Some old) \<and> fs_read path (last trace) = Some old)
    \<and> (err = None \<longrightarrow> fs_read path (last trace) = Some data
        \<and> (sy_dirsync e \<longrightarrow> (\<forall>c. after_crash path (last trace) c \<longrightarrow> c = Some data)))"
proof -
  let ?j = "sy_inode e" and ?tmp = "sy_tmp e"
  obtain i where i: "?j \<noteq> i" "?tmp \<noteq> path" "durable path i old f0"
    using assms(1) by (auto simp: settled_def)
  have w: "durable path i old (fs_write ?j bs (fs_create ?tmp ?j f0))" for bs
    using i by (intro durable_intros) auto
  define f3 where "f3 = fs_sync ?j (fs_write ?j data (fs_create ?tmp ?j f0))"
  have f3: "durable path i old f3" unfolding f3_def using i w by (intro durable_sync) auto
  have new: "fmlookup (cur_dir f3) ?tmp = Some ?j"
    "fmlookup (fs_inodes f3) ?j = Some \<lparr>fl_data = data, fl_synced = True\<rparr>"
    by (simp_all add: f3_def fs_defs)
  note rn = renamed [OF f3 i(1) [symmetric] new]
  have ne: "fs_dirs (fs_rename ?tmp path f3) \<noteq> []" using f3 by (simp add: fs_defs durable_def split: option.split)
  note du = i(3) w f3 durable_create [OF i(3) i(2) i(1)] durable_remove [OF w i(2)] durable_remove [OF f3 i(2)]
  show ?thesis
    using assms(2)
    by (simp only: writeFileAtomic_def Let_def f3_def [symmetric] split: if_splits)
      (auto simp: durable_read [OF du(1)] durable_read [OF du(5)] durable_read [OF du(6)] rn(2)
        dest: durable_crash [OF du(1)] durable_crash [OF du(2)] durable_crash [OF du(3)] durable_crash [OF du(4)]
          durable_crash [OF du(5)] durable_crash [OF du(6)] durable_crash [OF rn(3)] rn(1)
          rn(1) [OF after_crash_syncDir [OF _ ne]])
qed

theorem writeFileAtomic_crash_atomic_witness:
  "let e = \<lparr>sy_tmp = ''s.tmp1'', sy_inode = 2, sy_create = True, sy_write = True, sy_wrote = 0, sy_sync = True,
             sy_close = True, sy_rename = True, sy_dirsync = True\<rparr>;
       f0 = \<lparr>fs_inodes = fmupd 1 \<lparr>fl_data = [1], fl_synced = True\<rparr> fmempty, fs_dirs = [fmupd ''s'' 1 fmempty]\<rparr>
   in (\<forall>f\<in>set (snd (writeFileAtomic e ''s'' [2] f0)). \<forall>c. after_crash ''s'' f c \<longrightarrow> c = Some [1] \<or> c = Some [2])"
proof -
  let ?e = "\<lparr>sy_tmp = ''s.tmp1'', sy_inode = 2, sy_create = True, sy_write = True, sy_wrote = 0, sy_sync = True,
             sy_close = True, sy_rename = True, sy_dirsync = True\<rparr>"
  let ?f0 = "\<lparr>fs_inodes = fmupd 1 \<lparr>fl_data = [1], fl_synced = True\<rparr> fmempty, fs_dirs = [fmupd ''s'' 1 fmempty]\<rparr>"
  have "settled ?e ''s'' [1] ?f0" by (simp add: settled_def durable_def)
  from writeFileAtomic_crash_atomic [OF this, of "[2]"] show ?thesis
    unfolding Let_def by (metis prod.collapse)
qed

end
