(* ===== verification/RaftLog.thy ===== *)
theory RaftLog
  imports Prelude
begin

text \<open>
  The replicated log and its comparison rules (src/raft/log.go, the data of src/raft/types.go and
  \<^verbatim>\<open>discardThrough\<close> of src/raft/snapshot.go). A log is a list of entries whose first element is the
  sentinel: entry 0 of the zero term before any compaction, the snapshot boundary afterwards.
  Terms and indices are \<^typ>\<open>nat\<close>; both are \<^verbatim>\<open>uint64\<close> counters in the code that advance by one. A nil
  command (the no-op of a new leader) is \<^const>\<open>None\<close>.

  \<open>wf_log\<close> says that the log is not empty and that indices are consecutive. On such logs every
  access of the code is in range. Shown here: what a lookup returns; that \<open>appendFrom\<close> keeps the log
  well formed, ends with the leader's entries, keeps every entry that does not conflict and changes
  nothing when the same message is delivered again; that the comparison of logs in votes is the
  lexicographic order of last term and last index; and that discarding a prefix leaves every later
  lookup as it was.
\<close>

section \<open>Data\<close>

datatype Role = Follower | Candidate | Leader

definition Role_String :: "Role \<Rightarrow> string" where
  "Role_String r = (case r of
     Follower \<Rightarrow> ''Follower'' | Candidate \<Rightarrow> ''Candidate'' | Leader \<Rightarrow> ''Leader'')"

type_synonym NodeID = string
type_synonym Term = nat
type_synonym Index = nat

record LogEntry =
  ent_Term :: Term
  ent_Index :: Index
  ent_Command :: "bytes option"

type_synonym Log = "LogEntry list"

section \<open>Accessors\<close>

definition baseIndex :: "Log \<Rightarrow> Index" where
  "baseIndex l = ent_Index (hd l)"

definition baseTerm :: "Log \<Rightarrow> Term" where
  "baseTerm l = ent_Term (hd l)"

definition slot :: "Log \<Rightarrow> Index \<Rightarrow> nat" where
  "slot l i = i - baseIndex l"

definition lastIndex :: "Log \<Rightarrow> Index" where
  "lastIndex l = ent_Index (last l)"

definition lastTerm :: "Log \<Rightarrow> Term" where
  "lastTerm l = ent_Term (last l)"

definition entryAt :: "Log \<Rightarrow> Index \<Rightarrow> LogEntry option" where
  "entryAt l i = (if i < baseIndex l \<or> i > lastIndex l then None else Some (l ! slot l i))"

definition compactedAway :: "Log \<Rightarrow> Index \<Rightarrow> bool" where
  "compactedAway l i \<longleftrightarrow> i < baseIndex l"

definition termAt :: "Log \<Rightarrow> Index \<Rightarrow> Term option" where
  "termAt l i = (case entryAt l i of None \<Rightarrow> None | Some e \<Rightarrow> Some (ent_Term e))"

definition isUpToDate :: "Log \<Rightarrow> Index \<Rightarrow> Term \<Rightarrow> bool" where
  "isUpToDate l candLastIndex candLastTerm =
     (let myIndex = lastIndex l; myTerm = lastTerm l in
      if candLastTerm \<noteq> myTerm then candLastTerm > myTerm else candLastIndex \<ge> myIndex)"

definition matchesPrevLog :: "Log \<Rightarrow> Index \<Rightarrow> Term \<Rightarrow> bool" where
  "matchesPrevLog l prevLogIndex prevLogTerm =
     (if compactedAway l prevLogIndex then True
      else (case termAt l prevLogIndex of None \<Rightarrow> False | Some t \<Rightarrow> t = prevLogTerm))"

text \<open>The loop of \<^verbatim>\<open>appendFrom\<close>: the flag is whether the log was modified.\<close>

fun appendFrom :: "Index \<Rightarrow> LogEntry list \<Rightarrow> Log \<Rightarrow> bool \<times> Log" where
  "appendFrom prev [] l = (False, l)"
| "appendFrom prev (e # es) l =
     (let idx = prev + 1 in
      if idx \<le> baseIndex l then appendFrom idx es l
      else
        let new = \<lparr>ent_Term = ent_Term e, ent_Index = idx, ent_Command = ent_Command e\<rparr> in
        case entryAt l idx of
          Some existing \<Rightarrow>
            (if ent_Term existing = ent_Term e then appendFrom idx es l
             else (True, snd (appendFrom idx es (take (slot l idx) l @ [new]))))
        | None \<Rightarrow> (True, snd (appendFrom idx es (l @ [new]))))"

definition majority :: "NodeID list \<Rightarrow> nat" where
  "majority peers = length peers div 2 + 1"

definition discardThrough :: "Index \<Rightarrow> Term \<Rightarrow> Log \<Rightarrow> Log" where
  "discardThrough idx t l =
     \<lparr>ent_Term = t, ent_Index = idx, ent_Command = None\<rparr> # drop (slot l idx + 1) l"

definition sentinel :: LogEntry where
  "sentinel = \<lparr>ent_Term = 0, ent_Index = 0, ent_Command = None\<rparr>"

section \<open>Well-formed logs\<close>

definition wf_log :: "Log \<Rightarrow> bool" where
  "wf_log l \<longleftrightarrow> l \<noteq> [] \<and> map ent_Index l = [baseIndex l ..< baseIndex l + length l]"

lemma wf_log_iff:
  "wf_log l \<longleftrightarrow> l \<noteq> [] \<and> (\<forall>i < length l. ent_Index (l ! i) = baseIndex l + i)"
  by (simp add: wf_log_def list_eq_iff_nth_eq [of "map ent_Index l"])

lemma wf_logD: "wf_log l \<Longrightarrow> i < length l \<Longrightarrow> ent_Index (l ! i) = baseIndex l + i"
  by (simp add: wf_log_iff)

lemma wf_log_not_Nil [dest]: "wf_log l \<Longrightarrow> l \<noteq> []"
  by (simp add: wf_log_def)

lemma wf_log_sentinel [simp]: "wf_log [sentinel]"
  by (simp add: wf_log_iff baseIndex_def)

lemma wf_log_single [simp]: "wf_log [e]"
  by (simp add: wf_log_iff baseIndex_def)

lemma lastIndex_wf: "wf_log l \<Longrightarrow> lastIndex l = baseIndex l + length l - 1"
  by (cases l) (auto simp: lastIndex_def last_conv_nth wf_log_iff)

lemma baseIndex_le_lastIndex: "wf_log l \<Longrightarrow> baseIndex l \<le> lastIndex l"
  by (frule wf_log_not_Nil) (cases l; simp add: lastIndex_wf)

lemma length_wf: "wf_log l \<Longrightarrow> length l = lastIndex l - baseIndex l + 1"
  by (frule wf_log_not_Nil) (cases l; simp add: lastIndex_wf)

text \<open>Every lookup the code makes is in range.\<close>

lemma slot_in_range: "wf_log l \<Longrightarrow> baseIndex l \<le> i \<Longrightarrow> i \<le> lastIndex l \<Longrightarrow> slot l i < length l"
  using length_wf [of l] by (simp add: slot_def)

lemma entryAt_None_iff: "entryAt l i = None \<longleftrightarrow> i < baseIndex l \<or> lastIndex l < i"
  by (simp add: entryAt_def)

lemma entryAt_Index: "wf_log l \<Longrightarrow> entryAt l i = Some e \<Longrightarrow> ent_Index e = i \<and> e \<in> set l"
  using slot_in_range [of l i]
  by (auto simp: entryAt_def wf_logD slot_def split: if_splits)

lemma entryAt_range: "entryAt l i = Some e \<Longrightarrow> baseIndex l \<le> i \<and> i \<le> lastIndex l"
  by (simp add: entryAt_def split: if_splits)

lemma entryAt_nth: "wf_log l \<Longrightarrow> k < length l \<Longrightarrow> entryAt l (baseIndex l + k) = Some (l ! k)"
  using length_wf [of l] baseIndex_le_lastIndex [of l] by (simp add: entryAt_def slot_def)

lemma entryAt_lastIndex: "wf_log l \<Longrightarrow> entryAt l (lastIndex l) = Some (last l)"
  using baseIndex_le_lastIndex [of l] length_wf [of l] wf_log_not_Nil [of l]
  by (simp add: entryAt_def slot_def last_conv_nth)

lemma entryAt_baseIndex: "wf_log l \<Longrightarrow> entryAt l (baseIndex l) = Some (hd l)"
  using baseIndex_le_lastIndex [of l] wf_log_not_Nil [of l]
  by (simp add: entryAt_def slot_def hd_conv_nth)

lemma termAt_lastIndex: "wf_log l \<Longrightarrow> termAt l (lastIndex l) = Some (lastTerm l)"
  by (simp add: termAt_def entryAt_lastIndex lastTerm_def)

lemma termAt_None_iff: "termAt l i = None \<longleftrightarrow> i < baseIndex l \<or> lastIndex l < i"
  using entryAt_None_iff [of l i] by (cases "entryAt l i") (simp_all add: termAt_def)

text \<open>Two well-formed logs with the same boundary and the same lookups are the same log.\<close>

lemma log_eqI:
  assumes "wf_log l" "wf_log l'" "baseIndex l = baseIndex l'" "\<And>i. entryAt l i = entryAt l' i"
  shows "l = l'"
proof -
  have last: "lastIndex l = lastIndex l'"
  proof (rule antisym)
    show "lastIndex l \<le> lastIndex l'"
      using assms(4) [of "lastIndex l"] entryAt_lastIndex [OF assms(1)] entryAt_range by metis
    show "lastIndex l' \<le> lastIndex l"
      using assms(4) [of "lastIndex l'"] entryAt_lastIndex [OF assms(2)] entryAt_range by metis
  qed
  then have len: "length l = length l'"
    using length_wf [OF assms(1)] length_wf [OF assms(2)] assms(3) by simp
  show ?thesis
  proof (rule nth_equalityI [OF len])
    fix k assume "k < length l"
    then show "l ! k = l' ! k"
      using entryAt_nth [OF assms(1)] entryAt_nth [OF assms(2)] assms(3,4) len by (metis option.inject)
  qed
qed

section \<open>Comparing logs\<close>

lemma isUpToDate_lex:
  "isUpToDate l i t \<longleftrightarrow> lastTerm l < t \<or> (lastTerm l = t \<and> lastIndex l \<le> i)"
  by (auto simp: isUpToDate_def Let_def)

lemma isUpToDate_refl: "isUpToDate l (lastIndex l) (lastTerm l)"
  by (simp add: isUpToDate_lex)

lemma isUpToDate_total:
  "isUpToDate l (lastIndex l') (lastTerm l') \<or> isUpToDate l' (lastIndex l) (lastTerm l)"
  by (auto simp: isUpToDate_lex)

lemma isUpToDate_trans:
  "isUpToDate l (lastIndex l') (lastTerm l') \<Longrightarrow> isUpToDate l' i t \<Longrightarrow> isUpToDate l i t"
  by (auto simp: isUpToDate_lex)

lemma matchesPrevLog_le_lastIndex:
  "wf_log l \<Longrightarrow> matchesPrevLog l p t \<Longrightarrow> p \<le> lastIndex l"
  using baseIndex_le_lastIndex [of l]
  by (auto simp: matchesPrevLog_def compactedAway_def termAt_def entryAt_def split: if_splits)

section \<open>Appending\<close>

lemma wf_log_snoc:
  assumes "wf_log l" shows "wf_log (l @ [\<lparr>ent_Term = t, ent_Index = Suc (lastIndex l), ent_Command = c\<rparr>])"
  using assms length_wf [OF assms] baseIndex_le_lastIndex [OF assms]
  by (auto simp: wf_log_iff baseIndex_def nth_append less_Suc_eq)

lemma baseIndex_append [simp]: "l \<noteq> [] \<Longrightarrow> baseIndex (l @ l') = baseIndex l"
  by (simp add: baseIndex_def)

lemma lastIndex_snoc [simp]: "lastIndex (l @ [e]) = ent_Index e"
  by (simp add: lastIndex_def)

lemma lastTerm_snoc [simp]: "lastTerm (l @ [e]) = ent_Term e"
  by (simp add: lastTerm_def)

lemma entryAt_snoc:
  assumes "wf_log l" "ent_Index e = Suc (lastIndex l)"
  shows "entryAt (l @ [e]) i = (if i = Suc (lastIndex l) then Some e else entryAt l i)"
  using assms baseIndex_le_lastIndex [OF assms(1)] length_wf [OF assms(1)]
  by (auto simp: entryAt_def slot_def nth_append wf_log_not_Nil)

lemma wf_log_take:
  assumes "wf_log l" "0 < k" shows "wf_log (take k l)" "baseIndex (take k l) = baseIndex l"
  using assms by (auto simp: wf_log_iff baseIndex_def)

text \<open>Truncating at an index keeps exactly the entries below it.\<close>

lemma truncate_log:
  assumes "wf_log l" "baseIndex l < idx" "idx \<le> lastIndex l"
  shows "wf_log (take (slot l idx) l)" "baseIndex (take (slot l idx) l) = baseIndex l"
    "lastIndex (take (slot l idx) l) = idx - 1"
    "entryAt (take (slot l idx) l) i = (if i < idx then entryAt l i else None)"
proof -
  have s: "0 < slot l idx" "slot l idx < length l"
    using assms slot_in_range [of l idx] by (auto simp: slot_def)
  show wf: "wf_log (take (slot l idx) l)" and base: "baseIndex (take (slot l idx) l) = baseIndex l"
    using wf_log_take [OF assms(1) s(1)] .
  show last: "lastIndex (take (slot l idx) l) = idx - 1"
    using lastIndex_wf [OF wf] base s assms(2) by (simp add: slot_def min_def)
  show "entryAt (take (slot l idx) l) i = (if i < idx then entryAt l i else None)"
    using assms base last by (auto simp: entryAt_def slot_def)
qed

text \<open>One step of the loop that modifies the log: truncate (where an entry is in the way) and append.\<close>

definition put_at :: "Index \<Rightarrow> LogEntry \<Rightarrow> Log \<Rightarrow> Log" where
  "put_at idx e l =
     (if lastIndex l < idx then l else take (slot l idx) l)
     @ [\<lparr>ent_Term = ent_Term e, ent_Index = idx, ent_Command = ent_Command e\<rparr>]"

lemma put_at_props:
  assumes "wf_log l" "baseIndex l < idx" "idx \<le> Suc (lastIndex l)"
  shows "wf_log (put_at idx e l)" "baseIndex (put_at idx e l) = baseIndex l"
    "lastIndex (put_at idx e l) = idx"
    "entryAt (put_at idx e l) i = (if i < idx then entryAt l i
       else if i = idx then Some \<lparr>ent_Term = ent_Term e, ent_Index = idx, ent_Command = ent_Command e\<rparr>
       else None)"
proof -
  let ?l = "if lastIndex l < idx then l else take (slot l idx) l"
  have l: "wf_log ?l" "baseIndex ?l = baseIndex l" "Suc (lastIndex ?l) = idx"
    "\<And>i. entryAt ?l i = (if i < idx then entryAt l i else None)"
    using assms truncate_log [OF assms(1,2)] by (auto simp: entryAt_None_iff)
  show "wf_log (put_at idx e l)"
    using wf_log_snoc [OF l(1), of "ent_Term e" "ent_Command e"] l(3) by (simp add: put_at_def)
  show "baseIndex (put_at idx e l) = baseIndex l"
    using l(1,2) by (simp add: put_at_def wf_log_not_Nil)
  show "lastIndex (put_at idx e l) = idx" by (simp add: put_at_def)
  show "entryAt (put_at idx e l) i = (if i < idx then entryAt l i
       else if i = idx then Some \<lparr>ent_Term = ent_Term e, ent_Index = idx, ent_Command = ent_Command e\<rparr>
       else None)"
    using entryAt_snoc [OF l(1), of "\<lparr>ent_Term = ent_Term e, ent_Index = idx, ent_Command = ent_Command e\<rparr>" i]
      l(3,4) by (simp add: put_at_def)
qed

lemma appendFrom_Cons:
  assumes "wf_log l"
  shows "appendFrom prev (e # es) l =
    (if Suc prev \<le> baseIndex l \<or> termAt l (Suc prev) = Some (ent_Term e) then appendFrom (Suc prev) es l
     else (True, snd (appendFrom (Suc prev) es (put_at (Suc prev) e l))))"
proof (cases "Suc prev \<le> baseIndex l")
  case False
  then show ?thesis
  proof (cases "entryAt l (Suc prev)")
    case None
    with False have "lastIndex l < Suc prev" by (simp add: entryAt_None_iff)
    with None False show ?thesis by (simp add: termAt_def put_at_def Let_def)
  next
    case (Some x)
    then have "\<not> lastIndex l < Suc prev" by (auto dest: entryAt_range)
    with Some False show ?thesis by (simp add: termAt_def put_at_def Let_def)
  qed
qed (simp add: Let_def)

declare appendFrom.simps(2) [simp del]

text \<open>The loop invariant: the log stays well formed with the same boundary, and the lookup at an index
  is the entry sent for it, or what was there.\<close>

lemma appendFrom_wf:
  assumes "wf_log l" "prev \<le> lastIndex l"
  shows "wf_log (snd (appendFrom prev es l)) \<and> baseIndex (snd (appendFrom prev es l)) = baseIndex l
    \<and> prev + length es \<le> lastIndex (snd (appendFrom prev es l))"
  using assms
proof (induction es arbitrary: prev l)
  case (Cons e es)
  show ?case
  proof (cases "Suc prev \<le> baseIndex l \<or> termAt l (Suc prev) = Some (ent_Term e)")
    case True
    then have "Suc prev \<le> lastIndex l"
      using Cons.prems baseIndex_le_lastIndex termAt_None_iff [of l "Suc prev"] by fastforce
    with Cons.IH [OF Cons.prems(1) this] Cons.prems True show ?thesis by (simp add: appendFrom_Cons)
  next
    case False
    then have p: "baseIndex l < Suc prev" by simp
    note pp = put_at_props [OF Cons.prems(1) p, of e]
    from Cons.IH [of "put_at (Suc prev) e l" "Suc prev"] pp Cons.prems False show ?thesis
      by (simp add: appendFrom_Cons)
  qed
qed simp

lemma appendFrom_before:
  assumes "wf_log l" "prev \<le> lastIndex l" "i \<le> prev"
  shows "entryAt (snd (appendFrom prev es l)) i = entryAt l i"
  using assms
proof (induction es arbitrary: prev l)
  case (Cons e es)
  show ?case
  proof (cases "Suc prev \<le> baseIndex l \<or> termAt l (Suc prev) = Some (ent_Term e)")
    case True
    then have "Suc prev \<le> lastIndex l"
      using Cons.prems baseIndex_le_lastIndex termAt_None_iff [of l "Suc prev"] by fastforce
    with Cons.IH [OF Cons.prems(1) this] Cons.prems True show ?thesis by (simp add: appendFrom_Cons)
  next
    case False
    then have p: "baseIndex l < Suc prev" by simp
    note pp = put_at_props [OF Cons.prems(1) p, of e]
    from Cons.IH [of "put_at (Suc prev) e l" "Suc prev"] pp Cons.prems False show ?thesis
      by (simp add: appendFrom_Cons)
  qed
qed simp

text \<open>The sent entries are in the log afterwards: every index the message covers, unless it is
  behind the snapshot boundary, has the sent term.\<close>

lemma appendFrom_has:
  assumes "wf_log l" "prev \<le> lastIndex l" "k < length es" "baseIndex l < prev + k + 1"
  shows "termAt (snd (appendFrom prev es l)) (prev + k + 1) = Some (ent_Term (es ! k))"
  using assms
proof (induction es arbitrary: prev l k)
  case (Cons e es)
  show ?case
  proof (cases "Suc prev \<le> baseIndex l \<or> termAt l (Suc prev) = Some (ent_Term e)")
    case True
    then have le: "Suc prev \<le> lastIndex l"
      using Cons.prems baseIndex_le_lastIndex termAt_None_iff [of l "Suc prev"] by fastforce
    show ?thesis
    proof (cases k)
      case 0
      with True Cons.prems have "termAt l (Suc prev) = Some (ent_Term e)" by simp
      moreover have "entryAt (snd (appendFrom (Suc prev) es l)) (Suc prev) = entryAt l (Suc prev)"
        by (rule appendFrom_before [OF Cons.prems(1) le]) simp
      ultimately show ?thesis using True 0 Cons.prems(1) by (simp add: appendFrom_Cons termAt_def)
    next
      case (Suc k')
      with Cons.IH [OF Cons.prems(1) le, of k'] Cons.prems True show ?thesis
        by (simp add: appendFrom_Cons)
    qed
  next
    case False
    then have p: "baseIndex l < Suc prev" by simp
    have p': "Suc prev \<le> Suc (lastIndex l)" using Cons.prems by simp
    note pp = put_at_props [OF Cons.prems(1) p p', of e]
    have le: "Suc prev \<le> lastIndex (put_at (Suc prev) e l)" by (simp add: pp(3))
    show ?thesis
    proof (cases k)
      case 0
      moreover have "entryAt (snd (appendFrom (Suc prev) es (put_at (Suc prev) e l))) (Suc prev)
          = entryAt (put_at (Suc prev) e l) (Suc prev)"
        by (rule appendFrom_before [OF pp(1) le]) simp
      ultimately show ?thesis using False Cons.prems(1) by (simp add: appendFrom_Cons termAt_def pp(4))
    next
      case (Suc k')
      with Cons.IH [OF pp(1) le, of k'] Cons.prems False p show ?thesis
        by (simp add: appendFrom_Cons pp(2))
    qed
  qed
qed simp

lemma appendFrom_unchanged: "\<not> fst (appendFrom prev es l) \<Longrightarrow> snd (appendFrom prev es l) = l"
proof (induction es arbitrary: prev)
  case (Cons e es)
  then show ?case by (auto simp: appendFrom.simps(2) Let_def split: if_splits option.splits)
qed simp

lemma appendFrom_commands:
  assumes "\<forall>e \<in> set l. P (ent_Command e)" "\<forall>e \<in> set es. P (ent_Command e)"
  shows "\<forall>e \<in> set (snd (appendFrom prev es l)). P (ent_Command e)"
  using assms
proof (induction es arbitrary: prev l)
  case (Cons e es)
  let ?n = "\<lparr>ent_Term = ent_Term e, ent_Index = prev + 1, ent_Command = ent_Command e\<rparr>"
  have l: "\<forall>x \<in> set (l @ [?n]). P (ent_Command x)" "\<forall>x \<in> set (take (slot l (prev + 1)) l @ [?n]). P (ent_Command x)"
    using Cons.prems by (auto dest: in_set_takeD)
  have es: "\<forall>x \<in> set es. P (ent_Command x)" using Cons.prems(2) by simp
  have "snd (appendFrom prev (e # es) l) \<in> {snd (appendFrom (prev + 1) es l),
      snd (appendFrom (prev + 1) es (l @ [?n])),
      snd (appendFrom (prev + 1) es (take (slot l (prev + 1)) l @ [?n]))}"
    by (simp add: appendFrom.simps(2) Let_def split: option.split)
  with Cons.IH [OF Cons.prems(1) es] Cons.IH [OF l(1) es] Cons.IH [OF l(2) es] show ?case
    by (elim insertE emptyE) metis+
qed simp

text \<open>A message whose entries are all in the log changes nothing.\<close>

lemma appendFrom_matching:
  assumes "wf_log l"
    and "\<forall>k < length es. baseIndex l < prev + k + 1 \<longrightarrow> termAt l (prev + k + 1) = Some (ent_Term (es ! k))"
  shows "appendFrom prev es l = (False, l)"
  using assms(2)
proof (induction es arbitrary: prev)
  case (Cons e es)
  have "Suc prev \<le> baseIndex l \<or> termAt l (Suc prev) = Some (ent_Term e)"
    using Cons.prems [rule_format, of 0] by (cases "Suc prev \<le> baseIndex l") auto
  moreover have "appendFrom (Suc prev) es l = (False, l)"
    by (rule Cons.IH) (use Cons.prems [rule_format, of "Suc k" for k] in auto)
  ultimately show ?case using assms(1) by (simp add: appendFrom_Cons)
qed simp

text \<open>Delivering the same message again changes nothing.\<close>

lemma appendFrom_idempotent:
  assumes "wf_log l" "prev \<le> lastIndex l"
  shows "appendFrom prev es (snd (appendFrom prev es l)) = (False, snd (appendFrom prev es l))"
  using appendFrom_wf [OF assms, of es] appendFrom_has [OF assms]
  by (intro appendFrom_matching) auto

text \<open>The closed form of the loop: the log up to the first entry that is missing or conflicts, then the
  rest of the message, its indices counted on from there.\<close>

primrec number :: "Index \<Rightarrow> LogEntry list \<Rightarrow> LogEntry list" where
  "number prev [] = []"
| "number prev (e # es) =
     \<lparr>ent_Term = ent_Term e, ent_Index = Suc prev, ent_Command = ent_Command e\<rparr> # number (Suc prev) es"

lemma length_number [simp]: "length (number prev es) = length es"
  by (induction es arbitrary: prev) auto

lemma number_nth: "k < length es \<Longrightarrow> number prev es ! k =
    \<lparr>ent_Term = ent_Term (es ! k), ent_Index = prev + k + 1, ent_Command = ent_Command (es ! k)\<rparr>"
  by (induction es arbitrary: prev k) (auto simp: nth_Cons split: nat.split)

definition truncate_at :: "Index \<Rightarrow> Log \<Rightarrow> Log" where
  "truncate_at idx l = (if lastIndex l < idx then l else take (slot l idx) l)"

lemma truncate_at_props:
  assumes "wf_log l" "baseIndex l < idx" "idx \<le> Suc (lastIndex l)"
  shows "wf_log (truncate_at idx l)" "baseIndex (truncate_at idx l) = baseIndex l"
    "Suc (lastIndex (truncate_at idx l)) = idx"
    "entryAt (truncate_at idx l) i = (if i < idx then entryAt l i else None)"
  using assms truncate_log [OF assms(1,2)] by (auto simp: truncate_at_def entryAt_None_iff)

lemma appendFrom_end:
  assumes "wf_log l" "prev = lastIndex l"
  shows "appendFrom prev es l = (es \<noteq> [], l @ number prev es)"
  using assms
proof (induction es arbitrary: prev l)
  case (Cons e es)
  let ?n = "\<lparr>ent_Term = ent_Term e, ent_Index = Suc prev, ent_Command = ent_Command e\<rparr>"
  have b: "baseIndex l < Suc prev" using Cons.prems baseIndex_le_lastIndex [of l] by simp
  have "appendFrom (Suc prev) es (l @ [?n]) = (es \<noteq> [], (l @ [?n]) @ number (Suc prev) es)"
    using Cons.prems wf_log_snoc by (intro Cons.IH) auto
  moreover have "termAt l (Suc prev) = None" using Cons.prems by (simp add: termAt_None_iff)
  ultimately show ?case using Cons.prems b by (simp add: appendFrom_Cons put_at_def)
qed simp

lemma appendFrom_closed:
  assumes "wf_log l" "prev \<le> lastIndex l"
  obtains (same) "appendFrom prev es l = (False, l)"
      "\<forall>j < length es. baseIndex l < prev + j + 1 \<longrightarrow> termAt l (prev + j + 1) = Some (ent_Term (es ! j))"
  | (changed) k where "k < length es" "baseIndex l < prev + k + 1" "prev + k \<le> lastIndex l"
      "termAt l (prev + k + 1) \<noteq> Some (ent_Term (es ! k))"
      "\<forall>j < k. baseIndex l < prev + j + 1 \<longrightarrow> termAt l (prev + j + 1) = Some (ent_Term (es ! j))"
      "appendFrom prev es l = (True, truncate_at (prev + k + 1) l @ number (prev + k) (drop k es))"
proof -
  have "(appendFrom prev es l = (False, l) \<and>
      (\<forall>j < length es. baseIndex l < prev + j + 1 \<longrightarrow> termAt l (prev + j + 1) = Some (ent_Term (es ! j))))
    \<or> (\<exists>k < length es. baseIndex l < prev + k + 1 \<and> prev + k \<le> lastIndex l
      \<and> termAt l (prev + k + 1) \<noteq> Some (ent_Term (es ! k))
      \<and> (\<forall>j < k. baseIndex l < prev + j + 1 \<longrightarrow> termAt l (prev + j + 1) = Some (ent_Term (es ! j)))
      \<and> appendFrom prev es l = (True, truncate_at (prev + k + 1) l @ number (prev + k) (drop k es)))"
    using assms(2)
  proof (induction es arbitrary: prev)
    case (Cons e es)
    show ?case
    proof (cases "Suc prev \<le> baseIndex l \<or> termAt l (Suc prev) = Some (ent_Term e)")
      case True
      then have le: "Suc prev \<le> lastIndex l"
        using assms(1) baseIndex_le_lastIndex termAt_None_iff [of l "Suc prev"] by fastforce
      from Cons.IH [OF this] show ?thesis
      proof (elim disjE exE conjE)
        fix k assume k: "k < length es" "baseIndex l < Suc prev + k + 1" "Suc prev + k \<le> lastIndex l"
          "termAt l (Suc prev + k + 1) \<noteq> Some (ent_Term (es ! k))"
          "\<forall>j < k. baseIndex l < Suc prev + j + 1 \<longrightarrow> termAt l (Suc prev + j + 1) = Some (ent_Term (es ! j))"
          "appendFrom (Suc prev) es l = (True, truncate_at (Suc prev + k + 1) l @ number (Suc prev + k) (drop k es))"
        have "\<forall>j < Suc k. baseIndex l < prev + j + 1 \<longrightarrow> termAt l (prev + j + 1) = Some (ent_Term ((e # es) ! j))"
          using True k(5) by (auto simp: less_Suc_eq_0_disj)
        then show ?thesis using k True assms(1)
          by (intro disjI2 exI [of _ "Suc k"]) (simp add: appendFrom_Cons)
      next
        assume *: "appendFrom (Suc prev) es l = (False, l)"
          "\<forall>j < length es. baseIndex l < Suc prev + j + 1 \<longrightarrow> termAt l (Suc prev + j + 1) = Some (ent_Term (es ! j))"
        then have "\<forall>j < length (e # es). baseIndex l < prev + j + 1 \<longrightarrow> termAt l (prev + j + 1) = Some (ent_Term ((e # es) ! j))"
          using True by (auto simp: less_Suc_eq_0_disj)
        with * True assms(1) show ?thesis by (simp add: appendFrom_Cons)
      qed
    next
      case False
      then have p: "baseIndex l < Suc prev" by simp
      note pp = put_at_props [OF assms(1) p, of e]
      have "appendFrom (Suc prev) es (put_at (Suc prev) e l)
          = (es \<noteq> [], put_at (Suc prev) e l @ number (Suc prev) es)"
        using pp Cons.prems by (intro appendFrom_end) auto
      with False p Cons.prems assms(1) show ?thesis
        by (intro disjI2 exI [of _ 0]) (simp add: appendFrom_Cons put_at_def truncate_at_def)
    qed
  qed simp
  with that show thesis by blast
qed

lemma wf_log_number:
  assumes "wf_log l" "prev = lastIndex l"
  shows "wf_log (l @ number prev es)" "lastIndex (l @ number prev es) = prev + length es"
    "entryAt (l @ number prev es) i =
       (if i \<le> prev then entryAt l i else if i \<le> prev + length es then Some (number prev es ! (i - prev - 1))
        else None)"
proof -
  show wf: "wf_log (l @ number prev es)"
    using appendFrom_wf [OF assms(1), of prev es] appendFrom_end [OF assms, of es] assms(2) by simp
  have b: "baseIndex (l @ number prev es) = baseIndex l" using assms(1) by (simp add: wf_log_not_Nil)
  show last: "lastIndex (l @ number prev es) = prev + length es"
    using lastIndex_wf [OF wf] b length_wf [OF assms(1)] baseIndex_le_lastIndex [OF assms(1)] assms(2)
    by simp
  show "entryAt (l @ number prev es) i =
       (if i \<le> prev then entryAt l i else if i \<le> prev + length es then Some (number prev es ! (i - prev - 1))
        else None)"
    using b last length_wf [OF assms(1)] baseIndex_le_lastIndex [OF assms(1)] assms(2)
    by (auto simp: entryAt_def slot_def nth_append Suc_diff_le)
qed

text \<open>What every lookup returns after the loop.\<close>

lemma appendFrom_lookup:
  assumes "wf_log l" "prev \<le> lastIndex l"
  obtains (same) "appendFrom prev es l = (False, l)"
      "\<forall>j < length es. baseIndex l < prev + j + 1 \<longrightarrow> termAt l (prev + j + 1) = Some (ent_Term (es ! j))"
  | (changed) k where "k < length es" "baseIndex l < prev + k + 1" "prev + k \<le> lastIndex l"
      "termAt l (prev + k + 1) \<noteq> Some (ent_Term (es ! k))" "fst (appendFrom prev es l)"
      "lastIndex (snd (appendFrom prev es l)) = prev + length es"
      "\<forall>i. entryAt (snd (appendFrom prev es l)) i =
         (if i \<le> prev + k then entryAt l i
          else if i \<le> prev + length es
            then Some \<lparr>ent_Term = ent_Term (es ! (i - prev - 1)), ent_Index = i,
                       ent_Command = ent_Command (es ! (i - prev - 1))\<rparr>
          else None)"
      "\<forall>j < k. baseIndex l < prev + j + 1 \<longrightarrow> termAt l (prev + j + 1) = Some (ent_Term (es ! j))"
  using assms
proof (cases rule: appendFrom_closed [where es = es])
  case (changed k)
  note t = truncate_at_props [OF assms(1) changed(2)]
  have last: "prev + k = lastIndex (truncate_at (prev + k + 1) l)"
    using t(3) changed(3) by simp
  have wf: "wf_log (truncate_at (prev + k + 1) l)" using t(1) changed(3) by simp
  note n = wf_log_number [OF wf last, of "drop k es"]
  show ?thesis
  proof (rule that(2) [OF changed(1-4)])
    show "fst (appendFrom prev es l)" using changed(6) by simp
    show "lastIndex (snd (appendFrom prev es l)) = prev + length es"
      using n(2) changed(1,6) by simp
    show "\<forall>i. entryAt (snd (appendFrom prev es l)) i =
         (if i \<le> prev + k then entryAt l i
          else if i \<le> prev + length es
            then Some \<lparr>ent_Term = ent_Term (es ! (i - prev - 1)), ent_Index = i,
                       ent_Command = ent_Command (es ! (i - prev - 1))\<rparr>
          else None)"
    proof
      fix i
      show "entryAt (snd (appendFrom prev es l)) i =
         (if i \<le> prev + k then entryAt l i
          else if i \<le> prev + length es
            then Some \<lparr>ent_Term = ent_Term (es ! (i - prev - 1)), ent_Index = i,
                       ent_Command = ent_Command (es ! (i - prev - 1))\<rparr>
          else None)"
        using n(3) [of i] t(4) [of i] changed(1,3,6)
        by (simp add: number_nth)
    qed
  qed (rule changed(5))
qed (use that(1) in blast)

text \<open>Entries below the first conflict stay. In particular, a prefix the message agrees with is never
  truncated.\<close>

lemma appendFrom_keeps_prefix:
  assumes "wf_log l" "prev \<le> lastIndex l"
    and agree: "\<forall>k < length es. baseIndex l < prev + k + 1 \<and> prev + k + 1 \<le> c \<longrightarrow>
      termAt l (prev + k + 1) = Some (ent_Term (es ! k))"
    and "i \<le> c" "i \<le> lastIndex l"
  shows "entryAt (snd (appendFrom prev es l)) i = entryAt l i"
  using assms(1,2)
proof (cases rule: appendFrom_lookup [where es = es])
  case (changed k)
  with agree [rule_format, of k] have "c \<le> prev + k" by linarith
  with assms(4) changed(7) show ?thesis by simp
qed simp

section \<open>Discarding a prefix\<close>

lemma discardThrough_props:
  assumes "wf_log l" "baseIndex l \<le> idx" "idx \<le> lastIndex l"
  shows "wf_log (discardThrough idx t l)" "baseIndex (discardThrough idx t l) = idx"
    "lastIndex (discardThrough idx t l) = lastIndex l"
proof -
  have len: "length l = lastIndex l - baseIndex l + 1" using assms(1) by (rule length_wf)
  show b: "baseIndex (discardThrough idx t l) = idx" by (simp add: discardThrough_def baseIndex_def)
  show wf: "wf_log (discardThrough idx t l)"
    unfolding wf_log_iff b
  proof (intro conjI allI impI)
    fix i assume "i < length (discardThrough idx t l)"
    then show "ent_Index (discardThrough idx t l ! i) = idx + i"
      using assms wf_logD [OF assms(1)]
      by (cases i) (auto simp: discardThrough_def slot_def)
  qed (simp add: discardThrough_def)
  show "lastIndex (discardThrough idx t l) = lastIndex l"
    using lastIndex_wf [OF wf] b assms(2,3) len by (simp add: discardThrough_def slot_def)
qed

lemma discardThrough_lookup:
  assumes "wf_log l" "baseIndex l \<le> idx" "idx \<le> lastIndex l" "idx < i"
  shows "entryAt (discardThrough idx t l) i = entryAt l i"
proof (cases "i \<le> lastIndex l")
  case True
  have len: "length l = lastIndex l - baseIndex l + 1" using assms(1) by (rule length_wf)
  obtain j where j: "i - idx = Suc j" using assms(4) by (metis Suc_diff_Suc)
  have "Suc (idx + j - baseIndex l) = i - baseIndex l" using j assms(2) by linarith
  then have "discardThrough idx t l ! (i - idx) = l ! (i - baseIndex l)"
    using assms True j len by (simp add: discardThrough_def slot_def)
  with True discardThrough_props [OF assms(1-3), of t] assms show ?thesis
    by (simp add: entryAt_def slot_def)
next
  case False
  with discardThrough_props [OF assms(1-3), of t] assms show ?thesis by (simp add: entryAt_def)
qed

text \<open>The boundary still answers the previous-entry check of \<^verbatim>\<open>AppendEntries\<close>.\<close>

lemma discardThrough_termAt:
  assumes "wf_log l" "baseIndex l \<le> idx" "idx \<le> lastIndex l" "termAt l idx = Some t" "idx \<le> i"
  shows "termAt (discardThrough idx t l) i = termAt l i"
proof (cases "i = idx")
  case True
  with entryAt_baseIndex [OF discardThrough_props(1) [OF assms(1-3)], of t]
    discardThrough_props(2) [OF assms(1-3), of t] assms(4) show ?thesis
    by (simp add: termAt_def discardThrough_def)
next
  case False
  with assms(5) discardThrough_lookup [OF assms(1-3), of i t] show ?thesis by (simp add: termAt_def)
qed

lemma lastTerm_discardThrough:
  assumes "wf_log l" "baseIndex l \<le> idx" "idx \<le> lastIndex l" "termAt l idx = Some t"
  shows "lastTerm (discardThrough idx t l) = lastTerm l"
  using discardThrough_termAt [OF assms, of "lastIndex l"] assms(3)
    termAt_lastIndex [OF discardThrough_props(1) [OF assms(1-3)], of t]
    termAt_lastIndex [OF assms(1)] discardThrough_props(3) [OF assms(1-3), of t]
  by simp

section \<open>Majorities\<close>

text \<open>Two majorities of the same cluster share a server.\<close>

lemma majorities_overlap:
  assumes "distinct peers" "Q \<subseteq> set peers" "R \<subseteq> set peers"
    and "majority peers \<le> card Q" "majority peers \<le> card R"
  shows "Q \<inter> R \<noteq> {}"
proof
  assume "Q \<inter> R = {}"
  moreover have "finite Q" "finite R" using assms(2,3) finite_subset by auto
  ultimately have "card Q + card R = card (Q \<union> R)" by (simp add: card_Un_disjoint)
  also have "\<dots> \<le> length peers"
    using card_mono [of "set peers" "Q \<union> R"] assms(1-3) by (simp add: distinct_card)
  finally show False using assms(4,5) by (simp add: majority_def)
qed

end
