(* ===== verification/RaftConfig.thy ===== *)
theory RaftConfig
  imports RaftLog
begin

text \<open>
  Cluster configurations and their log encoding (the first half of src/raft/membership.go).
  A \<^verbatim>\<open>Configuration\<close> is its list of servers. Shown here: what adding and removing a server does; that
  \<open>differsByOne\<close> accepts exactly the changes of one server; the counting argument the file's comment
  gives for single-server changes; and that the log encoding round-trips and refuses every truncation.

  \<^verbatim>\<open>make([]T, 0, n)\<close> panics when the requested capacity exceeds the address space the Go runtime
  allocates from (48 bits on 64-bit Linux); \<open>make_ok\<close> is that check, and a panic is \<^const>\<open>None\<close>.
\<close>

definition ErrNotSingleServerChange :: string where
  "ErrNotSingleServerChange =
     ''raft: configuration changes must add or remove exactly one server at a time''"

definition ErrConfigChangeInFlight :: string where
  "ErrConfigChangeInFlight = ''raft: a configuration change is already in progress''"

definition ErrNotInConfiguration :: string where
  "ErrNotInConfiguration = ''raft: this server is not in the current configuration''"

definition ErrLastServer :: string where
  "ErrLastServer = ''raft: cannot remove the last server in the cluster''"

definition configPrefix :: byte where
  "configPrefix = 0xC0"

record Configuration =
  Servers :: "NodeID list"

definition Contains :: "Configuration \<Rightarrow> NodeID \<Rightarrow> bool" where
  "Contains c i \<longleftrightarrow> i \<in> set (Servers c)"

definition Majority :: "Configuration \<Rightarrow> nat" where
  "Majority c = length (Servers c) div 2 + 1"

definition withServer :: "NodeID \<Rightarrow> Configuration \<Rightarrow> Configuration" where
  "withServer i c = (if Contains c i then c else \<lparr>Servers = sort (Servers c @ [i])\<rparr>)"

definition withoutServer :: "NodeID \<Rightarrow> Configuration \<Rightarrow> Configuration" where
  "withoutServer i c = \<lparr>Servers = filter (\<lambda>s. s \<noteq> i) (Servers c)\<rparr>"

definition differsByOne :: "Configuration \<Rightarrow> Configuration \<Rightarrow> bool" where
  "differsByOne c other =
     (let diff = int (length (Servers other)) - int (length (Servers c)) in
      if diff \<noteq> 1 \<and> diff \<noteq> -1 then False
      else
        let (smaller, larger) = (if diff < 0 then (other, c) else (c, other)) in
        list_all (\<lambda>s. Contains larger s) (Servers smaller))"

section \<open>Encoding\<close>

definition make_ok :: "nat \<Rightarrow> nat \<Rightarrow> bool" where
  "make_ok elem_size n \<longleftrightarrow> elem_size * n \<le> 2 ^ 48"

lemma make_ok_code [code]: "make_ok k n \<longleftrightarrow> int k * int n \<le> 281474976710656"
  unfolding make_ok_def by (simp flip: of_nat_mult)

definition encodeConfig :: "Configuration \<Rightarrow> bytes" where
  "encodeConfig c = [configPrefix] @ put64 (length (Servers c))
     @ concat (map (\<lambda>s. put64 (length s) @ bytes_of s) (Servers c))"

definition isConfigEntry :: "bytes option \<Rightarrow> bool" where
  "isConfigEntry cmd = (case cmd of Some (b # _) \<Rightarrow> b = configPrefix | _ \<Rightarrow> False)"

text \<open>The loop of \<^verbatim>\<open>decodeConfig\<close> over the bytes after \<^verbatim>\<open>pos\<close>.\<close>

primrec decode_servers :: "nat \<Rightarrow> bytes \<Rightarrow> string + NodeID list" where
  "decode_servers 0 bs = Inr []"
| "decode_servers (Suc n) bs =
     (if length bs < 8 then Inl ''raft: truncated configuration entry''
      else
        let size = le_val (take 8 bs); bs = drop 8 bs in
        if length bs < size then
          Inl (''raft: configuration entry declares a '' @ show_nat size @ ''-byte id but ''
               @ show_nat (length bs) @ '' bytes remain'')
        else (case decode_servers n (drop size bs) of
                Inl e \<Rightarrow> Inl e
              | Inr ss \<Rightarrow> Inr (string_of (take size bs) # ss)))"

definition decodeConfig :: "bytes option \<Rightarrow> (string + Configuration) option" where
  "decodeConfig cmd =
     (if \<not> isConfigEntry cmd then Some (Inl ''raft: not a configuration entry'')
      else
        let bs = the cmd in
        if length bs < 9 then Some (Inl ''raft: configuration entry too short'')
        else
          let n = le_val (take 8 (drop 1 bs)) in
          if \<not> make_ok 16 n then None
          else Some (case decode_servers n (drop 9 bs) of
                       Inl e \<Rightarrow> Inl e
                     | Inr ss \<Rightarrow> Inr \<lparr>Servers = ss\<rparr>))"


section \<open>Single-server changes\<close>

lemma Majority_majority: "Majority c = majority (Servers c)"
  by (simp add: Majority_def majority_def)

lemma withServer_set: "set (Servers (withServer i c)) = insert i (set (Servers c))"
  by (auto simp: withServer_def Contains_def)

lemma withServer_distinct: "distinct (Servers c) \<Longrightarrow> distinct (Servers (withServer i c))"
  by (auto simp: withServer_def Contains_def)

lemma withoutServer_set: "set (Servers (withoutServer i c)) = set (Servers c) - {i}"
  by (auto simp: withoutServer_def)

lemma withoutServer_distinct: "distinct (Servers c) \<Longrightarrow> distinct (Servers (withoutServer i c))"
  by (simp add: withoutServer_def)

lemma length_withoutServer:
  "distinct (Servers c) \<Longrightarrow> Contains c i \<Longrightarrow> Suc (length (Servers (withoutServer i c))) = length (Servers c)"
  using card_Suc_Diff1 [of "set (Servers c)" i] withoutServer_distinct [of c i]
  by (simp add: withoutServer_set Contains_def flip: distinct_card)

lemma differsByOne_withServer: "\<not> Contains c i \<Longrightarrow> differsByOne c (withServer i c)"
  by (simp add: differsByOne_def withServer_def Contains_def list_all_iff)

lemma differsByOne_withoutServer:
  "distinct (Servers c) \<Longrightarrow> Contains c i \<Longrightarrow> differsByOne c (withoutServer i c)"
  using length_withoutServer [of c i] withoutServer_set [of i c]
  by (simp add: differsByOne_def list_all_iff Contains_def)

text \<open>\<^verbatim>\<open>differsByOne\<close> accepts exactly the additions and removals of one server.\<close>

lemma differsByOne_iff:
  assumes "distinct (Servers c)" "distinct (Servers d)"
  shows "differsByOne c d \<longleftrightarrow>
    (\<exists>i. i \<notin> set (Servers c) \<and> set (Servers d) = insert i (set (Servers c)))
    \<or> (\<exists>i. i \<notin> set (Servers d) \<and> set (Servers c) = insert i (set (Servers d)))"
    (is "?L \<longleftrightarrow> ?R")
proof -
  have add: "(\<exists>i. i \<notin> A \<and> B = insert i A) \<longleftrightarrow> A \<subseteq> B \<and> card B = Suc (card A)"
    if "finite A" "finite B" for A B :: "NodeID set"
  proof
    assume "A \<subseteq> B \<and> card B = Suc (card A)"
    then have "card (B - A) = 1" using that by (simp add: card_Diff_subset)
    then obtain i where "B - A = {i}" by (auto simp: card_1_singleton_iff)
    with \<open>A \<subseteq> B \<and> _\<close> show "\<exists>i. i \<notin> A \<and> B = insert i A" by blast
  qed (use that in auto)
  have "?L \<longleftrightarrow> (set (Servers c) \<subseteq> set (Servers d) \<and> length (Servers d) = Suc (length (Servers c)))
      \<or> (set (Servers d) \<subseteq> set (Servers c) \<and> length (Servers c) = Suc (length (Servers d)))"
    by (auto simp: differsByOne_def Contains_def list_all_iff Let_def)
  with assms show ?thesis by (simp add: add distinct_card)
qed

text \<open>The counting argument: a majority of the old configuration and a majority of the new one
  share a server.\<close>

lemma change_overlap:
  assumes "distinct ps" "distinct qs" "set ps \<subseteq> set qs" "length qs = Suc (length ps)"
    and "Q \<subseteq> set ps" "R \<subseteq> set qs" "majority ps \<le> card Q" "majority qs \<le> card R"
  shows "Q \<inter> R \<noteq> {}"
proof
  assume "Q \<inter> R = {}"
  moreover have "finite Q" "finite R" using assms(5,6) finite_subset by auto
  ultimately have "card Q + card R = card (Q \<union> R)" by (simp add: card_Un_disjoint)
  also have "\<dots> \<le> card (set qs)" using assms(3,5,6) by (intro card_mono) auto
  finally have "card Q + card R \<le> Suc (length ps)" using assms(2,4) by (simp add: distinct_card)
  with assms(4,7,8) show False by (simp add: majority_def)
qed

lemma differsByOne_overlap:
  assumes "distinct (Servers c)" "distinct (Servers d)" "differsByOne c d"
    and "Q \<subseteq> set (Servers c)" "R \<subseteq> set (Servers d)" "Majority c \<le> card Q" "Majority d \<le> card R"
  shows "Q \<inter> R \<noteq> {}"
proof -
  have "(set (Servers c) \<subseteq> set (Servers d) \<and> length (Servers d) = Suc (length (Servers c)))
      \<or> (set (Servers d) \<subseteq> set (Servers c) \<and> length (Servers c) = Suc (length (Servers d)))"
    using assms(3) by (auto simp: differsByOne_def Contains_def list_all_iff Let_def split: if_splits)
  then show ?thesis
    using change_overlap [of "Servers c" "Servers d" Q R] change_overlap [of "Servers d" "Servers c" R Q] assms
    by (auto simp: Majority_majority)
qed

text \<open>any majority of a configuration and any majority of a configuration that \<^verbatim>\<open>differsByOne\<close> accepts
  as its successor share a server, so that two leaders cannot be elected by disjoint majorities across
  a single-server change.\<close>

theorem single_server_change_overlap:
  assumes "distinct (Servers c)" "distinct (Servers d)" "differsByOne c d"
    and "Q \<subseteq> set (Servers c)" "Majority c \<le> card Q" "R \<subseteq> set (Servers d)" "Majority d \<le> card R"
  shows "Q \<inter> R \<noteq> {}"
  using differsByOne_overlap assms by blast

theorem single_server_change_overlap_witness:
  "{''a'', ''b''} \<inter> {''b'', ''c'', ''d''} \<noteq> {}"
  using single_server_change_overlap [of "\<lparr>Servers = [''a'', ''b'', ''c'']\<rparr>"
      "withServer ''d'' \<lparr>Servers = [''a'', ''b'', ''c'']\<rparr>" "{''a'', ''b''}" "{''b'', ''c'', ''d''}"]
  by (simp add: withServer_def Contains_def Majority_def differsByOne_def)

section \<open>Round trip\<close>

definition config_fits :: "Configuration \<Rightarrow> bool" where
  "config_fits c \<longleftrightarrow> length (Servers c) \<le> 2 ^ 44 \<and> (\<forall>s \<in> set (Servers c). length s < 2 ^ 64)"

lemma isConfigEntry_encodeConfig [simp]: "isConfigEntry (Some (encodeConfig c))"
  by (simp add: isConfigEntry_def encodeConfig_def)

lemma decode_servers_encode:
  assumes "\<forall>s \<in> set ss. length s < 2 ^ 64"
  shows "decode_servers (length ss) (concat (map (\<lambda>s. put64 (length s) @ bytes_of s) ss) @ rest) = Inr ss"
  using assms
proof (induction ss)
  case (Cons s ss)
  have fits: "\<forall>s \<in> set ss. length s < 2 ^ 64" "length s < 2 ^ 64" using Cons.prems by simp_all
  show ?case using Cons.IH [OF fits(1)] fits(2) by (simp add: Let_def)
qed simp

lemma append_splitE:
  assumes "us @ vs = xs @ ys" "length xs \<le> length us"
  obtains ws where "us = xs @ ws" "ws @ vs = ys"
proof
  show "us = xs @ drop (length xs) us"
    using assms by (metis append_eq_append_conv_if append_take_drop_id take_all_iff)
  then show "drop (length xs) us @ vs = ys"
    using assms(1) by (metis append_assoc same_append_eq)
qed

text \<open>No strict prefix of the encoded list of servers decodes.\<close>

lemma decode_servers_truncated:
  assumes "\<forall>s \<in> set ss. length s < 2 ^ 64"
    and "us @ vs = concat (map (\<lambda>s. put64 (length s) @ bytes_of s) ss)" "vs \<noteq> []"
  shows "\<exists>e. decode_servers (length ss) us = Inl e"
  using assms
proof (induction ss arbitrary: us)
  case (Cons s ss)
  let ?rest = "concat (map (\<lambda>s. put64 (length s) @ bytes_of s) ss)"
  have s: "length s < 2 ^ 64" using Cons.prems(1) by simp
  have eq: "us @ vs = put64 (length s) @ bytes_of s @ ?rest" using Cons.prems(2) by simp
  show ?case
  proof (cases "length us < 8")
    case False
    then obtain us1 where us1: "us = put64 (length s) @ us1" "us1 @ vs = bytes_of s @ ?rest"
      using append_splitE [OF eq] by auto
    show ?thesis
    proof (cases "length us1 < length s")
      case False
      then obtain us2 where us2: "us1 = bytes_of s @ us2" "us2 @ vs = ?rest"
        using append_splitE [OF us1(2)] by auto
      from Cons.IH [OF _ us2(2) Cons.prems(3)] Cons.prems(1) obtain e
        where "decode_servers (length ss) us2 = Inl e" by auto
      with us1(1) us2(1) s show ?thesis by (simp add: Let_def)
    qed (use s in \<open>simp add: us1(1) Let_def\<close>)
  qed simp
qed simp

text \<open>A configuration entry decodes to the configuration that was encoded, for every cluster whose size and
  names fit the fields.\<close>

lemma decodeConfig_roundtrip:
  assumes "config_fits c"
  shows "decodeConfig (Some (encodeConfig c)) = Some (Inr c)"
  using assms decode_servers_encode [of "Servers c" "[]"]
  by (simp add: decodeConfig_def config_fits_def make_ok_def encodeConfig_def isConfigEntry_def Let_def)

text \<open>A configuration entry cut short is refused, never read as a smaller cluster.\<close>

lemma decodeConfig_truncated:
  assumes "config_fits c" "us @ vs = encodeConfig c" "vs \<noteq> []"
  shows "\<exists>e. decodeConfig (Some us) = Some (Inl e)"
proof (cases "length us < 9")
  case False
  let ?rest = "concat (map (\<lambda>s. put64 (length s) @ bytes_of s) (Servers c))"
  have "us @ vs = (configPrefix # put64 (length (Servers c))) @ ?rest"
    using assms(2) by (simp add: encodeConfig_def)
  then obtain us1 where us1: "us = (configPrefix # put64 (length (Servers c))) @ us1" "us1 @ vs = ?rest"
    using append_splitE [of us vs "configPrefix # put64 (length (Servers c))"] False by auto
  from decode_servers_truncated [OF _ us1(2) assms(3)] assms(1) us1(1) show ?thesis
    by (auto simp: decodeConfig_def config_fits_def make_ok_def isConfigEntry_def Let_def)
qed (auto simp: decodeConfig_def Let_def)

text \<open>A corrupt count is not reported as an error: the slice is made before a server is read.\<close>

lemma decodeConfig_huge_count:
  "decodeConfig (Some (configPrefix # put64 (2 ^ 63))) = None"
  by (simp add: decodeConfig_def isConfigEntry_def make_ok_def Let_def)

end
