(* ===== verification/RaftState.thy ===== *)
theory RaftState
  imports RaftConfig
begin

text \<open>
  The format of Raft's persistent state (the codec of src/raft/persist.go). The decoder reads with
  \<^verbatim>\<open>bytes.Reader.Read\<close>, whose short reads are modelled as they are (\<^const>\<open>reader_Read\<close>). Shown here: term,
  vote and log survive the format, except that an empty command comes back as nil; and what a short
  record decodes to.
\<close>

definition errShortState :: string where
  "errShortState = ''raft: truncated persisted state''"

definition encode_entry :: "LogEntry \<Rightarrow> bytes" where
  "encode_entry e =
     (let cmd = (case ent_Command e of None \<Rightarrow> [] | Some c \<Rightarrow> c) in
      put64 (ent_Term e) @ put64 (ent_Index e) @ put32 (length cmd) @ cmd)"

definition encodeState :: "Term \<Rightarrow> NodeID option \<Rightarrow> Log \<Rightarrow> bytes" where
  "encodeState t votedFor l =
     put64 t
     @ (case votedFor of
          None \<Rightarrow> [0] @ put16 0
        | Some v \<Rightarrow> [1] @ put16 (length v) @ bytes_of v)
     @ put64 (length l)
     @ concat (map encode_entry l)"

definition readU64 :: "bytes \<Rightarrow> (nat \<times> bytes) option" where
  "readU64 r = do { (buf, r) \<leftarrow> reader_Read 8 r; Some (le_val buf, r) }"

definition decode_entry :: "bytes \<Rightarrow> (LogEntry \<times> bytes) option" where
  "decode_entry r = do {
     (et, r) \<leftarrow> readU64 r;
     (ei, r) \<leftarrow> readU64 r;
     (lenBuf, r) \<leftarrow> reader_Read 4 r;
     let cmdLen = le_val lenBuf;
     (cmd, r) \<leftarrow> (if cmdLen > 0 then map_option (map_prod Some (\<lambda>r. r)) (reader_Read cmdLen r)
                  else Some (None, r));
     Some (\<lparr>ent_Term = et, ent_Index = ei, ent_Command = cmd\<rparr>, r)
   }"

primrec decode_entries :: "nat \<Rightarrow> bytes \<Rightarrow> (Log \<times> bytes) option" where
  "decode_entries 0 r = Some ([], r)"
| "decode_entries (Suc n) r = do {
     (e, r) \<leftarrow> decode_entry r;
     (es, r) \<leftarrow> decode_entries n r;
     Some (e # es, r)
   }"

text \<open>Everything before the entries: term, vote and entry count.\<close>

definition decode_head :: "bytes \<Rightarrow> (Term \<times> NodeID option \<times> nat \<times> bytes) option" where
  "decode_head r = do {
     (termRaw, r) \<leftarrow> readU64 r;
     (hasVote, r) \<leftarrow> (case r of [] \<Rightarrow> None | b # r \<Rightarrow> Some (b, r));
     (voteLenBuf, r) \<leftarrow> reader_Read 2 r;
     let voteLen = le_val voteLenBuf;
     (votedFor, r) \<leftarrow> (if hasVote = 1
        then map_option (map_prod (\<lambda>v. Some (string_of v)) (\<lambda>r. r)) (reader_Read voteLen r)
        else Some (None, r));
     (count, r) \<leftarrow> readU64 r;
     Some (termRaw, votedFor, count, r)
   }"

text \<open>\<^verbatim>\<open>decodeState\<close>: every error is \<^verbatim>\<open>errShortState\<close>; \<^const>\<open>None\<close> is the panic of \<^verbatim>\<open>make\<close> on an entry
  count (of 40-byte entries) that cannot be allocated.\<close>

definition decodeState :: "bytes \<Rightarrow> (string + Term \<times> NodeID option \<times> Log) option" where
  "decodeState data =
     (case decode_head data of
        None \<Rightarrow> Some (Inl errShortState)
      | Some (t, votedFor, count, r) \<Rightarrow>
          (if \<not> make_ok 40 count then None
           else (case decode_entries count r of
                   None \<Rightarrow> Some (Inl errShortState)
                 | Some (l, _) \<Rightarrow> Some (Inr (t, votedFor, l)))))"

section \<open>Round trip\<close>

definition entry_fits :: "LogEntry \<Rightarrow> bool" where
  "entry_fits e \<longleftrightarrow> ent_Term e < 2 ^ 64 \<and> ent_Index e < 2 ^ 64
     \<and> (case ent_Command e of None \<Rightarrow> True | Some c \<Rightarrow> length c < 2 ^ 32)"

definition state_fits :: "Term \<Rightarrow> NodeID option \<Rightarrow> Log \<Rightarrow> bool" where
  "state_fits t v l \<longleftrightarrow> t < 2 ^ 64 \<and> (case v of None \<Rightarrow> True | Some n \<Rightarrow> length n < 65536)
     \<and> make_ok 40 (length l) \<and> (\<forall>e \<in> set l. entry_fits e)"

lemma entry_fits_code [code]:
  "entry_fits e \<longleftrightarrow> int (ent_Term e) < 18446744073709551616 \<and> int (ent_Index e) < 18446744073709551616
     \<and> (case ent_Command e of None \<Rightarrow> True | Some c \<Rightarrow> int (length c) < 4294967296)"
  by (simp add: entry_fits_def split: option.split)

lemma state_fits_code [code]:
  "state_fits t v l \<longleftrightarrow> int t < 18446744073709551616 \<and> (case v of None \<Rightarrow> True | Some n \<Rightarrow> int (length n) < 65536)
     \<and> make_ok 40 (length l) \<and> list_all entry_fits l"
  by (simp add: state_fits_def list_all_iff split: option.split)

text \<open>An empty command is written like a nil one.\<close>

definition stored :: "LogEntry \<Rightarrow> LogEntry" where
  "stored e = (if ent_Command e = Some [] then e\<lparr>ent_Command := None\<rparr> else e)"

lemma stored_Term [simp]: "ent_Term (stored e) = ent_Term e"
  by (simp add: stored_def)

lemma stored_Index [simp]: "ent_Index (stored e) = ent_Index e"
  by (simp add: stored_def)

lemma readU64_put64 [codec_simps]: "v < 2 ^ 64 \<Longrightarrow> readU64 (put64 v @ r) = Some (v, r)"
  by (simp add: readU64_def)

lemma decode_entry_encode:
  assumes "entry_fits e"
  shows "decode_entry (encode_entry e @ r) = Some (stored e, r)"
proof (cases "ent_Command e")
  case None
  with assms show ?thesis
    by (cases e) (simp add: decode_entry_def encode_entry_def entry_fits_def stored_def codec_simps)
next
  case (Some c)
  with assms show ?thesis
    by (cases e; cases "c = []")
      (simp_all add: decode_entry_def encode_entry_def entry_fits_def stored_def codec_simps)
qed

lemma decode_entries_encode:
  assumes "\<forall>e \<in> set l. entry_fits e"
  shows "decode_entries (length l) (concat (map encode_entry l) @ r) = Some (map stored l, r)"
  using assms
proof (induction l)
  case (Cons e l)
  then have "entry_fits e" "decode_entries (length l) (concat (map encode_entry l) @ r) = Some (map stored l, r)"
    by simp_all
  then show ?case by (simp add: decode_entry_encode)
qed simp

lemma decode_head_encode:
  assumes "t < 2 ^ 64" "case v of None \<Rightarrow> True | Some n \<Rightarrow> length n < 65536" "n < 2 ^ 64"
  shows "decode_head (put64 t @ (case v of None \<Rightarrow> [0] @ put16 0
      | Some v \<Rightarrow> [1] @ put16 (length v) @ bytes_of v) @ put64 n @ r) = Some (t, v, n, r)"
proof (cases v)
  case None
  with assms show ?thesis by (simp add: decode_head_def codec_simps)
next
  case (Some a)
  show ?thesis
  proof (cases "a = []")
    case True
    have "put64 n @ r \<noteq> []" by simp
    from reader_Read_zero [OF this] Some True assms show ?thesis
      by (simp add: decode_head_def string_of_def codec_simps)
  next
    case False
    then have "bytes_of a \<noteq> []" by (simp add: bytes_of_def)
    with Some False assms show ?thesis by (simp add: decode_head_def codec_simps)
  qed
qed

lemma decodeState_encode:
  assumes "state_fits t v l"
  shows "decodeState (encodeState t v l) = Some (Inr (t, v, map stored l))"
proof -
  have n: "length l < 2 ^ 64" using assms by (simp add: state_fits_def make_ok_def)
  have "decode_head (encodeState t v l) = Some (t, v, length l, concat (map encode_entry l))"
    using decode_head_encode [of t v "length l" "concat (map encode_entry l)"] assms n
    by (simp add: encodeState_def state_fits_def)
  with decode_entries_encode [of l "[]"] assms show ?thesis
    by (simp add: decodeState_def state_fits_def)
qed

text \<open>the persisted state survives its encoding: the decoder returns the term, the vote and every log
  entry that was written, an empty command coming back as a nil one.\<close>

theorem decodeState_encodeState:
  assumes "state_fits t v l"
  shows "decodeState (encodeState t v l) = Some (Inr (t, v, map stored l))"
  using assms by (rule decodeState_encode)

theorem decodeState_encodeState_witness:
  "decodeState (encodeState 4 (Some ''n2'')
      [sentinel, \<lparr>ent_Term = 3, ent_Index = 1, ent_Command = Some [7, 8]\<rparr>,
       \<lparr>ent_Term = 4, ent_Index = 2, ent_Command = Some []\<rparr>])
   = Some (Inr (4, Some ''n2'',
      [sentinel, \<lparr>ent_Term = 3, ent_Index = 1, ent_Command = Some [7, 8]\<rparr>,
       \<lparr>ent_Term = 4, ent_Index = 2, ent_Command = None\<rparr>]))"
  using decodeState_encodeState [of 4 "Some ''n2''"
      "[sentinel, \<lparr>ent_Term = 3, ent_Index = 1, ent_Command = Some [7, 8]\<rparr>,
        \<lparr>ent_Term = 4, ent_Index = 2, ent_Command = Some []\<rparr>]"]
  by (simp add: state_fits_def make_ok_def entry_fits_def stored_def sentinel_def)

text \<open>A record cut inside its last command is not refused: the missing bytes read as zeros.\<close>

lemma decodeState_short_command:
  "decodeState (butlast (encodeState 1 None [\<lparr>ent_Term = 1, ent_Index = 1, ent_Command = Some [7, 8]\<rparr>]))
   = Some (Inr (1, None, [\<lparr>ent_Term = 1, ent_Index = 1, ent_Command = Some [7, 0]\<rparr>]))"
proof -
  let ?e = "\<lparr>ent_Term = 1, ent_Index = 1, ent_Command = Some [7, 8]\<rparr>"
  let ?r = "put64 1 @ put64 1 @ put32 2 @ [7]"
  have "butlast (encodeState 1 None [?e]) = put64 1 @ (case None of None \<Rightarrow> [0] @ put16 0
      | Some v \<Rightarrow> [1] @ put16 (length v) @ bytes_of v) @ put64 1 @ ?r"
    by (simp add: encodeState_def encode_entry_def butlast_append numeral_2_eq_2)
  then have "decode_head (butlast (encodeState 1 None [?e])) = Some (1, None, 1, ?r)"
    using decode_head_encode [of 1 None 1 ?r] by simp
  moreover have "decode_entries 1 ?r = Some ([\<lparr>ent_Term = 1, ent_Index = 1, ent_Command = Some [7, 0]\<rparr>], [])"
    by (simp add: decode_entry_def readU64_put64 reader_Read_def [of 2] del: le_bytes.simps)
  ultimately show ?thesis by (simp add: decodeState_def make_ok_def)
qed

end
