(* ===== verification/RaftTimer.thy ===== *)
theory RaftTimer
  imports RaftLog
begin

text \<open>
  Election timing: the configuration of the role loop (src/raft/transport.go \<^verbatim>\<open>Config\<close>), the health
  bias (src/raft/health_priority.go) and the randomized delay of \<^verbatim>\<open>resetElectionTimerLocked\<close>
  (src/raft/loop.go). The delay is computed in \<^verbatim>\<open>float64\<close>: \<open>f64_round\<close> rounds an integer to 53
  significant bits, ties to even, and a bias is an integer mantissa over a power of two, so products
  and truncation are exact here. Times are nanoseconds since the Unix epoch.

  Shown here: the delay lies between the configured minimum and that minimum plus one and a half
  times the window, a normal node draws from the window unchanged, and for the same draw a healthier
  node never waits longer.
\<close>

record Config =
  ElectionTimeoutMin :: int
  ElectionTimeoutMax :: int
  HeartbeatInterval :: int

definition DefaultConfig :: Config where
  "DefaultConfig = \<lparr>ElectionTimeoutMin = 150, ElectionTimeoutMax = 300, HeartbeatInterval = 50\<rparr>"

type_synonym NodeHealth = int

definition HealthNormal :: NodeHealth where "HealthNormal = 0"
definition HealthLow :: NodeHealth where "HealthLow = 1"
definition HealthHigh :: NodeHealth where "HealthHigh = 2"

definition NodeHealth_String :: "NodeHealth \<Rightarrow> string" where
  "NodeHealth_String h =
     (if h = HealthLow then ''low'' else if h = HealthHigh then ''high'' else ''normal'')"

section \<open>float64\<close>

fun bitlen :: "nat \<Rightarrow> nat" where
  "bitlen n = (if n = 0 then 0 else Suc (bitlen (n div 2)))"

declare bitlen.simps [simp del]

text \<open>Round to a multiple of \<open>2 ^ k\<close>, ties to the even multiple.\<close>

definition round_even :: "nat \<Rightarrow> nat \<Rightarrow> nat" where
  "round_even k n =
     (let q = n div 2 ^ k; r = n mod 2 ^ k in
      if 2 ^ k < 2 * r \<or> (2 * r = 2 ^ k \<and> odd q) then (q + 1) * 2 ^ k else q * 2 ^ k)"

definition f64_round :: "nat \<Rightarrow> nat" where
  "f64_round n = round_even (bitlen n - 53) n"

text \<open>The three constants as doubles: mantissa and binary scale.\<close>

definition electionBias :: "NodeHealth \<Rightarrow> nat \<times> nat" where
  "electionBias h =
     (if h = HealthHigh then (2476979795053773, 52)
      else if h = HealthLow then (6530219459687219, 52)
      else (1, 0))"

text \<open>\<^verbatim>\<open>int64(float64(draw) * bias)\<close>.\<close>

definition biased :: "NodeHealth \<Rightarrow> nat \<Rightarrow> nat" where
  "biased h draw = (let (m, k) = electionBias h in f64_round (f64_round draw * m) div 2 ^ k)"

definition Millisecond :: int where "Millisecond = 1000000"

text \<open>The delay in milliseconds that \<^verbatim>\<open>resetElectionTimerLocked\<close> picks; \<open>draw\<close> is the result of
  \<^verbatim>\<open>rnd.Int63n(span)\<close>.\<close>

definition election_delay :: "Config \<Rightarrow> NodeHealth \<Rightarrow> nat \<Rightarrow> int" where
  "election_delay c h draw =
     (let span = ElectionTimeoutMax c - ElectionTimeoutMin c; d = ElectionTimeoutMin c in
      if span > 0 then d + int (biased h draw) else d)"

section \<open>Rounding\<close>

lemma bitlen_lower: "0 < n \<Longrightarrow> 2 ^ (bitlen n - 1) \<le> n"
proof (induction n rule: bitlen.induct)
  case (1 n)
  show ?case
  proof (cases "n div 2 = 0")
    case False
    with 1 have "2 ^ (bitlen (n div 2) - 1) \<le> n div 2" by simp
    moreover have "0 < bitlen (n div 2)" using False by (subst bitlen.simps) simp
    then have "bitlen (n div 2) = Suc (bitlen (n div 2) - 1)" by simp
    ultimately have "2 ^ bitlen (n div 2) \<le> 2 * (n div 2)" by (metis mult_le_mono2 power_Suc)
    then show ?thesis using 1 by (subst bitlen.simps) simp
  next
    case True
    then have "bitlen n = 1" using 1(2) by (subst bitlen.simps) (simp add: bitlen.simps [of 0])
    then show ?thesis using 1(2) by simp
  qed
qed

lemma bitlen_upper: "n < 2 ^ bitlen n"
proof (induction n rule: bitlen.induct)
  case (1 n)
  then show ?case by (cases "n = 0") (subst bitlen.simps, simp, subst bitlen.simps, auto)
qed

lemma bitlen_le: "n < 2 ^ k \<Longrightarrow> bitlen n \<le> k"
proof (rule ccontr)
  assume n: "n < 2 ^ k" and "\<not> bitlen n \<le> k"
  then have "(2::nat) ^ k \<le> 2 ^ (bitlen n - 1)" by (intro power_increasing) auto
  moreover have "0 < n" using \<open>\<not> bitlen n \<le> k\<close> by (cases n) (auto simp: bitlen.simps [of 0])
  ultimately show False using bitlen_lower [of n] n by (meson leD le_trans)
qed

lemma round_even_0 [simp]: "round_even 0 n = n"
  by (simp add: round_even_def)

text \<open>An integer of at most 53 bits is a double.\<close>

lemma f64_round_exact: "n < 2 ^ 53 \<Longrightarrow> f64_round n = n"
  using bitlen_le [of n 53] by (simp add: f64_round_def)

lemma round_even_error:
  "2 * round_even k n \<le> 2 * n + 2 ^ k" "2 * n \<le> 2 * round_even k n + 2 ^ k"
proof -
  define q r where "q = n div 2 ^ k" "r = n mod 2 ^ k"
  have n: "n = q * 2 ^ k + r" "r < 2 ^ k" by (simp_all add: q_r_def div_mult_mod_eq)
  have e: "round_even k n = (if 2 ^ k < 2 * r \<or> (2 * r = 2 ^ k \<and> odd q) then q * 2 ^ k + 2 ^ k else q * 2 ^ k)"
    by (simp add: round_even_def q_r_def Let_def algebra_simps)
  show "2 * round_even k n \<le> 2 * n + 2 ^ k" "2 * n \<le> 2 * round_even k n + 2 ^ k"
    using n unfolding e by (auto split: if_splits)
qed

text \<open>The relative error of a rounding is at most \<open>2 ^ -53\<close>.\<close>

lemma f64_round_error:
  "2 ^ 53 * f64_round n \<le> 2 ^ 53 * n + n" "2 ^ 53 * n \<le> 2 ^ 53 * f64_round n + n"
proof -
  have *: "2 ^ 53 * f64_round n \<le> 2 ^ 53 * n + n \<and> 2 ^ 53 * n \<le> 2 ^ 53 * f64_round n + n"
  proof (cases "n < 2 ^ 53")
    case True
    then show ?thesis by (simp add: f64_round_exact)
  next
    case False
    have "54 \<le> bitlen n"
    proof (rule ccontr)
      assume "\<not> 54 \<le> bitlen n"
      then have "(2::nat) ^ bitlen n \<le> 2 ^ 53" by (intro power_increasing) auto
      with bitlen_upper [of n] False show False by (meson less_le_trans)
    qed
    then obtain k where k: "bitlen n = 54 + k" using le_Suc_ex by blast
    have "2 ^ (53 + k) \<le> n" using bitlen_lower [of n] False k by simp
    then have "2 ^ 53 * 2 ^ k \<le> n" by (simp add: power_add)
    moreover have "f64_round n = round_even (Suc k) n" by (simp add: f64_round_def k)
    moreover have "(2::nat) ^ Suc k = 2 * 2 ^ k" by simp
    ultimately show ?thesis using round_even_error(1) [of "Suc k" n] round_even_error(2) [of n "Suc k"]
      by simp
  qed
  then show "2 ^ 53 * f64_round n \<le> 2 ^ 53 * n + n" "2 ^ 53 * n \<le> 2 ^ 53 * f64_round n + n" by blast+
qed

section \<open>The delay\<close>

lemma biased_normal: "draw < 2 ^ 53 \<Longrightarrow> h \<noteq> HealthHigh \<Longrightarrow> h \<noteq> HealthLow \<Longrightarrow> biased h draw = draw"
  by (simp add: biased_def electionBias_def f64_round_exact)

lemma biased_high: "draw < 2 ^ 53 \<Longrightarrow> biased HealthHigh draw \<le> draw"
proof -
  assume "draw < 2 ^ 53"
  then have e: "biased HealthHigh draw = f64_round (draw * 2476979795053773) div 2 ^ 52"
    by (simp add: biased_def electionBias_def f64_round_exact)
  have "f64_round (draw * 2476979795053773) \<le> draw * 2 ^ 52"
    using f64_round_error(1) [of "draw * 2476979795053773"] by simp
  then have "f64_round (draw * 2476979795053773) div 2 ^ 52 \<le> (draw * 2 ^ 52) div 2 ^ 52"
    by (rule div_le_mono)
  then show ?thesis unfolding e by simp
qed

lemma biased_low: "draw < 2 ^ 53 \<Longrightarrow> draw \<le> biased HealthLow draw \<and> 2 * biased HealthLow draw \<le> 3 * draw"
proof -
  assume "draw < 2 ^ 53"
  then have e: "biased HealthLow draw = f64_round (draw * 6530219459687219) div 2 ^ 52"
    by (simp add: biased_def electionBias_def f64_round_exact HealthLow_def HealthHigh_def)
  have "draw * 2 ^ 52 \<le> f64_round (draw * 6530219459687219)"
    using f64_round_error(2) [of "draw * 6530219459687219"] by simp
  then have lo: "(draw * 2 ^ 52) div 2 ^ 52 \<le> f64_round (draw * 6530219459687219) div 2 ^ 52"
    by (rule div_le_mono)
  have hi: "2 * f64_round (draw * 6530219459687219) \<le> 3 * draw * 2 ^ 52"
    using f64_round_error(1) [of "draw * 6530219459687219"] by simp
  have "2 ^ 52 * (f64_round (draw * 6530219459687219) div 2 ^ 52) \<le> f64_round (draw * 6530219459687219)"
    by simp
  with hi have "2 ^ 52 * (2 * (f64_round (draw * 6530219459687219) div 2 ^ 52)) \<le> 2 ^ 52 * (3 * draw)"
    by simp
  then have "2 * (f64_round (draw * 6530219459687219) div 2 ^ 52) \<le> 3 * draw" by simp
  with lo show ?thesis unfolding e by simp
qed

text \<open>whatever the node's health, the election delay is at least the configured minimum and at most the
  minimum plus one and a half times the window, and for the same draw a node of high health waits no
  longer than a normal one, which waits no longer than one of low health.\<close>

theorem election_delay_bounds:
  assumes "int draw < ElectionTimeoutMax c - ElectionTimeoutMin c"
    and "ElectionTimeoutMax c - ElectionTimeoutMin c \<le> 2 ^ 53"
  shows "ElectionTimeoutMin c \<le> election_delay c h draw
    \<and> 2 * election_delay c h draw < 2 * ElectionTimeoutMin c + 3 * (ElectionTimeoutMax c - ElectionTimeoutMin c)
    \<and> election_delay c HealthHigh draw \<le> election_delay c HealthNormal draw
    \<and> election_delay c HealthNormal draw \<le> election_delay c HealthLow draw"
proof -
  have "int draw < int (2 ^ 53)" using assms by simp
  then have d: "draw < 2 ^ 53" by (simp only: of_nat_less_iff)
  have n: "biased HealthNormal draw = draw"
    by (rule biased_normal [OF d]) (simp_all add: HealthNormal_def HealthHigh_def HealthLow_def)
  have "2 * biased h draw \<le> 3 * draw"
    using biased_high [OF d] biased_low [OF d] biased_normal [OF d, of h]
    by (cases "h = HealthHigh"; cases "h = HealthLow") auto
  then show ?thesis
    using assms n biased_high [OF d] biased_low [OF d]
    by (auto simp: election_delay_def Let_def)
qed

theorem election_delay_bounds_witness:
  "150 \<le> election_delay DefaultConfig HealthLow 100"
  using election_delay_bounds [of 100 DefaultConfig HealthLow] by (simp add: DefaultConfig_def)

end
