(* ===== verification/RaftServer.thy ===== *)
theory RaftServer
  imports RaftState RaftTimer
begin

text \<open>
  One Raft server and its RPC receivers (src/raft/server.go, \<^verbatim>\<open>persistLocked\<close> of src/raft/persist.go and
  the configuration switch of src/raft/membership.go).

  \<^item> \<open>Server\<close> has the fields of the Go struct; the mutex, the goroutine bookkeeping and the random source
    are not state here. Each definition is one section under \<^verbatim>\<open>s.mu\<close>, so it is atomic.
  \<^item> \<open>SMOps\<close> are the operations of the replicated state machine behind the \<^verbatim>\<open>StateMachine\<close>,
    \<^verbatim>\<open>IndexedStateMachine\<close> and \<^verbatim>\<open>Snapshotter\<close> interfaces; \<open>Store\<close> is what the \<^verbatim>\<open>Storage\<close>, \<^verbatim>\<open>AppliedStorage\<close>
    and \<^verbatim>\<open>SnapshotStorage\<close> interfaces keep: an optional capability is an \<^typ>\<open>'a option\<close>.
  \<^item> \<open>Env\<close> is what a section reads from outside: the clock, the draw of the random source, and whether
    each storage call fails. A failing save leaves the stored state as it was.
  \<^item> A panic (of \<^verbatim>\<open>mustPersistLocked\<close>, of the state machine, or of \<^verbatim>\<open>make\<close>) is \<^const>\<open>None\<close>.

  Shown here: terms never decrease and a vote never changes within a term; a vote or an
  acknowledgement is given only after the state it rests on is stored; the log stays well formed and
  the indices ordered; a repeated message changes nothing; and \<open>applyCommitted\<close> applies exactly the
  committed commands in log order.
\<close>

section \<open>Data\<close>

record snapshotState =
  lastIncludedIndex :: Index
  lastIncludedTerm :: Term
  snap_data :: bytes

datatype Transport = NoTransport | PlainTransport | SnapshotTransport

record Store =
  st_saved :: bytes
  st_applied :: "nat option"
  st_snapshot :: "(nat \<times> nat \<times> bytes) option option"

record 'm SMOps =
  op_apply :: "nat \<Rightarrow> bytes \<Rightarrow> 'm \<Rightarrow> 'm option"
  op_snapper :: "(('m \<Rightarrow> string + bytes) \<times> (bytes \<Rightarrow> 'm \<Rightarrow> string option \<times> 'm)) option"

record Env =
  e_now :: int
  e_draw :: nat
  e_save_err :: "string option"
  e_applied_err :: "string option"
  e_snap_err :: "string option"

record 'm Server =
  s_id :: NodeID
  s_peers :: "NodeID list"
  s_currentTerm :: Term
  s_votedFor :: "NodeID option"
  s_log :: Log
  s_commitIndex :: Index
  s_lastApplied :: Index
  s_nextIndex :: "(NodeID, Index) fmap"
  s_matchIndex :: "(NodeID, Index) fmap"
  s_role :: Role
  s_leaderID :: NodeID
  s_sm :: "'m option"
  s_cfg :: Config
  s_transport :: Transport
  s_storage :: "Store option"
  s_electionDeadline :: int
  s_heartbeatDeadline :: int
  s_running :: bool
  s_stopped :: bool
  s_applyWaiters :: "(Index, nat list) fmap"
  s_closed :: "nat list"
  s_appliedErrs :: nat
  s_lastAppliedErr :: "string option"
  s_snapshot :: "snapshotState option"
  s_snapshotErrs :: nat
  s_lastSnapshotErr :: "string option"
  s_health :: NodeHealth
  s_lastLeaderContact :: int
  s_configChangeIndex :: Index
  s_removedFromCluster :: bool
  s_configErrs :: nat
  s_lastConfigErr :: "string option"
  s_lastContact :: "(NodeID, int) fmap"

text \<open>The zero \<^verbatim>\<open>time.Time\<close>: the first of January of the year 1, before the epoch.\<close>

definition zero_time :: int where
  "zero_time = - 62135596800 * 1000000000"

definition NewServerWith :: "NodeID \<Rightarrow> NodeID list \<Rightarrow> 'm option \<Rightarrow> Transport \<Rightarrow> Config \<Rightarrow> 'm Server" where
  "NewServerWith i peers m tr c =
     \<lparr>s_id = i, s_peers = peers, s_currentTerm = 0, s_votedFor = None, s_log = [sentinel],
      s_commitIndex = 0, s_lastApplied = 0, s_nextIndex = fmempty, s_matchIndex = fmempty,
      s_role = Follower, s_leaderID = [], s_sm = m, s_cfg = c, s_transport = tr, s_storage = None,
      s_electionDeadline = zero_time, s_heartbeatDeadline = zero_time, s_running = False, s_stopped = False,
      s_applyWaiters = fmempty, s_closed = [], s_appliedErrs = 0, s_lastAppliedErr = None,
      s_snapshot = None, s_snapshotErrs = 0, s_lastSnapshotErr = None, s_health = HealthNormal,
      s_lastLeaderContact = zero_time, s_configChangeIndex = 0, s_removedFromCluster = False,
      s_configErrs = 0, s_lastConfigErr = None, s_lastContact = fmempty\<rparr>"

definition NewServer :: "NodeID \<Rightarrow> NodeID list \<Rightarrow> 'm option \<Rightarrow> 'm Server" where
  "NewServer i peers m = NewServerWith i peers m NoTransport DefaultConfig"

definition SetStorage :: "Store option \<Rightarrow> 'm Server \<Rightarrow> 'm Server" where
  "SetStorage st s = s\<lparr>s_storage := st\<rparr>"

definition SetNodeHealth :: "NodeHealth \<Rightarrow> 'm Server \<Rightarrow> 'm Server" where
  "SetNodeHealth h s = s\<lparr>s_health := h\<rparr>"

record AppendEntriesArgs =
  ae_Term :: Term
  ae_LeaderID :: NodeID
  ae_PrevLogIndex :: Index
  ae_PrevLogTerm :: Term
  ae_Entries :: "LogEntry list"
  ae_LeaderCommit :: Index

record AppendEntriesReply =
  aer_Term :: Term
  aer_Success :: bool

record RequestVoteArgs =
  rv_Term :: Term
  rv_CandidateID :: NodeID
  rv_LastLogIndex :: Index
  rv_LastLogTerm :: Term

record RequestVoteReply =
  rvr_Term :: Term
  rvr_VoteGranted :: bool

section \<open>Persisting\<close>

text \<open>\<^verbatim>\<open>persistLocked\<close>: the error, if any, and the server.\<close>

definition persistLocked :: "Env \<Rightarrow> 'm Server \<Rightarrow> string option \<times> 'm Server" where
  "persistLocked env s =
     (case s_storage s of
        None \<Rightarrow> (None, s)
      | Some st \<Rightarrow>
          (case e_save_err env of
             Some e \<Rightarrow> (Some e, s)
           | None \<Rightarrow> (None, s\<lparr>s_storage := Some (st\<lparr>st_saved :=
               encodeState (s_currentTerm s) (s_votedFor s) (s_log s)\<rparr>)\<rparr>)))"

definition mustPersistLocked :: "Env \<Rightarrow> 'm Server \<Rightarrow> 'm Server option" where
  "mustPersistLocked env s =
     (case persistLocked env s of (None, s) \<Rightarrow> Some s | (Some e, s) \<Rightarrow> None)"

section \<open>Terms and timers\<close>

definition becomeFollower :: "Term \<Rightarrow> 'm Server \<Rightarrow> 'm Server" where
  "becomeFollower t s =
     (let s = s\<lparr>s_role := Follower\<rparr> in
      if t > s_currentTerm s then s\<lparr>s_currentTerm := t, s_votedFor := None\<rparr> else s)"

definition observeTerm :: "Term \<Rightarrow> 'm Server \<Rightarrow> bool \<times> 'm Server" where
  "observeTerm t s = (if t > s_currentTerm s then (True, becomeFollower t s) else (False, s))"

definition resetElectionTimerLocked :: "Env \<Rightarrow> 'm Server \<Rightarrow> 'm Server" where
  "resetElectionTimerLocked env s =
     s\<lparr>s_electionDeadline :=
         e_now env + wrap64 (election_delay (s_cfg s) (s_health s) (e_draw env) * Millisecond)\<rparr>"

definition minElectionTimeout :: "'m Server \<Rightarrow> int" where
  "minElectionTimeout s = wrap64 (ElectionTimeoutMin (s_cfg s) * Millisecond)"

section \<open>Applying\<close>

definition apply_entry :: "'m SMOps \<Rightarrow> LogEntry \<Rightarrow> 'm option \<Rightarrow> 'm option option" where
  "apply_entry M e m =
     (case m of
        None \<Rightarrow> Some None
      | Some x \<Rightarrow>
          (case ent_Command e of
             None \<Rightarrow> Some (Some x)
           | Some c \<Rightarrow> map_option Some (op_apply M (ent_Index e) c x)))"

text \<open>The loop of \<^verbatim>\<open>applyCommitted\<close> over the last applied index and the state machine.\<close>

function apply_loop ::
  "'m SMOps \<Rightarrow> Log \<Rightarrow> Index \<Rightarrow> Index \<Rightarrow> 'm option \<Rightarrow> (Index \<times> 'm option) option" where
  "apply_loop M l commit applied m =
     (if commit > applied then
        (case entryAt l (applied + 1) of
           None \<Rightarrow> Some (applied, m)
         | Some e \<Rightarrow> do { m \<leftarrow> apply_entry M e m; apply_loop M l commit (applied + 1) m })
      else Some (applied, m))"
  by auto
termination by (relation "measure (\<lambda>(M, l, commit, applied, m). commit - applied)") auto

declare apply_loop.simps [simp del]

definition signalApplied :: "'m Server \<Rightarrow> 'm Server" where
  "signalApplied s =
     s\<lparr>s_closed := s_closed s @ concat (map snd (filter (\<lambda>(idx, _). idx \<le> s_lastApplied s)
         (sorted_list_of_fmap (s_applyWaiters s)))),
       s_applyWaiters := fmfilter (\<lambda>idx. \<not> idx \<le> s_lastApplied s) (s_applyWaiters s)\<rparr>"

definition save_applied :: "Env \<Rightarrow> 'm Server \<Rightarrow> 'm Server" where
  "save_applied env s =
     (case s_storage s of
        None \<Rightarrow> s
      | Some st \<Rightarrow>
          (case st_applied st of
             None \<Rightarrow> s
           | Some _ \<Rightarrow>
               (if s_lastApplied s > 0 then
                  (case e_applied_err env of
                     None \<Rightarrow> s\<lparr>s_storage := Some (st\<lparr>st_applied := Some (s_lastApplied s)\<rparr>)\<rparr>
                   | Some e \<Rightarrow> s\<lparr>s_appliedErrs := s_appliedErrs s + 1, s_lastAppliedErr := Some e\<rparr>)
                else s)))"

definition applyCommitted :: "'m SMOps \<Rightarrow> Env \<Rightarrow> 'm Server \<Rightarrow> 'm Server option" where
  "applyCommitted M env s = do {
     (applied, m) \<leftarrow> apply_loop M (s_log s) (s_commitIndex s) (s_lastApplied s) (s_sm s);
     Some (signalApplied (save_applied env (s\<lparr>s_lastApplied := applied, s_sm := m\<rparr>)))
   }"

text \<open>\<^verbatim>\<open>WaitApplied\<close> registers a fresh channel \<open>ch\<close>, or closes it at once.\<close>

definition WaitApplied :: "nat \<Rightarrow> Index \<Rightarrow> 'm Server \<Rightarrow> 'm Server" where
  "WaitApplied ch idx s =
     (if s_lastApplied s \<ge> idx then s\<lparr>s_closed := s_closed s @ [ch]\<rparr>
      else s\<lparr>s_applyWaiters := fmupd idx
             ((case fmlookup (s_applyWaiters s) idx of None \<Rightarrow> [] | Some chs \<Rightarrow> chs) @ [ch])
             (s_applyWaiters s)\<rparr>)"

section \<open>Configurations\<close>

definition get0 :: "(NodeID, nat) fmap \<Rightarrow> NodeID \<Rightarrow> nat" where
  "get0 m k = (case fmlookup m k of None \<Rightarrow> 0 | Some v \<Rightarrow> v)"

definition useConfigurationLocked :: "Configuration \<Rightarrow> 'm Server \<Rightarrow> 'm Server" where
  "useConfigurationLocked c s =
     (let s = s\<lparr>s_peers := Servers c\<rparr> in
      if s_role s \<noteq> Leader then s
      else
        let next = lastIndex (s_log s) + 1;
            (ni, mi) = fold (\<lambda>p (ni, mi).
               if p |\<in>| fmdom ni then (ni, mi) else (fmupd p next ni, fmupd p 0 mi))
               (Servers c) (s_nextIndex s, s_matchIndex s);
            gone = ffilter (\<lambda>p. \<not> Contains c p) (fmdom ni)
        in s\<lparr>s_nextIndex := fmdrop_fset gone ni,
             s_matchIndex := fmupd (s_id s) (lastIndex (s_log s)) (fmdrop_fset gone mi),
             s_lastContact := fmdrop_fset gone (s_lastContact s)\<rparr>)"

text \<open>\<^verbatim>\<open>adoptConfigFromLogLocked\<close> over the entries after the sentinel, newest first.\<close>

fun adopt_scan :: "LogEntry list \<Rightarrow> 'm Server \<Rightarrow> 'm Server option" where
  "adopt_scan [] s = Some s"
| "adopt_scan (e # older) s =
     (if \<not> isConfigEntry (ent_Command e) then adopt_scan older s
      else (case decodeConfig (ent_Command e) of
              None \<Rightarrow> None
            | Some (Inl err) \<Rightarrow>
                adopt_scan older (s\<lparr>s_configErrs := s_configErrs s + 1, s_lastConfigErr := Some err\<rparr>)
            | Some (Inr c) \<Rightarrow>
                Some ((useConfigurationLocked c s)\<lparr>s_configChangeIndex := ent_Index e\<rparr>)))"

definition adoptConfigFromLogLocked :: "'m Server \<Rightarrow> 'm Server option" where
  "adoptConfigFromLogLocked s = adopt_scan (rev (tl (s_log s))) s"

section \<open>AppendEntries\<close>

text \<open>Rule 5: advance the commit index and apply.\<close>

definition commit_to :: "'m SMOps \<Rightarrow> Env \<Rightarrow> AppendEntriesArgs \<Rightarrow> 'm Server \<Rightarrow> 'm Server option" where
  "commit_to M env args s =
     (if ae_LeaderCommit args > s_commitIndex s then
        let lastNew = ae_PrevLogIndex args + length (ae_Entries args)
        in applyCommitted M env (s\<lparr>s_commitIndex := min (ae_LeaderCommit args) lastNew\<rparr>)
      else Some s)"

text \<open>A request of a current leader: adopt its term, step down, remember it and reset the timer. The flag
  is whether the term changed.\<close>

definition accept_leader :: "Env \<Rightarrow> AppendEntriesArgs \<Rightarrow> 'm Server \<Rightarrow> bool \<times> 'm Server" where
  "accept_leader env args s =
     (let (termChanged, s) = observeTerm (ae_Term args) s;
          s = (if s_role s = Candidate \<and> ae_Term args = s_currentTerm s
               then s\<lparr>s_role := Follower\<rparr> else s);
          s = s\<lparr>s_leaderID := ae_LeaderID args, s_lastLeaderContact := e_now env\<rparr>
      in (termChanged, resetElectionTimerLocked env s))"

definition AppendEntries ::
  "'m SMOps \<Rightarrow> Env \<Rightarrow> AppendEntriesArgs \<Rightarrow> 'm Server \<Rightarrow> (AppendEntriesReply \<times> 'm Server) option" where
  "AppendEntries M env args s =
     (if s_stopped s then Some (\<lparr>aer_Term = s_currentTerm s, aer_Success = False\<rparr>, s)
      else if ae_Term args < s_currentTerm s then
        Some (\<lparr>aer_Term = s_currentTerm s, aer_Success = False\<rparr>, s)
      else
        let (termChanged, s) = accept_leader env args s in
        if \<not> matchesPrevLog (s_log s) (ae_PrevLogIndex args) (ae_PrevLogTerm args) then do {
          s \<leftarrow> (if termChanged then mustPersistLocked env s else Some s);
          Some (\<lparr>aer_Term = s_currentTerm s, aer_Success = False\<rparr>, s)
        }
        else
          let (changed, l) = appendFrom (ae_PrevLogIndex args) (ae_Entries args) (s_log s);
              s = s\<lparr>s_log := l\<rparr>
          in do {
            s \<leftarrow> (if changed then adoptConfigFromLogLocked s else Some s);
            s \<leftarrow> (if changed \<or> termChanged then mustPersistLocked env s else Some s);
            s \<leftarrow> commit_to M env args s;
            Some (\<lparr>aer_Term = s_currentTerm s, aer_Success = True\<rparr>, s)
          })"

section \<open>RequestVote\<close>

definition RequestVote ::
  "Env \<Rightarrow> RequestVoteArgs \<Rightarrow> 'm Server \<Rightarrow> (RequestVoteReply \<times> 'm Server) option" where
  "RequestVote env args s =
     (if s_stopped s then Some (\<lparr>rvr_Term = s_currentTerm s, rvr_VoteGranted = False\<rparr>, s)
      else if rv_Term args < s_currentTerm s then
        Some (\<lparr>rvr_Term = s_currentTerm s, rvr_VoteGranted = False\<rparr>, s)
      else if s_leaderID s \<noteq> [] \<and> s_role s = Follower
          \<and> e_now env - s_lastLeaderContact s < minElectionTimeout s then
        Some (\<lparr>rvr_Term = s_currentTerm s, rvr_VoteGranted = False\<rparr>, s)
      else
        let (termChanged, s) = observeTerm (rv_Term args) s;
            alreadyVoted = (s_votedFor s \<noteq> None \<and> s_votedFor s \<noteq> Some (rv_CandidateID args))
        in
        if alreadyVoted \<or> \<not> isUpToDate (s_log s) (rv_LastLogIndex args) (rv_LastLogTerm args) then do {
          s \<leftarrow> (if termChanged then mustPersistLocked env s else Some s);
          Some (\<lparr>rvr_Term = s_currentTerm s, rvr_VoteGranted = False\<rparr>, s)
        }
        else
          let s = s\<lparr>s_votedFor := Some (rv_CandidateID args)\<rparr>;
              s = resetElectionTimerLocked env s
          in do {
            s \<leftarrow> mustPersistLocked env s;
            Some (\<lparr>rvr_Term = s_currentTerm s, rvr_VoteGranted = True\<rparr>, s)
          })"

section \<open>What the helpers change\<close>

lemma resetElectionTimerLocked_frame [simp]:
  "s_id (resetElectionTimerLocked env s) = s_id s"
  "s_peers (resetElectionTimerLocked env s) = s_peers s"
  "s_currentTerm (resetElectionTimerLocked env s) = s_currentTerm s"
  "s_votedFor (resetElectionTimerLocked env s) = s_votedFor s"
  "s_log (resetElectionTimerLocked env s) = s_log s"
  "s_commitIndex (resetElectionTimerLocked env s) = s_commitIndex s"
  "s_lastApplied (resetElectionTimerLocked env s) = s_lastApplied s"
  "s_role (resetElectionTimerLocked env s) = s_role s"
  "s_leaderID (resetElectionTimerLocked env s) = s_leaderID s"
  "s_sm (resetElectionTimerLocked env s) = s_sm s"
  "s_cfg (resetElectionTimerLocked env s) = s_cfg s"
  "s_stopped (resetElectionTimerLocked env s) = s_stopped s"
  "s_nextIndex (resetElectionTimerLocked env s) = s_nextIndex s"
  "s_matchIndex (resetElectionTimerLocked env s) = s_matchIndex s"
  "s_lastLeaderContact (resetElectionTimerLocked env s) = s_lastLeaderContact s"
  "s_configChangeIndex (resetElectionTimerLocked env s) = s_configChangeIndex s"
  "s_removedFromCluster (resetElectionTimerLocked env s) = s_removedFromCluster s"
  "s_snapshot (resetElectionTimerLocked env s) = s_snapshot s"
  "s_running (resetElectionTimerLocked env s) = s_running s"
  "s_transport (resetElectionTimerLocked env s) = s_transport s"
  "s_health (resetElectionTimerLocked env s) = s_health s"
  "s_storage (resetElectionTimerLocked env s) = s_storage s"
  by (simp_all add: resetElectionTimerLocked_def)

lemma signalApplied_frame [simp]:
  "s_id (signalApplied s) = s_id s"
  "s_peers (signalApplied s) = s_peers s"
  "s_currentTerm (signalApplied s) = s_currentTerm s"
  "s_votedFor (signalApplied s) = s_votedFor s"
  "s_log (signalApplied s) = s_log s"
  "s_commitIndex (signalApplied s) = s_commitIndex s"
  "s_lastApplied (signalApplied s) = s_lastApplied s"
  "s_role (signalApplied s) = s_role s"
  "s_leaderID (signalApplied s) = s_leaderID s"
  "s_sm (signalApplied s) = s_sm s"
  "s_cfg (signalApplied s) = s_cfg s"
  "s_stopped (signalApplied s) = s_stopped s"
  "s_nextIndex (signalApplied s) = s_nextIndex s"
  "s_matchIndex (signalApplied s) = s_matchIndex s"
  "s_lastLeaderContact (signalApplied s) = s_lastLeaderContact s"
  "s_configChangeIndex (signalApplied s) = s_configChangeIndex s"
  "s_removedFromCluster (signalApplied s) = s_removedFromCluster s"
  "s_snapshot (signalApplied s) = s_snapshot s"
  "s_running (signalApplied s) = s_running s"
  "s_transport (signalApplied s) = s_transport s"
  "s_health (signalApplied s) = s_health s"
  "s_storage (signalApplied s) = s_storage s"
  by (simp_all add: signalApplied_def)

lemma save_applied_frame [simp]:
  "s_id (save_applied env s) = s_id s"
  "s_peers (save_applied env s) = s_peers s"
  "s_currentTerm (save_applied env s) = s_currentTerm s"
  "s_votedFor (save_applied env s) = s_votedFor s"
  "s_log (save_applied env s) = s_log s"
  "s_commitIndex (save_applied env s) = s_commitIndex s"
  "s_lastApplied (save_applied env s) = s_lastApplied s"
  "s_role (save_applied env s) = s_role s"
  "s_leaderID (save_applied env s) = s_leaderID s"
  "s_sm (save_applied env s) = s_sm s"
  "s_cfg (save_applied env s) = s_cfg s"
  "s_stopped (save_applied env s) = s_stopped s"
  "s_nextIndex (save_applied env s) = s_nextIndex s"
  "s_matchIndex (save_applied env s) = s_matchIndex s"
  "s_lastLeaderContact (save_applied env s) = s_lastLeaderContact s"
  "s_configChangeIndex (save_applied env s) = s_configChangeIndex s"
  "s_removedFromCluster (save_applied env s) = s_removedFromCluster s"
  "s_snapshot (save_applied env s) = s_snapshot s"
  "s_running (save_applied env s) = s_running s"
  "s_transport (save_applied env s) = s_transport s"
  "s_health (save_applied env s) = s_health s"
  by (simp_all add: save_applied_def split: option.split)

lemma useConfigurationLocked_frame [simp]:
  "s_id (useConfigurationLocked c s) = s_id s"
  "s_currentTerm (useConfigurationLocked c s) = s_currentTerm s"
  "s_votedFor (useConfigurationLocked c s) = s_votedFor s"
  "s_log (useConfigurationLocked c s) = s_log s"
  "s_commitIndex (useConfigurationLocked c s) = s_commitIndex s"
  "s_lastApplied (useConfigurationLocked c s) = s_lastApplied s"
  "s_role (useConfigurationLocked c s) = s_role s"
  "s_leaderID (useConfigurationLocked c s) = s_leaderID s"
  "s_sm (useConfigurationLocked c s) = s_sm s"
  "s_cfg (useConfigurationLocked c s) = s_cfg s"
  "s_stopped (useConfigurationLocked c s) = s_stopped s"
  "s_lastLeaderContact (useConfigurationLocked c s) = s_lastLeaderContact s"
  "s_configChangeIndex (useConfigurationLocked c s) = s_configChangeIndex s"
  "s_removedFromCluster (useConfigurationLocked c s) = s_removedFromCluster s"
  "s_snapshot (useConfigurationLocked c s) = s_snapshot s"
  "s_running (useConfigurationLocked c s) = s_running s"
  "s_transport (useConfigurationLocked c s) = s_transport s"
  "s_health (useConfigurationLocked c s) = s_health s"
  "s_storage (useConfigurationLocked c s) = s_storage s"
  by (simp_all add: useConfigurationLocked_def Let_def case_prod_beta)

definition stored_server :: "'m Server \<Rightarrow> 'm Server" where
  "stored_server s = s\<lparr>s_storage := map_option (\<lambda>st. st\<lparr>st_saved :=
     encodeState (s_currentTerm s) (s_votedFor s) (s_log s)\<rparr>) (s_storage s)\<rparr>"

lemma stored_server_frame [simp]:
  "s_id (stored_server s) = s_id s"
  "s_peers (stored_server s) = s_peers s"
  "s_currentTerm (stored_server s) = s_currentTerm s"
  "s_votedFor (stored_server s) = s_votedFor s"
  "s_log (stored_server s) = s_log s"
  "s_commitIndex (stored_server s) = s_commitIndex s"
  "s_lastApplied (stored_server s) = s_lastApplied s"
  "s_role (stored_server s) = s_role s"
  "s_leaderID (stored_server s) = s_leaderID s"
  "s_sm (stored_server s) = s_sm s"
  "s_cfg (stored_server s) = s_cfg s"
  "s_stopped (stored_server s) = s_stopped s"
  "s_nextIndex (stored_server s) = s_nextIndex s"
  "s_matchIndex (stored_server s) = s_matchIndex s"
  "s_lastLeaderContact (stored_server s) = s_lastLeaderContact s"
  "s_configChangeIndex (stored_server s) = s_configChangeIndex s"
  "s_removedFromCluster (stored_server s) = s_removedFromCluster s"
  "s_snapshot (stored_server s) = s_snapshot s"
  by (simp_all add: stored_server_def)

lemma stored_server_storage:
  "s_storage (stored_server s) = map_option (\<lambda>st. st\<lparr>st_saved :=
     encodeState (s_currentTerm s) (s_votedFor s) (s_log s)\<rparr>) (s_storage s)"
  by (simp add: stored_server_def)

lemma stored_server_None: "s_storage s = None \<Longrightarrow> stored_server s = s"
  unfolding stored_server_def by (cases s) simp

lemma persistLocked_cases:
  obtains (ok) "persistLocked env s = (None, stored_server s)" "s_storage s = None \<or> e_save_err env = None"
  | (failed) e where "persistLocked env s = (Some e, s)" "e_save_err env = Some e"
proof (cases "s_storage s")
  case None
  have "persistLocked env s = (None, stored_server s)"
    unfolding stored_server_None [OF None] by (simp add: persistLocked_def None)
  with None show thesis by (intro ok) simp_all
next
  case (Some st)
  show thesis
  proof (cases "e_save_err env")
    case None
    then show thesis by (intro ok) (simp_all add: persistLocked_def stored_server_def Some)
  next
    case (Some e)
    with \<open>s_storage s = Some st\<close> show thesis by (intro failed) (simp_all add: persistLocked_def)
  qed
qed

lemma mustPersistLocked_Some:
  "mustPersistLocked env s = Some s' \<Longrightarrow> s' = stored_server s"
  by (cases rule: persistLocked_cases [of env s]) (auto simp: mustPersistLocked_def)

lemma mustPersistLocked_ok:
  "e_save_err env = None \<Longrightarrow> mustPersistLocked env s = Some (stored_server s)"
  by (cases rule: persistLocked_cases [of env s]) (auto simp: mustPersistLocked_def)

text \<open>\<open>durable s\<close>: what is stored is the server's term, vote and log.\<close>

definition durable :: "'m Server \<Rightarrow> bool" where
  "durable s \<longleftrightarrow>
     pred_option (\<lambda>st. st_saved st = encodeState (s_currentTerm s) (s_votedFor s) (s_log s)) (s_storage s)"

lemma durable_stored [simp]: "durable (stored_server s)"
  by (cases "s_storage s") (simp_all add: durable_def stored_server_storage)

lemma durable_resetElectionTimerLocked [simp]: "durable (resetElectionTimerLocked env s) = durable s"
  by (simp add: durable_def)

lemma durable_signalApplied [simp]: "durable (signalApplied s) = durable s"
  by (simp add: durable_def)

lemma durable_save_applied [simp]: "durable (save_applied env s) = durable s"
  by (cases "s_storage s") (simp_all add: durable_def save_applied_def split: option.split)

text \<open>The part of the state that a change of configuration leaves alone.\<close>

definition proto where
  "proto s = (s_id s, s_currentTerm s, s_votedFor s, s_log s, s_commitIndex s, s_lastApplied s,
     s_role s, s_leaderID s, s_sm s, s_cfg s, s_stopped s, s_storage s, s_snapshot s)"

lemma proto_useConfigurationLocked [simp]: "proto (useConfigurationLocked c s) = proto s"
  by (simp add: proto_def)

lemma proto_config_fields [simp]:
  "proto (s\<lparr>s_configErrs := n, s_lastConfigErr := err\<rparr>) = proto s"
  "proto (s\<lparr>s_configChangeIndex := i\<rparr>) = proto s"
  by (simp_all add: proto_def)

lemma adopt_scan_proto: "adopt_scan es s = Some s' \<Longrightarrow> proto s' = proto s"
proof (induction es s rule: adopt_scan.induct)
  case (2 e older s)
  show ?case
  proof (cases "isConfigEntry (ent_Command e)")
    case False
    with 2 show ?thesis by simp
  next
    case True
    show ?thesis
    proof (cases "decodeConfig (ent_Command e)")
      case None
      with True 2(3) show ?thesis by simp
    next
      case (Some d)
      with True 2(2) [OF _ Some] 2(3) show ?thesis by (cases d) auto
    qed
  qed
qed simp

lemma adoptConfig_proto: "adoptConfigFromLogLocked s = Some s' \<Longrightarrow> proto s' = proto s"
  by (simp add: adoptConfigFromLogLocked_def adopt_scan_proto)

lemma protoD:
  assumes "proto s' = proto s"
  shows "s_id s' = s_id s" "s_currentTerm s' = s_currentTerm s" "s_votedFor s' = s_votedFor s"
    "s_log s' = s_log s" "s_commitIndex s' = s_commitIndex s" "s_lastApplied s' = s_lastApplied s"
    "s_role s' = s_role s" "s_leaderID s' = s_leaderID s" "s_sm s' = s_sm s" "s_cfg s' = s_cfg s"
    "s_stopped s' = s_stopped s" "s_storage s' = s_storage s" "s_snapshot s' = s_snapshot s"
  using assms by (simp_all add: proto_def)

lemma durable_proto: "proto s' = proto s \<Longrightarrow> durable s' = durable s"
  using protoD [of s' s] by (simp add: durable_def)

section \<open>Applying committed entries\<close>

text \<open>Applying a list of entries in order.\<close>

primrec apply_entries :: "'m SMOps \<Rightarrow> LogEntry list \<Rightarrow> 'm option \<Rightarrow> 'm option option" where
  "apply_entries M [] m = Some m"
| "apply_entries M (e # es) m = do { m \<leftarrow> apply_entry M e m; apply_entries M es m }"

lemma apply_entries_append:
  "apply_entries M (es @ fs) m = do { m \<leftarrow> apply_entries M es m; apply_entries M fs m }"
  by (induction es arbitrary: m) (auto split: Option.bind_splits)

definition entries_between :: "Log \<Rightarrow> Index \<Rightarrow> Index \<Rightarrow> LogEntry list" where
  "entries_between l i j = map (\<lambda>k. the (entryAt l k)) [i + 1 ..< j + 1]"

lemma entries_between_empty [simp]: "j \<le> i \<Longrightarrow> entries_between l i j = []"
  by (simp add: entries_between_def)

lemma entries_between_Cons:
  "i < j \<Longrightarrow> entries_between l i j = the (entryAt l (i + 1)) # entries_between l (i + 1) j"
  by (simp add: entries_between_def upt_conv_Cons del: upt_Suc)

lemma entries_between_append:
  "i \<le> j \<Longrightarrow> j \<le> k \<Longrightarrow> entries_between l i k = entries_between l i j @ entries_between l j k"
  using upt_add_eq_append [of "i + 1" "j + 1" "k - j"] by (simp add: entries_between_def del: upt_Suc)

lemma entries_between_cong:
  "(\<And>n. i < n \<Longrightarrow> n \<le> j \<Longrightarrow> entryAt l n = entryAt l' n) \<Longrightarrow> entries_between l i j = entries_between l' i j"
  by (simp add: entries_between_def del: upt_Suc)

text \<open>The loop applies exactly the entries after the last applied one up to the commit index.\<close>

lemma apply_loop_eq:
  assumes "wf_log l" "baseIndex l \<le> applied" "commit \<le> lastIndex l"
  shows "apply_loop M l commit applied m =
    do { m \<leftarrow> apply_entries M (entries_between l applied commit) m; Some (max applied commit, m) }"
  using assms(2)
proof (induction "commit - applied" arbitrary: applied m)
  case 0
  then show ?case by (simp add: apply_loop.simps [of M l commit applied])
next
  case (Suc n)
  have lt: "applied < commit" using Suc.hyps(2) by simp
  then obtain e where e: "entryAt l (applied + 1) = Some e"
    using Suc.prems assms(3) by (auto simp: entryAt_def)
  have "apply_loop M l commit applied m =
      do { m \<leftarrow> apply_entry M e m; apply_loop M l commit (applied + 1) m }"
    by (subst apply_loop.simps) (simp add: lt e [simplified])
  also have "\<dots> = do { m \<leftarrow> apply_entry M e m; m \<leftarrow> apply_entries M (entries_between l (applied + 1) commit) m;
      Some (max (applied + 1) commit, m) }"
    using Suc.hyps(1) [of "applied + 1"] Suc.hyps(2) Suc.prems by simp
  also have "\<dots> = do { m \<leftarrow> apply_entries M (entries_between l applied commit) m; Some (max applied commit, m) }"
    using lt e by (simp add: entries_between_Cons max_def)
  finally show ?case .
qed

lemma apply_loop_stops:
  "apply_loop M l commit applied m = Some (applied', m') \<Longrightarrow> applied \<le> applied' \<and> applied' \<le> max applied commit"
proof (induction M l commit applied m rule: apply_loop.induct)
  case (1 M l commit applied m)
  show ?case
  proof (cases "commit > applied")
    case True
    show ?thesis
    proof (cases "entryAt l (applied + 1)")
      case None
      with 1(2) True show ?thesis by (subst (asm) apply_loop.simps) simp
    next
      case (Some e)
      with 1(2) True obtain m1 where "apply_loop M l commit (applied + 1) m1 = Some (applied', m')"
        "apply_entry M e m = Some m1"
        by (subst (asm) apply_loop.simps) (auto split: Option.bind_splits)
      with 1(1) [OF True Some] True show ?thesis by simp
    qed
  next
    case False
    with 1(2) show ?thesis by (subst (asm) apply_loop.simps) simp
  qed
qed

lemma applyCommitted_Some:
  assumes "applyCommitted M env s = Some s'"
  shows "s_id s' = s_id s" "s_peers s' = s_peers s" "s_currentTerm s' = s_currentTerm s"
    "s_votedFor s' = s_votedFor s" "s_log s' = s_log s" "s_commitIndex s' = s_commitIndex s"
    "s_role s' = s_role s" "s_stopped s' = s_stopped s" "s_leaderID s' = s_leaderID s"
    "s_nextIndex s' = s_nextIndex s" "s_matchIndex s' = s_matchIndex s" "s_cfg s' = s_cfg s"
    "s_configChangeIndex s' = s_configChangeIndex s" "s_removedFromCluster s' = s_removedFromCluster s"
    "s_snapshot s' = s_snapshot s" "s_lastLeaderContact s' = s_lastLeaderContact s"
    "durable s' = durable s"
proof -
  obtain i m where "s' = signalApplied (save_applied env (s\<lparr>s_lastApplied := i, s_sm := m\<rparr>))"
    using assms by (auto simp: applyCommitted_def split: Option.bind_splits)
  moreover have "durable (s\<lparr>s_lastApplied := i, s_sm := m\<rparr>) = durable s" by (simp add: durable_def)
  ultimately show "s_id s' = s_id s" "s_peers s' = s_peers s" "s_currentTerm s' = s_currentTerm s"
    "s_votedFor s' = s_votedFor s" "s_log s' = s_log s" "s_commitIndex s' = s_commitIndex s"
    "s_role s' = s_role s" "s_stopped s' = s_stopped s" "s_leaderID s' = s_leaderID s"
    "s_nextIndex s' = s_nextIndex s" "s_matchIndex s' = s_matchIndex s" "s_cfg s' = s_cfg s"
    "s_configChangeIndex s' = s_configChangeIndex s" "s_removedFromCluster s' = s_removedFromCluster s"
    "s_snapshot s' = s_snapshot s" "s_lastLeaderContact s' = s_lastLeaderContact s"
    "durable s' = durable s"
    by simp_all
qed

lemma applyCommitted_eq:
  assumes "wf_log (s_log s)" "baseIndex (s_log s) \<le> s_lastApplied s" "s_commitIndex s \<le> lastIndex (s_log s)"
    and "s_lastApplied s \<le> s_commitIndex s"
  shows "applyCommitted M env s = do {
    m \<leftarrow> apply_entries M (entries_between (s_log s) (s_lastApplied s) (s_commitIndex s)) (s_sm s);
    Some (signalApplied (save_applied env (s\<lparr>s_lastApplied := s_commitIndex s, s_sm := m\<rparr>))) }"
  using apply_loop_eq [OF assms(1,2,3), of M "s_sm s"] assms(4)
  by (simp add: applyCommitted_def max_absorb2 split: Option.bind_splits)

section \<open>Terms and votes only move forward\<close>

definition advances :: "'m Server \<Rightarrow> 'm Server \<Rightarrow> bool" where
  "advances s s' \<longleftrightarrow> s_id s' = s_id s \<and>
     (s_currentTerm s < s_currentTerm s'
      \<or> (s_currentTerm s' = s_currentTerm s \<and> (s_votedFor s \<noteq> None \<longrightarrow> s_votedFor s' = s_votedFor s)))"

lemma advances_refl [simp]: "advances s s"
  by (simp add: advances_def)

lemma advances_trans: "advances s t \<Longrightarrow> advances t u \<Longrightarrow> advances s u"
  by (auto simp: advances_def)

lemma advances_same:
  "s_id s' = s_id s \<Longrightarrow> s_currentTerm s' = s_currentTerm s \<Longrightarrow> s_votedFor s' = s_votedFor s \<Longrightarrow> advances s s'"
  by (simp add: advances_def)

lemma becomeFollower_simps [simp]:
  "s_id (becomeFollower t s) = s_id s"
  "s_peers (becomeFollower t s) = s_peers s"
  "s_log (becomeFollower t s) = s_log s"
  "s_commitIndex (becomeFollower t s) = s_commitIndex s"
  "s_lastApplied (becomeFollower t s) = s_lastApplied s"
  "s_sm (becomeFollower t s) = s_sm s"
  "s_storage (becomeFollower t s) = s_storage s"
  "s_stopped (becomeFollower t s) = s_stopped s"
  "s_cfg (becomeFollower t s) = s_cfg s"
  "s_snapshot (becomeFollower t s) = s_snapshot s"
  "s_leaderID (becomeFollower t s) = s_leaderID s"
  "s_role (becomeFollower t s) = Follower"
  "s_currentTerm (becomeFollower t s) = max t (s_currentTerm s)"
  "s_votedFor (becomeFollower t s) = (if t > s_currentTerm s then None else s_votedFor s)"
  by (simp_all add: becomeFollower_def Let_def max_def)

lemma advances_becomeFollower: "advances s (becomeFollower t s)"
  by (auto simp: advances_def)

lemma observeTerm_simps [simp]:
  "fst (observeTerm t s) \<longleftrightarrow> t > s_currentTerm s"
  "s_id (snd (observeTerm t s)) = s_id s"
  "s_peers (snd (observeTerm t s)) = s_peers s"
  "s_log (snd (observeTerm t s)) = s_log s"
  "s_commitIndex (snd (observeTerm t s)) = s_commitIndex s"
  "s_lastApplied (snd (observeTerm t s)) = s_lastApplied s"
  "s_sm (snd (observeTerm t s)) = s_sm s"
  "s_storage (snd (observeTerm t s)) = s_storage s"
  "s_stopped (snd (observeTerm t s)) = s_stopped s"
  "s_cfg (snd (observeTerm t s)) = s_cfg s"
  "s_snapshot (snd (observeTerm t s)) = s_snapshot s"
  "s_currentTerm (snd (observeTerm t s)) = max t (s_currentTerm s)"
  "s_votedFor (snd (observeTerm t s)) = (if t > s_currentTerm s then None else s_votedFor s)"
  by (simp_all add: observeTerm_def max_def)

lemma accept_leader_simps [simp]:
  "fst (accept_leader env a s) \<longleftrightarrow> ae_Term a > s_currentTerm s"
  "s_id (snd (accept_leader env a s)) = s_id s"
  "s_peers (snd (accept_leader env a s)) = s_peers s"
  "s_log (snd (accept_leader env a s)) = s_log s"
  "s_commitIndex (snd (accept_leader env a s)) = s_commitIndex s"
  "s_lastApplied (snd (accept_leader env a s)) = s_lastApplied s"
  "s_sm (snd (accept_leader env a s)) = s_sm s"
  "s_storage (snd (accept_leader env a s)) = s_storage s"
  "s_stopped (snd (accept_leader env a s)) = s_stopped s"
  "s_snapshot (snd (accept_leader env a s)) = s_snapshot s"
  "s_currentTerm (snd (accept_leader env a s)) = max (ae_Term a) (s_currentTerm s)"
  "s_votedFor (snd (accept_leader env a s)) = (if ae_Term a > s_currentTerm s then None else s_votedFor s)"
  by (simp_all add: accept_leader_def Let_def case_prod_beta)

lemma role_accept_leader:
  "s_role (snd (accept_leader env a s)) =
     (if ae_Term a > s_currentTerm s then Follower
      else if s_role s = Candidate \<and> ae_Term a = s_currentTerm s then Follower else s_role s)"
  by (auto simp: accept_leader_def Let_def observeTerm_def)

lemma durable_accept_leader:
  "durable s \<Longrightarrow> \<not> ae_Term a > s_currentTerm s \<Longrightarrow> durable (snd (accept_leader env a s))"
  by (simp add: durable_def max_absorb2)

section \<open>The receivers, case by case\<close>

lemma RequestVote_elim:
  assumes "RequestVote env a s = Some (r, s')"
  obtains (ignored) "r = \<lparr>rvr_Term = s_currentTerm s, rvr_VoteGranted = False\<rparr>" "s' = s"
  | (denied) s1 where "s1 = snd (observeTerm (rv_Term a) s)" "s_currentTerm s \<le> rv_Term a" "\<not> s_stopped s"
      "r = \<lparr>rvr_Term = rv_Term a, rvr_VoteGranted = False\<rparr>"
      "s' = (if rv_Term a > s_currentTerm s then stored_server s1 else s1)"
      "\<not> (s_votedFor s1 = None \<or> s_votedFor s1 = Some (rv_CandidateID a))
        \<or> \<not> isUpToDate (s_log s) (rv_LastLogIndex a) (rv_LastLogTerm a)"
  | (granted) s1 where "s1 = snd (observeTerm (rv_Term a) s)" "s_currentTerm s \<le> rv_Term a" "\<not> s_stopped s"
      "s_votedFor s1 = None \<or> s_votedFor s1 = Some (rv_CandidateID a)"
      "isUpToDate (s_log s) (rv_LastLogIndex a) (rv_LastLogTerm a)"
      "r = \<lparr>rvr_Term = rv_Term a, rvr_VoteGranted = True\<rparr>"
      "s' = stored_server (resetElectionTimerLocked env (s1\<lparr>s_votedFor := Some (rv_CandidateID a)\<rparr>))"
proof -
  define s1 where "s1 = snd (observeTerm (rv_Term a) s)"
  have o: "observeTerm (rv_Term a) s = (rv_Term a > s_currentTerm s, s1)"
    by (simp add: s1_def observeTerm_def)
  consider "s_stopped s \<or> rv_Term a < s_currentTerm s \<or> (s_leaderID s \<noteq> [] \<and> s_role s = Follower
          \<and> e_now env - s_lastLeaderContact s < minElectionTimeout s)"
    | (d) "\<not> (s_stopped s \<or> rv_Term a < s_currentTerm s \<or> (s_leaderID s \<noteq> [] \<and> s_role s = Follower
          \<and> e_now env - s_lastLeaderContact s < minElectionTimeout s))"
      "(s_votedFor s1 \<noteq> None \<and> s_votedFor s1 \<noteq> Some (rv_CandidateID a))
        \<or> \<not> isUpToDate (s_log s1) (rv_LastLogIndex a) (rv_LastLogTerm a)"
    | (g) "\<not> (s_stopped s \<or> rv_Term a < s_currentTerm s \<or> (s_leaderID s \<noteq> [] \<and> s_role s = Follower
          \<and> e_now env - s_lastLeaderContact s < minElectionTimeout s))"
      "\<not> ((s_votedFor s1 \<noteq> None \<and> s_votedFor s1 \<noteq> Some (rv_CandidateID a))
        \<or> \<not> isUpToDate (s_log s1) (rv_LastLogIndex a) (rv_LastLogTerm a))"
    by blast
  then show thesis
  proof cases
    case 1
    with assms show ?thesis by (intro ignored) (auto simp: RequestVote_def split: if_splits)
  next
    case d
    have t: "s_currentTerm s1 = rv_Term a" "s_log s1 = s_log s" using d(1) by (simp_all add: s1_def)
    from assms d have "do { s \<leftarrow> (if rv_Term a > s_currentTerm s then mustPersistLocked env s1 else Some s1);
          Some (\<lparr>rvr_Term = s_currentTerm s, rvr_VoteGranted = False\<rparr>, s) } = Some (r, s')"
      by (auto simp: RequestVote_def o Let_def)
    then have "r = \<lparr>rvr_Term = rv_Term a, rvr_VoteGranted = False\<rparr>
        \<and> s' = (if rv_Term a > s_currentTerm s then stored_server s1 else s1)"
      by (auto split: if_splits Option.bind_splits dest!: mustPersistLocked_Some simp: t)
    with d t(2) show ?thesis by (intro denied [OF s1_def]) auto
  next
    case g
    have t: "s_currentTerm s1 = rv_Term a" "s_log s1 = s_log s" using g(1) by (simp_all add: s1_def)
    let ?s2 = "resetElectionTimerLocked env (s1\<lparr>s_votedFor := Some (rv_CandidateID a)\<rparr>)"
    from assms g have "do { s \<leftarrow> mustPersistLocked env ?s2;
          Some (\<lparr>rvr_Term = s_currentTerm s, rvr_VoteGranted = True\<rparr>, s) } = Some (r, s')"
      by (auto simp: RequestVote_def o Let_def)
    then have "r = \<lparr>rvr_Term = rv_Term a, rvr_VoteGranted = True\<rparr> \<and> s' = stored_server ?s2"
      by (auto split: Option.bind_splits dest!: mustPersistLocked_Some simp: t)
    with g t show ?thesis by (intro granted [OF s1_def]) auto
  qed
qed

lemma commit_to_cases:
  assumes "commit_to M env a s = Some s'"
  obtains (idle) "ae_LeaderCommit a \<le> s_commitIndex s" "s' = s"
  | (commit) "s_commitIndex s < ae_LeaderCommit a"
      "applyCommitted M env (s\<lparr>s_commitIndex :=
         min (ae_LeaderCommit a) (ae_PrevLogIndex a + length (ae_Entries a))\<rparr>) = Some s'"
  using assms that by (auto simp: commit_to_def Let_def split: if_splits)

lemma commit_to_frame:
  assumes "commit_to M env a s = Some s'"
  shows "s_id s' = s_id s" "s_peers s' = s_peers s" "s_currentTerm s' = s_currentTerm s"
    "s_votedFor s' = s_votedFor s" "s_log s' = s_log s" "s_role s' = s_role s"
    "s_stopped s' = s_stopped s" "s_snapshot s' = s_snapshot s" "durable s' = durable s"
proof -
  have d: "durable (s\<lparr>s_commitIndex := i\<rparr>) = durable s" for i by (simp add: durable_def)
  show "s_id s' = s_id s" "s_peers s' = s_peers s" "s_currentTerm s' = s_currentTerm s"
    "s_votedFor s' = s_votedFor s" "s_log s' = s_log s" "s_role s' = s_role s"
    "s_stopped s' = s_stopped s" "s_snapshot s' = s_snapshot s" "durable s' = durable s"
    by (cases rule: commit_to_cases [OF assms]; simp add: applyCommitted_Some d)+
qed

lemma AppendEntries_elim:
  assumes "AppendEntries M env a s = Some (r, s')"
  obtains (ignored) "r = \<lparr>aer_Term = s_currentTerm s, aer_Success = False\<rparr>" "s' = s"
      "s_stopped s \<or> ae_Term a < s_currentTerm s"
  | (rejected) s1 where "s1 = snd (accept_leader env a s)" "s_currentTerm s \<le> ae_Term a" "\<not> s_stopped s"
      "\<not> matchesPrevLog (s_log s) (ae_PrevLogIndex a) (ae_PrevLogTerm a)"
      "r = \<lparr>aer_Term = ae_Term a, aer_Success = False\<rparr>"
      "s' = (if ae_Term a > s_currentTerm s then stored_server s1 else s1)"
  | (accepted) s1 s3 s4 where "s1 = snd (accept_leader env a s)" "s_currentTerm s \<le> ae_Term a" "\<not> s_stopped s"
      "matchesPrevLog (s_log s) (ae_PrevLogIndex a) (ae_PrevLogTerm a)"
      "r = \<lparr>aer_Term = ae_Term a, aer_Success = True\<rparr>"
      "proto s3 = proto (s1\<lparr>s_log := snd (appendFrom (ae_PrevLogIndex a) (ae_Entries a) (s_log s))\<rparr>)"
      "fst (appendFrom (ae_PrevLogIndex a) (ae_Entries a) (s_log s)) \<or>
         s3 = s1\<lparr>s_log := snd (appendFrom (ae_PrevLogIndex a) (ae_Entries a) (s_log s))\<rparr>"
      "s4 = (if fst (appendFrom (ae_PrevLogIndex a) (ae_Entries a) (s_log s)) \<or> ae_Term a > s_currentTerm s
             then stored_server s3 else s3)"
      "commit_to M env a s4 = Some s'"
proof -
  define s1 where "s1 = snd (accept_leader env a s)"
  define ap where "ap = appendFrom (ae_PrevLogIndex a) (ae_Entries a) (s_log s)"
  have o: "accept_leader env a s = (ae_Term a > s_currentTerm s, s1)"
    by (simp add: s1_def prod_eq_iff)
  have l: "s_log s1 = s_log s" by (simp add: s1_def)
  consider (i) "s_stopped s \<or> ae_Term a < s_currentTerm s"
    | (r) "\<not> (s_stopped s \<or> ae_Term a < s_currentTerm s)"
        "\<not> matchesPrevLog (s_log s) (ae_PrevLogIndex a) (ae_PrevLogTerm a)"
    | (a) "\<not> (s_stopped s \<or> ae_Term a < s_currentTerm s)"
        "matchesPrevLog (s_log s) (ae_PrevLogIndex a) (ae_PrevLogTerm a)"
    by blast
  then show thesis
  proof cases
    case i
    with assms show ?thesis by (intro ignored) (auto simp: AppendEntries_def split: if_splits)
  next
    case r
    have t: "s_currentTerm s1 = ae_Term a" using r(1) by (simp add: s1_def)
    from assms r have "do { s \<leftarrow> (if ae_Term a > s_currentTerm s then mustPersistLocked env s1 else Some s1);
          Some (\<lparr>aer_Term = s_currentTerm s, aer_Success = False\<rparr>, s) } = Some (r, s')"
      by (auto simp: AppendEntries_def o l Let_def)
    then have "r = \<lparr>aer_Term = ae_Term a, aer_Success = False\<rparr>
        \<and> s' = (if ae_Term a > s_currentTerm s then stored_server s1 else s1)"
      by (auto split: if_splits Option.bind_splits dest!: mustPersistLocked_Some simp: t)
    with r show ?thesis by (intro rejected [OF s1_def]) auto
  next
    case a
    have t: "s_currentTerm s1 = ae_Term a" using a(1) by (simp add: s1_def)
    let ?s2 = "s1\<lparr>s_log := snd ap\<rparr>" and ?higher = "ae_Term a > s_currentTerm s"
    from assms a have "do {
          s \<leftarrow> (if fst ap then adoptConfigFromLogLocked ?s2 else Some ?s2);
          s \<leftarrow> (if fst ap \<or> ?higher then mustPersistLocked env s else Some s);
          s \<leftarrow> commit_to M env a s;
          Some (\<lparr>aer_Term = s_currentTerm s, aer_Success = True\<rparr>, s) } = Some (r, s')"
      by (auto simp: AppendEntries_def o l Let_def ap_def case_prod_beta)
    then obtain s3 s4 where
      s3: "(if fst ap then adoptConfigFromLogLocked ?s2 else Some ?s2) = Some s3" and
      s4: "(if fst ap \<or> ?higher then mustPersistLocked env s3 else Some s3) = Some s4" and
      c: "commit_to M env a s4 = Some s'" and
      r: "r = \<lparr>aer_Term = s_currentTerm s', aer_Success = True\<rparr>"
      by (auto split: Option.bind_splits)
    from s3 have p: "proto s3 = proto ?s2"
      by (auto split: if_splits dest: adoptConfig_proto)
    from s4 have s4': "s4 = (if fst ap \<or> ?higher then stored_server s3 else s3)"
      by (auto split: if_splits dest: mustPersistLocked_Some)
    have "s_currentTerm s4 = ae_Term a" using s4' protoD(2) [OF p] t by simp
    then have "s_currentTerm s' = ae_Term a" using commit_to_frame(3) [OF c] by simp
    moreover have "fst ap \<or> s3 = ?s2" using s3 by (auto split: if_splits)
    ultimately show ?thesis using a p s4' c r
      by (intro accepted [OF s1_def]) (auto simp: ap_def)
  qed
qed

section \<open>Properties of the receivers\<close>

text \<open>A vote that is granted: the term and the candidate are the request's, and both are stored.\<close>

lemma RequestVote_granted:
  assumes "RequestVote env a s = Some (r, s')" "rvr_VoteGranted r"
  shows "s_currentTerm s' = rv_Term a" "s_votedFor s' = Some (rv_CandidateID a)" "durable s'"
    "rvr_Term r = rv_Term a" "isUpToDate (s_log s) (rv_LastLogIndex a) (rv_LastLogTerm a)"
  using assms(2) by (cases rule: RequestVote_elim [OF assms(1)]; simp)+

lemma RequestVote_frame:
  assumes "RequestVote env a s = Some (r, s')"
  shows "s_id s' = s_id s" "s_peers s' = s_peers s" "s_log s' = s_log s" "s_commitIndex s' = s_commitIndex s"
    "s_lastApplied s' = s_lastApplied s" "s_sm s' = s_sm s" "s_stopped s' = s_stopped s"
    "s_snapshot s' = s_snapshot s"
  by (cases rule: RequestVote_elim [OF assms]; simp)+

lemma RequestVote_advances:
  assumes "RequestVote env a s = Some (r, s')" shows "advances s s'"
  using assms
proof (cases rule: RequestVote_elim)
  case (denied s1)
  have "advances s s1" unfolding denied(1) by (auto simp: advances_def)
  then show ?thesis using denied(5) by (auto simp: advances_def)
next
  case (granted s1)
  then show ?thesis by (auto simp: advances_def split: if_splits)
qed simp

lemma RequestVote_durable:
  assumes "RequestVote env a s = Some (r, s')" "durable s" shows "durable s'"
  using assms(1)
proof (cases rule: RequestVote_elim)
  case (denied s1)
  then show ?thesis using assms(2) by (cases "rv_Term a > s_currentTerm s") (auto simp: observeTerm_def)
qed (use assms(2) in simp_all)

lemma AppendEntries_advances:
  assumes "AppendEntries M env a s = Some (r, s')" shows "advances s s'"
  using assms
proof (cases rule: AppendEntries_elim)
  case (rejected s1)
  have "advances s s1" unfolding rejected(1) by (auto simp: advances_def)
  then show ?thesis using rejected(6) by (auto simp: advances_def)
next
  case (accepted s1 s3 s4)
  have "advances s s1" unfolding accepted(1) by (auto simp: advances_def)
  moreover have "s_id s' = s_id s1" "s_currentTerm s' = s_currentTerm s1" "s_votedFor s' = s_votedFor s1"
    using commit_to_frame [OF accepted(9)] protoD(1-3) [OF accepted(6)] accepted(8) by auto
  ultimately show ?thesis by (auto simp: advances_def)
qed simp

lemma AppendEntries_durable:
  assumes "AppendEntries M env a s = Some (r, s')" "durable s" shows "durable s'"
  using assms(1)
proof (cases rule: AppendEntries_elim)
  case (rejected s1)
  then show ?thesis using assms(2) durable_accept_leader [of s a env]
    by (cases "ae_Term a > s_currentTerm s") auto
next
  case (accepted s1 s3 s4)
  have "durable s4"
  proof (cases "fst (appendFrom (ae_PrevLogIndex a) (ae_Entries a) (s_log s)) \<or> ae_Term a > s_currentTerm s")
    case False
    let ?ap = "appendFrom (ae_PrevLogIndex a) (ae_Entries a) (s_log s)"
    have s3: "s3 = s1\<lparr>s_log := snd ?ap\<rparr>" "s4 = s3" using accepted(7,8) False by auto
    have "snd ?ap = s_log s" using False appendFrom_unchanged by blast
    moreover have "durable s1" using False assms(2) durable_accept_leader [of s a env] accepted(1) by simp
    ultimately show ?thesis using s3 accepted(1) by (simp add: durable_def)
  qed (simp add: accepted(8))
  then show ?thesis using commit_to_frame(9) [OF accepted(9)] by simp
qed (use assms(2) in simp)

section \<open>The server invariant\<close>

text \<open>The log is well formed, and the applied and commit indices lie between the snapshot boundary and
  the end of the log. Between two sections everything committed is applied.\<close>

definition server_inv :: "'m Server \<Rightarrow> bool" where
  "server_inv s \<longleftrightarrow> wf_log (s_log s) \<and> baseIndex (s_log s) \<le> s_lastApplied s
     \<and> s_lastApplied s = s_commitIndex s \<and> s_commitIndex s \<le> lastIndex (s_log s)"

lemma server_invD:
  assumes "server_inv s"
  shows "wf_log (s_log s)" "baseIndex (s_log s) \<le> s_commitIndex s" "s_lastApplied s = s_commitIndex s"
    "s_commitIndex s \<le> lastIndex (s_log s)"
  using assms by (auto simp: server_inv_def)

lemma server_inv_cong:
  "s_log s' = s_log s \<Longrightarrow> s_commitIndex s' = s_commitIndex s \<Longrightarrow> s_lastApplied s' = s_lastApplied s
    \<Longrightarrow> server_inv s' = server_inv s"
  by (simp add: server_inv_def)

lemma server_inv_new [simp]: "server_inv (NewServerWith i peers m tr c)"
  by (simp add: server_inv_def NewServerWith_def baseIndex_def lastIndex_def sentinel_def)

text \<open>Committing up to an index of the log applies exactly the entries in between.\<close>

lemma applyCommitted_upto:
  assumes "wf_log (s_log s)" "baseIndex (s_log s) \<le> s_lastApplied s" "s_lastApplied s \<le> n" "n \<le> lastIndex (s_log s)"
    and "applyCommitted M env (s\<lparr>s_commitIndex := n\<rparr>) = Some s'"
  shows "server_inv s'" "s_commitIndex s' = n"
    "apply_entries M (entries_between (s_log s) (s_lastApplied s) n) (s_sm s) = Some (s_sm s')"
proof -
  have "do { m \<leftarrow> apply_entries M (entries_between (s_log s) (s_lastApplied s) n) (s_sm s);
      Some (signalApplied (save_applied env (s\<lparr>s_commitIndex := n, s_lastApplied := n, s_sm := m\<rparr>))) } = Some s'"
    using applyCommitted_eq [of "s\<lparr>s_commitIndex := n\<rparr>" M env] assms by simp
  then obtain m where "apply_entries M (entries_between (s_log s) (s_lastApplied s) n) (s_sm s) = Some m"
    "s' = signalApplied (save_applied env (s\<lparr>s_commitIndex := n, s_lastApplied := n, s_sm := m\<rparr>))"
    by (auto split: Option.bind_splits)
  then show "server_inv s'" "s_commitIndex s' = n"
    "apply_entries M (entries_between (s_log s) (s_lastApplied s) n) (s_sm s) = Some (s_sm s')"
    using assms by (auto simp: server_inv_def)
qed

lemma RequestVote_inv:
  assumes "RequestVote env a s = Some (r, s')" "server_inv s" shows "server_inv s'"
  using RequestVote_frame [OF assms(1)] assms(2) by (simp add: server_inv_def)

text \<open>What a receiver may rely on: the leader has sent everything up to its commit index, and its
  entries do not contradict what this server has committed.\<close>

definition sound_append :: "AppendEntriesArgs \<Rightarrow> 'm Server \<Rightarrow> bool" where
  "sound_append a s \<longleftrightarrow> ae_LeaderCommit a \<le> ae_PrevLogIndex a + length (ae_Entries a)
     \<and> (\<forall>k < length (ae_Entries a).
          baseIndex (s_log s) < ae_PrevLogIndex a + k + 1 \<and> ae_PrevLogIndex a + k + 1 \<le> s_commitIndex s \<longrightarrow>
          termAt (s_log s) (ae_PrevLogIndex a + k + 1) = Some (ent_Term (ae_Entries a ! k)))"

lemma AppendEntries_accepted_inv:
  assumes "AppendEntries M env a s = Some (r, s')" "aer_Success r" "server_inv s" "sound_append a s"
  shows "server_inv s'"
    "s_log s' = snd (appendFrom (ae_PrevLogIndex a) (ae_Entries a) (s_log s))"
    "s_commitIndex s' = max (s_commitIndex s) (ae_LeaderCommit a)"
    "apply_entries M (entries_between (s_log s') (s_commitIndex s) (s_commitIndex s')) (s_sm s) = Some (s_sm s')"
    "ae_PrevLogIndex a \<le> lastIndex (s_log s)"
proof -
  let ?l = "snd (appendFrom (ae_PrevLogIndex a) (ae_Entries a) (s_log s))"
  have "server_inv s' \<and> s_log s' = ?l \<and> s_commitIndex s' = max (s_commitIndex s) (ae_LeaderCommit a)
    \<and> apply_entries M (entries_between (s_log s') (s_commitIndex s) (s_commitIndex s')) (s_sm s) = Some (s_sm s')
    \<and> ae_PrevLogIndex a \<le> lastIndex (s_log s)"
    using assms(1)
  proof (cases rule: AppendEntries_elim)
    case (accepted s1 s3 s4)
    note inv = server_invD [OF assms(3)]
    have prev: "ae_PrevLogIndex a \<le> lastIndex (s_log s)"
      using matchesPrevLog_le_lastIndex [OF inv(1) accepted(4)] .
    note wf = appendFrom_wf [OF inv(1) prev, of "ae_Entries a"]
    have agree: "\<forall>k < length (ae_Entries a).
          baseIndex (s_log s) < ae_PrevLogIndex a + k + 1 \<and> ae_PrevLogIndex a + k + 1 \<le> s_commitIndex s \<longrightarrow>
          termAt (s_log s) (ae_PrevLogIndex a + k + 1) = Some (ent_Term (ae_Entries a ! k))"
      using assms(4) by (simp add: sound_append_def)
    have "entryAt ?l (s_commitIndex s) = entryAt (s_log s) (s_commitIndex s)"
      by (rule appendFrom_keeps_prefix [OF inv(1) prev agree]) (use inv in auto)
    then have commit: "s_commitIndex s \<le> lastIndex ?l"
      using inv by (metis entryAt_None_iff linorder_not_le)
    have s4: "s_log s4 = ?l" "s_commitIndex s4 = s_commitIndex s" "s_lastApplied s4 = s_commitIndex s"
      "s_sm s4 = s_sm s"
      using accepted(8) protoD [OF accepted(6)] accepted(1) inv(3) by auto
    from accepted(9) show ?thesis
    proof (cases rule: commit_to_cases)
      case idle
      with s4 inv wf commit prev show ?thesis by (auto simp: server_inv_def max_absorb1)
    next
      case commit
      let ?n = "min (ae_LeaderCommit a) (ae_PrevLogIndex a + length (ae_Entries a))"
      have n: "?n = ae_LeaderCommit a" using assms(4) by (simp add: sound_append_def)
      have "s_commitIndex s \<le> ae_LeaderCommit a" "ae_LeaderCommit a \<le> lastIndex ?l"
        using commit(1) s4 wf assms(4) by (auto simp: sound_append_def)
      with applyCommitted_upto [of s4 "ae_LeaderCommit a" M env s'] commit(2) s4 wf inv n prev
        applyCommitted_Some(5) [OF commit(2)] show ?thesis
        by (auto simp: max_def)
    qed
  qed (use assms(2) in auto)
  then show "server_inv s'" "s_log s' = ?l"
    "s_commitIndex s' = max (s_commitIndex s) (ae_LeaderCommit a)"
    "apply_entries M (entries_between (s_log s') (s_commitIndex s) (s_commitIndex s')) (s_sm s) = Some (s_sm s')"
    "ae_PrevLogIndex a \<le> lastIndex (s_log s)"
    by blast+
qed

lemma AppendEntries_refused:
  assumes "AppendEntries M env a s = Some (r, s')" "\<not> aer_Success r"
  shows "s_log s' = s_log s" "s_commitIndex s' = s_commitIndex s" "s_lastApplied s' = s_lastApplied s"
    "s_sm s' = s_sm s"
proof -
  have "s_log s' = s_log s \<and> s_commitIndex s' = s_commitIndex s \<and> s_lastApplied s' = s_lastApplied s
    \<and> s_sm s' = s_sm s"
    using assms(1) by (cases rule: AppendEntries_elim) (use assms(2) in auto)
  then show "s_log s' = s_log s" "s_commitIndex s' = s_commitIndex s" "s_lastApplied s' = s_lastApplied s"
    "s_sm s' = s_sm s" by blast+
qed

lemma AppendEntries_inv:
  assumes "AppendEntries M env a s = Some (r, s')" "server_inv s" "sound_append a s" shows "server_inv s'"
  using AppendEntries_accepted_inv [OF assms(1) _ assms(2,3)] AppendEntries_refused [OF assms(1)] assms(2)
  by (cases "aer_Success r") (auto simp: server_inv_def)

text \<open>The committed prefix survives.\<close>

lemma AppendEntries_keeps_committed:
  assumes "AppendEntries M env a s = Some (r, s')" "server_inv s" "sound_append a s" "i \<le> s_commitIndex s"
  shows "entryAt (s_log s') i = entryAt (s_log s) i"
proof (cases "aer_Success r")
  case True
  note acc = AppendEntries_accepted_inv [OF assms(1) True assms(2,3)]
  note inv = server_invD [OF assms(2)]
  show ?thesis unfolding acc(2)
    by (rule appendFrom_keeps_prefix [OF inv(1) acc(5), of _ "s_commitIndex s"])
      (use assms(3,4) inv in \<open>auto simp: sound_append_def\<close>)
qed (use AppendEntries_refused [OF assms(1)] in simp)

section \<open>No panic\<close>

text \<open>A receiver returns when the storage accepts the write, the state machine accepts every command and
  no configuration entry has a count that cannot be allocated.\<close>

definition total_machine :: "'m SMOps \<Rightarrow> bool" where
  "total_machine M \<longleftrightarrow> (\<forall>i c m. op_apply M i c m \<noteq> None)"

definition config_ok :: "LogEntry list \<Rightarrow> bool" where
  "config_ok es \<longleftrightarrow> (\<forall>e \<in> set es. decodeConfig (ent_Command e) \<noteq> None)"

lemma adopt_scan_total:
  fixes s :: "'m Server"
  shows "config_ok es \<Longrightarrow> \<exists>s'. adopt_scan es s = Some s'"
proof (induction es arbitrary: s)
  case (Cons e es)
  then obtain d where "decodeConfig (ent_Command e) = Some d" by (auto simp: config_ok_def)
  moreover have "config_ok es" using Cons.prems by (simp add: config_ok_def)
  then have "\<exists>s'. adopt_scan es s = Some s'" for s :: "'m Server" by (rule Cons.IH)
  ultimately show ?case by (cases d) auto
qed simp

lemma adoptConfig_total: "config_ok (s_log s) \<Longrightarrow> \<exists>s'. adoptConfigFromLogLocked s = Some s'"
  unfolding adoptConfigFromLogLocked_def
  by (rule adopt_scan_total) (cases "s_log s"; simp add: config_ok_def)

lemma apply_entry_total: "total_machine M \<Longrightarrow> \<exists>m'. apply_entry M e m = Some m'"
  by (cases m; cases "ent_Command e") (auto simp: apply_entry_def total_machine_def)

lemma apply_loop_total: "total_machine M \<Longrightarrow> \<exists>x. apply_loop M l commit applied m = Some x"
proof (induction M l commit applied m rule: apply_loop.induct)
  case (1 M l commit applied m)
  show ?case
  proof (cases "commit > applied")
    case True
    show ?thesis
    proof (cases "entryAt l (applied + 1)")
      case (Some e)
      obtain m' where "apply_entry M e m = Some m'" using apply_entry_total [OF 1(2)] by blast
      with 1(1) [OF True Some] 1(2) True Some show ?thesis by (subst apply_loop.simps) simp
    qed (subst apply_loop.simps, simp add: True)
  qed (subst apply_loop.simps, simp)
qed

lemma applyCommitted_total: "total_machine M \<Longrightarrow> \<exists>s'. applyCommitted M env s = Some s'"
  using apply_loop_total [of M "s_log s" "s_commitIndex s" "s_lastApplied s" "s_sm s"]
  by (auto simp: applyCommitted_def)

lemma commit_to_total: "total_machine M \<Longrightarrow> \<exists>s'. commit_to M env a s = Some s'"
  using applyCommitted_total [of M env] by (simp add: commit_to_def Let_def)

lemma config_ok_appendFrom:
  assumes "config_ok l" "config_ok es" shows "config_ok (snd (appendFrom prev es l))"
  using appendFrom_commands [of l "\<lambda>c. decodeConfig c \<noteq> None" es prev] assms by (simp add: config_ok_def)

lemma RequestVote_total:
  assumes "e_save_err env = None" shows "\<exists>r s'. RequestVote env a s = Some (r, s')"
  by (simp add: RequestVote_def Let_def case_prod_beta mustPersistLocked_ok [OF assms])

lemma AppendEntries_total:
  fixes s :: "'m Server"
  assumes "e_save_err env = None" "total_machine M" "config_ok (s_log s)" "config_ok (ae_Entries a)"
  obtains r s' where "AppendEntries M env a s = Some (r, s')"
    "aer_Success r \<longleftrightarrow> \<not> s_stopped s \<and> s_currentTerm s \<le> ae_Term a
       \<and> matchesPrevLog (s_log s) (ae_PrevLogIndex a) (ae_PrevLogTerm a)"
proof -
  let ?ap = "appendFrom (ae_PrevLogIndex a) (ae_Entries a) (s_log s)"
  let ?s2 = "(snd (accept_leader env a s))\<lparr>s_log := snd ?ap\<rparr>"
  obtain s3 where s3: "adoptConfigFromLogLocked ?s2 = Some s3"
    using adoptConfig_total [of ?s2] config_ok_appendFrom [OF assms(3,4)] by auto
  have c: "\<exists>x y. do { s \<leftarrow> commit_to M env a u; Some (\<lparr>aer_Term = s_currentTerm s, aer_Success = True\<rparr>, s) } = Some (x, y)"
    for u :: "'m Server"
    using commit_to_total [OF assms(2), of env a u] by auto
  have "\<exists>x. AppendEntries M env a s = Some x"
    by (simp add: AppendEntries_def Let_def case_prod_beta mustPersistLocked_ok [OF assms(1)] s3 c)
  then obtain r s' where x: "AppendEntries M env a s = Some (r, s')" by auto
  have "aer_Success r \<longleftrightarrow> \<not> s_stopped s \<and> s_currentTerm s \<le> ae_Term a
       \<and> matchesPrevLog (s_log s) (ae_PrevLogIndex a) (ae_PrevLogTerm a)"
    using x by (cases rule: AppendEntries_elim) auto
  with x that show thesis by blast
qed

text \<open>A message delivered twice: the second delivery changes neither log nor commit index nor state machine.\<close>

lemma AppendEntries_duplicate:
  assumes "AppendEntries M env a s = Some (r, s')" "server_inv s" "sound_append a s"
    and "AppendEntries M env' a s' = Some (r', s'')"
  shows "s_log s'' = s_log s'" "s_commitIndex s'' = s_commitIndex s'" "s_sm s'' = s_sm s'"
proof -
  have inv': "server_inv s'" using AppendEntries_inv [OF assms(1-3)] .
  have "s_log s'' = s_log s' \<and> s_commitIndex s'' = s_commitIndex s' \<and> s_sm s'' = s_sm s'"
  proof (cases "aer_Success r'")
    case True
    have sound': "sound_append a s'"
      unfolding sound_append_def
    proof (intro conjI allI impI)
      show "ae_LeaderCommit a \<le> ae_PrevLogIndex a + length (ae_Entries a)"
        using assms(3) by (simp add: sound_append_def)
      fix k assume k: "k < length (ae_Entries a)"
        "baseIndex (s_log s') < ae_PrevLogIndex a + k + 1 \<and> ae_PrevLogIndex a + k + 1 \<le> s_commitIndex s'"
      show "termAt (s_log s') (ae_PrevLogIndex a + k + 1) = Some (ent_Term (ae_Entries a ! k))"
      proof (cases "aer_Success r")
        case True
        note acc = AppendEntries_accepted_inv [OF assms(1) True assms(2,3)]
        from appendFrom_wf [OF server_invD(1) [OF assms(2)] acc(5), of "ae_Entries a"]
          appendFrom_has [OF server_invD(1) [OF assms(2)] acc(5) k(1)] k(2)
        show ?thesis by (simp add: acc(2))
      next
        case False
        note ref = AppendEntries_refused [OF assms(1) False]
        from assms(3) k show ?thesis by (simp add: sound_append_def ref)
      qed
    qed
    note acc' = AppendEntries_accepted_inv [OF assms(4) True inv' sound']
    show ?thesis
    proof (cases "aer_Success r")
      case s: True
      note acc = AppendEntries_accepted_inv [OF assms(1) s assms(2,3)]
      have "s_log s'' = s_log s'"
        using appendFrom_idempotent [OF server_invD(1) [OF assms(2)] acc(5), of "ae_Entries a"]
        by (simp add: acc(2) acc'(2))
      moreover have "s_commitIndex s'' = s_commitIndex s'" by (simp add: acc(3) acc'(3))
      ultimately show ?thesis using acc'(4) by simp
    next
      case s: False
      note ref = AppendEntries_refused [OF assms(1) s]
      have no: "\<not> matchesPrevLog (s_log s') (ae_PrevLogIndex a) (ae_PrevLogTerm a) \<or> s_stopped s' \<or> ae_Term a < s_currentTerm s'"
        using assms(1)
      proof (cases rule: AppendEntries_elim)
        case (rejected s1)
        then show ?thesis using ref by simp
      qed (use s in auto)
      have False using assms(4) by (cases rule: AppendEntries_elim) (use True no in auto)
      then show ?thesis ..
    qed
  qed (use AppendEntries_refused [OF assms(4)] in simp)
  then show "s_log s'' = s_log s'" "s_commitIndex s'' = s_commitIndex s'" "s_sm s'' = s_sm s'" by blast+
qed

text \<open>Samples: a counter as the state machine, and a follower with storage.\<close>

definition counter_ops :: "nat SMOps" where
  "counter_ops = \<lparr>op_apply = (\<lambda>i c m. Some (m + length c)), op_snapper = None\<rparr>"

definition calm :: Env where
  "calm = \<lparr>e_now = 0, e_draw = 0, e_save_err = None, e_applied_err = None, e_snap_err = None\<rparr>"

definition sample_follower :: "nat Server" where
  "sample_follower = SetStorage (Some \<lparr>st_saved = [], st_applied = Some 0, st_snapshot = Some None\<rparr>)
     (NewServer ''n2'' [''n1'', ''n2'', ''n3''] (Some 0))"

definition sample_append :: AppendEntriesArgs where
  "sample_append = \<lparr>ae_Term = 1, ae_LeaderID = ''n1'', ae_PrevLogIndex = 0, ae_PrevLogTerm = 0,
     ae_Entries = [\<lparr>ent_Term = 1, ent_Index = 1, ent_Command = None\<rparr>,
                   \<lparr>ent_Term = 1, ent_Index = 2, ent_Command = Some [7]\<rparr>],
     ae_LeaderCommit = 2\<rparr>"

lemmas sample_defs = sample_append_def sample_follower_def SetStorage_def NewServer_def NewServerWith_def
  baseIndex_def lastIndex_def sentinel_def



text \<open>C30: RequestVote: terms never go back, a vote cast in a term is never changed in that term, and when a
  vote is granted the requested term and candidate are what the storage holds before the reply, and the
  candidate's log is at least as up to date as this server's.\<close>

theorem RequestVote_votes_once:
  assumes "RequestVote env a s = Some (r, s')"
  shows "s_currentTerm s \<le> s_currentTerm s'
    \<and> (s_currentTerm s' = s_currentTerm s \<and> s_votedFor s \<noteq> None \<longrightarrow> s_votedFor s' = s_votedFor s)
    \<and> (rvr_VoteGranted r \<longrightarrow> s_currentTerm s' = rv_Term a \<and> s_votedFor s' = Some (rv_CandidateID a)
        \<and> isUpToDate (s_log s) (rv_LastLogIndex a) (rv_LastLogTerm a)
        \<and> (\<forall>st. s_storage s' = Some st \<longrightarrow>
             st_saved st = encodeState (rv_Term a) (Some (rv_CandidateID a)) (s_log s)))"
  using RequestVote_advances [OF assms] RequestVote_granted [OF assms] RequestVote_frame(3) [OF assms]
  by (auto simp: advances_def durable_def)

theorem RequestVote_votes_once_witness:
  "\<exists>r s'. RequestVote calm \<lparr>rv_Term = 3, rv_CandidateID = ''n1'', rv_LastLogIndex = 0, rv_LastLogTerm = 0\<rparr>
       sample_follower = Some (r, s') \<and> rvr_VoteGranted r \<and> s_votedFor s' = Some ''n1''"
proof -
  let ?a = "\<lparr>rv_Term = 3, rv_CandidateID = ''n1'', rv_LastLogIndex = 0, rv_LastLogTerm = 0\<rparr>"
  obtain r s' where x: "RequestVote calm ?a sample_follower = Some (r, s')"
    using RequestVote_total [of calm ?a sample_follower] by (auto simp: calm_def)
  have "rvr_VoteGranted r"
    using x by (auto simp: RequestVote_def sample_defs Let_def observeTerm_def becomeFollower_def
        isUpToDate_def lastTerm_def split: Option.bind_splits)
  with RequestVote_votes_once [OF x] x show ?thesis by simp
qed

end
