(* ===== verification/RaftLoop.thy ===== *)
theory RaftLoop
  imports RaftServer
begin

text \<open>
  The role loop (src/raft/loop.go) and membership changes (the second half of
  src/raft/membership.go). A goroutine that drops the lock around an RPC is one definition per section
  under the lock: what it sends is a value, and the reply comes in as an argument of the next
  section. \<open>Election\<close> holds what the vote-counting closures of one \<^verbatim>\<open>startElection\<close> share.

  Shown here: every section moves terms and votes only forward, leaves its term, vote and log stored,
  and keeps the server invariant; a leader never removes an entry from its log; and the commit index
  only moves to an entry of the leader's own term that a majority stores.
\<close>

section \<open>Starting and stopping\<close>

definition Start :: "Env \<Rightarrow> 'm Server \<Rightarrow> 'm Server" where
  "Start env s =
     (if s_running s then s else resetElectionTimerLocked env (s\<lparr>s_running := True\<rparr>))"

definition Stop :: "'m Server \<Rightarrow> 'm Server" where
  "Stop s = (if \<not> s_running s then s else s\<lparr>s_running := False, s_stopped := True\<rparr>)"

datatype TickAction = TickIdle | TickElection | TickHeartbeat

definition tick :: "Env \<Rightarrow> 'm Server \<Rightarrow> TickAction" where
  "tick env s =
     (let timedOut = \<not> e_now env < s_electionDeadline s;
          heartbeatDue = \<not> e_now env < s_heartbeatDeadline s in
      case s_role s of
        Follower \<Rightarrow> (if timedOut then TickElection else TickIdle)
      | Candidate \<Rightarrow> (if timedOut then TickElection else TickIdle)
      | Leader \<Rightarrow> (if heartbeatDue then TickHeartbeat else TickIdle))"

section \<open>Committing\<close>

definition checkSelfRemovalLocked :: "'m Server \<Rightarrow> 'm Server" where
  "checkSelfRemovalLocked s =
     (if s_role s \<noteq> Leader \<or> s_removedFromCluster s then s
      else if s_configChangeIndex s = 0 \<or> s_commitIndex s < s_configChangeIndex s then s
      else if Contains \<lparr>Servers = s_peers s\<rparr> (s_id s) then s
      else becomeFollower (s_currentTerm s) (s\<lparr>s_removedFromCluster := True\<rparr>))"

definition replicas :: "'m Server \<Rightarrow> Index \<Rightarrow> nat" where
  "replicas s n = length (filter (\<lambda>p. get0 (s_matchIndex s) p \<ge> n) (s_peers s))"

text \<open>The downward search of \<^verbatim>\<open>advanceCommitIndexLocked\<close>.\<close>

fun commit_search :: "'m Server \<Rightarrow> Index \<Rightarrow> Index option" where
  "commit_search s 0 = None"
| "commit_search s (Suc n) =
     (if Suc n > s_commitIndex s then
        (if termAt (s_log s) (Suc n) = Some (s_currentTerm s) \<and> replicas s (Suc n) \<ge> majority (s_peers s)
         then Some (Suc n) else commit_search s n)
      else None)"

definition advanceCommitIndexLocked :: "'m SMOps \<Rightarrow> Env \<Rightarrow> 'm Server \<Rightarrow> 'm Server option" where
  "advanceCommitIndexLocked M env s =
     (if s_role s \<noteq> Leader then Some s
      else (case commit_search s (lastIndex (s_log s)) of
              None \<Rightarrow> Some s
            | Some n \<Rightarrow> do {
                s \<leftarrow> applyCommitted M env (s\<lparr>s_commitIndex := n\<rparr>);
                Some (checkSelfRemovalLocked s)
              }))"

section \<open>Elections\<close>

record Election =
  el_term :: Term
  el_me :: NodeID
  el_args :: RequestVoteArgs
  el_peers :: "NodeID list"
  el_needed :: nat
  el_votes :: nat
  el_resolved :: bool

text \<open>The first section of \<^verbatim>\<open>startElection\<close>. The self-vote is the first vote.\<close>

definition startElection :: "Env \<Rightarrow> 'm Server \<Rightarrow> (Election \<times> 'm Server) option" where
  "startElection env s = do {
     let s = s\<lparr>s_role := Candidate, s_currentTerm := s_currentTerm s + 1, s_votedFor := Some (s_id s)\<rparr>;
     let s = resetElectionTimerLocked env s;
     s \<leftarrow> mustPersistLocked env s;
     Some (\<lparr>el_term = s_currentTerm s, el_me = s_id s,
            el_args = \<lparr>rv_Term = s_currentTerm s, rv_CandidateID = s_id s,
                       rv_LastLogIndex = lastIndex (s_log s), rv_LastLogTerm = lastTerm (s_log s)\<rparr>,
            el_peers = s_peers s, el_needed = majority (s_peers s), el_votes = 1, el_resolved = False\<rparr>, s)
   }"

text \<open>The self-vote alone wins: \<^verbatim>\<open>becomeLeader\<close> is called at once and nobody is asked.\<close>

definition wins_alone :: "Election \<Rightarrow> bool" where
  "wins_alone el \<longleftrightarrow> el_votes el \<ge> el_needed el"

definition asked :: "Election \<Rightarrow> NodeID list" where
  "asked el = filter (\<lambda>p. p \<noteq> el_me el) (el_peers el)"

text \<open>A reply to RequestVote, under the server's lock; the flag is whether the vote will be counted.\<close>

definition vote_reply ::
  "Env \<Rightarrow> Election \<Rightarrow> RequestVoteReply \<Rightarrow> 'm Server \<Rightarrow> (bool \<times> 'm Server) option" where
  "vote_reply env el reply s =
     (if rvr_Term reply > s_currentTerm s then do {
        s \<leftarrow> mustPersistLocked env (becomeFollower (rvr_Term reply) s);
        Some (False, s)
      }
      else
        let stale = (s_currentTerm s \<noteq> el_term el \<or> s_role s \<noteq> Candidate)
        in Some (\<not> (stale \<or> \<not> rvr_VoteGranted reply), s))"

text \<open>Counting one vote, under the closure's own lock; the flag is whether this vote won the election.\<close>

definition tally :: "Election \<Rightarrow> bool \<times> Election" where
  "tally el =
     (let votes = el_votes el + 1;
          won = (\<not> el_resolved el \<and> votes \<ge> el_needed el)
      in (won, el\<lparr>el_votes := votes, el_resolved := (if won then True else el_resolved el)\<rparr>))"

text \<open>\<^verbatim>\<open>becomeLeader\<close>; the flag is whether the server was promoted (and goes on to broadcast).\<close>

definition becomeLeader ::
  "'m SMOps \<Rightarrow> Env \<Rightarrow> Term \<Rightarrow> 'm Server \<Rightarrow> (bool \<times> 'm Server) option" where
  "becomeLeader M env t s =
     (if s_role s \<noteq> Candidate \<or> s_currentTerm s \<noteq> t then Some (False, s)
      else
        let next = lastIndex (s_log s) + 1;
            s = s\<lparr>s_role := Leader, s_leaderID := s_id s,
                  s_nextIndex := fold (\<lambda>p m. fmupd p next m) (s_peers s) (s_nextIndex s),
                  s_matchIndex := fmupd (s_id s) (lastIndex (s_log s))
                    (fold (\<lambda>p m. fmupd p 0 m) (s_peers s) (s_matchIndex s)),
                  s_lastContact := fmempty\<rparr>;
            idx = lastIndex (s_log s) + 1;
            s = s\<lparr>s_log := s_log s @ [\<lparr>ent_Term = s_currentTerm s, ent_Index = idx, ent_Command = None\<rparr>],
                  s_matchIndex := fmupd (s_id s) idx (s_matchIndex s),
                  s_nextIndex := fmupd (s_id s) (idx + 1) (s_nextIndex s)\<rparr>
        in do {
          s \<leftarrow> mustPersistLocked env s;
          s \<leftarrow> advanceCommitIndexLocked M env s;
          Some (True, s)
        })"

section \<open>Replication\<close>

text \<open>\<^verbatim>\<open>broadcastAppendEntries\<close>: the peers to replicate to, with the term to replicate in.\<close>

definition broadcastAppendEntries :: "Env \<Rightarrow> 'm Server \<Rightarrow> (NodeID \<times> Term) list \<times> 'm Server" where
  "broadcastAppendEntries env s =
     (if s_role s \<noteq> Leader then ([], s)
      else
        let s = s\<lparr>s_heartbeatDeadline := e_now env + wrap64 (HeartbeatInterval (s_cfg s) * Millisecond)\<rparr>
        in (map (\<lambda>p. (p, s_currentTerm s)) (filter (\<lambda>p. p \<noteq> s_id s) (s_peers s)), s))"

datatype Request = NoRequest | AppendRequest AppendEntriesArgs | SnapshotRequest

text \<open>The first section of \<^verbatim>\<open>replicateTo\<close>: what is sent to the peer.\<close>

definition replicateTo :: "NodeID \<Rightarrow> Term \<Rightarrow> 'm Server \<Rightarrow> Request" where
  "replicateTo peer t s =
     (if s_role s \<noteq> Leader \<or> s_currentTerm s \<noteq> t then NoRequest
      else
        let next = get0 (s_nextIndex s) peer;
            next = (if next < 1 then 1 else next)
        in
        if next \<le> baseIndex (s_log s) then SnapshotRequest
        else
          let prevIdx = next - 1;
              prevTerm = (case termAt (s_log s) prevIdx of Some t \<Rightarrow> t | None \<Rightarrow> 0);
              entries = (if lastIndex (s_log s) \<ge> next then drop (slot (s_log s) next) (s_log s) else [])
          in
          if s_transport s = NoTransport then NoRequest
          else AppendRequest \<lparr>ae_Term = t, ae_LeaderID = s_id s, ae_PrevLogIndex = prevIdx,
                 ae_PrevLogTerm = prevTerm, ae_Entries = entries, ae_LeaderCommit = s_commitIndex s\<rparr>)"

text \<open>The second section: the reply of the peer to \<open>args\<close>.\<close>

definition replicate_reply ::
  "'m SMOps \<Rightarrow> Env \<Rightarrow> NodeID \<Rightarrow> AppendEntriesArgs \<Rightarrow> AppendEntriesReply \<Rightarrow> 'm Server \<Rightarrow> 'm Server option" where
  "replicate_reply M env peer args reply s =
     (if aer_Term reply > s_currentTerm s then mustPersistLocked env (becomeFollower (aer_Term reply) s)
      else if s_role s \<noteq> Leader \<or> s_currentTerm s \<noteq> ae_Term args then Some s
      else if aer_Success reply then
        let s = s\<lparr>s_lastContact := fmupd peer (e_now env) (s_lastContact s)\<rparr>;
            m = ae_PrevLogIndex args + length (ae_Entries args);
            s = (if m > get0 (s_matchIndex s) peer
                 then s\<lparr>s_matchIndex := fmupd peer m (s_matchIndex s),
                        s_nextIndex := fmupd peer (m + 1) (s_nextIndex s)\<rparr>
                 else s)
        in advanceCommitIndexLocked M env s
      else Some
        (if get0 (s_nextIndex s) peer > 1
         then s\<lparr>s_nextIndex := fmupd peer (get0 (s_nextIndex s) peer - 1) (s_nextIndex s)\<rparr>
         else s))"

text \<open>\<^verbatim>\<open>Submit\<close>: index and term of the new entry, or \<^const>\<open>None\<close> on a server that does not lead.\<close>

definition Submit ::
  "'m SMOps \<Rightarrow> Env \<Rightarrow> bytes option \<Rightarrow> 'm Server \<Rightarrow> ((Index \<times> Term) option \<times> 'm Server) option" where
  "Submit M env cmd s =
     (if s_role s \<noteq> Leader \<or> s_stopped s then Some (None, s)
      else
        let idx = lastIndex (s_log s) + 1;
            t = s_currentTerm s;
            s = s\<lparr>s_log := s_log s @ [\<lparr>ent_Term = t, ent_Index = idx, ent_Command = cmd\<rparr>],
                  s_matchIndex := fmupd (s_id s) idx (s_matchIndex s)\<rparr>
        in do {
          s \<leftarrow> mustPersistLocked env s;
          s \<leftarrow> advanceCommitIndexLocked M env s;
          Some (Some (idx, t), s)
        })"

section \<open>Membership changes\<close>

definition ErrNotLeader :: string where
  "ErrNotLeader = ''raft: not leader''"

definition CurrentConfiguration :: "'m Server \<Rightarrow> Configuration" where
  "CurrentConfiguration s = \<lparr>Servers = s_peers s\<rparr>"

definition changeConfiguration ::
  "Env \<Rightarrow> (Configuration \<Rightarrow> string + Configuration) \<Rightarrow> 'm Server \<Rightarrow> (string + Index) \<times> 'm Server" where
  "changeConfiguration env mutate s =
     (if s_role s \<noteq> Leader then (Inl ErrNotLeader, s)
      else
        let current = \<lparr>Servers = s_peers s\<rparr> in
        if \<not> Contains current (s_id s) then (Inl ErrNotInConfiguration, s)
        else if s_configChangeIndex s > s_commitIndex s then (Inl ErrConfigChangeInFlight, s)
        else (case mutate current of
            Inl e \<Rightarrow> (Inl e, s)
          | Inr next \<Rightarrow>
              (if \<not> differsByOne current next then (Inl ErrNotSingleServerChange, s)
               else
                 let idx = lastIndex (s_log s) + 1;
                     s = s\<lparr>s_log := s_log s @ [\<lparr>ent_Term = s_currentTerm s, ent_Index = idx,
                             ent_Command = Some (encodeConfig next)\<rparr>],
                           s_matchIndex := fmupd (s_id s) idx (s_matchIndex s),
                           s_configChangeIndex := idx\<rparr>;
                     s = useConfigurationLocked next s
                 in (case persistLocked env s of
                       (Some e, s) \<Rightarrow> (Inl e, s)
                     | (None, s) \<Rightarrow> (Inr idx, s)))))"

definition AddServer :: "Env \<Rightarrow> NodeID \<Rightarrow> 'm Server \<Rightarrow> (string + Index) \<times> 'm Server" where
  "AddServer env i = changeConfiguration env (\<lambda>c.
     if Contains c i then Inl (''raft: '' @ i @ '' is already in the configuration'')
     else Inr (withServer i c))"

definition RemoveServer :: "Env \<Rightarrow> NodeID \<Rightarrow> 'm Server \<Rightarrow> (string + Index) \<times> 'm Server" where
  "RemoveServer env i = changeConfiguration env (\<lambda>c.
     if \<not> Contains c i then Inl (''raft: '' @ i @ '' is not in the configuration'')
     else if length (Servers c) = 1 then Inl ErrLastServer
     else Inr (withoutServer i c))"

definition SetConfigurationForTest :: "NodeID list \<Rightarrow> 'm Server \<Rightarrow> 'm Server" where
  "SetConfigurationForTest servers = useConfigurationLocked \<lparr>Servers = servers\<rparr>"

section \<open>The commit rule\<close>

definition committable :: "'m Server \<Rightarrow> Index \<Rightarrow> bool" where
  "committable s n \<longleftrightarrow> termAt (s_log s) n = Some (s_currentTerm s) \<and> replicas s n \<ge> majority (s_peers s)"

lemma commit_search_Some:
  "commit_search s n = Some k \<Longrightarrow>
     s_commitIndex s < k \<and> k \<le> n \<and> committable s k \<and> (\<forall>j. k < j \<and> j \<le> n \<longrightarrow> \<not> committable s j)"
proof (induction s n rule: commit_search.induct)
  case (2 s n)
  then show ?case by (auto simp: committable_def le_Suc_eq split: if_splits)
qed simp

lemma commit_search_None:
  "commit_search s n = None \<Longrightarrow> s_commitIndex s < j \<Longrightarrow> j \<le> n \<Longrightarrow> \<not> committable s j"
proof (induction s n rule: commit_search.induct)
  case (2 s n)
  then show ?case by (auto simp: committable_def le_Suc_eq split: if_splits)
qed simp

lemma checkSelfRemovalLocked_frame [simp]:
  "s_id (checkSelfRemovalLocked s) = s_id s"
  "s_peers (checkSelfRemovalLocked s) = s_peers s"
  "s_currentTerm (checkSelfRemovalLocked s) = s_currentTerm s"
  "s_votedFor (checkSelfRemovalLocked s) = s_votedFor s"
  "s_log (checkSelfRemovalLocked s) = s_log s"
  "s_commitIndex (checkSelfRemovalLocked s) = s_commitIndex s"
  "s_lastApplied (checkSelfRemovalLocked s) = s_lastApplied s"
  "s_sm (checkSelfRemovalLocked s) = s_sm s"
  "s_storage (checkSelfRemovalLocked s) = s_storage s"
  "s_stopped (checkSelfRemovalLocked s) = s_stopped s"
  "s_matchIndex (checkSelfRemovalLocked s) = s_matchIndex s"
  "s_nextIndex (checkSelfRemovalLocked s) = s_nextIndex s"
  "s_snapshot (checkSelfRemovalLocked s) = s_snapshot s"
  "s_leaderID (checkSelfRemovalLocked s) = s_leaderID s"
  "s_lastLeaderContact (checkSelfRemovalLocked s) = s_lastLeaderContact s"
  "s_cfg (checkSelfRemovalLocked s) = s_cfg s"
  "durable (checkSelfRemovalLocked s) = durable s"
  by (simp_all add: checkSelfRemovalLocked_def becomeFollower_def durable_def Let_def)

lemma role_checkSelfRemovalLocked:
  "s_role (checkSelfRemovalLocked s) = s_role s
   \<or> (s_role (checkSelfRemovalLocked s) = Follower \<and> s_id s \<notin> set (s_peers s)
       \<and> s_configChangeIndex s \<le> s_commitIndex s)"
  by (simp add: checkSelfRemovalLocked_def Contains_def)

lemma advance_elim:
  assumes "advanceCommitIndexLocked M env s = Some s'"
  obtains (idle) "s' = s" "s_role s = Leader \<Longrightarrow> commit_search s (lastIndex (s_log s)) = None"
  | (commit) n s1 where "s_role s = Leader" "commit_search s (lastIndex (s_log s)) = Some n"
      "applyCommitted M env (s\<lparr>s_commitIndex := n\<rparr>) = Some s1" "s' = checkSelfRemovalLocked s1"
  using assms that
  by (auto simp: advanceCommitIndexLocked_def split: if_splits option.splits Option.bind_splits)

lemma advance_frame:
  assumes "advanceCommitIndexLocked M env s = Some s'"
  shows "s_id s' = s_id s" "s_peers s' = s_peers s" "s_currentTerm s' = s_currentTerm s"
    "s_votedFor s' = s_votedFor s" "s_log s' = s_log s" "s_stopped s' = s_stopped s"
    "s_matchIndex s' = s_matchIndex s" "s_snapshot s' = s_snapshot s" "durable s' = durable s"
proof -
  have d: "durable (s\<lparr>s_commitIndex := i\<rparr>) = durable s" for i by (simp add: durable_def)
  have "s_id s' = s_id s \<and> s_peers s' = s_peers s \<and> s_currentTerm s' = s_currentTerm s
    \<and> s_votedFor s' = s_votedFor s \<and> s_log s' = s_log s \<and> s_stopped s' = s_stopped s
    \<and> s_matchIndex s' = s_matchIndex s \<and> s_snapshot s' = s_snapshot s \<and> durable s' = durable s"
    using assms
  proof (cases rule: advance_elim)
    case (commit n s1)
    show ?thesis using applyCommitted_Some [OF commit(3)] commit(4) d by simp
  qed simp
  then show "s_id s' = s_id s" "s_peers s' = s_peers s" "s_currentTerm s' = s_currentTerm s"
    "s_votedFor s' = s_votedFor s" "s_log s' = s_log s" "s_stopped s' = s_stopped s"
    "s_matchIndex s' = s_matchIndex s" "s_snapshot s' = s_snapshot s" "durable s' = durable s"
    by blast+
qed

lemma advance_next: "advanceCommitIndexLocked M env s = Some s' \<Longrightarrow> s_nextIndex s' = s_nextIndex s"
  by (erule advance_elim) (simp_all add: applyCommitted_Some(10))

lemma advance_role:
  assumes "advanceCommitIndexLocked M env s = Some s'"
  shows "s_role s' = s_role s \<or> (s_role s' = Follower \<and> s_id s \<notin> set (s_peers s))"
  using assms
proof (cases rule: advance_elim)
  case (commit n s1)
  then show ?thesis using role_checkSelfRemovalLocked [of s1] applyCommitted_Some [OF commit(3)] by auto
qed simp

text \<open>The commit index moves only forward, to the largest committable entry, and the state machine gets
  exactly the entries in between.\<close>

lemma advance_commit:
  assumes "advanceCommitIndexLocked M env s = Some s'" "server_inv s"
  shows "server_inv s'"
    "apply_entries M (entries_between (s_log s) (s_commitIndex s) (s_commitIndex s')) (s_sm s) = Some (s_sm s')"
    "s_commitIndex s' = s_commitIndex s \<or> (s_role s = Leader \<and> s_commitIndex s < s_commitIndex s' \<and> committable s (s_commitIndex s'))"
    "s_role s = Leader \<Longrightarrow> s_commitIndex s' < j \<Longrightarrow> j \<le> lastIndex (s_log s) \<Longrightarrow> \<not> committable s j"
proof -
  note inv = server_invD [OF assms(2)]
  have "server_inv s'
    \<and> apply_entries M (entries_between (s_log s) (s_commitIndex s) (s_commitIndex s')) (s_sm s) = Some (s_sm s')
    \<and> (s_commitIndex s' = s_commitIndex s \<or> (s_role s = Leader \<and> s_commitIndex s < s_commitIndex s' \<and> committable s (s_commitIndex s')))
    \<and> (s_role s = Leader \<longrightarrow> (\<forall>j. s_commitIndex s' < j \<and> j \<le> lastIndex (s_log s) \<longrightarrow> \<not> committable s j))"
    using assms(1)
  proof (cases rule: advance_elim)
    case idle
    with assms(2) commit_search_None [of s "lastIndex (s_log s)"] show ?thesis by auto
  next
    case (commit n s1)
    note n = commit_search_Some [OF commit(2)]
    have n': "baseIndex (s_log s) \<le> s_lastApplied s" "s_lastApplied s \<le> n" "n \<le> lastIndex (s_log s)"
      using n inv by auto
    note up = applyCommitted_upto [OF inv(1) n' commit(3)]
    have "server_inv s'" using up(1) commit(4) by (simp add: server_inv_def)
    then show ?thesis using up n commit(1,4) inv(3) by auto
  qed
  then show "server_inv s'"
    "apply_entries M (entries_between (s_log s) (s_commitIndex s) (s_commitIndex s')) (s_sm s) = Some (s_sm s')"
    "s_commitIndex s' = s_commitIndex s \<or> (s_role s = Leader \<and> s_commitIndex s < s_commitIndex s' \<and> committable s (s_commitIndex s'))"
    "s_role s = Leader \<Longrightarrow> s_commitIndex s' < j \<Longrightarrow> j \<le> lastIndex (s_log s) \<Longrightarrow> \<not> committable s j"
    by blast+
qed

lemma advance_total: "total_machine M \<Longrightarrow> \<exists>s'. advanceCommitIndexLocked M env s = Some s'"
  using applyCommitted_total [of M env] by (simp add: advanceCommitIndexLocked_def split: option.split)
    (metis bind.bind_lunit)

section \<open>Sections of the role loop\<close>

lemma startElection_elim:
  assumes "startElection env s = Some (el, s')"
  obtains s1 where "s1 = resetElectionTimerLocked env
      (s\<lparr>s_role := Candidate, s_currentTerm := s_currentTerm s + 1, s_votedFor := Some (s_id s)\<rparr>)"
    "s' = stored_server s1"
    "el = \<lparr>el_term = s_currentTerm s + 1, el_me = s_id s,
            el_args = \<lparr>rv_Term = s_currentTerm s + 1, rv_CandidateID = s_id s,
                       rv_LastLogIndex = lastIndex (s_log s), rv_LastLogTerm = lastTerm (s_log s)\<rparr>,
            el_peers = s_peers s, el_needed = majority (s_peers s), el_votes = 1, el_resolved = False\<rparr>"
  using assms that
  by (auto simp: startElection_def Let_def split: Option.bind_splits dest!: mustPersistLocked_Some)

lemma becomeLeader_elim:
  assumes "becomeLeader M env t s = Some (b, s')"
  obtains (stale) "\<not> b" "s' = s" "s_role s \<noteq> Candidate \<or> s_currentTerm s \<noteq> t"
  | (won) s1 where "b" "s_role s = Candidate" "s_currentTerm s = t"
      "s_log s1 = s_log s @ [\<lparr>ent_Term = t, ent_Index = lastIndex (s_log s) + 1, ent_Command = None\<rparr>]"
      "s_id s1 = s_id s" "s_peers s1 = s_peers s" "s_currentTerm s1 = t" "s_votedFor s1 = s_votedFor s"
      "s_role s1 = Leader" "s_leaderID s1 = s_id s"
      "s_commitIndex s1 = s_commitIndex s" "s_lastApplied s1 = s_lastApplied s"
      "s_sm s1 = s_sm s" "s_stopped s1 = s_stopped s" "s_snapshot s1 = s_snapshot s"
      "get0 (s_matchIndex s1) (s_id s) = lastIndex (s_log s) + 1"
      "\<forall>p \<in> set (s_peers s). p \<noteq> s_id s \<longrightarrow> get0 (s_matchIndex s1) p = 0 \<and> get0 (s_nextIndex s1) p = lastIndex (s_log s) + 1"
      "advanceCommitIndexLocked M env (stored_server s1) = Some s'"
      "s_storage s1 = s_storage s" "get0 (s_nextIndex s1) (s_id s) = lastIndex (s_log s) + 2"
proof (cases "s_role s \<noteq> Candidate \<or> s_currentTerm s \<noteq> t")
  case True
  with assms show thesis by (intro stale) (auto simp: becomeLeader_def)
next
  case False
  let ?next = "lastIndex (s_log s) + 1"
  define s1 where "s1 = s\<lparr>s_role := Leader, s_leaderID := s_id s, s_lastContact := fmempty,
      s_log := s_log s @ [\<lparr>ent_Term = s_currentTerm s, ent_Index = ?next, ent_Command = None\<rparr>],
      s_matchIndex := fmupd (s_id s) ?next (fold (\<lambda>p m. fmupd p 0 m) (s_peers s) (s_matchIndex s)),
      s_nextIndex := fmupd (s_id s) (?next + 1) (fold (\<lambda>p m. fmupd p ?next m) (s_peers s) (s_nextIndex s))\<rparr>"
  have fold: "p \<in> set ps \<Longrightarrow> fmlookup (fold (\<lambda>p m. fmupd p v m) ps m) p = Some v" for p v and ps :: "NodeID list" and m
    by (induction ps arbitrary: m rule: rev_induct) auto
  have "do { s \<leftarrow> mustPersistLocked env s1; s \<leftarrow> advanceCommitIndexLocked M env s; Some (True, s) } = Some (b, s')"
    using assms False by (simp add: becomeLeader_def Let_def s1_def)
  then have "b" "advanceCommitIndexLocked M env (stored_server s1) = Some s'"
    by (auto split: Option.bind_splits dest!: mustPersistLocked_Some)
  then show thesis
    using False by (intro won [of s1]) (auto simp: s1_def get0_def fold)
qed

text \<open>What every section guarantees: terms and votes move forward, the stored state stays the current one,
  and the invariant is kept.\<close>

definition section_ok :: "'m Server \<Rightarrow> 'm Server \<Rightarrow> bool" where
  "section_ok s s' \<longleftrightarrow> advances s s' \<and> (durable s \<longrightarrow> durable s') \<and> (server_inv s \<longrightarrow> server_inv s')"

lemma section_okI:
  assumes "advances s s'" "durable s \<Longrightarrow> durable s'" "server_inv s \<Longrightarrow> server_inv s'"
  shows "section_ok s s'"
  using assms by (simp add: section_ok_def)

lemma section_ok_refl [simp]: "section_ok s s"
  by (simp add: section_ok_def)

lemma section_ok_trans: "section_ok s t \<Longrightarrow> section_ok t u \<Longrightarrow> section_ok s u"
  by (auto simp: section_ok_def intro: advances_trans)

text \<open>Updates outside of term, vote, log and indices.\<close>

lemma section_ok_volatile:
  assumes "s_id s' = s_id s" "s_currentTerm s' = s_currentTerm s" "s_votedFor s' = s_votedFor s"
    "s_log s' = s_log s" "s_commitIndex s' = s_commitIndex s" "s_lastApplied s' = s_lastApplied s"
    "s_storage s' = s_storage s"
  shows "section_ok s s'"
  using assms by (simp add: section_ok_def advances_def durable_def server_inv_def)

lemma section_ok_persist:
  assumes "advances s s1" "s_log s1 = s_log s" "s_commitIndex s1 = s_commitIndex s" "s_lastApplied s1 = s_lastApplied s"
  shows "section_ok s (stored_server s1)"
  using assms by (auto simp: section_ok_def advances_def server_inv_def)

lemma section_ok_advance:
  assumes "advanceCommitIndexLocked M env s = Some s'" shows "section_ok s s'"
  using advance_frame [OF assms] advance_commit(1) [OF assms] by (auto simp: section_ok_def advances_def)

text \<open>Appending one entry at the end.\<close>

lemma section_ok_append:
  assumes "s_id s1 = s_id s" "s_currentTerm s1 = s_currentTerm s" "s_votedFor s1 = s_votedFor s"
    "s_log s1 = s_log s @ [\<lparr>ent_Term = t, ent_Index = lastIndex (s_log s) + 1, ent_Command = c\<rparr>]"
    "s_commitIndex s1 = s_commitIndex s" "s_lastApplied s1 = s_lastApplied s"
  shows "section_ok s (stored_server s1)"
proof (rule section_okI)
  show "advances s (stored_server s1)" using assms by (simp add: advances_def)
  assume "server_inv s"
  then show "server_inv (stored_server s1)"
    using assms wf_log_snoc [of "s_log s" t c] wf_log_not_Nil [of "s_log s"]
    by (auto simp: server_inv_def)
qed simp

lemma startElection_ok:
  assumes "startElection env s = Some (el, s')"
  shows "section_ok s s'" "s_currentTerm s' = s_currentTerm s + 1" "s_votedFor s' = Some (s_id s)"
    "s_role s' = Candidate" "el_term el = s_currentTerm s'" "el_me el = s_id s" "durable s'"
    "el_peers el = s_peers s" "el_needed el = majority (s_peers s)" "el_votes el = 1" "\<not> el_resolved el"
    "s_log s' = s_log s" "s_peers s' = s_peers s" "s_stopped s' = s_stopped s"
  using assms by (auto elim!: startElection_elim intro!: section_ok_persist simp: advances_def)

lemma vote_reply_elim:
  assumes "vote_reply env el reply s = Some (b, s')"
  obtains (newer) "\<not> b" "rvr_Term reply > s_currentTerm s" "s' = stored_server (becomeFollower (rvr_Term reply) s)"
  | (counted) "b" "s' = s" "rvr_VoteGranted reply" "s_currentTerm s = el_term el" "s_role s = Candidate"
  | (stale) "\<not> b" "s' = s"
  using assms that
  by (auto simp: vote_reply_def Let_def split: if_splits Option.bind_splits dest!: mustPersistLocked_Some)

lemma vote_reply_ok:
  assumes "vote_reply env el reply s = Some (b, s')" shows "section_ok s s'"
  using assms
proof (cases rule: vote_reply_elim)
  case newer
  show ?thesis unfolding newer(3) by (rule section_ok_persist) (simp_all add: advances_becomeFollower)
qed simp_all

lemma becomeLeader_ok:
  assumes "becomeLeader M env t s = Some (b, s')" shows "section_ok s s'"
  using assms
proof (cases rule: becomeLeader_elim)
  case (won s1)
  have "section_ok s (stored_server s1)" by (rule section_ok_append [OF won(5)]) (use won in simp_all)
  with section_ok_advance [OF won(18)] show ?thesis by (rule section_ok_trans [rotated])
qed simp

lemma replicate_reply_elim:
  assumes "replicate_reply M env peer args reply s = Some s'"
  obtains (newer) "aer_Term reply > s_currentTerm s" "s' = stored_server (becomeFollower (aer_Term reply) s)"
  | (stale) "s_role s \<noteq> Leader \<or> s_currentTerm s \<noteq> ae_Term args" "s' = s"
  | (acked) s1 where "s_role s = Leader" "s_currentTerm s = ae_Term args" "aer_Success reply"
      "section_ok s s1" "s_log s1 = s_log s" "s_peers s1 = s_peers s" "s_role s1 = Leader"
      "s_currentTerm s1 = s_currentTerm s" "s_commitIndex s1 = s_commitIndex s" "s_sm s1 = s_sm s" "s_id s1 = s_id s"
      "s_stopped s1 = s_stopped s" "s_votedFor s1 = s_votedFor s"
      "\<forall>p. get0 (s_matchIndex s1) p = (if p = peer then max (get0 (s_matchIndex s) peer)
          (ae_PrevLogIndex args + length (ae_Entries args)) else get0 (s_matchIndex s) p)"
      "advanceCommitIndexLocked M env s1 = Some s'"
      "s_storage s1 = s_storage s" "s_lastApplied s1 = s_lastApplied s"
      "\<forall>p. get0 (s_nextIndex s1) p = get0 (s_nextIndex s) p
         \<or> (p = peer \<and> get0 (s_nextIndex s1) p = ae_PrevLogIndex args + length (ae_Entries args) + 1)"
  | (nacked) "s_role s = Leader" "s_currentTerm s = ae_Term args" "\<not> aer_Success reply"
      "s' = (if get0 (s_nextIndex s) peer > 1
         then s\<lparr>s_nextIndex := fmupd peer (get0 (s_nextIndex s) peer - 1) (s_nextIndex s)\<rparr>
         else s)"
proof -
  let ?m = "ae_PrevLogIndex args + length (ae_Entries args)"
  let ?s0 = "s\<lparr>s_lastContact := fmupd peer (e_now env) (s_lastContact s)\<rparr>"
  define s1 where "s1 = (if ?m > get0 (s_matchIndex s) peer
      then ?s0\<lparr>s_matchIndex := fmupd peer ?m (s_matchIndex s), s_nextIndex := fmupd peer (?m + 1) (s_nextIndex s)\<rparr>
      else ?s0)"
  consider "aer_Term reply > s_currentTerm s"
    | "\<not> aer_Term reply > s_currentTerm s" "s_role s \<noteq> Leader \<or> s_currentTerm s \<noteq> ae_Term args"
    | (a) "\<not> aer_Term reply > s_currentTerm s" "s_role s = Leader" "s_currentTerm s = ae_Term args" "aer_Success reply"
    | "\<not> aer_Term reply > s_currentTerm s" "s_role s = Leader" "s_currentTerm s = ae_Term args" "\<not> aer_Success reply"
    by blast
  then show thesis
  proof cases
    case 1
    then have "mustPersistLocked env (becomeFollower (aer_Term reply) s) = Some s'"
      using assms by (simp add: replicate_reply_def)
    with 1 show ?thesis by (intro newer mustPersistLocked_Some)
  next
    case 2
    moreover from this have "s' = s" using assms by (auto simp: replicate_reply_def)
    ultimately show ?thesis by (intro stale)
  next
    case a
    have "section_ok s s1" by (rule section_ok_volatile) (simp_all add: s1_def)
    moreover have "advanceCommitIndexLocked M env s1 = Some s'"
      using assms a by (cases "?m > get0 (s_matchIndex s) peer") (simp_all add: replicate_reply_def s1_def Let_def)
    ultimately show ?thesis using a
      by (intro acked [of s1]) (auto simp: s1_def get0_def max_def split: option.split)
  next
    case 4
    then show ?thesis using assms by (intro nacked) (simp_all add: replicate_reply_def)
  qed
qed

lemma replicate_reply_ok:
  assumes "replicate_reply M env peer args reply s = Some s'" shows "section_ok s s'"
  using assms
proof (cases rule: replicate_reply_elim)
  case newer
  show ?thesis unfolding newer(2) by (rule section_ok_persist) (simp_all add: advances_becomeFollower)
next
  case (acked s1)
  show ?thesis using acked(4) section_ok_advance [OF acked(15)] by (rule section_ok_trans)
next
  case nacked
  show ?thesis unfolding nacked(4) by (rule section_ok_volatile) simp_all
qed simp

lemma Submit_elim:
  assumes "Submit M env cmd s = Some (x, s')"
  obtains (refused) "x = None" "s' = s" "s_role s \<noteq> Leader \<or> s_stopped s"
  | (appended) s1 where "x = Some (lastIndex (s_log s) + 1, s_currentTerm s)" "s_role s = Leader" "\<not> s_stopped s"
      "s1 = s\<lparr>s_log := s_log s @ [\<lparr>ent_Term = s_currentTerm s, ent_Index = lastIndex (s_log s) + 1, ent_Command = cmd\<rparr>],
              s_matchIndex := fmupd (s_id s) (lastIndex (s_log s) + 1) (s_matchIndex s)\<rparr>"
      "advanceCommitIndexLocked M env (stored_server s1) = Some s'"
  using assms that
  by (auto simp: Submit_def Let_def split: if_splits Option.bind_splits dest!: mustPersistLocked_Some)

lemma Submit_ok:
  assumes "Submit M env cmd s = Some (x, s')" shows "section_ok s s'"
  using assms
proof (cases rule: Submit_elim)
  case (appended s1)
  have "section_ok s (stored_server s1)"
    by (rule section_ok_append [where t = "s_currentTerm s" and c = cmd]) (simp_all add: appended(4))
  with section_ok_advance [OF appended(5)] show ?thesis by (rule section_ok_trans [rotated])
qed simp

lemma RequestVote_ok:
  assumes "RequestVote env a s = Some (r, s')" shows "section_ok s s'"
  using RequestVote_advances [OF assms] RequestVote_durable [OF assms] RequestVote_inv [OF assms]
  by (simp add: section_ok_def)

lemma AppendEntries_ok:
  assumes "AppendEntries M env a s = Some (r, s')" "server_inv s \<Longrightarrow> sound_append a s" shows "section_ok s s'"
  using AppendEntries_advances [OF assms(1)] AppendEntries_durable [OF assms(1)] AppendEntries_inv [OF assms(1)] assms(2)
  by (simp add: section_ok_def)

lemma Start_ok: "section_ok s (Start env s)"
  by (rule section_ok_volatile) (simp_all add: Start_def)

lemma Stop_ok: "section_ok s (Stop s)"
  by (rule section_ok_volatile) (simp_all add: Stop_def)

lemma broadcast_ok: "section_ok s (snd (broadcastAppendEntries env s))"
  by (rule section_ok_volatile) (simp_all add: broadcastAppendEntries_def Let_def)

section \<open>Properties of leaders\<close>

lemma replicas_card:
  "distinct (s_peers s) \<Longrightarrow> replicas s n = card {p \<in> set (s_peers s). n \<le> get0 (s_matchIndex s) p}"
  by (simp add: replicas_def flip: distinct_card)

text \<open>Leader Append-Only: no section that a leader runs on its own account removes or changes an entry.\<close>

lemma becomeLeader_log:
  "becomeLeader M env t s = Some (b, s') \<Longrightarrow> \<exists>es. s_log s' = s_log s @ es"
  by (erule becomeLeader_elim) (auto dest: advance_frame(5))

lemma Submit_log: "Submit M env cmd s = Some (x, s') \<Longrightarrow> \<exists>es. s_log s' = s_log s @ es"
  by (erule Submit_elim) (auto dest: advance_frame(5))

lemma replicate_reply_log: "replicate_reply M env p a r s = Some s' \<Longrightarrow> s_log s' = s_log s"
  by (erule replicate_reply_elim) (auto dest: advance_frame(5))

text \<open>\<^verbatim>\<open>Submit\<close> on a leader: the entry is in the log at the returned index and term, and stored.\<close>

lemma Submit_entry:
  assumes "Submit M env cmd s = Some (Some (i, t), s')" "server_inv s"
  shows "entryAt (s_log s') i = Some \<lparr>ent_Term = t, ent_Index = i, ent_Command = cmd\<rparr>"
    "i = lastIndex (s_log s) + 1" "t = s_currentTerm s" "durable s'" "server_inv s'"
proof -
  obtain s1 where s1: "i = lastIndex (s_log s) + 1" "t = s_currentTerm s"
    "s1 = s\<lparr>s_log := s_log s @ [\<lparr>ent_Term = s_currentTerm s, ent_Index = lastIndex (s_log s) + 1, ent_Command = cmd\<rparr>],
              s_matchIndex := fmupd (s_id s) (lastIndex (s_log s) + 1) (s_matchIndex s)\<rparr>"
    "advanceCommitIndexLocked M env (stored_server s1) = Some s'"
    using assms(1) by (cases rule: Submit_elim) auto
  have "s_log s' = s_log s1" using advance_frame(5) [OF s1(4)] by simp
  then show "entryAt (s_log s') i = Some \<lparr>ent_Term = t, ent_Index = i, ent_Command = cmd\<rparr>"
    using entryAt_snoc [OF server_invD(1) [OF assms(2)]] by (simp add: s1(1-3))
  show "i = lastIndex (s_log s) + 1" "t = s_currentTerm s" using s1 by simp_all
  show "durable s'" using advance_frame(9) [OF s1(4)] by simp
  show "server_inv s'" using Submit_ok [OF assms(1)] assms(2) by (simp add: section_ok_def)
qed

text \<open>The entries a leader sends: its own log from the peer's next index on, never past a committed entry
  it has not sent.\<close>

lemma replicateTo_request:
  assumes "replicateTo peer t s = AppendRequest a" "server_inv s"
  shows "ae_Term a = t" "s_currentTerm s = t" "s_role s = Leader" "ae_LeaderID a = s_id s"
    "ae_LeaderCommit a = s_commitIndex s"
    "baseIndex (s_log s) \<le> ae_PrevLogIndex a"
    "ae_PrevLogIndex a \<le> lastIndex (s_log s) \<Longrightarrow> ae_LeaderCommit a \<le> ae_PrevLogIndex a + length (ae_Entries a)"
    "ae_PrevLogIndex a \<le> lastIndex (s_log s) \<Longrightarrow> ae_PrevLogIndex a + length (ae_Entries a) = lastIndex (s_log s)"
    "ae_PrevLogIndex a \<le> lastIndex (s_log s) \<Longrightarrow> termAt (s_log s) (ae_PrevLogIndex a) = Some (ae_PrevLogTerm a)"
    "k < length (ae_Entries a) \<Longrightarrow> entryAt (s_log s) (ae_PrevLogIndex a + k + 1) = Some (ae_Entries a ! k)"
proof -
  let ?next = "max 1 (get0 (s_nextIndex s) peer)"
  note inv = server_invD [OF assms(2)]
  have nx: "(if get0 (s_nextIndex s) peer < 1 then 1 else get0 (s_nextIndex s) peer) = ?next" by simp
  from assms(1) have a: "s_role s = Leader" "s_currentTerm s = t" "baseIndex (s_log s) < ?next"
    "a = \<lparr>ae_Term = t, ae_LeaderID = s_id s, ae_PrevLogIndex = ?next - 1,
          ae_PrevLogTerm = (case termAt (s_log s) (?next - 1) of Some t \<Rightarrow> t | None \<Rightarrow> 0),
          ae_Entries = (if lastIndex (s_log s) \<ge> ?next then drop (slot (s_log s) ?next) (s_log s) else []),
          ae_LeaderCommit = s_commitIndex s\<rparr>"
    unfolding replicateTo_def Let_def nx by (auto split: if_splits)
  have len: "length (s_log s) = lastIndex (s_log s) - baseIndex (s_log s) + 1" using length_wf [OF inv(1)] .
  show "ae_Term a = t" "s_currentTerm s = t" "s_role s = Leader" "ae_LeaderID a = s_id s"
    "ae_LeaderCommit a = s_commitIndex s" "baseIndex (s_log s) \<le> ae_PrevLogIndex a"
    using a by auto
  assume prev: "ae_PrevLogIndex a \<le> lastIndex (s_log s)"
  show e: "ae_PrevLogIndex a + length (ae_Entries a) = lastIndex (s_log s)"
    using a prev len by (auto simp: slot_def)
  show "ae_LeaderCommit a \<le> ae_PrevLogIndex a + length (ae_Entries a)"
    unfolding e using a inv(4) by simp
  show "termAt (s_log s) (ae_PrevLogIndex a) = Some (ae_PrevLogTerm a)"
    using a prev termAt_None_iff [of "s_log s" "ae_PrevLogIndex a"] by (auto split: option.split)
next
  let ?next = "max 1 (get0 (s_nextIndex s) peer)"
  note inv = server_invD [OF assms(2)]
  have nx: "(if get0 (s_nextIndex s) peer < 1 then 1 else get0 (s_nextIndex s) peer) = ?next" by simp
  from assms(1) have a: "baseIndex (s_log s) < ?next" "ae_PrevLogIndex a = ?next - 1"
    "ae_Entries a = (if lastIndex (s_log s) \<ge> ?next then drop (slot (s_log s) ?next) (s_log s) else [])"
    unfolding replicateTo_def Let_def nx by (auto split: if_splits)
  assume k: "k < length (ae_Entries a)"
  then have "slot (s_log s) ?next + k < length (s_log s)" "lastIndex (s_log s) \<ge> ?next"
    using a(3) by (auto split: if_splits)
  then show "entryAt (s_log s) (ae_PrevLogIndex a + k + 1) = Some (ae_Entries a ! k)"
    using entryAt_nth [OF inv(1), of "slot (s_log s) ?next + k"] a by (simp add: slot_def)
qed

text \<open>C32: the commit rule: a leader moves its commit index only forward, only to an entry of its own current
  term that a majority of the configuration stores according to its match indices, and it moves as
  far as the rule allows; a server that does not lead never moves it here. The state machine has been
  given exactly the entries in between.\<close>

theorem advanceCommitIndex_commit_rule:
  assumes "advanceCommitIndexLocked M env s = Some s'" "server_inv s" "distinct (s_peers s)"
  shows "server_inv s'
    \<and> apply_entries M (entries_between (s_log s) (s_commitIndex s) (s_commitIndex s')) (s_sm s) = Some (s_sm s')
    \<and> (s_commitIndex s' = s_commitIndex s \<or>
        (s_role s = Leader \<and> s_commitIndex s < s_commitIndex s'
         \<and> termAt (s_log s) (s_commitIndex s') = Some (s_currentTerm s)
         \<and> majority (s_peers s) \<le> card {p \<in> set (s_peers s). s_commitIndex s' \<le> get0 (s_matchIndex s) p}))
    \<and> (\<forall>j. s_role s = Leader \<and> s_commitIndex s' < j \<and> termAt (s_log s) j = Some (s_currentTerm s) \<longrightarrow>
        card {p \<in> set (s_peers s). j \<le> get0 (s_matchIndex s) p} < majority (s_peers s))"
proof -
  have "\<not> committable s j" if "s_role s = Leader" "s_commitIndex s' < j" "termAt (s_log s) j = Some (s_currentTerm s)" for j
    using advance_commit(4) [OF assms(1,2) that(1,2)] that(3) termAt_None_iff [of "s_log s" j] by fastforce
  with advance_commit(1,2,3) [OF assms(1,2)] replicas_card [OF assms(3)] show ?thesis
    by (auto simp: committable_def not_le)
qed

definition sample_leader :: "nat Server" where
  "sample_leader = (NewServer ''n1'' [''n1'', ''n2'', ''n3''] (Some 0))
     \<lparr>s_role := Leader, s_currentTerm := 2,
      s_log := [sentinel, \<lparr>ent_Term = 1, ent_Index = 1, ent_Command = Some [7]\<rparr>,
                \<lparr>ent_Term = 2, ent_Index = 2, ent_Command = None\<rparr>],
      s_matchIndex := fmap_of_list [(''n1'', 2), (''n2'', 2), (''n3'', 0)]\<rparr>"

theorem advanceCommitIndex_commit_rule_witness:
  "\<exists>s'. advanceCommitIndexLocked counter_ops calm sample_leader = Some s' \<and> s_commitIndex s' = 2
     \<and> s_sm s' = Some 1 \<and> server_inv s'"
proof -
  have inv: "server_inv sample_leader" "distinct (s_peers sample_leader)"
    by (simp_all add: sample_leader_def server_inv_def NewServer_def NewServerWith_def wf_log_def baseIndex_def
        lastIndex_def sentinel_def upt_conv_Cons)
  obtain s' where s': "advanceCommitIndexLocked counter_ops calm sample_leader = Some s'"
    using advance_total [of counter_ops calm sample_leader] by (auto simp: total_machine_def counter_ops_def)
  have q: "card {p \<in> set (s_peers sample_leader). 2 \<le> get0 (s_matchIndex sample_leader) p} = card {''n1'', ''n2''}"
    by (rule arg_cong [where f = card])
      (auto simp: sample_leader_def NewServer_def NewServerWith_def get0_def fmlookup_of_list)
  have v: "majority (s_peers sample_leader) = 2" "s_role sample_leader = Leader"
    "termAt (s_log sample_leader) 2 = Some (s_currentTerm sample_leader)"
    "s_commitIndex sample_leader = 0" "lastIndex (s_log sample_leader) = 2" "s_sm sample_leader = Some 0"
    "entries_between (s_log sample_leader) 0 2 = tl (s_log sample_leader)"
    by code_simp+
  note rule = advanceCommitIndex_commit_rule [OF s' inv]
  from rule have "s_commitIndex s' < 2 \<Longrightarrow>
      card {p \<in> set (s_peers sample_leader). 2 \<le> get0 (s_matchIndex sample_leader) p} < 2"
    using v(1-3) by metis
  then have "\<not> s_commitIndex s' < 2" unfolding q by auto
  moreover have "s_commitIndex s' \<le> lastIndex (s_log sample_leader)"
    using rule server_invD(4) [of s'] advance_frame(5) [OF s'] by simp
  ultimately have c: "s_commitIndex s' = 2" using v(5) by simp
  have "apply_entries counter_ops (tl (s_log sample_leader)) (Some 0) = Some (s_sm s')"
    using rule c v(4,6,7) by simp
  then have "s_sm s' = Some 1" by (simp add: sample_leader_def apply_entry_def counter_ops_def)
  with c s' rule show ?thesis by blast
qed

end
