(* ===== verification/RaftSnapshot.thy ===== *)
theory RaftSnapshot
  imports RaftLoop StateMachine
begin

text \<open>
  Compaction, snapshot transfer and recovery (src/raft/snapshot.go and \<^verbatim>\<open>Restore\<close> of
  src/raft/persist.go). \<^verbatim>\<open>MaybeCompact\<close> drops the lock while it writes the snapshot, so it is three
  sections; \<^verbatim>\<open>sendSnapshotTo\<close> is the section before and the one after the RPC.

  \<open>backed\<close> is the invariant that makes recovery work: the machine a server runs is what its log gives
  when replayed from the machine at the snapshot boundary, and the stored snapshot is a snapshot of
  that machine. Shown here, for every machine that satisfies the contract \<open>snapshotting_machine\<close>:
  receiving entries, committing, compacting and installing a snapshot keep \<open>backed\<close>, and a server that
  restarts from its storage comes back with the term, vote and log it had, the same applied index, and
  a machine that agrees with the one it had on everything later commands depend on.
\<close>

definition errNoSnapshotToSend :: string where
  "errNoSnapshotToSend = ''raft: follower needs a snapshot but none exists''"

definition errTransportCannotSnapshot :: string where
  "errTransportCannotSnapshot =
     ''raft: transport does not support InstallSnapshot; a follower behind the compacted prefix cannot be caught up''"

record InstallSnapshotArgs =
  is_Term :: Term
  is_LeaderID :: NodeID
  is_LastIncludedIndex :: Index
  is_LastIncludedTerm :: Term
  is_Data :: bytes
  is_Done :: bool

record InstallSnapshotReply =
  isr_Term :: Term

section \<open>Compaction\<close>

text \<open>The first section of \<^verbatim>\<open>MaybeCompact\<close>: an error, nothing to do, or the snapshot to save.\<close>

definition compact_begin :: "'m SMOps \<Rightarrow> nat \<Rightarrow> 'm Server \<Rightarrow> string + (Index \<times> Term \<times> bytes) option" where
  "compact_begin M threshold s =
     (case (op_snapper M, s_sm s, Option.bind (s_storage s) st_snapshot) of
        (Some (snap, _), Some m, Some _) \<Rightarrow>
          (let idx = s_lastApplied s in
           if idx \<le> baseIndex (s_log s) \<or> length (s_log s) - 1 < threshold then Inr None
           else (case entryAt (s_log s) idx of
                   None \<Rightarrow> Inl (''raft: cannot compact to '' @ show_nat idx @ '': entry missing'')
                 | Some e \<Rightarrow>
                     (case snap m of
                        Inl err \<Rightarrow> Inl (''raft: snapshot state machine: '' @ err)
                      | Inr data \<Rightarrow> Inr (Some (ent_Index e, ent_Term e, data)))))
      | _ \<Rightarrow> Inr None)"

text \<open>\<^verbatim>\<open>store.SaveSnapshot\<close>, outside of the lock.\<close>

definition save_snapshot :: "Env \<Rightarrow> Index \<times> Term \<times> bytes \<Rightarrow> 'm Server \<Rightarrow> string option \<times> 'm Server" where
  "save_snapshot env x s =
     (case e_snap_err env of
        Some e \<Rightarrow> (Some e, s)
      | None \<Rightarrow> (None, s\<lparr>s_storage := map_option (\<lambda>st. st\<lparr>st_snapshot := Some (Some x)\<rparr>) (s_storage s)\<rparr>))"

text \<open>The last section: check that the log still holds the entry, discard and persist.\<close>

definition compact_finish ::
  "Env \<Rightarrow> Index \<times> Term \<times> bytes \<Rightarrow> 'm Server \<Rightarrow> (bool \<times> string option) \<times> 'm Server" where
  "compact_finish env = (\<lambda>(idx, t, data) s.
     if idx \<le> baseIndex (s_log s) \<or> idx > lastIndex (s_log s) then ((False, None), s)
     else (case entryAt (s_log s) idx of
             None \<Rightarrow> ((False, None), s)
           | Some cur \<Rightarrow>
               (if ent_Term cur \<noteq> t then ((False, None), s)
                else
                  let s = s\<lparr>s_log := discardThrough idx t (s_log s),
                            s_snapshot := Some \<lparr>lastIncludedIndex = idx, lastIncludedTerm = t, snap_data = data\<rparr>\<rparr>;
                      (err, s) = persistLocked env s
                  in ((True, err), s))))"

text \<open>\<^verbatim>\<open>MaybeCompact\<close> when nothing runs in between.\<close>

definition MaybeCompact :: "'m SMOps \<Rightarrow> Env \<Rightarrow> nat \<Rightarrow> 'm Server \<Rightarrow> (bool \<times> string option) \<times> 'm Server" where
  "MaybeCompact M env threshold s =
     (case compact_begin M threshold s of
        Inl err \<Rightarrow> ((False, Some err), s)
      | Inr None \<Rightarrow> ((False, None), s)
      | Inr (Some x) \<Rightarrow>
          (case save_snapshot env x s of
             (Some err, s) \<Rightarrow> ((False, Some (''raft: save snapshot: '' @ err)), s)
           | (None, s) \<Rightarrow> compact_finish env x s))"

section \<open>Installing a snapshot\<close>

definition note_snapshot_error :: "string option \<Rightarrow> 'm Server \<Rightarrow> 'm Server" where
  "note_snapshot_error err s =
     (case err of
        None \<Rightarrow> s
      | Some e \<Rightarrow> s\<lparr>s_snapshotErrs := s_snapshotErrs s + 1, s_lastSnapshotErr := Some e\<rparr>)"

text \<open>From a restored machine on: rebase the log, move the markers, save the snapshot and persist.\<close>

definition install :: "Env \<Rightarrow> InstallSnapshotArgs \<Rightarrow> 'm Server \<Rightarrow> 'm Server" where
  "install env args s =
     (let idx = is_LastIncludedIndex args;
          t = is_LastIncludedTerm args;
          s = s\<lparr>s_log := (case entryAt (s_log s) idx of
                  Some e \<Rightarrow> (if ent_Term e = t then discardThrough idx t (s_log s)
                            else [\<lparr>ent_Term = t, ent_Index = idx, ent_Command = None\<rparr>])
                | None \<Rightarrow> [\<lparr>ent_Term = t, ent_Index = idx, ent_Command = None\<rparr>])\<rparr>;
          s = s\<lparr>s_lastApplied := idx,
                s_commitIndex := (if s_commitIndex s < idx then idx else s_commitIndex s),
                s_snapshot := Some \<lparr>lastIncludedIndex = idx, lastIncludedTerm = t, snap_data = is_Data args\<rparr>\<rparr>;
          s = (case Option.bind (s_storage s) st_snapshot of
                 None \<Rightarrow> s
               | Some _ \<Rightarrow>
                   let (err, s) = save_snapshot env (idx, t, is_Data args) s in note_snapshot_error err s);
          (err, s) = persistLocked env s
      in note_snapshot_error err s)"

definition InstallSnapshot ::
  "'m SMOps \<Rightarrow> Env \<Rightarrow> InstallSnapshotArgs \<Rightarrow> 'm Server \<Rightarrow> InstallSnapshotReply \<times> 'm Server" where
  "InstallSnapshot M env args s =
     (if is_Term args < s_currentTerm s then (\<lparr>isr_Term = s_currentTerm s\<rparr>, s)
      else
        let s = (if is_Term args > s_currentTerm s
                 then s\<lparr>s_currentTerm := is_Term args, s_votedFor := None, s_role := Follower\<rparr> else s);
            s = resetElectionTimerLocked env (s\<lparr>s_leaderID := is_LeaderID args\<rparr>)
        in
        if is_LastIncludedIndex args \<le> baseIndex (s_log s) \<or> is_LastIncludedIndex args \<le> s_lastApplied s
        then (\<lparr>isr_Term = s_currentTerm s\<rparr>, s)
        else (case (op_snapper M, s_sm s) of
            (Some (_, restore), Some m) \<Rightarrow>
              (case restore (is_Data args) m of
                 (Some e, m) \<Rightarrow>
                   (\<lparr>isr_Term = s_currentTerm s\<rparr>, note_snapshot_error (Some e) (s\<lparr>s_sm := Some m\<rparr>))
               | (None, m) \<Rightarrow>
                   (\<lparr>isr_Term = s_currentTerm s\<rparr>, install env args (s\<lparr>s_sm := Some m\<rparr>)))
          | _ \<Rightarrow> (\<lparr>isr_Term = s_currentTerm s\<rparr>, s)))"

definition SnapshotInfo :: "'m Server \<Rightarrow> Index \<times> Term \<times> bool" where
  "SnapshotInfo s = (case s_snapshot s of
     None \<Rightarrow> (0, 0, False) | Some sn \<Rightarrow> (lastIncludedIndex sn, lastIncludedTerm sn, True))"

text \<open>\<^verbatim>\<open>sendSnapshotTo\<close> before the RPC: the request, if one is sent.\<close>

definition sendSnapshotTo :: "Term \<Rightarrow> 'm Server \<Rightarrow> InstallSnapshotArgs option \<times> 'm Server" where
  "sendSnapshotTo t s =
     (if s_role s \<noteq> Leader \<or> s_currentTerm s \<noteq> t then (None, s)
      else (case s_snapshot s of
              None \<Rightarrow> (None, note_snapshot_error (Some errNoSnapshotToSend) s)
            | Some sn \<Rightarrow>
                (if s_transport s \<noteq> SnapshotTransport
                 then (None, note_snapshot_error (Some errTransportCannotSnapshot) s)
                 else (Some \<lparr>is_Term = s_currentTerm s, is_LeaderID = s_id s,
                         is_LastIncludedIndex = lastIncludedIndex sn, is_LastIncludedTerm = lastIncludedTerm sn,
                         is_Data = snap_data sn, is_Done = True\<rparr>, s))))"

text \<open>\<^verbatim>\<open>sendSnapshotTo\<close> after the RPC.\<close>

definition snapshot_reply ::
  "'m SMOps \<Rightarrow> Env \<Rightarrow> NodeID \<Rightarrow> Term \<Rightarrow> InstallSnapshotArgs \<Rightarrow> InstallSnapshotReply \<Rightarrow> 'm Server \<Rightarrow> 'm Server option" where
  "snapshot_reply M env peer t args reply s =
     (if isr_Term reply > s_currentTerm s then mustPersistLocked env (becomeFollower (isr_Term reply) s)
      else if s_role s \<noteq> Leader \<or> s_currentTerm s \<noteq> t then Some s
      else
        let idx = is_LastIncludedIndex args;
            s = (if idx > get0 (s_matchIndex s) peer then s\<lparr>s_matchIndex := fmupd peer idx (s_matchIndex s)\<rparr> else s);
            s = (if idx + 1 > get0 (s_nextIndex s) peer then s\<lparr>s_nextIndex := fmupd peer (idx + 1) (s_nextIndex s)\<rparr> else s)
        in do {
          s \<leftarrow> advanceCommitIndexLocked M env s;
          Some (s\<lparr>s_lastContact := fmupd peer (e_now env) (s_lastContact s)\<rparr>)
        })"

section \<open>Recovery\<close>

record LoadEnv =
  l_load_err :: "string option"
  l_snap_err :: "string option"
  l_applied_err :: "string option"

text \<open>The replay loop of \<^verbatim>\<open>Restore\<close>.\<close>

function replay :: "'m SMOps \<Rightarrow> Log \<Rightarrow> Index \<Rightarrow> Index \<Rightarrow> 'm option \<Rightarrow> (string + 'm option) option" where
  "replay M l i prev m =
     (if i \<le> prev then
        (case entryAt l i of
           None \<Rightarrow> Some (Inl (''raft: missing log entry '' @ show_nat i @ '' during replay''))
         | Some e \<Rightarrow> do { m \<leftarrow> apply_entry M e m; replay M l (i + 1) prev m })
      else Some (Inr m))"
  by auto
termination by (relation "measure (\<lambda>(M, l, i, prev, m). Suc prev - i)") auto

declare replay.simps [simp del]

definition restore_snapshot :: "'m SMOps \<Rightarrow> LoadEnv \<Rightarrow> Store \<Rightarrow> 'm Server \<Rightarrow> string option \<times> 'm Server" where
  "restore_snapshot M env st s =
     (case (st_snapshot st, s_sm s) of
        (Some found, Some m) \<Rightarrow>
          (case l_snap_err env of
             Some e \<Rightarrow> (Some e, s)
           | None \<Rightarrow>
               (case found of
                  None \<Rightarrow> (None, s)
                | Some (idx, t, data) \<Rightarrow>
                    (case op_snapper M of
                       None \<Rightarrow> (Some (''raft: a snapshot at index '' @ show_nat idx @ '' exists but the state ''
                                 @ ''machine cannot restore it; the compacted log prefix is unrecoverable''), s)
                     | Some (_, restore) \<Rightarrow>
                         (case restore data m of
                            (Some e, m) \<Rightarrow> (Some (''raft: restore snapshot at index '' @ show_nat idx @ '': '' @ e),
                                            s\<lparr>s_sm := Some m\<rparr>)
                          | (None, m) \<Rightarrow>
                              (None, s\<lparr>s_sm := Some m,
                                 s_snapshot := Some \<lparr>lastIncludedIndex = idx, lastIncludedTerm = t, snap_data = data\<rparr>,
                                 s_commitIndex := idx, s_lastApplied := idx,
                                 s_log := (if baseIndex (s_log s) < idx then
                                     (case entryAt (s_log s) idx of
                                        Some e \<Rightarrow> (if ent_Term e = t then discardThrough idx t (s_log s)
                                                  else [\<lparr>ent_Term = t, ent_Index = idx, ent_Command = None\<rparr>])
                                      | None \<Rightarrow> [\<lparr>ent_Term = t, ent_Index = idx, ent_Command = None\<rparr>])
                                   else s_log s)\<rparr>)))))
      | _ \<Rightarrow> (None, s))"

definition restore_applied :: "'m SMOps \<Rightarrow> LoadEnv \<Rightarrow> Store \<Rightarrow> 'm Server \<Rightarrow> (string option \<times> 'm Server) option" where
  "restore_applied M env st s =
     (case (st_applied st, s_sm s) of
        (Some raw, Some m) \<Rightarrow>
          (case l_applied_err env of
             Some e \<Rightarrow> Some (Some e, s)
           | None \<Rightarrow>
               let prev = raw;
                   prev = (if prev < baseIndex (s_log s) then baseIndex (s_log s) else prev);
                   prev = (if prev > lastIndex (s_log s) then lastIndex (s_log s) else prev)
               in do {
                 x \<leftarrow> replay M (s_log s) (baseIndex (s_log s) + 1) prev (s_sm s);
                 Some (case x of
                     Inl e \<Rightarrow> (Some e, s)
                   | Inr m \<Rightarrow>
                       (None, s\<lparr>s_sm := m,
                                s_commitIndex := (if prev > s_commitIndex s then prev else s_commitIndex s),
                                s_lastApplied := (if prev > s_lastApplied s then prev else s_lastApplied s)\<rparr>))
               })
      | _ \<Rightarrow> Some (None, s))"

definition Restore :: "'m SMOps \<Rightarrow> LoadEnv \<Rightarrow> 'm Server \<Rightarrow> (string option \<times> 'm Server) option" where
  "Restore M env s =
     (case s_storage s of
        None \<Rightarrow> Some (None, s)
      | Some st \<Rightarrow>
          (case l_load_err env of
             Some e \<Rightarrow> Some (Some e, s)
           | None \<Rightarrow>
               if st_saved st = [] then Some (None, s)
               else do {
                 d \<leftarrow> decodeState (st_saved st);
                 case d of
                   Inl e \<Rightarrow> Some (Some e, s)
                 | Inr (t, votedFor, l) \<Rightarrow>
                     if l = [] then Some (Some errShortState, s)
                     else do {
                       s \<leftarrow> adoptConfigFromLogLocked
                              (s\<lparr>s_currentTerm := t, s_votedFor := votedFor, s_log := l, s_role := Follower\<rparr>);
                       (case restore_snapshot M env st (s\<lparr>s_commitIndex := 0, s_lastApplied := 0\<rparr>) of
                          (Some e, s) \<Rightarrow> Some (Some e, s)
                        | (None, s) \<Rightarrow> restore_applied M env st s)
                     }
               }))"

section \<open>The machine behind a server\<close>

definition machine_ops ::
  "(nat \<Rightarrow> bytes \<Rightarrow> 'm \<Rightarrow> ('r \<times> 'm) option) \<Rightarrow> ('m \<Rightarrow> bytes) \<Rightarrow> (bytes \<Rightarrow> 'm \<Rightarrow> string option \<times> 'm) \<Rightarrow> 'm SMOps" where
  "machine_ops app snap restore =
     \<lparr>op_apply = (\<lambda>i c m. map_option snd (app i c m)), op_snapper = Some (\<lambda>m. Inr (snap m), restore)\<rparr>"

text \<open>Replaying the log after index \<open>i\<close> from the machine \<open>mb\<close> gives the machine \<open>m\<close>, as far as later
  commands can tell.\<close>

definition replays :: "'m SMOps \<Rightarrow> ('m \<Rightarrow> 'c) \<Rightarrow> Log \<Rightarrow> Index \<Rightarrow> Index \<Rightarrow> 'm \<Rightarrow> 'm \<Rightarrow> bool" where
  "replays M core l i j mb m \<longleftrightarrow>
     (\<exists>m'. apply_entries M (entries_between l i j) (Some mb) = Some (Some m') \<and> core m' = core m)"

definition backed ::
  "'m SMOps \<Rightarrow> ('m \<Rightarrow> bytes) \<Rightarrow> ('m \<Rightarrow> 'c) \<Rightarrow> ('m \<Rightarrow> bool) \<Rightarrow> ('m \<Rightarrow> bool) \<Rightarrow> 'm \<Rightarrow> 'm Server \<Rightarrow> bool" where
  "backed M snap core good fits m0 s \<longleftrightarrow>
     (\<exists>st m. s_storage s = Some st \<and> s_sm s = Some m \<and> good m \<and>
       ((st_snapshot st = Some None \<and> baseIndex (s_log s) = 0
           \<and> replays M core (s_log s) 0 (s_lastApplied s) m0 m)
        \<or> (\<exists>idx t mb. st_snapshot st = Some (Some (idx, t, snap mb)) \<and> fits mb \<and> good mb
           \<and> baseIndex (s_log s) \<le> idx \<and> idx \<le> s_lastApplied s \<and> termAt (s_log s) idx = Some t
           \<and> replays M core (s_log s) idx (s_lastApplied s) mb m)))"

lemma backed_noneI:
  assumes "s_storage s = Some st" "s_sm s = Some m" "good m" "st_snapshot st = Some None"
    "baseIndex (s_log s) = 0" "replays M core (s_log s) 0 (s_lastApplied s) m0 m"
  shows "backed M snap core good fits m0 s"
  using assms unfolding backed_def by blast

lemma backed_snapI:
  assumes "s_storage s = Some st" "s_sm s = Some m" "good m" "st_snapshot st = Some (Some (idx, t, snap mb))"
    "fits mb" "good mb" "baseIndex (s_log s) \<le> idx" "idx \<le> s_lastApplied s" "termAt (s_log s) idx = Some t"
    "replays M core (s_log s) idx (s_lastApplied s) mb m"
  shows "backed M snap core good fits m0 s"
  using assms unfolding backed_def by blast

lemma backed_cases:
  assumes "backed M snap core good fits m0 s"
  obtains (none) st m where "s_storage s = Some st" "s_sm s = Some m" "good m" "st_snapshot st = Some None"
      "baseIndex (s_log s) = 0" "replays M core (s_log s) 0 (s_lastApplied s) m0 m"
  | (snap) st m idx t mb where "s_storage s = Some st" "s_sm s = Some m" "good m"
      "st_snapshot st = Some (Some (idx, t, snap mb))"
      "fits mb" "good mb" "baseIndex (s_log s) \<le> idx" "idx \<le> s_lastApplied s" "termAt (s_log s) idx = Some t"
      "replays M core (s_log s) idx (s_lastApplied s) mb m"
  using assms unfolding backed_def by blast

lemma backed_cong:
  assumes "backed M snap core good fits m0 s"
    and "s_log s' = s_log s" "s_lastApplied s' = s_lastApplied s" "s_sm s' = s_sm s"
    and "map_option st_snapshot (s_storage s') = map_option st_snapshot (s_storage s)"
  shows "backed M snap core good fits m0 s'"
  using assms(1)
proof (cases rule: backed_cases)
  case (none st m)
  obtain st' where st': "s_storage s' = Some st'" "st_snapshot st' = st_snapshot st"
    using assms(5) none(1) by auto
  show ?thesis using none assms(2-4) st' by (intro backed_noneI [OF st'(1), of m]) simp_all
next
  case (snap st m idx t mb)
  obtain st' where st': "s_storage s' = Some st'" "st_snapshot st' = st_snapshot st"
    using assms(5) snap(1) by auto
  show ?thesis using snap assms(2-4) st'
    by (intro backed_snapI [OF st'(1), where m = m and idx = idx and t = t and mb = mb]) simp_all
qed

text \<open>Only \<^verbatim>\<open>SaveSnapshot\<close> changes the stored snapshot.\<close>

abbreviation snap_store :: "'m Server \<Rightarrow> (nat \<times> nat \<times> bytes) option option option" where
  "snap_store s \<equiv> map_option st_snapshot (s_storage s)"

lemma snap_store_stored [simp]: "snap_store (stored_server s) = snap_store s"
  by (cases "s_storage s") (simp_all add: stored_server_storage)

lemma snap_store_save_applied [simp]: "snap_store (save_applied env s) = snap_store s"
  by (cases "s_storage s") (simp_all add: save_applied_def split: option.split)

lemma snap_store_applyCommitted:
  "applyCommitted M env s = Some s' \<Longrightarrow> snap_store s' = snap_store s"
  by (auto simp: applyCommitted_def split: Option.bind_splits)

lemma snap_store_commit_to: "commit_to M env a s = Some s' \<Longrightarrow> snap_store s' = snap_store s"
  by (erule commit_to_cases) (auto dest: snap_store_applyCommitted)

lemma snap_store_advance: "advanceCommitIndexLocked M env s = Some s' \<Longrightarrow> snap_store s' = snap_store s"
  by (erule advance_elim) (auto dest: snap_store_applyCommitted)

lemma snap_store_AppendEntries:
  assumes "AppendEntries M env a s = Some (r, s')" shows "snap_store s' = snap_store s"
  using assms
proof (cases rule: AppendEntries_elim)
  case (accepted s1 s3 s4)
  have "snap_store s3 = snap_store s"
    using protoD(12) [OF accepted(6)] accepted(1) by simp
  with accepted(8) snap_store_commit_to [OF accepted(9)] show ?thesis by simp
qed auto

lemma persistLocked_frame:
  assumes "persistLocked env s = (err, s')"
  shows "s_log s' = s_log s" "s_lastApplied s' = s_lastApplied s" "s_commitIndex s' = s_commitIndex s"
    "s_sm s' = s_sm s" "snap_store s' = snap_store s" "s_id s' = s_id s" "s_currentTerm s' = s_currentTerm s"
    "s_votedFor s' = s_votedFor s" "s_snapshot s' = s_snapshot s" "e_save_err env = None \<Longrightarrow> durable s'"
    "e_save_err env = None \<Longrightarrow> err = None"
  using assms by (cases rule: persistLocked_cases [of env s]; auto simp: stored_server_None)+

lemma server_inv_discard:
  assumes "server_inv s" "baseIndex (s_log s) \<le> idx" "idx \<le> s_lastApplied s"
  shows "server_inv (s\<lparr>s_log := discardThrough idx t (s_log s)\<rparr>)"
  using assms discardThrough_props [of "s_log s" idx t] by (simp add: server_inv_def)

text \<open>Replaying from the boundary does not see that the log was cut there.\<close>

lemma replays_discard:
  assumes "wf_log l" "baseIndex l \<le> idx" "idx \<le> lastIndex l"
  shows "replays M core (discardThrough idx t l) idx j mb m \<longleftrightarrow> replays M core l idx j mb m"
proof -
  have "entries_between (discardThrough idx t l) idx j = entries_between l idx j"
    by (rule entries_between_cong) (use discardThrough_lookup [OF assms] in auto)
  then show ?thesis by (simp add: replays_def)
qed

section \<open>Recovery, step by step\<close>

lemma replay_eq:
  assumes "wf_log l" "baseIndex l \<le> i" "j \<le> lastIndex l"
  shows "replay M l (i + 1) j m = map_option Inr (apply_entries M (entries_between l i j) m)"
  using assms(2)
proof (induction "j - i" arbitrary: i m)
  case 0
  then show ?case by (subst replay.simps) simp
next
  case (Suc n)
  have lt: "i < j" using Suc.hyps(2) by simp
  then obtain e where e: "entryAt l (i + 1) = Some e"
    using Suc.prems assms(3) by (auto simp: entryAt_def)
  have "replay M l (i + 1) j m = do { m \<leftarrow> apply_entry M e m; replay M l (i + 1 + 1) j m }"
    using lt e by (subst replay.simps) simp
  also have "\<dots> = do { m \<leftarrow> apply_entry M e m; map_option Inr (apply_entries M (entries_between l (i + 1) j) m) }"
    using Suc.hyps(1) [of "i + 1"] Suc.hyps(2) Suc.prems by simp
  also have "\<dots> = map_option Inr (apply_entries M (entries_between l i j) m)"
    using lt e by (cases "apply_entry M e m") (simp_all add: entries_between_Cons)
  finally show ?case .
qed

lemma restore_applied_eq:
  assumes "st_applied st = Some n" "s_sm s = Some m" "l_applied_err env = None" "wf_log (s_log s)"
    and "baseIndex (s_log s) \<le> n" "n \<le> lastIndex (s_log s)" "s_commitIndex s \<le> n" "s_lastApplied s \<le> n"
    and "apply_entries M (entries_between (s_log s) (baseIndex (s_log s)) n) (s_sm s) = Some m'"
  shows "restore_applied M env st s = Some (None, s\<lparr>s_sm := m', s_commitIndex := n, s_lastApplied := n\<rparr>)"
proof -
  have "replay M (s_log s) (baseIndex (s_log s) + 1) n (s_sm s) = Some (Inr m')"
    using replay_eq [OF assms(4) order_refl assms(6), of M "s_sm s"] assms(9) by simp
  then show ?thesis using assms by (simp add: restore_applied_def Let_def)
qed

text \<open>A log without empty commands survives the format of the persistent state.\<close>

definition no_empty_commands :: "Log \<Rightarrow> bool" where
  "no_empty_commands l \<longleftrightarrow> (\<forall>e \<in> set l. ent_Command e \<noteq> Some [])"

lemma map_stored: "no_empty_commands l \<Longrightarrow> map stored l = l"
  by (simp add: no_empty_commands_def stored_def map_idI)

lemma encodeState_not_Nil [simp]: "encodeState t v l \<noteq> []"
  by (simp add: encodeState_def)

text \<open>\<^verbatim>\<open>Restore\<close> up to the snapshot: term, vote and log are the stored ones.\<close>

lemma Restore_decoded:
  assumes "s_storage s0 = Some st" "st_saved st = encodeState t v l" "state_fits t v l" "no_empty_commands l"
    and "l \<noteq> []" "config_ok l" "l_load_err env = None"
  obtains s1 where "proto s1 = proto (s0\<lparr>s_currentTerm := t, s_votedFor := v, s_log := l, s_role := Follower\<rparr>)"
    "Restore M env s0 = (case restore_snapshot M env st (s1\<lparr>s_commitIndex := 0, s_lastApplied := 0\<rparr>) of
        (Some e, s) \<Rightarrow> Some (Some e, s) | (None, s) \<Rightarrow> restore_applied M env st s)"
proof -
  have d: "decodeState (st_saved st) = Some (Inr (t, v, l))"
    using decodeState_encode [OF assms(3)] assms(2) map_stored [OF assms(4)] by simp
  obtain s1 where s1: "adoptConfigFromLogLocked
      (s0\<lparr>s_currentTerm := t, s_votedFor := v, s_log := l, s_role := Follower\<rparr>) = Some s1"
    using adoptConfig_total [of "s0\<lparr>s_currentTerm := t, s_votedFor := v, s_log := l, s_role := Follower\<rparr>"] assms(6)
    by auto
  show thesis
  proof (rule that)
    show "proto s1 = proto (s0\<lparr>s_currentTerm := t, s_votedFor := v, s_log := l, s_role := Follower\<rparr>)"
      using adoptConfig_proto [OF s1] .
    show "Restore M env s0 = (case restore_snapshot M env st (s1\<lparr>s_commitIndex := 0, s_lastApplied := 0\<rparr>) of
        (Some e, s) \<Rightarrow> Some (Some e, s) | (None, s) \<Rightarrow> restore_applied M env st s)"
      using assms d s1 by (simp add: Restore_def)
  qed
qed

definition no_load_errors :: LoadEnv where
  "no_load_errors = \<lparr>l_load_err = None, l_snap_err = None, l_applied_err = None\<rparr>"

text \<open>The contract between a Raft server and the machine it replicates is that of a machine with
  snapshots; what a server may conclude from it follows.\<close>

locale raft_machine = snapshotting_machine app good snap restore core fits
  for app :: "nat \<Rightarrow> bytes \<Rightarrow> 'm \<Rightarrow> ('r \<times> 'm) option" and good and snap and restore and core :: "'m \<Rightarrow> 'c" and fits
begin

abbreviation "ops \<equiv> machine_ops app snap restore"

lemma apply_entry_core:
  assumes "core m = core m'" "apply_entry ops e (Some m) = Some (Some m1)"
  shows "\<exists>m1'. apply_entry ops e (Some m') = Some (Some m1') \<and> core m1' = core m1"
proof (cases "ent_Command e")
  case None
  with assms show ?thesis by (simp add: apply_entry_def)
next
  case (Some c)
  with assms(2) obtain r where "app (ent_Index e) c m = Some (r, m1)"
    by (auto simp: apply_entry_def machine_ops_def)
  with apply_core [OF assms(1), of "ent_Index e" c] obtain m1' where
    "app (ent_Index e) c m' = Some (r, m1')" "core m1' = core m1" by (cases "app (ent_Index e) c m'") auto
  with Some show ?thesis by (simp add: apply_entry_def machine_ops_def)
qed

lemma apply_entry_good:
  assumes "good m" shows "\<exists>m1. apply_entry ops e (Some m) = Some (Some m1) \<and> good m1"
proof (cases "ent_Command e")
  case (Some c)
  with apply_total [OF assms, of "ent_Index e" c] show ?thesis
    by (auto simp: apply_entry_def machine_ops_def)
qed (use assms in \<open>simp add: apply_entry_def\<close>)

lemma apply_entries_core:
  assumes "core m = core m'" "apply_entries ops es (Some m) = Some (Some m1)"
  shows "\<exists>m1'. apply_entries ops es (Some m') = Some (Some m1') \<and> core m1' = core m1"
  using assms
proof (induction es arbitrary: m m')
  case (Cons e es)
  from Cons.prems(2) obtain x where x: "apply_entry ops e (Some m) = Some x" "apply_entries ops es x = Some (Some m1)"
    by (auto split: Option.bind_splits)
  then obtain m2 where m2: "x = Some m2"
    by (cases "ent_Command e") (auto simp: apply_entry_def split: option.splits)
  with apply_entry_core [OF Cons.prems(1)] x obtain m2' where
    "apply_entry ops e (Some m') = Some (Some m2')" "core m2' = core m2" by blast
  with Cons.IH [of m2 m2'] x m2 show ?case by auto
qed simp

lemma apply_entries_good:
  assumes "good m" shows "\<exists>m1. apply_entries ops es (Some m) = Some (Some m1) \<and> good m1"
  using assms
proof (induction es arbitrary: m)
  case (Cons e es)
  from apply_entry_good [OF Cons.prems, of e] Cons.IH show ?case by fastforce
qed simp

lemma replays_refl: "core mb = core m \<Longrightarrow> replays ops core l i i mb m"
  by (simp add: replays_def)

text \<open>Extending a replay by newly applied entries, on a log that agrees up to there.\<close>

lemma replays_extend:
  assumes "replays ops core l i j mb m" "i \<le> j" "j \<le> k"
    and "\<And>n. n \<le> j \<Longrightarrow> entryAt l' n = entryAt l n"
    and "apply_entries ops (entries_between l' j k) (Some m) = Some (Some m1)"
  shows "replays ops core l' i k mb m1"
proof -
  obtain m' where m': "apply_entries ops (entries_between l i j) (Some mb) = Some (Some m')" "core m' = core m"
    using assms(1) by (auto simp: replays_def)
  have eq: "entries_between l' i j = entries_between l i j"
    by (rule entries_between_cong) (use assms(4) in auto)
  obtain m1' where "apply_entries ops (entries_between l' j k) (Some m') = Some (Some m1')" "core m1' = core m1"
    using apply_entries_core [OF m'(2) [symmetric] assms(5)] by blast
  with m' eq show ?thesis
    by (auto simp: replays_def entries_between_append [OF assms(2,3)] apply_entries_append)
qed

text \<open>Applying more entries keeps \<open>backed\<close>.\<close>

lemma backed_extend:
  assumes b: "backed ops snap core good fits m0 s"
    and le: "s_lastApplied s \<le> s_lastApplied s'"
    and same: "\<And>n. n \<le> s_lastApplied s \<Longrightarrow> entryAt (s_log s') n = entryAt (s_log s) n"
    and base: "baseIndex (s_log s') = baseIndex (s_log s)"
    and ap: "apply_entries ops (entries_between (s_log s') (s_lastApplied s) (s_lastApplied s')) (s_sm s) = Some (s_sm s')"
    and st: "map_option st_snapshot (s_storage s') = map_option st_snapshot (s_storage s)"
  shows "backed ops snap core good fits m0 s'"
proof -
  obtain st m where s: "s_storage s = Some st" "s_sm s = Some m" "good m"
    using b by (cases rule: backed_cases) auto
  obtain m1 where m1: "apply_entries ops (entries_between (s_log s') (s_lastApplied s) (s_lastApplied s')) (Some m)
      = Some (Some m1)" "good m1"
    using apply_entries_good [OF s(3)] by blast
  with ap s(2) have sm': "s_sm s' = Some m1" by simp
  obtain st' where st': "s_storage s' = Some st'" "st_snapshot st' = st_snapshot st"
    using st s(1) by auto
  have ext: "replays ops core (s_log s') i (s_lastApplied s') mb m1"
    if "replays ops core (s_log s) i (s_lastApplied s) mb m" "i \<le> s_lastApplied s" for i mb
    using replays_extend [OF that le same m1(1)] by blast
  from b show ?thesis
  proof (cases rule: backed_cases)
    case none
    with ext [of 0 m0] s st' base show ?thesis by (intro backed_noneI [OF st'(1) sm'] m1(2)) simp_all
  next
    case (snap _ _ idx t mb)
    with same have "termAt (s_log s') idx = Some t" by (simp add: termAt_def)
    with snap ext [of idx mb] s st' base le show ?thesis
      by (intro m1(2) backed_snapI [OF st'(1) sm', where idx = idx and t = t and mb = mb]) simp_all
  qed
qed

lemma AppendEntries_backed:
  assumes "AppendEntries ops env a s = Some (r, s')" "server_inv s" "sound_append a s"
    and "backed ops snap core good fits m0 s"
  shows "backed ops snap core good fits m0 s'"
proof (rule backed_extend [OF assms(4)])
  note inv = server_invD [OF assms(2)]
  have inv': "server_inv s'" using AppendEntries_inv [OF assms(1-3)] .
  show "snap_store s' = snap_store s" using snap_store_AppendEntries [OF assms(1)] .
  show "entryAt (s_log s') n = entryAt (s_log s) n" if "n \<le> s_lastApplied s" for n
    using AppendEntries_keeps_committed [OF assms(1-3)] that inv(3) by simp
  show "s_lastApplied s \<le> s_lastApplied s'" "baseIndex (s_log s') = baseIndex (s_log s)"
    "apply_entries ops (entries_between (s_log s') (s_lastApplied s) (s_lastApplied s')) (s_sm s) = Some (s_sm s')"
    using AppendEntries_accepted_inv [OF assms(1) _ assms(2,3)] AppendEntries_refused [OF assms(1)]
      appendFrom_wf [OF inv(1)] server_invD(3) [OF inv'] inv(3)
    by (cases "aer_Success r"; simp)+
qed

lemma advance_backed:
  assumes "advanceCommitIndexLocked ops env s = Some s'" "server_inv s" "backed ops snap core good fits m0 s"
  shows "backed ops snap core good fits m0 s'"
proof (rule backed_extend [OF assms(3)])
  note c = advance_commit(1-3) [OF assms(1,2)] and f = advance_frame [OF assms(1)]
  note inv = server_invD(3) [OF assms(2)] server_invD(3) [OF c(1)]
  show "s_lastApplied s \<le> s_lastApplied s'" using c(3) inv by auto
  show "entryAt (s_log s') n = entryAt (s_log s) n" for n using f by simp
  show "baseIndex (s_log s') = baseIndex (s_log s)" using f by simp
  show "apply_entries ops (entries_between (s_log s') (s_lastApplied s) (s_lastApplied s')) (s_sm s) = Some (s_sm s')"
    using c(2) f inv by simp
  show "snap_store s' = snap_store s" using snap_store_advance [OF assms(1)] .
qed

text \<open>Compaction: a snapshot is only taken of what is applied, and it is stored before the log is cut.\<close>

lemma compact_begin_Some:
  assumes "compact_begin ops threshold s = Inr (Some (idx, t, data))" "server_inv s"
  obtains st m where "s_storage s = Some st" "st_snapshot st \<noteq> None" "s_sm s = Some m" "data = snap m"
    "idx = s_lastApplied s" "termAt (s_log s) idx = Some t" "baseIndex (s_log s) < idx"
proof -
  note inv = server_invD [OF assms(2)]
  from assms(1) obtain st m e where
    x: "s_storage s = Some st" "st_snapshot st \<noteq> None" "s_sm s = Some m" "data = snap m"
      "entryAt (s_log s) (s_lastApplied s) = Some e" "idx = ent_Index e" "t = ent_Term e"
      "baseIndex (s_log s) < s_lastApplied s"
    by (auto simp: compact_begin_def machine_ops_def Let_def split: option.splits if_splits Option.bind_splits)
  moreover have "idx = s_lastApplied s" using entryAt_Index [OF inv(1) x(5)] x(6) by simp
  ultimately show thesis using that by (simp add: termAt_def)
qed

lemma save_snapshot_backed:
  assumes "compact_begin ops threshold s = Inr (Some x)" "server_inv s" "backed ops snap core good fits m0 s"
    and "\<forall>m. s_sm s = Some m \<longrightarrow> fits m" "save_snapshot env x s = (err, s')"
  shows "backed ops snap core good fits m0 s'" "s_log s' = s_log s" "s_lastApplied s' = s_lastApplied s"
    "s_commitIndex s' = s_commitIndex s" "s_sm s' = s_sm s"
proof -
  show f: "s_log s' = s_log s" "s_lastApplied s' = s_lastApplied s" "s_commitIndex s' = s_commitIndex s" "s_sm s' = s_sm s"
    using assms(5) by (auto simp: save_snapshot_def split: option.splits)
  obtain idx t data where x: "x = (idx, t, data)" by (cases x)
  obtain st m where m: "s_storage s = Some st" "s_sm s = Some m" "data = snap m"
    "idx = s_lastApplied s" "termAt (s_log s) idx = Some t" "baseIndex (s_log s) < idx"
    using compact_begin_Some [OF assms(1) [unfolded x] assms(2)] by blast
  have g: "good m" using assms(3) m(2) by (auto simp: backed_def)
  show "backed ops snap core good fits m0 s'"
  proof (cases "e_snap_err env")
    case None
    then have st': "s_storage s' = Some (st\<lparr>st_snapshot := Some (Some x)\<rparr>)"
      using assms(5) m(1) by (auto simp: save_snapshot_def)
    show ?thesis
      using m x f g assms(4) replays_refl [of m m "s_log s" "s_lastApplied s"]
      by (intro backed_snapI [OF st', where m = m and idx = idx and t = t and mb = m]) simp_all
  next
    case (Some e)
    then have "s' = s" using assms(5) by (simp add: save_snapshot_def)
    with assms(3) show ?thesis by simp
  qed
qed

lemma compact_finish_backed:
  assumes "compact_finish env x s = ((b, err), s')" "server_inv s" "backed ops snap core good fits m0 s"
    and x: "x = (idx, t, data)" and st: "snap_store s = Some (Some (Some x))"
  shows "backed ops snap core good fits m0 s'" "server_inv s'" "s_lastApplied s' = s_lastApplied s"
    "s_sm s' = s_sm s" "lastIndex (s_log s') = lastIndex (s_log s)"
    "\<forall>i. baseIndex (s_log s') < i \<longrightarrow> entryAt (s_log s') i = entryAt (s_log s) i"
    "b \<Longrightarrow> baseIndex (s_log s') = idx \<and> termAt (s_log s') idx = termAt (s_log s) idx"
proof -
  note inv = server_invD [OF assms(2)]
  obtain st m mb where b: "s_storage s = Some st" "s_sm s = Some m" "good m"
    "st_snapshot st = Some (Some (idx, t, snap mb))" "fits mb" "good mb"
    "baseIndex (s_log s) \<le> idx" "idx \<le> s_lastApplied s" "termAt (s_log s) idx = Some t"
    "replays ops core (s_log s) idx (s_lastApplied s) mb m"
    using assms(3) st x by (cases rule: backed_cases) auto
  have r: "baseIndex (s_log s) \<le> idx" "idx \<le> lastIndex (s_log s)" using b inv by auto
  have "s' = s \<and> \<not> b \<or> (\<exists>s1. s1 = s\<lparr>s_log := discardThrough idx t (s_log s),
        s_snapshot := Some \<lparr>lastIncludedIndex = idx, lastIncludedTerm = t, snap_data = data\<rparr>\<rparr>
      \<and> persistLocked env s1 = (err, s'))"
    using assms(1) unfolding x
    by (auto simp: compact_finish_def Let_def split: if_splits option.splits prod.splits)
  then have "backed ops snap core good fits m0 s' \<and> server_inv s' \<and> s_lastApplied s' = s_lastApplied s
    \<and> s_sm s' = s_sm s \<and> lastIndex (s_log s') = lastIndex (s_log s)
    \<and> (\<forall>i. baseIndex (s_log s') < i \<longrightarrow> entryAt (s_log s') i = entryAt (s_log s) i)
    \<and> (b \<longrightarrow> baseIndex (s_log s') = idx \<and> termAt (s_log s') idx = termAt (s_log s) idx)"
  proof (elim disjE exE conjE)
    fix s1
    assume s1: "s1 = s\<lparr>s_log := discardThrough idx t (s_log s),
        s_snapshot := Some \<lparr>lastIncludedIndex = idx, lastIncludedTerm = t, snap_data = data\<rparr>\<rparr>"
      and p: "persistLocked env s1 = (err, s')"
    note f = persistLocked_frame [OF p]
    note d = discardThrough_props [OF inv(1) r, of t] and tm = discardThrough_termAt [OF inv(1) r b(9)]
    have inv1: "server_inv s1" using server_inv_discard [OF assms(2) r(1) b(8), of t]
      by (simp add: s1 server_inv_def)
    have "backed ops snap core good fits m0 s1"
      using b d tm [of idx] replays_discard [OF inv(1) r, of ops core t]
      by (intro backed_snapI [where st = st and m = m and idx = idx and t = t and mb = mb]) (simp_all add: s1)
    then have "backed ops snap core good fits m0 s'" by (rule backed_cong) (use f in auto)
    moreover have "server_inv s'" using inv1 f by (simp add: server_inv_def)
    ultimately show ?thesis
      using f d tm [of idx] discardThrough_lookup [OF inv(1) r] by (auto simp: s1)
  qed (use assms(2,3) in auto)
  then show "backed ops snap core good fits m0 s'" "server_inv s'" "s_lastApplied s' = s_lastApplied s"
    "s_sm s' = s_sm s" "lastIndex (s_log s') = lastIndex (s_log s)"
    "\<forall>i. baseIndex (s_log s') < i \<longrightarrow> entryAt (s_log s') i = entryAt (s_log s) i"
    "b \<Longrightarrow> baseIndex (s_log s') = idx \<and> termAt (s_log s') idx = termAt (s_log s) idx"
    by blast+
qed

lemma MaybeCompact_backed:
  assumes "MaybeCompact ops env threshold s = ((b, err), s')" "server_inv s" "backed ops snap core good fits m0 s"
    and fit: "\<forall>m. s_sm s = Some m \<longrightarrow> fits m"
  shows "backed ops snap core good fits m0 s'" "server_inv s'" "s_lastApplied s' = s_lastApplied s"
    "s_sm s' = s_sm s" "lastIndex (s_log s') = lastIndex (s_log s)"
    "\<forall>i. baseIndex (s_log s') < i \<longrightarrow> entryAt (s_log s') i = entryAt (s_log s) i"
    "b \<Longrightarrow> baseIndex (s_log s') = s_lastApplied s"
proof -
  consider (no) "s' = s" "\<not> b"
    | (failed) x e where "compact_begin ops threshold s = Inr (Some x)" "save_snapshot env x s = (Some e, s')" "\<not> b"
    | (cut) x s1 where "compact_begin ops threshold s = Inr (Some x)" "save_snapshot env x s = (None, s1)"
        "compact_finish env x s1 = ((b, err), s')"
    using assms(1) by (auto simp: MaybeCompact_def split: sum.splits option.splits prod.splits)
  then have "backed ops snap core good fits m0 s' \<and> server_inv s' \<and> s_lastApplied s' = s_lastApplied s
    \<and> s_sm s' = s_sm s \<and> lastIndex (s_log s') = lastIndex (s_log s)
    \<and> (\<forall>i. baseIndex (s_log s') < i \<longrightarrow> entryAt (s_log s') i = entryAt (s_log s) i)
    \<and> (b \<longrightarrow> baseIndex (s_log s') = s_lastApplied s)"
  proof cases
    case no
    with assms(2,3) show ?thesis by simp
  next
    case failed
    with save_snapshot_backed [OF failed(1) assms(2,3) fit failed(2)] assms(2) show ?thesis
      by (simp add: server_inv_def)
  next
    case cut
    note sv = save_snapshot_backed [OF cut(1) assms(2,3) fit cut(2)]
    obtain idx t data where x: "x = (idx, t, data)" by (cases x)
    obtain st where st: "s_storage s = Some st" "idx = s_lastApplied s"
      using compact_begin_Some [OF cut(1) [unfolded x] assms(2)] by blast
    have "snap_store s1 = Some (Some (Some x))" using cut(2) st by (auto simp: save_snapshot_def split: option.splits)
    moreover have "server_inv s1" using assms(2) sv by (simp add: server_inv_def)
    ultimately show ?thesis using compact_finish_backed [OF cut(3) _ sv(1) x] sv st(2) by auto
  qed
  then show "backed ops snap core good fits m0 s'" "server_inv s'" "s_lastApplied s' = s_lastApplied s"
    "s_sm s' = s_sm s" "lastIndex (s_log s') = lastIndex (s_log s)"
    "\<forall>i. baseIndex (s_log s') < i \<longrightarrow> entryAt (s_log s') i = entryAt (s_log s) i"
    "b \<Longrightarrow> baseIndex (s_log s') = s_lastApplied s"
    by blast+
qed

text \<open>A snapshot of a leader whose machine fits: a follower that installs it, its snapshot storage
  working, has it as the new base.\<close>

lemma install_backed:
  assumes s: "s_storage s = Some st" "st_snapshot st \<noteq> None" "wf_log (s_log s)"
      "s_lastApplied s = s_commitIndex s" "s_commitIndex s < is_LastIncludedIndex a"
      "baseIndex (s_log s) < is_LastIncludedIndex a"
    and m: "s_sm s = Some m" "good m" "core m = core mb" "is_Data a = snap mb" "fits mb" "good mb"
    and env: "e_snap_err env = None"
  shows "backed ops snap core good fits m0 (install env a s) \<and> server_inv (install env a s)
    \<and> s_lastApplied (install env a s) = is_LastIncludedIndex a \<and> s_sm (install env a s) = Some m"
proof -
  let ?idx = "is_LastIncludedIndex a" and ?t = "is_LastIncludedTerm a"
  define l where "l = (case entryAt (s_log s) ?idx of
        Some e \<Rightarrow> (if ent_Term e = ?t then discardThrough ?idx ?t (s_log s)
                  else [\<lparr>ent_Term = ?t, ent_Index = ?idx, ent_Command = None\<rparr>])
      | None \<Rightarrow> [\<lparr>ent_Term = ?t, ent_Index = ?idx, ent_Command = None\<rparr>])"
  have l: "wf_log l" "baseIndex l = ?idx" "?idx \<le> lastIndex l" "termAt l ?idx = Some ?t"
  proof -
    have "wf_log l \<and> baseIndex l = ?idx \<and> ?idx \<le> lastIndex l \<and> termAt l ?idx = Some ?t"
    proof (cases "\<exists>e. entryAt (s_log s) ?idx = Some e \<and> ent_Term e = ?t")
      case True
      then obtain e where e: "entryAt (s_log s) ?idx = Some e" "ent_Term e = ?t" by blast
      then have r: "baseIndex (s_log s) \<le> ?idx" "?idx \<le> lastIndex (s_log s)" "termAt (s_log s) ?idx = Some ?t"
        using entryAt_range [OF e(1)] by (auto simp: termAt_def)
      from e have "l = discardThrough ?idx ?t (s_log s)" by (simp add: l_def)
      with discardThrough_props [OF s(3) r(1,2), of ?t] discardThrough_termAt [OF s(3) r, of ?idx] r show ?thesis
        by simp
    next
      case False
      then have "l = [\<lparr>ent_Term = ?t, ent_Index = ?idx, ent_Command = None\<rparr>]"
        by (auto simp: l_def split: option.split)
      then show ?thesis by (simp add: baseIndex_def lastIndex_def termAt_def entryAt_def slot_def)
    qed
    then show "wf_log l" "baseIndex l = ?idx" "?idx \<le> lastIndex l" "termAt l ?idx = Some ?t" by blast+
  qed
  define s1 where "s1 = s\<lparr>s_log := l, s_lastApplied := ?idx, s_commitIndex := ?idx,
      s_snapshot := Some \<lparr>lastIncludedIndex = ?idx, lastIncludedTerm = ?t, snap_data = is_Data a\<rparr>,
      s_storage := Some (st\<lparr>st_snapshot := Some (Some (?idx, ?t, is_Data a))\<rparr>)\<rparr>"
  obtain err s2 where p: "persistLocked env s1 = (err, s2)" by (cases "persistLocked env s1")
  have i: "install env a s = note_snapshot_error err s2"
    using s p env by (auto simp: install_def Let_def save_snapshot_def note_snapshot_error_def s1_def l_def)
  have st1: "s_storage s1 = Some (st\<lparr>st_snapshot := Some (Some (?idx, ?t, is_Data a))\<rparr>)" by (simp add: s1_def)
  have "backed ops snap core good fits m0 s1"
    using m l replays_refl [of mb m l ?idx]
    by (intro m(2) backed_snapI [OF st1, where m = m and idx = ?idx and t = ?t and mb = mb]) (simp_all add: s1_def)
  moreover have "server_inv s1" using l by (simp add: server_inv_def s1_def)
  moreover have f: "s_log (note_snapshot_error err s2) = s_log s1" "s_lastApplied (note_snapshot_error err s2) = ?idx"
    "s_commitIndex (note_snapshot_error err s2) = s_commitIndex s1" "s_sm (note_snapshot_error err s2) = s_sm s1"
    "snap_store (note_snapshot_error err s2) = snap_store s1"
    using persistLocked_frame [OF p] by (simp_all add: note_snapshot_error_def s1_def split: option.split)
  ultimately show ?thesis
    unfolding i using f m(1) backed_cong [of ops snap core good fits m0 s1 "note_snapshot_error err s2"]
    by (auto simp: server_inv_def s1_def)
qed

lemma InstallSnapshot_backed:
  assumes "InstallSnapshot ops env a s = (r, s')" "server_inv s" "backed ops snap core good fits m0 s"
    and "is_Data a = snap mb" "fits mb" "good mb" "e_snap_err env = None"
  shows "backed ops snap core good fits m0 s' \<and> server_inv s'
    \<and> (s_lastApplied s' = s_lastApplied s \<and> s_sm s' = s_sm s
       \<or> s_lastApplied s' = is_LastIncludedIndex a \<and> (\<exists>m. s_sm s' = Some m \<and> core m = core mb))"
proof -
  define s1 where "s1 = resetElectionTimerLocked env ((if is_Term a > s_currentTerm s
      then s\<lparr>s_currentTerm := is_Term a, s_votedFor := None, s_role := Follower\<rparr> else s)\<lparr>s_leaderID := is_LeaderID a\<rparr>)"
  have f: "s_log s1 = s_log s" "s_lastApplied s1 = s_lastApplied s" "s_commitIndex s1 = s_commitIndex s"
    "s_sm s1 = s_sm s" "s_storage s1 = s_storage s"
    by (simp_all add: s1_def)
  note inv = server_invD [OF assms(2)]
  obtain st m where b: "s_storage s = Some st" "s_sm s = Some m" "st_snapshot st \<noteq> None"
    using assms(3) by (cases rule: backed_cases) auto
  obtain m1 where m1: "restore (is_Data a) m = (None, m1)" "core m1 = core mb" "good m1"
    using restore_snap [OF assms(5), of m] restore_inv [OF assms(5,6), of m] assms(4) by auto
  have b1: "backed ops snap core good fits m0 s1" by (rule backed_cong [OF assms(3)]) (simp_all add: f)
  have i1: "server_inv s1" using assms(2) by (simp add: server_inv_def f)
  have e: "snd (InstallSnapshot ops env a s) =
      (if is_Term a < s_currentTerm s then s
       else if is_LastIncludedIndex a \<le> baseIndex (s_log s) \<or> is_LastIncludedIndex a \<le> s_lastApplied s then s1
       else install env a (s1\<lparr>s_sm := Some m1\<rparr>))"
    unfolding InstallSnapshot_def Let_def s1_def [symmetric] f b(2)
    by (simp add: machine_ops_def m1(1))
  show ?thesis
  proof (cases "is_Term a < s_currentTerm s \<or> is_LastIncludedIndex a \<le> baseIndex (s_log s)
      \<or> is_LastIncludedIndex a \<le> s_lastApplied s")
    case True
    then have "s' = s \<or> s' = s1" using e assms(1) by (auto split: if_splits)
    then show ?thesis using assms(2,3) b1 i1 f by auto
  next
    case False
    then have s': "s' = install env a (s1\<lparr>s_sm := Some m1\<rparr>)" using e assms(1) by simp
    have "backed ops snap core good fits m0 s' \<and> server_inv s' \<and> s_lastApplied s' = is_LastIncludedIndex a \<and> s_sm s' = Some m1"
      unfolding s' by (rule install_backed [where st = st and mb = mb]) (use b f inv m1 assms(4-7) False in auto)
    with m1(2) show ?thesis by blast
  qed
qed

text \<open>Restarting from storage.\<close>

lemma Restore_recovers:
  assumes s: "durable s" "server_inv s" "backed ops snap core good fits m0 s"
    and st: "s_storage s = Some st" "st_applied st = Some (s_lastApplied s)"
    and fit: "state_fits (s_currentTerm s) (s_votedFor s) (s_log s)" "no_empty_commands (s_log s)" "config_ok (s_log s)"
    and s0: "s_storage s0 = Some st" "s_sm s0 = Some m0"
  shows "\<exists>s' m m'. Restore ops no_load_errors s0 = Some (None, s') \<and> server_inv s'
    \<and> s_currentTerm s' = s_currentTerm s \<and> s_votedFor s' = s_votedFor s \<and> s_role s' = Follower
    \<and> s_lastApplied s' = s_lastApplied s \<and> s_commitIndex s' = s_commitIndex s
    \<and> lastIndex (s_log s') = lastIndex (s_log s) \<and> baseIndex (s_log s) \<le> baseIndex (s_log s')
    \<and> (\<forall>i. baseIndex (s_log s') \<le> i \<longrightarrow> termAt (s_log s') i = termAt (s_log s) i)
    \<and> (\<forall>i. baseIndex (s_log s') < i \<longrightarrow> entryAt (s_log s') i = entryAt (s_log s) i)
    \<and> s_sm s = Some m \<and> s_sm s' = Some m' \<and> core m' = core m"
proof -
  let ?n = "s_lastApplied s" and ?l = "s_log s"
  note inv = server_invD [OF s(2)]
  have saved: "st_saved st = encodeState (s_currentTerm s) (s_votedFor s) ?l"
    using s(1) st(1) by (simp add: durable_def)
  obtain s1 where s1: "proto s1 = proto (s0\<lparr>s_currentTerm := s_currentTerm s, s_votedFor := s_votedFor s, s_log := ?l, s_role := Follower\<rparr>)"
    and R: "Restore ops no_load_errors s0 = (case restore_snapshot ops no_load_errors st (s1\<lparr>s_commitIndex := 0, s_lastApplied := 0\<rparr>) of
        (Some e, s) \<Rightarrow> Some (Some e, s) | (None, s) \<Rightarrow> restore_applied ops no_load_errors st s)"
    by (rule Restore_decoded [OF s0(1) saved fit(1,2) wf_log_not_Nil [OF inv(1)] fit(3), of no_load_errors ops])
      (simp_all add: no_load_errors_def)
  define s2 where "s2 = s1\<lparr>s_commitIndex := 0, s_lastApplied := 0\<rparr>"
  have s2: "s_log s2 = ?l" "s_currentTerm s2 = s_currentTerm s" "s_votedFor s2 = s_votedFor s" "s_role s2 = Follower"
    "s_sm s2 = Some m0" "s_commitIndex s2 = 0" "s_lastApplied s2 = 0"
    using protoD [OF s1] s0(2) by (simp_all add: s2_def)
  have fin: "restore_applied ops no_load_errors st s3 = Some (None, s3\<lparr>s_sm := Some m', s_commitIndex := ?n, s_lastApplied := ?n\<rparr>)"
    if "s_sm s3 = Some x" "wf_log (s_log s3)" "baseIndex (s_log s3) \<le> ?n" "lastIndex (s_log s3) = lastIndex ?l"
      "s_commitIndex s3 \<le> ?n" "s_lastApplied s3 \<le> ?n"
      "apply_entries ops (entries_between (s_log s3) (baseIndex (s_log s3)) ?n) (s_sm s3) = Some (Some m')" for s3 x m'
    by (rule restore_applied_eq [OF st(2) that(1)]) (use that inv in \<open>simp_all add: no_load_errors_def\<close>)
  from s(3) show ?thesis
  proof (cases rule: backed_cases)
    case (none st' m)
    have "restore_snapshot ops no_load_errors st s2 = (None, s2)"
      using none st(1) s2(5) by (simp add: restore_snapshot_def no_load_errors_def)
    moreover obtain m' where m': "apply_entries ops (entries_between ?l 0 ?n) (Some m0) = Some (Some m')" "core m' = core m"
      using none(6) by (auto simp: replays_def)
    ultimately have "Restore ops no_load_errors s0 = Some (None, s2\<lparr>s_sm := Some m', s_commitIndex := ?n, s_lastApplied := ?n\<rparr>)"
      using R fin [of s2 m0 m'] s2 inv none(5) unfolding s2_def [symmetric] by simp
    with s2 m' none(2) inv show ?thesis
      by (intro exI [of _ "s2\<lparr>s_sm := Some m', s_commitIndex := ?n, s_lastApplied := ?n\<rparr>"] exI [of _ m] exI [of _ m'])
        (simp add: server_inv_def)
  next
    case (snap st' m idx t mb)
    obtain m1 where m1: "restore (snap mb) m0 = (None, m1)" "core m1 = core mb"
      using restore_snap [OF snap(5), of m0] by blast
    let ?l2 = "if baseIndex ?l < idx then discardThrough idx t ?l else ?l"
    define s3 where "s3 = s2\<lparr>s_sm := Some m1,
        s_snapshot := Some \<lparr>lastIncludedIndex = idx, lastIncludedTerm = t, snap_data = snap mb\<rparr>,
        s_commitIndex := idx, s_lastApplied := idx, s_log := ?l2\<rparr>"
    obtain e where e: "entryAt ?l idx = Some e" "ent_Term e = t"
      using snap(9) by (auto simp: termAt_def split: option.splits)
    have r: "baseIndex ?l \<le> idx" "idx \<le> lastIndex ?l" using snap(7,8) inv by auto
    have l2: "wf_log ?l2" "baseIndex ?l2 = idx" "lastIndex ?l2 = lastIndex ?l"
      using discardThrough_props [OF inv(1) r, of t] inv(1) r by auto
    have t2: "termAt ?l2 i = termAt ?l i" if "idx \<le> i" for i
      using discardThrough_termAt [OF inv(1) r snap(9) that] by simp
    have e2: "entryAt ?l2 i = entryAt ?l i" if "idx < i" for i
      using discardThrough_lookup [OF inv(1) r that] by simp
    have "restore_snapshot ops no_load_errors st s2 = (None, s3)"
      using snap st(1) s2(1,5) m1(1) e by (simp add: restore_snapshot_def no_load_errors_def machine_ops_def s3_def)
    moreover obtain m' where m': "apply_entries ops (entries_between ?l idx ?n) (Some mb) = Some (Some m')" "core m' = core m"
      using snap(10) by (auto simp: replays_def)
    moreover have "entries_between ?l2 idx ?n = entries_between ?l idx ?n"
      by (rule entries_between_cong) (use e2 in auto)
    moreover obtain m'' where m'': "apply_entries ops (entries_between ?l idx ?n) (Some m1) = Some (Some m'')" "core m'' = core m'"
      using apply_entries_core [OF m1(2) [symmetric] m'(1)] by blast
    ultimately have "Restore ops no_load_errors s0 = Some (None, s3\<lparr>s_sm := Some m'', s_commitIndex := ?n, s_lastApplied := ?n\<rparr>)"
      using R fin [of s3 m1 m''] l2 snap(8) unfolding s2_def [symmetric] by (simp add: s3_def)
    with s2 m' m'' snap(2,8) inv l2 t2 e2 r show ?thesis
      by (intro exI [of _ "s3\<lparr>s_sm := Some m'', s_commitIndex := ?n, s_lastApplied := ?n\<rparr>"] exI [of _ m] exI [of _ m''])
        (simp add: server_inv_def s3_def del: if_split)
  qed
qed

end

end
