(* ===== verification/RaftShard.thy ===== *)
theory RaftShard
  imports RaftSnapshot ShardSnapshot
begin

text \<open>
  A shard replica: a Raft server whose state machine is a shard (src/shard/machine.go behind the
  interfaces of src/raft). The contract \<open>snapshotting_machine\<close> that the shard satisfies gives the Raft
  side its facts: a replica's machine is always what its log says, and a replica restarted from its
  storage has the balances, reservations, transaction records and replies it had.
\<close>

definition shard_ops :: "ShardMachine SMOps" where
  "shard_ops = machine_ops ApplyAt ShardSnapshot ShardRestoreSnapshot"

interpretation shard_raft: raft_machine ApplyAt shard_inv ShardSnapshot ShardRestoreSnapshot
  shard_core shard_snap_ok
  by unfold_locales

text \<open>The replica of shard \<open>sid\<close> runs the machine its log and stored snapshot give.\<close>

definition replica_backed :: "ShardID \<Rightarrow> ShardMachine Server \<Rightarrow> bool" where
  "replica_backed sid s \<longleftrightarrow>
     backed shard_ops ShardSnapshot shard_core shard_inv shard_snap_ok (NewShardMachine sid New) s"

lemmas replica_defs = replica_backed_def shard_ops_def

lemma replica_backed_new:
  assumes "s_storage s = Some st" "s_sm s = Some (NewShardMachine sid New)" "st_snapshot st = Some None"
    "baseIndex (s_log s) = 0" "s_lastApplied s = 0"
  shows "replica_backed sid s"
  unfolding replica_defs
  by (intro backed_noneI [OF assms(1,2)] shard_inv_New assms(3,4))
    (simp add: assms(5) shard_raft.replays_refl)


definition sample_store :: Store where
  "sample_store = \<lparr>st_saved = [], st_applied = Some 0, st_snapshot = Some None\<rparr>"

definition sample_replica :: "ShardMachine Server" where
  "sample_replica = SetStorage (Some sample_store) (NewServer ''n2'' [''n1'', ''n2'', ''n3''] (Some (NewShardMachine ''A'' New)))"

lemma sample_replica_ok: "replica_backed ''A'' sample_replica" "server_inv sample_replica"
  by (rule replica_backed_new [where st = sample_store])
    (simp_all add: sample_replica_def sample_store_def SetStorage_def NewServer_def NewServerWith_def
      baseIndex_def sentinel_def server_inv_def lastIndex_def)


text \<open>C27: a shard replica that restarts from its storage, with its applied marker written, comes back with the
  term, the vote, the log after the snapshot boundary and the applied index it had, and with a
  machine that has the same balances, reservations, idempotency records, transaction records
  and results; only timestamps of transactions behind the boundary may differ.\<close>

theorem shard_replica_recovers:
  assumes "durable s" "server_inv s" "replica_backed sid s"
    and "s_storage s = Some st" "st_applied st = Some (s_lastApplied s)"
    and "state_fits (s_currentTerm s) (s_votedFor s) (s_log s)" "no_empty_commands (s_log s)" "config_ok (s_log s)"
    and "s0 = SetStorage (Some st) (NewServer i peers (Some (NewShardMachine sid New)))"
  shows "\<exists>s' m m'. Restore shard_ops no_load_errors s0 = Some (None, s') \<and> server_inv s'
    \<and> s_currentTerm s' = s_currentTerm s \<and> s_votedFor s' = s_votedFor s
    \<and> s_lastApplied s' = s_lastApplied s \<and> lastIndex (s_log s') = lastIndex (s_log s)
    \<and> (\<forall>j. baseIndex (s_log s') < j \<longrightarrow> entryAt (s_log s') j = entryAt (s_log s) j)
    \<and> s_sm s = Some m \<and> s_sm s' = Some m'
    \<and> unstamp_state (sm_State m') = unstamp_state (sm_State m)
    \<and> fmmap unstamp_rec (sm_txs m') = fmmap unstamp_rec (sm_txs m) \<and> sm_results m' = sm_results m"
proof -
  have s0: "s_storage s0 = Some st" "s_sm s0 = Some (NewShardMachine sid New)"
    by (simp_all add: assms(9) SetStorage_def NewServer_def NewServerWith_def)
  show ?thesis
    using shard_raft.Restore_recovers [OF assms(1,2) assms(3) [unfolded replica_defs] assms(4-8) s0]
    unfolding shard_ops_def shard_core_def by fastforce
qed

definition sample_voter :: "ShardMachine Server" where
  "sample_voter = stored_server (sample_replica\<lparr>s_currentTerm := 3, s_votedFor := Some ''n1''\<rparr>)"

lemma sample_voter_ok:
  "durable sample_voter" "server_inv sample_voter" "replica_backed ''A'' sample_voter"
  "s_storage sample_voter = Some (sample_store\<lparr>st_saved := encodeState 3 (Some ''n1'') [sentinel]\<rparr>)"
  "s_lastApplied sample_voter = 0" "s_log sample_voter = [sentinel]"
  "s_currentTerm sample_voter = 3" "s_votedFor sample_voter = Some ''n1''"
proof -
  show s: "s_storage sample_voter = Some (sample_store\<lparr>st_saved := encodeState 3 (Some ''n1'') [sentinel]\<rparr>)"
    "s_lastApplied sample_voter = 0" "s_log sample_voter = [sentinel]"
    "s_currentTerm sample_voter = 3" "s_votedFor sample_voter = Some ''n1''"
    by (simp_all add: sample_voter_def sample_replica_def SetStorage_def NewServer_def NewServerWith_def stored_server_storage)
  have sm: "s_sm sample_voter = Some (NewShardMachine ''A'' New)"
    by (simp add: sample_voter_def sample_replica_def SetStorage_def NewServer_def NewServerWith_def)
  show "durable sample_voter" by (simp add: sample_voter_def)
  show "server_inv sample_voter" using sample_replica_ok(2) by (simp add: sample_voter_def server_inv_def)
  show "replica_backed ''A'' sample_voter"
    by (rule replica_backed_new [OF s(1) sm]) (simp_all add: s sample_store_def baseIndex_def sentinel_def)
qed

theorem shard_replica_recovers_witness:
  "\<exists>s'. Restore shard_ops no_load_errors (SetStorage (s_storage sample_voter)
       (NewServer ''n2'' [''n1'', ''n2'', ''n3''] (Some (NewShardMachine ''A'' New)))) = Some (None, s')
     \<and> s_currentTerm s' = 3 \<and> s_votedFor s' = Some ''n1''"
  using shard_replica_recovers [OF sample_voter_ok(1-4) _ _ _ _ refl, of "''n2''" "[''n1'', ''n2'', ''n3'']"]
  by (auto simp: sample_voter_ok sample_store_def state_fits_def make_ok_def entry_fits_def sentinel_def
      no_empty_commands_def config_ok_def decodeConfig_def isConfigEntry_def)

text \<open>a follower that installs a snapshot while its snapshot storage fails still persists the log cut at
  the snapshot. It runs the snapshot's machine until it stops; after a restart it reports everything up
  to the snapshot as applied, and its machine is empty.\<close>

theorem failed_snapshot_save_loses_state:
  assumes "s = SetStorage (Some \<lparr>st_saved = [], st_applied = Some 0, st_snapshot = Some None\<rparr>)
      (NewServer i peers (Some (NewShardMachine sid New)))"
    and "e_snap_err env = Some err" "e_save_err env = None"
    and "is_Data a = ShardSnapshot mb" "shard_snap_ok mb" "0 < is_LastIncludedIndex a"
    and "is_LastIncludedIndex a < 2 ^ 64" "is_LastIncludedTerm a < 2 ^ 64" "is_Term a < 2 ^ 64"
    and "InstallSnapshot shard_ops env a s = (r, s')"
  shows "(\<exists>m. s_sm s' = Some m \<and> unstamp_state (sm_State m) = unstamp_state (sm_State mb))
    \<and> (\<exists>s''. Restore shard_ops no_load_errors
           (SetStorage (s_storage s') (NewServer i peers (Some (NewShardMachine sid New)))) = Some (None, s'')
         \<and> s_lastApplied s'' = is_LastIncludedIndex a \<and> s_sm s'' = Some (NewShardMachine sid New))"
proof -
  let ?idx = "is_LastIncludedIndex a" and ?t = "is_LastIncludedTerm a"
  let ?l = "[\<lparr>ent_Term = ?t, ent_Index = ?idx, ent_Command = None\<rparr>]"
  let ?st = "\<lparr>st_saved = encodeState (is_Term a) None ?l, st_applied = Some 0, st_snapshot = Some None\<rparr>"
  obtain m1 where m1: "ShardRestoreSnapshot (ShardSnapshot mb) (NewShardMachine sid New) = (None, m1)"
    "shard_core m1 = shard_core mb"
    using shard_machine.restore_snap [OF assms(5)] by blast
  have "s_sm s' = Some m1 \<and> s_storage s' = Some ?st"
    using assms(2-4,6,10) m1(1) unfolding assms(1)
    by (auto simp: InstallSnapshot_def install_def shard_ops_def machine_ops_def Let_def SetStorage_def NewServer_def
        NewServerWith_def baseIndex_def lastIndex_def sentinel_def entryAt_def save_snapshot_def note_snapshot_error_def
        persistLocked_def resetElectionTimerLocked_def split: if_splits)
  then have s': "s_sm s' = Some m1" "s_storage s' = Some ?st" by blast+
  let ?s0 = "SetStorage (s_storage s') (NewServer i peers (Some (NewShardMachine sid New)))"
  have fits: "state_fits (is_Term a) None ?l" "no_empty_commands ?l" "config_ok ?l"
    using assms(7-9) by (simp_all add: state_fits_def entry_fits_def make_ok_def no_empty_commands_def config_ok_def
        decodeConfig_def isConfigEntry_def)
  obtain s1 where s1: "proto s1 = proto (?s0\<lparr>s_currentTerm := is_Term a, s_votedFor := None, s_log := ?l, s_role := Follower\<rparr>)"
    and R: "Restore shard_ops no_load_errors ?s0 = (case restore_snapshot shard_ops no_load_errors ?st (s1\<lparr>s_commitIndex := 0, s_lastApplied := 0\<rparr>) of
        (Some e, s) \<Rightarrow> Some (Some e, s) | (None, s) \<Rightarrow> restore_applied shard_ops no_load_errors ?st s)"
    by (rule Restore_decoded [of ?s0 ?st "is_Term a" None ?l no_load_errors shard_ops])
      (use s' fits in \<open>simp_all add: SetStorage_def no_load_errors_def\<close>)
  have sm1: "s_sm s1 = Some (NewShardMachine sid New)" "s_log s1 = ?l"
    using protoD [OF s1] by (simp_all add: SetStorage_def NewServer_def NewServerWith_def)
  have "\<exists>s''. Restore shard_ops no_load_errors ?s0 = Some (None, s'') \<and> s_lastApplied s'' = ?idx
      \<and> s_sm s'' = Some (NewShardMachine sid New)"
    unfolding R using assms(6)
    by (simp add: restore_snapshot_def restore_applied_def sm1 no_load_errors_def baseIndex_def lastIndex_def
        replay.simps Let_def)
  moreover have "unstamp_state (sm_State m1) = unstamp_state (sm_State mb)" using m1(2) by (simp add: shard_core_def)
  ultimately show ?thesis using s'(1) by blast
qed

definition funded_shard :: ShardMachine where
  "funded_shard = NewShardMachine ''A'' (New\<lparr>balances := fmupd ''alice'' 100 fmempty\<rparr>)"

lemma funded_shard_fits: "shard_snap_ok funded_shard"
proof -
  have "length (Snapshot (New\<lparr>balances := fmupd ''alice'' 100 fmempty\<rparr>)) < 2 ^ 64"
    by (simp add: Snapshot_def New_def sorted_list_of_fmap_def sorted_list_of_fset.rep_eq put_balance_def
        putUint64_def putStr_def bytes_of_def)
  then show ?thesis
    by (simp add: funded_shard_def NewShardMachine_def New_def snap_ok_def shard_snap_ok_def in_int64_def fcard.rep_eq fmpred_iff)
qed

theorem failed_snapshot_save_loses_state_witness:
  "\<exists>s' s''. snd (InstallSnapshot shard_ops (calm\<lparr>e_snap_err := Some ''disk full''\<rparr>)
        \<lparr>is_Term = 1, is_LeaderID = ''n1'', is_LastIncludedIndex = 5, is_LastIncludedTerm = 1,
         is_Data = ShardSnapshot funded_shard, is_Done = True\<rparr> sample_replica) = s'
    \<and> Restore shard_ops no_load_errors (SetStorage (s_storage s')
        (NewServer ''n2'' [''n1'', ''n2'', ''n3''] (Some (NewShardMachine ''A'' New)))) = Some (None, s'')
    \<and> s_lastApplied s'' = 5 \<and> s_sm s'' = Some (NewShardMachine ''A'' New)"
proof -
  let ?a = "\<lparr>is_Term = 1, is_LeaderID = ''n1'', is_LastIncludedIndex = 5, is_LastIncludedTerm = 1,
     is_Data = ShardSnapshot funded_shard, is_Done = True\<rparr>"
  let ?x = "InstallSnapshot shard_ops (calm\<lparr>e_snap_err := Some ''disk full''\<rparr>) ?a sample_replica"
  have x: "?x = (fst ?x, snd ?x)" by simp
  show ?thesis
    using failed_snapshot_save_loses_state [OF _ _ _ _ funded_shard_fits _ _ _ _ x,
        of "''n2''" "[''n1'', ''n2'', ''n3'']" "''A''" "''disk full''"]
    by (simp add: sample_replica_def sample_store_def calm_def)
qed

end
