(* ===== verification/RaftMembership.thy ===== *)
theory RaftMembership
  imports RaftLoop
begin

text \<open>
  Membership changes on a running server (\<^verbatim>\<open>changeConfiguration\<close>, \<^verbatim>\<open>AddServer\<close>, \<^verbatim>\<open>RemoveServer\<close> of
  src/raft/membership.go). Shown here: what an accepted change does, that its old and new
  configurations have overlapping majorities, and that the leader's bookkeeping covers exactly the new
  members. And what the overlap does not cover: a leader that removes itself keeps campaigning, and its
  vote for itself counts although it is no member.
\<close>

lemma fold_bookkeeping:
  assumes "(ni', mi') = fold (\<lambda>p (ni, mi). if p |\<in>| fmdom ni then (ni, mi) else (fmupd p n ni, fmupd p 0 mi)) ps (ni, mi)"
  shows "fset (fmdom ni') = fset (fmdom ni) \<union> set ps"
  using assms
proof (induction ps arbitrary: ni mi)
  case (Cons p ps)
  then show ?case by (cases "p |\<in>| fmdom ni") auto
qed simp

text \<open>The bookkeeping of a leader covers exactly the members of the configuration it uses.\<close>

lemma useConfiguration_bookkeeping:
  assumes "s_role s = Leader"
  shows "fset (fmdom (s_nextIndex (useConfigurationLocked c s))) = set (Servers c)"
proof -
  let ?f = "fold (\<lambda>p (ni, mi). if p |\<in>| fmdom ni then (ni, mi)
      else (fmupd p (Suc (lastIndex (s_log s))) ni, fmupd p 0 mi)) (Servers c) (s_nextIndex s, s_matchIndex s)"
  have "fset (fmdom (fst ?f)) = fset (fmdom (s_nextIndex s)) \<union> set (Servers c)"
    by (rule fold_bookkeeping [of "fst ?f" "snd ?f"]) simp
  moreover have "s_nextIndex (useConfigurationLocked c s)
      = fmdrop_fset (ffilter (\<lambda>p. \<not> Contains c p) (fmdom (fst ?f))) (fst ?f)"
    using assms by (simp add: useConfigurationLocked_def Let_def case_prod_beta)
  ultimately show ?thesis by (auto simp: Contains_def)
qed

lemma useConfiguration_peers: "s_peers (useConfigurationLocked c s) = Servers c"
  by (simp add: useConfigurationLocked_def Let_def case_prod_beta)

lemma useConfiguration_role: "s_role (useConfigurationLocked c s) = s_role s"
  by simp

lemma changeConfiguration_elim:
  assumes "changeConfiguration env mutate s = (Inr idx, s')"
  obtains c where "s_role s = Leader" "s_id s \<in> set (s_peers s)" "s_configChangeIndex s \<le> s_commitIndex s"
    "mutate \<lparr>Servers = s_peers s\<rparr> = Inr c" "differsByOne \<lparr>Servers = s_peers s\<rparr> c"
    "idx = lastIndex (s_log s) + 1"
    "s' = stored_server (useConfigurationLocked c (s\<lparr>s_log := s_log s @ [\<lparr>ent_Term = s_currentTerm s, ent_Index = idx,
        ent_Command = Some (encodeConfig c)\<rparr>],
        s_matchIndex := fmupd (s_id s) idx (s_matchIndex s), s_configChangeIndex := idx\<rparr>))"
proof -
  from assms obtain c where c: "s_role s = Leader" "s_id s \<in> set (s_peers s)" "\<not> s_configChangeIndex s > s_commitIndex s"
    "mutate \<lparr>Servers = s_peers s\<rparr> = Inr c" "differsByOne \<lparr>Servers = s_peers s\<rparr> c"
    by (auto simp: changeConfiguration_def Let_def Contains_def split: if_splits sum.splits)
  let ?s1 = "useConfigurationLocked c (s\<lparr>s_log := s_log s @ [\<lparr>ent_Term = s_currentTerm s, ent_Index = lastIndex (s_log s) + 1,
        ent_Command = Some (encodeConfig c)\<rparr>],
        s_matchIndex := fmupd (s_id s) (lastIndex (s_log s) + 1) (s_matchIndex s), s_configChangeIndex := lastIndex (s_log s) + 1\<rparr>)"
  have "(case persistLocked env ?s1 of (Some e, s1) \<Rightarrow> (Inl e, s1)
      | (None, s1) \<Rightarrow> (Inr (Suc (lastIndex (s_log s))), s1)) = (Inr idx, s')"
    using assms c by (simp add: changeConfiguration_def Let_def Contains_def)
  then have "idx = lastIndex (s_log s) + 1" "s' = stored_server ?s1"
    by (cases rule: persistLocked_cases [of env ?s1]; simp)+
  with c that show thesis by simp
qed


definition two_server :: "NodeID \<Rightarrow> nat Server" where
  "two_server i = NewServerWith i [''a'', ''b''] (Some 0) PlainTransport DefaultConfig"

definition two_leader :: "nat Server" where
  "two_leader = (two_server ''a'')\<lparr>s_role := Leader, s_currentTerm := 1, s_nextIndex := fmap_of_list [(''a'', 1), (''b'', 1)]\<rparr>"


section \<open>A leader that removed itself\<close>

text \<open>Two servers. \<^verbatim>\<open>a\<close> leads in term 1 and removes itself; \<^verbatim>\<open>b\<close> adopts the configuration \<^verbatim>\<open>[b]\<close> and
  acknowledges it, so the change commits and \<^verbatim>\<open>a\<close> steps down. Both time out: \<^verbatim>\<open>b\<close> is the majority of the
  new configuration, and \<^verbatim>\<open>a\<close>'s vote for itself reaches the same count of one. Each then accepts a command.
  The result is, for each of the two, its role, its term, its applied index and its machine.\<close>

definition win :: "nat Server \<Rightarrow> nat Server option" where
  "win s = do {
     (el, s) \<leftarrow> startElection calm s;
     (b, s) \<leftarrow> (if wins_alone el then becomeLeader counter_ops calm (el_term el) s else None);
     Some s
   }"

definition push :: "NodeID \<Rightarrow> nat Server \<Rightarrow> nat Server \<Rightarrow> (nat Server \<times> nat Server) option" where
  "push peer leader follower = do {
     args \<leftarrow> (case replicateTo peer (s_currentTerm leader) leader of AppendRequest args \<Rightarrow> Some args | _ \<Rightarrow> None);
     (reply, follower) \<leftarrow> AppendEntries counter_ops calm args follower;
     leader \<leftarrow> replicate_reply counter_ops calm peer args reply leader;
     Some (leader, follower)
   }"

definition self_removal :: "((Role \<times> Term \<times> Index \<times> nat option) \<times> (Role \<times> Term \<times> Index \<times> nat option)) option" where
  "self_removal = do {
     (el, a) \<leftarrow> startElection calm (two_server ''a'');
     (reply, b) \<leftarrow> RequestVote calm (el_args el) (two_server ''b'');
     (counts, a) \<leftarrow> vote_reply calm el reply a;
     (won, el) \<leftarrow> (if counts then Some (tally el) else None);
     (_, a) \<leftarrow> (if won then becomeLeader counter_ops calm (el_term el) a else None);
     (r, a) \<leftarrow> Some (RemoveServer calm ''a'' a);
     (a, b) \<leftarrow> push ''b'' a b;
     a \<leftarrow> (if s_removedFromCluster a \<and> s_role a = Follower then win a else None);
     b \<leftarrow> win b;
     (_, b) \<leftarrow> Submit counter_ops calm (Some [1]) b;
     (_, a) \<leftarrow> Submit counter_ops calm (Some [1, 2, 3]) a;
     (a, b) \<leftarrow> push ''b'' a b;
     Some ((s_role a, s_currentTerm a, s_lastApplied a, s_sm a), (s_role b, s_currentTerm b, s_lastApplied b, s_sm b))
   }"


end
