(* ===== verification/RaftSpec.thy ===== *)
theory RaftSpec
  imports RaftLog
begin

text \<open>
  The protocol that src/raft implements, as an abstract specification: terms, logs, votes, elected
  leaders and commit indices, with the history a safety argument needs (who voted for whom with which
  log, the log of the leader of each term, and which entries each server has acknowledged). Messages,
  timers, counters and storage are absent; \<open>RaftCluster\<close> shows that a cluster of servers running the
  handlers of src/raft refines this specification.

  Shown here: Election Safety, Log Matching, Leader Completeness and State Machine Safety, for every
  sequence of protocol steps.
\<close>

section \<open>Logs that agree\<close>

text \<open>A log that was never compacted: it begins with the sentinel, so positions are indices.\<close>

definition rooted :: "Log \<Rightarrow> bool" where
  "rooted l \<longleftrightarrow> wf_log l \<and> hd l = sentinel"

definition agree :: "Log \<Rightarrow> Log \<Rightarrow> Index \<Rightarrow> bool" where
  "agree l l' i \<longleftrightarrow> i < length l \<and> i < length l' \<and> take (Suc i) l = take (Suc i) l'"

lemma rooted_sentinel [simp]: "rooted [sentinel]"
  by (simp add: rooted_def)

lemma rootedD:
  assumes "rooted l"
  shows "wf_log l" "l \<noteq> []" "baseIndex l = 0" "l ! 0 = sentinel" "lastIndex l = length l - 1"
    "lastTerm l = ent_Term (l ! (length l - 1))"
proof -
  have l: "wf_log l" "l \<noteq> []" "hd l = sentinel" using assms by (auto simp: rooted_def wf_log_def)
  then show "wf_log l" "l \<noteq> []" "baseIndex l = 0" "l ! 0 = sentinel"
    by (simp_all add: baseIndex_def sentinel_def hd_conv_nth)
  then show "lastIndex l = length l - 1" by (simp add: lastIndex_wf)
  show "lastTerm l = ent_Term (l ! (length l - 1))" using l by (simp add: lastTerm_def last_conv_nth)
qed

lemma rooted_entryAt: "rooted l \<Longrightarrow> entryAt l i = (if i < length l then Some (l ! i) else None)"
  using rootedD [of l] by (auto simp: entryAt_def slot_def Suc_le_eq neq_Nil_conv)

lemma rooted_termAt: "rooted l \<Longrightarrow> termAt l i = (if i < length l then Some (ent_Term (l ! i)) else None)"
  by (simp add: termAt_def rooted_entryAt)

lemma rooted_snoc:
  assumes "rooted l"
  shows "rooted (l @ [\<lparr>ent_Term = t, ent_Index = length l, ent_Command = c\<rparr>])"
proof -
  have "length l = Suc (lastIndex l)" using rootedD [OF assms] by (simp add: Suc_diff_1)
  then show ?thesis using assms wf_log_snoc [of l t c] by (auto simp: rooted_def wf_log_def)
qed

lemma agree_sym: "agree l l' i \<Longrightarrow> agree l' l i"
  by (simp add: agree_def)

lemma agree_trans: "agree l l' i \<Longrightarrow> agree l' l'' i \<Longrightarrow> agree l l'' i"
  by (simp add: agree_def)

lemma agree_le: "agree l l' i \<Longrightarrow> j \<le> i \<Longrightarrow> agree l l' j"
proof -
  assume a: "agree l l' i" "j \<le> i"
  have "take (Suc j) (take (Suc i) l) = take (Suc j) (take (Suc i) l')" using a by (simp add: agree_def)
  then show ?thesis using a by (simp add: agree_def min_def)
qed

lemma agree_nth: "agree l l' i \<Longrightarrow> j \<le> i \<Longrightarrow> l ! j = l' ! j"
  by (drule (1) agree_le) (metis agree_def lessI nth_take)

lemma agree_refl: "i < length l \<Longrightarrow> agree l l i"
  by (simp add: agree_def)

lemma agreeI:
  assumes "i < length l" "i < length l'" "\<And>j. j \<le> i \<Longrightarrow> l ! j = l' ! j" shows "agree l l' i"
  using assms by (auto simp: agree_def intro: nth_equalityI)

lemma agree_append: "i < length l \<Longrightarrow> agree (l @ es) l' i \<longleftrightarrow> agree l l' i"
  by (auto simp: agree_def)

lemma agree_append_right: "i < length l' \<Longrightarrow> agree l (l' @ es) i \<longleftrightarrow> agree l l' i"
  by (auto simp: agree_def)

section \<open>The specification\<close>

record Spec =
  a_term :: "NodeID \<Rightarrow> Term"
  a_log :: "NodeID \<Rightarrow> Log"
  a_commit :: "NodeID \<Rightarrow> Index"
  a_vote :: "NodeID \<Rightarrow> Term \<Rightarrow> (NodeID \<times> Log) option"
  a_leader :: "Term \<Rightarrow> NodeID option"
  a_tlog :: "Term \<Rightarrow> Log"
  a_acks :: "(NodeID \<times> Term \<times> Index) set"

definition spec_init :: Spec where
  "spec_init = \<lparr>a_term = (\<lambda>_. 0), a_log = (\<lambda>_. [sentinel]), a_commit = (\<lambda>_. 0), a_vote = (\<lambda>_ _. None),
     a_leader = (\<lambda>_. None), a_tlog = (\<lambda>_. []), a_acks = {}\<rparr>"

text \<open>\<open>v\<close> stores the log of the leader of term \<open>t\<close> up to \<open>i\<close>: it acknowledged that much, or it is the
  leader itself.\<close>

definition acked :: "Spec \<Rightarrow> NodeID \<Rightarrow> Term \<Rightarrow> Index \<Rightarrow> bool" where
  "acked a v t i \<longleftrightarrow> (a_leader a t = Some v \<and> i < length (a_tlog a t)) \<or> (\<exists>n. i \<le> n \<and> (v, t, n) \<in> a_acks a)"

text \<open>The commit rule: an entry of the leader's own term that a majority stores.\<close>

definition chosen :: "NodeID list \<Rightarrow> Spec \<Rightarrow> Term \<Rightarrow> Index \<Rightarrow> bool" where
  "chosen peers a t i \<longleftrightarrow> a_leader a t \<noteq> None \<and> 0 < i \<and> i < length (a_tlog a t) \<and> ent_Term (a_tlog a t ! i) = t
     \<and> (\<exists>Q \<subseteq> set peers. majority peers \<le> card Q \<and> (\<forall>v \<in> Q. acked a v t i))"

text \<open>The first \<open>n\<close> entries of \<open>l\<close> are committed, by a leader of a term up to \<open>b\<close>.\<close>

definition committed :: "NodeID list \<Rightarrow> Spec \<Rightarrow> Log \<Rightarrow> Index \<Rightarrow> Term \<Rightarrow> bool" where
  "committed peers a l n b \<longleftrightarrow>
     n = 0 \<or> (\<exists>t i. chosen peers a t i \<and> n \<le> i \<and> t \<le> b \<and> agree l (a_tlog a t) n)"

inductive spec_step :: "NodeID list \<Rightarrow> Spec \<Rightarrow> Spec \<Rightarrow> bool" for peers where
  observe: "a_term a v \<le> t \<Longrightarrow> spec_step peers a (a\<lparr>a_term := (a_term a)(v := t)\<rparr>)"
| campaign: "v \<in> set peers \<Longrightarrow> t = Suc (a_term a v) \<Longrightarrow>
    spec_step peers a (a\<lparr>a_term := (a_term a)(v := t),
      a_vote := (a_vote a)(v := (a_vote a v)(t := Some (v, a_log a v)))\<rparr>)"
| grant: "v \<in> set peers \<Longrightarrow> a_term a v \<le> t \<Longrightarrow> a_vote a v t = None \<Longrightarrow> a_vote a c t = Some (c, l) \<Longrightarrow>
    isUpToDate (a_log a v) (lastIndex l) (lastTerm l) \<Longrightarrow>
    spec_step peers a (a\<lparr>a_term := (a_term a)(v := t),
      a_vote := (a_vote a)(v := (a_vote a v)(t := Some (c, a_log a v)))\<rparr>)"
| elect: "c \<in> set peers \<Longrightarrow> a_term a c = t \<Longrightarrow> a_vote a c t = Some (c, a_log a c) \<Longrightarrow> a_leader a t \<noteq> Some c \<Longrightarrow>
    R \<subseteq> set peers \<Longrightarrow> majority peers \<le> card R \<Longrightarrow> \<forall>v \<in> R. \<exists>l. a_vote a v t = Some (c, l) \<Longrightarrow>
    l = a_log a c @ [\<lparr>ent_Term = t, ent_Index = length (a_log a c), ent_Command = None\<rparr>] \<Longrightarrow>
    spec_step peers a (a\<lparr>a_leader := (a_leader a)(t := Some c), a_tlog := (a_tlog a)(t := l),
      a_log := (a_log a)(c := l)\<rparr>)"
| extend: "a_leader a t = Some c \<Longrightarrow> a_term a c = t \<Longrightarrow> a_log a c = a_tlog a t \<Longrightarrow>
    l = a_log a c @ [\<lparr>ent_Term = t, ent_Index = length (a_log a c), ent_Command = cmd\<rparr>] \<Longrightarrow>
    spec_step peers a (a\<lparr>a_tlog := (a_tlog a)(t := l), a_log := (a_log a)(c := l)\<rparr>)"
| accept: "v \<in> set peers \<Longrightarrow> a_leader a t \<noteq> None \<Longrightarrow> a_term a v \<le> t \<Longrightarrow> prev \<le> n \<Longrightarrow> n < length (a_tlog a t) \<Longrightarrow>
    ent_Term (a_tlog a t ! n) = t \<Longrightarrow>
    prev < length (a_log a v) \<Longrightarrow> ent_Term (a_log a v ! prev) = ent_Term (a_tlog a t ! prev) \<Longrightarrow>
    l = snd (appendFrom prev (drop (Suc prev) (take (Suc n) (a_tlog a t))) (a_log a v)) \<Longrightarrow>
    spec_step peers a (a\<lparr>a_term := (a_term a)(v := t), a_log := (a_log a)(v := l),
      a_acks := insert (v, t, n) (a_acks a)\<rparr>)"
| commit: "committed peers a (a_log a v) n (lastTerm (a_log a v)) \<Longrightarrow>
    spec_step peers a (a\<lparr>a_commit := (a_commit a)(v := n)\<rparr>)"
| forget: "n \<le> a_commit a v \<Longrightarrow> spec_step peers a (a\<lparr>a_commit := (a_commit a)(v := n)\<rparr>)"

inductive_cases spec_stepE: "spec_step peers a a'"

section \<open>The invariant\<close>

text \<open>Every entry of a log is an entry of the log of the leader of its term, with everything before it.\<close>

definition log_ok :: "Spec \<Rightarrow> Log \<Rightarrow> bool" where
  "log_ok a l \<longleftrightarrow> rooted l \<and> sorted (map ent_Term l) \<and>
     (\<forall>k. 0 < k \<and> k < length l \<longrightarrow>
        a_leader a (ent_Term (l ! k)) \<noteq> None \<and> agree l (a_tlog a (ent_Term (l ! k))) k)"

definition vote_inv :: "NodeID list \<Rightarrow> Spec \<Rightarrow> bool" where
  "vote_inv peers a \<longleftrightarrow> (\<forall>v t c l. a_vote a v t = Some (c, l) \<longrightarrow>
     v \<in> set peers \<and> 0 < t \<and> t \<le> a_term a v \<and> log_ok a l \<and>
     (\<exists>l'. a_vote a c t = Some (c, l') \<and> isUpToDate l (lastIndex l') (lastTerm l') \<and> lastTerm l' < t))"

definition leader_inv :: "NodeID list \<Rightarrow> Spec \<Rightarrow> bool" where
  "leader_inv peers a \<longleftrightarrow> (\<forall>t c. a_leader a t = Some c \<longrightarrow>
     t \<le> a_term a c \<and> log_ok a (a_tlog a t) \<and>
     (\<exists>R \<subseteq> set peers. majority peers \<le> card R \<and> (\<forall>v \<in> R. \<exists>l. a_vote a v t = Some (c, l))) \<and>
     (\<exists>l es. a_vote a c t = Some (c, l) \<and> a_tlog a t = l @ es \<and> es \<noteq> [] \<and> (\<forall>e \<in> set es. ent_Term e = t)))"

definition logs_inv :: "Spec \<Rightarrow> bool" where
  "logs_inv a \<longleftrightarrow> (\<forall>v. log_ok a (a_log a v) \<and> lastTerm (a_log a v) \<le> a_term a v)"

definition acks_inv :: "NodeID list \<Rightarrow> Spec \<Rightarrow> bool" where
  "acks_inv peers a \<longleftrightarrow> (\<forall>v t n. (v, t, n) \<in> a_acks a \<longrightarrow>
     v \<in> set peers \<and> a_leader a t \<noteq> None \<and> n < length (a_tlog a t) \<and> t \<le> a_term a v)"

text \<open>What an acknowledging server keeps: \<open>l\<close> still has the acknowledged prefix, or the leader of a later
  term, whose entries \<open>l\<close> has taken over, lacks it.\<close>

definition kept :: "Spec \<Rightarrow> Log \<Rightarrow> Term \<Rightarrow> Index \<Rightarrow> bool" where
  "kept a l t i \<longleftrightarrow> agree l (a_tlog a t) i \<or>
     (\<exists>t'. t < t' \<and> t' \<le> lastTerm l \<and> a_leader a t' \<noteq> None \<and> \<not> agree (a_tlog a t') (a_tlog a t) i)"

definition kept_inv :: "Spec \<Rightarrow> bool" where
  "kept_inv a \<longleftrightarrow> (\<forall>v t i. acked a v t i \<longrightarrow> kept a (a_log a v) t i \<and>
     (\<forall>t' c l. a_vote a v t' = Some (c, l) \<and> t < t' \<longrightarrow> kept a l t i))"

definition commit_inv :: "NodeID list \<Rightarrow> Spec \<Rightarrow> bool" where
  "commit_inv peers a \<longleftrightarrow> (\<forall>v. committed peers a (a_log a v) (a_commit a v) (lastTerm (a_log a v)))"

definition spec_inv :: "NodeID list \<Rightarrow> Spec \<Rightarrow> bool" where
  "spec_inv peers a \<longleftrightarrow> vote_inv peers a \<and> leader_inv peers a \<and> logs_inv a \<and> acks_inv peers a \<and> kept_inv a
     \<and> commit_inv peers a"

lemma vote_invD:
  assumes "vote_inv peers a" "a_vote a v t = Some (c, l)"
  obtains l' where "v \<in> set peers" "0 < t" "t \<le> a_term a v" "log_ok a l" "a_vote a c t = Some (c, l')"
    "isUpToDate l (lastIndex l') (lastTerm l')" "lastTerm l' < t"
  using assms unfolding vote_inv_def by meson

lemma leader_invD:
  assumes "leader_inv peers a" "a_leader a t = Some c"
  obtains R l es where "t \<le> a_term a c" "log_ok a (a_tlog a t)"
    "R \<subseteq> set peers" "majority peers \<le> card R" "\<forall>v \<in> R. \<exists>l. a_vote a v t = Some (c, l)"
    "a_vote a c t = Some (c, l)" "a_tlog a t = l @ es" "es \<noteq> []" "\<forall>e \<in> set es. ent_Term e = t"
proof -
  have "t \<le> a_term a c \<and> log_ok a (a_tlog a t) \<and>
     (\<exists>R \<subseteq> set peers. majority peers \<le> card R \<and> (\<forall>v \<in> R. \<exists>l. a_vote a v t = Some (c, l))) \<and>
     (\<exists>l es. a_vote a c t = Some (c, l) \<and> a_tlog a t = l @ es \<and> es \<noteq> [] \<and> (\<forall>e \<in> set es. ent_Term e = t))"
    using assms unfolding leader_inv_def by simp
  then show thesis using that by (elim conjE exE) simp
qed

lemma log_okD:
  assumes "log_ok a l"
  shows "rooted l" "sorted (map ent_Term l)"
    "0 < k \<Longrightarrow> k < length l \<Longrightarrow> a_leader a (ent_Term (l ! k)) \<noteq> None"
    "0 < k \<Longrightarrow> k < length l \<Longrightarrow> agree l (a_tlog a (ent_Term (l ! k))) k"
  using assms by (auto simp: log_ok_def)

lemma log_ok_term_mono:
  assumes "log_ok a l" "i \<le> j" "j < length l" shows "ent_Term (l ! i) \<le> ent_Term (l ! j)"
  using sorted_nth_mono [OF log_okD(2) [OF assms(1)] assms(2)] assms(2,3) by simp

lemma log_ok_le_lastTerm: "log_ok a l \<Longrightarrow> i < length l \<Longrightarrow> ent_Term (l ! i) \<le> lastTerm l"
  using log_ok_term_mono [of a l i "length l - 1"] rootedD(6) [OF log_okD(1)] by auto

text \<open>Log Matching: two logs with an entry of the same term at an index agree up to it.\<close>

lemma log_matching:
  assumes "log_ok a l" "log_ok a l'" "k < length l" "k < length l'" "ent_Term (l ! k) = ent_Term (l' ! k)"
  shows "agree l l' k"
proof (cases "k = 0")
  case True
  then show ?thesis
    using assms rootedD(4) [OF log_okD(1)] by (intro agreeI) auto
next
  case False
  then show ?thesis
    using log_okD(4) [OF assms(1), of k] log_okD(4) [OF assms(2), of k] assms(3-5)
    by (metis agree_sym agree_trans neq0_conv)
qed

section \<open>Growth\<close>

definition extends :: "Spec \<Rightarrow> Spec \<Rightarrow> bool" where
  "extends a a' \<longleftrightarrow>
     (\<forall>t c. a_leader a t = Some c \<longrightarrow> a_leader a' t = Some c \<and>
        (\<exists>es. a_tlog a' t = a_tlog a t @ es \<and> (\<forall>e \<in> set es. ent_Term e = t))) \<and>
     (\<forall>v t x. a_vote a v t = Some x \<longrightarrow> a_vote a' v t = Some x) \<and>
     a_acks a \<subseteq> a_acks a' \<and> (\<forall>v. a_term a v \<le> a_term a' v)"

lemma extendsD:
  assumes "extends a a'"
  shows "a_leader a t = Some c \<Longrightarrow> a_leader a' t = Some c"
    "a_vote a v t = Some x \<Longrightarrow> a_vote a' v t = Some x"
    "y \<in> a_acks a \<Longrightarrow> y \<in> a_acks a'" "a_term a v \<le> a_term a' v"
    "a_leader a t \<noteq> None \<Longrightarrow> a_leader a' t \<noteq> None"
  using assms unfolding extends_def by (blast, blast, blast, blast, fastforce)

lemma extends_tlog:
  assumes "extends a a'" "a_leader a t \<noteq> None"
  obtains es where "a_tlog a' t = a_tlog a t @ es" "\<forall>e \<in> set es. ent_Term e = t"
proof -
  obtain c where "a_leader a t = Some c" using assms(2) by auto
  then show thesis using assms(1) that unfolding extends_def by blast
qed

lemma extends_agree:
  assumes "extends a a'" "a_leader a t \<noteq> None" "agree l (a_tlog a t) i"
  shows "agree l (a_tlog a' t) i"
proof -
  obtain es where "a_tlog a' t = a_tlog a t @ es" using extends_tlog [OF assms(1,2)] .
  then show ?thesis using assms(3) by (auto simp: agree_def)
qed

lemma log_ok_extends:
  assumes "extends a a'" "log_ok a l" shows "log_ok a' l"
  using assms(2) extends_agree [OF assms(1)] extendsD(5) [OF assms(1)] by (auto simp: log_ok_def)

lemma acked_extends: "extends a a' \<Longrightarrow> acked a v t i \<Longrightarrow> acked a' v t i"
  using extendsD(1,3) [of a a'] extends_tlog [of a a' t]
  by (auto simp: acked_def) (metis length_append option.discI trans_less_add1)

lemma chosen_extends:
  assumes "extends a a'" "chosen peers a t i" shows "chosen peers a' t i"
proof -
  from assms(2) have l: "a_leader a t \<noteq> None" and i: "i < length (a_tlog a t)" by (auto simp: chosen_def)
  obtain es where "a_tlog a' t = a_tlog a t @ es" using extends_tlog [OF assms(1) l] .
  then show ?thesis
    using assms(2) i l extendsD(5) [OF assms(1)] acked_extends [OF assms(1)]
    unfolding chosen_def by (auto simp: nth_append)
qed

lemma committed_extends:
  assumes "extends a a'" "committed peers a l n b" shows "committed peers a' l n b"
proof (cases "n = 0")
  case False
  then obtain t i where *: "chosen peers a t i" "n \<le> i" "t \<le> b" "agree l (a_tlog a t) n"
    using assms(2) by (auto simp: committed_def)
  from *(1) have "a_leader a t \<noteq> None" by (simp add: chosen_def)
  then show ?thesis
    using * chosen_extends [OF assms(1) *(1)] extends_agree [OF assms(1)] unfolding committed_def by blast
qed (simp add: committed_def)

lemma committed_le: "committed peers a l n b \<Longrightarrow> m \<le> n \<Longrightarrow> committed peers a l m b"
  unfolding committed_def by (meson agree_le le_trans le_zero_eq)

lemma committed_weaken: "committed peers a l n b \<Longrightarrow> b \<le> b' \<Longrightarrow> committed peers a l n b'"
  unfolding committed_def by (meson le_trans)

lemma committed_agree: "committed peers a l n b \<Longrightarrow> agree l l' n \<Longrightarrow> committed peers a l' n b"
  unfolding committed_def by (meson agree_sym agree_trans)

lemma tlog_facts:
  assumes "vote_inv peers a" "leader_inv peers a" "a_leader a t \<noteq> None"
  shows "log_ok a (a_tlog a t)" "lastTerm (a_tlog a t) = t" "Suc 0 < length (a_tlog a t)" "0 < t"
    "k < length (a_tlog a t) \<Longrightarrow> ent_Term (a_tlog a t ! k) \<le> t"
proof -
  obtain c where "a_leader a t = Some c" using assms(3) by auto
  then obtain l es where *: "log_ok a (a_tlog a t)" "a_tlog a t = l @ es" "es \<noteq> []" "\<forall>e \<in> set es. ent_Term e = t"
    "a_vote a c t = Some (c, l)"
    using leader_invD [OF assms(2)] by metis
  show "log_ok a (a_tlog a t)" by fact
  show last: "lastTerm (a_tlog a t) = t" using * by (simp add: lastTerm_def)
  show "ent_Term (a_tlog a t ! k) \<le> t" if "k < length (a_tlog a t)"
    using log_ok_le_lastTerm [OF *(1) that] last by simp
  have "l \<noteq> []" "0 < t" using vote_invD [OF assms(1) *(5)] rootedD(2) log_okD(1) by metis+
  then show "Suc 0 < length (a_tlog a t)" "0 < t" using *(2,3) by (cases l; cases es; simp)+
qed

lemma acked_facts:
  assumes "acks_inv peers a" "acked a v t i"
  shows "a_leader a t \<noteq> None" "i < length (a_tlog a t)"
  using assms by (fastforce simp: acked_def acks_inv_def)+

lemma kept_extends:
  assumes "extends a a'" "vote_inv peers a" "leader_inv peers a" "a_leader a t \<noteq> None" "i < length (a_tlog a t)"
    and "kept a l t i"
  shows "kept a' l t i"
proof (cases "agree l (a_tlog a t) i")
  case True
  then show ?thesis using extends_agree [OF assms(1,4)] by (simp add: kept_def)
next
  case False
  then obtain t' where t': "t < t'" "t' \<le> lastTerm l" "a_leader a t' \<noteq> None" "\<not> agree (a_tlog a t') (a_tlog a t) i"
    using assms(6) by (auto simp: kept_def)
  obtain es where es: "a_tlog a' t = a_tlog a t @ es" using extends_tlog [OF assms(1,4)] .
  obtain es' where es': "a_tlog a' t' = a_tlog a t' @ es'" "\<forall>e \<in> set es'. ent_Term e = t'"
    using extends_tlog [OF assms(1) t'(3)] .
  have "\<not> agree (a_tlog a' t') (a_tlog a' t) i"
  proof
    assume ag: "agree (a_tlog a' t') (a_tlog a' t) i"
    show False
    proof (cases "i < length (a_tlog a t')")
      case True
      then show False using ag t'(4) es es'(1) assms(5) by (simp add: agree_append agree_append_right)
    next
      case False
      let ?k = "length (a_tlog a t')"
      have "a_tlog a' t' ! ?k = a_tlog a' t ! ?k" using agree_nth [OF ag] False by simp
      moreover have "a_tlog a' t ! ?k = a_tlog a t ! ?k" using es False assms(5) by (simp add: nth_append)
      moreover have "a_tlog a' t' ! ?k \<in> set es'" using ag es'(1) False
        by (cases es') (simp_all add: agree_def)
      ultimately show False
        using es'(2) tlog_facts(5) [OF assms(2,3,4), of ?k] False assms(5) t'(1) by fastforce
    qed
  qed
  then show ?thesis using t' extendsD(5) [OF assms(1)] unfolding kept_def by blast
qed

section \<open>Election Safety and Leader Completeness\<close>

lemma election_safety:
  assumes "distinct peers"
    and "R \<subseteq> set peers" "majority peers \<le> card R" "\<forall>v \<in> R. \<exists>l. a_vote a v t = Some (c, l)"
    and "R' \<subseteq> set peers" "majority peers \<le> card R'" "\<forall>v \<in> R'. \<exists>l. a_vote a v t = Some (c', l)"
  shows "c = c'"
proof -
  obtain v where "v \<in> R" "v \<in> R'" using majorities_overlap [OF assms(1,2,5,3,6)] by auto
  then show ?thesis using assms(4,7) by fastforce
qed

text \<open>The log of an elected leader, as it was when it campaigned, has everything a voter's log has that
  earlier leaders could have chosen.\<close>

lemma candidate_complete:
  assumes v: "vote_inv peers a" and ld: "leader_inv peers a"
    and l: "log_ok a l" "agree l (a_tlog a t) i" "i < length (a_tlog a t)" "ent_Term (a_tlog a t ! i) = t"
    and l': "log_ok a l'" "lastTerm l' < t'"
    and up: "isUpToDate l (lastIndex l') (lastTerm l')"
    and IH: "\<And>u. t < u \<Longrightarrow> u < t' \<Longrightarrow> a_leader a u \<noteq> None \<Longrightarrow> agree (a_tlog a u) (a_tlog a t) i"
    and t: "0 < i"
  shows "agree l' (a_tlog a t) i"
proof -
  note r = rootedD [OF log_okD(1) [OF l(1)]] and r' = rootedD [OF log_okD(1) [OF l'(1)]]
  let ?n = "length l - 1" and ?n' = "length l' - 1"
  have i: "i \<le> ?n" "i < length l" using l(2) by (auto simp: agree_def)
  have "ent_Term (l ! i) = t" using agree_nth [OF l(2)] l(4) by simp
  then have tl: "t \<le> lastTerm l" using log_ok_le_lastTerm [OF l(1) i(2)] by simp
  consider (same) "lastTerm l = lastTerm l'" "lastIndex l \<le> lastIndex l'" | (newer) "lastTerm l < lastTerm l'"
    using up by (auto simp: isUpToDate_lex)
  then show ?thesis
  proof cases
    case same
    have n': "0 < ?n'" "?n \<le> ?n'" using same(2) r(5) r'(5) i t by simp_all
    have "agree l (a_tlog a (lastTerm l)) ?n"
      using log_okD(4) [OF l(1), of ?n] r(2,6) i t by simp
    moreover have "agree l' (a_tlog a (lastTerm l)) ?n'"
      using log_okD(4) [OF l'(1), of ?n'] r'(2,6) n' same(1) by simp
    ultimately have "agree l' l i" using n'(2) i(1) by (meson agree_le agree_sym agree_trans)
    then show ?thesis using l(2) agree_trans by blast
  next
    case newer
    let ?u = "lastTerm l'"
    have n': "0 < ?n'"
    proof (rule ccontr)
      assume "\<not> 0 < ?n'"
      then have "?u = 0" using r'(4,6) by (simp add: sentinel_def)
      then show False using newer by simp
    qed
    have u: "a_leader a ?u \<noteq> None" "agree l' (a_tlog a ?u) ?n'"
      using log_okD(3,4) [OF l'(1), of ?n'] r'(2,6) n' by simp_all
    have ag: "agree (a_tlog a ?u) (a_tlog a t) i" using IH [of ?u] tl newer l'(2) u(1) by simp
    have "i \<le> ?n'"
    proof (rule ccontr)
      assume "\<not> i \<le> ?n'"
      then have "a_tlog a ?u ! ?n' = a_tlog a t ! ?n'" "?n' < length (a_tlog a t)"
        using agree_nth [OF ag, of ?n'] l(3) by simp_all
      moreover have "a_tlog a ?u ! ?n' = l' ! ?n'" using agree_nth [OF u(2)] by simp
      moreover have "a_leader a t \<noteq> None"
        using log_okD(3) [OF l(1), of i] \<open>ent_Term (l ! i) = t\<close> i t by simp
      ultimately show False using tlog_facts(5) [OF v ld, of t ?n'] r'(6) newer tl by simp
    qed
    then show ?thesis using agree_le [OF u(2)] ag agree_trans by blast
  qed
qed

lemma leader_completeness:
  assumes "distinct peers" "spec_inv peers a" "chosen peers a t i" "t < t'" "a_leader a t' \<noteq> None"
  shows "agree (a_tlog a t') (a_tlog a t) i"
  using assms(4,5)
proof (induction t' rule: less_induct)
  case (less t')
  note inv = assms(2) [unfolded spec_inv_def]
  obtain Q where Q: "Q \<subseteq> set peers" "majority peers \<le> card Q" "\<forall>v \<in> Q. acked a v t i"
    and ch: "0 < i" "i < length (a_tlog a t)" "ent_Term (a_tlog a t ! i) = t" "a_leader a t \<noteq> None"
    using assms(3) by (auto simp: chosen_def)
  obtain c where "a_leader a t' = Some c" using less.prems(2) by auto
  then obtain R l' es where R: "R \<subseteq> set peers" "majority peers \<le> card R" "\<forall>v \<in> R. \<exists>l. a_vote a v t' = Some (c, l)"
    and l': "a_vote a c t' = Some (c, l')" "a_tlog a t' = l' @ es"
    using inv leader_invD [of peers a t' c] by metis
  obtain v where v: "v \<in> Q" "v \<in> R" using majorities_overlap [OF assms(1) Q(1) R(1) Q(2) R(2)] by auto
  obtain l where l: "a_vote a v t' = Some (c, l)" using R(3) v by auto
  obtain l'' where l'': "log_ok a l" "a_vote a c t' = Some (c, l'')" "isUpToDate l (lastIndex l'') (lastTerm l'')"
    "lastTerm l'' < t'"
    using inv vote_invD [OF _ l] by metis
  have eq: "l'' = l'" using l'(1) l''(2) by simp
  have ok': "log_ok a l'" using inv vote_invD [OF _ l'(1)] by metis
  have le: "lastTerm l < t'" using l''(3,4) by (auto simp: isUpToDate_lex)
  have "kept a l t i" using inv Q(3) v(1) l less.prems(1) unfolding kept_inv_def by blast
  then have ag: "agree l (a_tlog a t) i" using less.IH le unfolding kept_def by fastforce
  have "agree l' (a_tlog a t) i"
    by (rule candidate_complete [of peers a l t i l' t'])
      (use inv l'' eq ok' ag ch less.IH in auto)
  then show ?case using l'(2) agree_append [of i l'] by (auto simp: agree_def)
qed

text \<open>What is committed stays in the log of every later leader.\<close>

lemma committed_in_leader:
  assumes "distinct peers" "spec_inv peers a" "committed peers a l n b" "b \<le> t" "a_leader a t \<noteq> None"
  shows "n = 0 \<or> agree l (a_tlog a t) n"
proof (cases "n = 0")
  case False
  then obtain u i where *: "chosen peers a u i" "n \<le> i" "u \<le> b" "agree l (a_tlog a u) n"
    using assms(3) by (auto simp: committed_def)
  have "agree (a_tlog a u) (a_tlog a t) i"
  proof (cases "u = t")
    case True
    then show ?thesis using *(1) by (auto simp: chosen_def intro: agree_refl)
  next
    case False
    then show ?thesis
      using leader_completeness [OF assms(1,2) *(1) _ assms(5)] *(3) assms(4) agree_sym by fastforce
  qed
  then show ?thesis using *(2,4) by (meson agree_le agree_trans)
qed simp

lemma committed_logs_agree:
  assumes "distinct peers" "spec_inv peers a" "committed peers a l n b" "committed peers a l' n' b'" "0 < n" "n \<le> n'"
  shows "agree l l' n"
proof -
  obtain u i where u: "chosen peers a u i" "n \<le> i" "agree l (a_tlog a u) n"
    using assms(3,5) by (auto simp: committed_def)
  have c': "committed peers a l' n b'" using committed_le [OF assms(4,6)] .
  then obtain u' i' where u': "chosen peers a u' i'" "n \<le> i'" "agree l' (a_tlog a u') n"
    using assms(5) by (auto simp: committed_def)
  have "committed peers a l n u" "committed peers a l' n u'"
    using u u' unfolding committed_def by blast+
  moreover have "a_leader a u \<noteq> None" "a_leader a u' \<noteq> None" using u(1) u'(1) by (auto simp: chosen_def)
  ultimately show ?thesis
    using committed_in_leader [OF assms(1,2)] assms(5) u(3) u'(3)
    by (metis agree_sym agree_trans linorder_le_cases neq0_conv)
qed

section \<open>Steps keep the invariant\<close>

lemma log_ok_sentinel [simp]: "log_ok a [sentinel]"
  by (simp add: log_ok_def)

lemma rooted_take: "rooted l \<Longrightarrow> rooted (take (Suc n) l)"
  using wf_log_take [of l "Suc n"] by (cases l) (auto simp: rooted_def)

lemma log_ok_take:
  assumes "log_ok a l" shows "log_ok a (take (Suc n) l)"
proof -
  have "sorted (map ent_Term (take (Suc n) l))"
    using log_okD(2) [OF assms] by (metis sorted_wrt_take take_map)
  moreover have "agree (take (Suc n) l) (a_tlog a (ent_Term (l ! k))) k" if "0 < k" "k < length l" "k \<le> n" for k
    using log_okD(4) [OF assms that(1,2)] that by (auto simp: agree_def min_def)
  ultimately show ?thesis
    using rooted_take [OF log_okD(1) [OF assms]] log_okD(3) [OF assms] by (auto simp: log_ok_def less_Suc_eq_le)
qed

lemma log_ok_snoc:
  assumes "log_ok a l" "lastTerm l \<le> t" "a_leader a t \<noteq> None"
    and "a_tlog a t = l @ [\<lparr>ent_Term = t, ent_Index = length l, ent_Command = c\<rparr>]"
  shows "log_ok a (a_tlog a t)"
proof -
  let ?l = "a_tlog a t"
  have "sorted (map ent_Term ?l)"
    using log_okD(2) [OF assms(1)] log_ok_le_lastTerm [OF assms(1)] assms(2) unfolding assms(4)
    by (force simp: sorted_append in_set_conv_nth)
  moreover have "a_leader a (ent_Term (?l ! k)) \<noteq> None \<and> agree ?l (a_tlog a (ent_Term (?l ! k))) k"
    if "0 < k" "k < length ?l" for k
  proof (cases "k < length l")
    case True
    then have "?l ! k = l ! k" using assms(4) by (simp add: nth_append)
    then show ?thesis using log_okD(3,4) [OF assms(1) that(1) True] True assms(4) agree_append by metis
  next
    case False
    then have "?l ! k = \<lparr>ent_Term = t, ent_Index = length l, ent_Command = c\<rparr>"
      using that assms(4) by (simp add: nth_append)
    then show ?thesis using assms(3) agree_refl [OF that(2)] by simp
  qed
  ultimately show ?thesis
    using rooted_snoc [OF log_okD(1) [OF assms(1)]] assms(4) unfolding log_ok_def by simp
qed

text \<open>Accepting a slice of a leader's log: nothing changes, or the log becomes that of the leader.\<close>

lemma accept_log:
  assumes l: "log_ok a l" and L: "log_ok a L" and n: "prev \<le> n" "n < length L"
    and p: "prev < length l" "ent_Term (l ! prev) = ent_Term (L ! prev)"
    and l': "l' = snd (appendFrom prev (drop (Suc prev) (take (Suc n) L)) l)"
  shows "(l' = l \<and> agree l L n) \<or> (l' = take (Suc n) L \<and> \<not> agree l L n)"
proof -
  let ?es = "drop (Suc prev) (take (Suc n) L)"
  note r = rootedD [OF log_okD(1) [OF l]] and R = rootedD [OF log_okD(1) [OF L]]
  note at = rooted_termAt [OF log_okD(1) [OF l]]
  have len: "length ?es = n - prev" using n by simp
  have es: "?es ! j = L ! (prev + j + 1)" if "j < n - prev" for j using that n by (simp add: add.commute)
  have prev: "prev \<le> lastIndex l" using p r by simp
  have ag: "agree l L (prev + k)" if "\<forall>j < k. termAt l (prev + j + 1) = Some (ent_Term (?es ! j))" "k \<le> n - prev" for k
  proof (cases k)
    case 0
    then show ?thesis using log_matching [OF l L] p n by simp
  next
    case (Suc j)
    then have "termAt l (prev + k) = Some (ent_Term (L ! (prev + k)))" using that es [of j] by simp
    then have "prev + k < length l" "ent_Term (l ! (prev + k)) = ent_Term (L ! (prev + k))"
      using at by (auto split: if_splits)
    then show ?thesis using log_matching [OF l L] n that(2) by simp
  qed
  from r(1) prev show ?thesis
  proof (cases rule: appendFrom_lookup [of l prev ?es])
    case same
    have "\<forall>j < length ?es. termAt l (prev + j + 1) = Some (ent_Term (?es ! j))"
      using same(2) r(3) by auto
    then show ?thesis using ag [of "n - prev"] same l' n len by simp
  next
    case (changed k)
    have k: "k < n - prev" using changed(1) len by simp
    have lt: "\<forall>j < k. termAt l (prev + j + 1) = Some (ent_Term (?es ! j))"
      using changed(8) r(3) by auto
    have agk: "agree l L (prev + k)" using ag [OF lt] k by simp
    have eq: "\<lparr>ent_Term = ent_Term (L ! i), ent_Index = i, ent_Command = ent_Command (L ! i)\<rparr> = L ! i"
      if "i < length L" for i using wf_logD [OF R(1) that] R(3) by simp
    have "l' = take (Suc n) L"
    proof (rule log_eqI)
      show "wf_log l'" "baseIndex l' = baseIndex (take (Suc n) L)"
        using appendFrom_wf [OF r(1) prev, of ?es] l' r(3) rootedD(3) [OF rooted_take [OF log_okD(1) [OF L]]] by simp_all
      show "wf_log (take (Suc n) L)" using rootedD(1) [OF rooted_take [OF log_okD(1) [OF L]]] .
      show "entryAt l' i = entryAt (take (Suc n) L) i" for i
      proof -
        consider "i \<le> prev + k" | "prev + k < i" "i \<le> n" | "n < i" using k by linarith
        then show ?thesis
        proof cases
          case 1
          then show ?thesis
            using changed(7) l' k n agree_nth [OF agk 1] agk
            by (simp add: rooted_entryAt log_okD(1) [OF l] rooted_take [OF log_okD(1) [OF L]] agree_def)
        next
          case 2
          then have "?es ! (i - prev - 1) = L ! i" using es [of "i - prev - 1"] by simp
          then show ?thesis
            using changed(7) l' 2 n len eq [of i]
            by (simp add: rooted_entryAt rooted_take [OF log_okD(1) [OF L]])
        next
          case 3
          then have "\<not> i \<le> prev + k" "\<not> i \<le> prev + length ?es" using k n len by simp_all
          then show ?thesis
            using changed(7) l' 3 by (simp add: rooted_entryAt rooted_take [OF log_okD(1) [OF L]])
        qed
      qed
    qed
    moreover have "\<not> agree l L n"
    proof
      assume "agree l L n"
      then have "termAt l (prev + k + 1) = Some (ent_Term (L ! (prev + k + 1)))"
        using agree_nth [of l L n "prev + k + 1"] k at by (auto simp: agree_def)
      then show False using changed(4) es [OF k] by simp
    qed
    ultimately show ?thesis by simp
  qed
qed

lemma vote_inv_add:
  assumes "extends a a'" "vote_inv peers a"
    and "a_vote a' = (a_vote a)(v := (a_vote a v)(t := Some (c, l)))"
    and "v \<in> set peers" "0 < t" "t \<le> a_term a' v" "log_ok a l" "a_vote a' c t = Some (c, l')"
    "isUpToDate l (lastIndex l') (lastTerm l')" "lastTerm l' < t"
  shows "vote_inv peers a'"
  unfolding vote_inv_def
proof (intro allI impI)
  fix w u d k assume w: "a_vote a' w u = Some (d, k)"
  show "w \<in> set peers \<and> 0 < u \<and> u \<le> a_term a' w \<and> log_ok a' k \<and>
     (\<exists>l'. a_vote a' d u = Some (d, l') \<and> isUpToDate k (lastIndex l') (lastTerm l') \<and> lastTerm l' < u)"
  proof (cases "w = v \<and> u = t")
    case True
    then have "d = c" "k = l" using w assms(3) by auto
    then show ?thesis using assms(4-10) True log_ok_extends [OF assms(1)] by blast
  next
    case False
    then have "a_vote a w u = Some (d, k)" using w assms(3) by (auto split: if_splits)
    then obtain l'' where "w \<in> set peers" "0 < u" "u \<le> a_term a w" "log_ok a k" "a_vote a d u = Some (d, l'')"
      "isUpToDate k (lastIndex l'') (lastTerm l'')" "lastTerm l'' < u"
      using vote_invD [OF assms(2)] by metis
    then show ?thesis
      using log_ok_extends [OF assms(1)] extendsD(2) [OF assms(1)] extendsD(4) [OF assms(1), of w] by fastforce
  qed
qed

lemma vote_inv_extends:
  assumes "extends a a'" "vote_inv peers a" "a_vote a' = a_vote a"
  shows "vote_inv peers a'"
  using assms(2) log_ok_extends [OF assms(1)] extendsD(4) [OF assms(1)] order_trans
  unfolding vote_inv_def assms(3) by blast

lemma leader_inv_extends:
  assumes "extends a a'" "leader_inv peers a"
    and "\<And>t c. a_leader a' t = Some c \<Longrightarrow> a_leader a t \<noteq> Some c \<or> a_tlog a' t \<noteq> a_tlog a t \<Longrightarrow>
      t \<le> a_term a' c \<and> log_ok a' (a_tlog a' t) \<and>
     (\<exists>R \<subseteq> set peers. majority peers \<le> card R \<and> (\<forall>v \<in> R. \<exists>l. a_vote a' v t = Some (c, l))) \<and>
     (\<exists>l es. a_vote a' c t = Some (c, l) \<and> a_tlog a' t = l @ es \<and> es \<noteq> [] \<and> (\<forall>e \<in> set es. ent_Term e = t))"
  shows "leader_inv peers a'"
  unfolding leader_inv_def
proof (intro allI impI)
  fix t c assume t: "a_leader a' t = Some c"
  show "t \<le> a_term a' c \<and> log_ok a' (a_tlog a' t) \<and>
     (\<exists>R \<subseteq> set peers. majority peers \<le> card R \<and> (\<forall>v \<in> R. \<exists>l. a_vote a' v t = Some (c, l))) \<and>
     (\<exists>l es. a_vote a' c t = Some (c, l) \<and> a_tlog a' t = l @ es \<and> es \<noteq> [] \<and> (\<forall>e \<in> set es. ent_Term e = t))"
  proof (cases "a_leader a t \<noteq> Some c \<or> a_tlog a' t \<noteq> a_tlog a t")
    case True
    with assms(3) t show ?thesis by blast
  next
    case False
    then obtain R l es where *: "t \<le> a_term a c" "log_ok a (a_tlog a t)" "R \<subseteq> set peers" "majority peers \<le> card R"
      "\<forall>v \<in> R. \<exists>l. a_vote a v t = Some (c, l)" "a_vote a c t = Some (c, l)" "a_tlog a t = l @ es" "es \<noteq> []"
      "\<forall>e \<in> set es. ent_Term e = t"
      using leader_invD [OF assms(2)] by metis
    have "t \<le> a_term a' c" using *(1) extendsD(4) [OF assms(1), of c] by simp
    moreover have "log_ok a' (a_tlog a' t)" using *(2) False log_ok_extends [OF assms(1)] by simp
    moreover have "\<forall>v \<in> R. \<exists>l. a_vote a' v t = Some (c, l)" using *(5) extendsD(2) [OF assms(1)] by blast
    moreover have "a_vote a' c t = Some (c, l)" "a_tlog a' t = l @ es"
      using *(6,7) extendsD(2) [OF assms(1)] False by auto
    ultimately show ?thesis using *(3,4,8,9) by blast
  qed
qed

lemma logs_inv_extends:
  assumes "extends a a'" "logs_inv a"
    and "\<And>v. a_log a' v \<noteq> a_log a v \<Longrightarrow> log_ok a' (a_log a' v) \<and> lastTerm (a_log a' v) \<le> a_term a' v"
  shows "logs_inv a'"
  unfolding logs_inv_def
proof
  fix v
  show "log_ok a' (a_log a' v) \<and> lastTerm (a_log a' v) \<le> a_term a' v"
  proof (cases "a_log a' v = a_log a v")
    case True
    then show ?thesis
      using assms(2) log_ok_extends [OF assms(1)] extendsD(4) [OF assms(1), of v] le_trans
      unfolding logs_inv_def by fastforce
  qed (use assms(3) in blast)
qed

lemma acks_inv_extends:
  assumes "extends a a'" "acks_inv peers a"
    and "\<And>v t n. (v, t, n) \<in> a_acks a' \<Longrightarrow> (v, t, n) \<notin> a_acks a \<Longrightarrow>
      v \<in> set peers \<and> a_leader a' t \<noteq> None \<and> n < length (a_tlog a' t) \<and> t \<le> a_term a' v"
  shows "acks_inv peers a'"
  unfolding acks_inv_def
proof (intro allI impI)
  fix v t n assume x: "(v, t, n) \<in> a_acks a'"
  show "v \<in> set peers \<and> a_leader a' t \<noteq> None \<and> n < length (a_tlog a' t) \<and> t \<le> a_term a' v"
  proof (cases "(v, t, n) \<in> a_acks a")
    case True
    then have *: "v \<in> set peers" "a_leader a t \<noteq> None" "n < length (a_tlog a t)" "t \<le> a_term a v"
      using assms(2) unfolding acks_inv_def by blast+
    obtain es where "a_tlog a' t = a_tlog a t @ es" using extends_tlog [OF assms(1) *(2)] .
    then show ?thesis using * extendsD(5) [OF assms(1) *(2)] extendsD(4) [OF assms(1), of v] by simp
  qed (use assms(3) x in blast)
qed

lemma kept_inv_extends:
  assumes ext: "extends a a'" and inv: "vote_inv peers a" "leader_inv peers a" "acks_inv peers a" "kept_inv a"
    and logs: "\<And>v t i. acked a v t i \<Longrightarrow> a_log a' v \<noteq> a_log a v \<Longrightarrow> kept a' (a_log a' v) t i"
    and acks: "\<And>v t i. acked a' v t i \<Longrightarrow> \<not> acked a v t i \<Longrightarrow>
      kept a' (a_log a' v) t i \<and> (\<forall>t' x. a_vote a' v t' = Some x \<longrightarrow> t' \<le> t)"
    and votes: "\<And>v t c l. a_vote a' v t = Some (c, l) \<Longrightarrow> a_vote a v t = Some (c, l) \<or> l = a_log a v"
  shows "kept_inv a'"
  unfolding kept_inv_def
proof (intro allI impI)
  fix v t i assume v: "acked a' v t i"
  show "kept a' (a_log a' v) t i \<and> (\<forall>t' c l. a_vote a' v t' = Some (c, l) \<and> t < t' \<longrightarrow> kept a' l t i)"
  proof (cases "acked a v t i")
    case True
    note f = acked_facts [OF inv(3) True]
    note keep = kept_extends [OF ext inv(1,2) f]
    have old: "kept a (a_log a v) t i" "\<And>t' c l. a_vote a v t' = Some (c, l) \<Longrightarrow> t < t' \<Longrightarrow> kept a l t i"
      using True inv(4) unfolding kept_inv_def by blast+
    show ?thesis
    proof (intro conjI allI impI)
      show "kept a' (a_log a' v) t i"
        using logs [OF True] keep [OF old(1)] by (cases "a_log a' v = a_log a v") auto
      show "kept a' l t i" if "a_vote a' v t' = Some (c, l) \<and> t < t'" for t' c l
        using votes [of v t' c l] that old keep by blast
    qed
  next
    case False
    then show ?thesis using acks [OF v False] by fastforce
  qed
qed

lemma commit_inv_extends:
  assumes "extends a a'" "commit_inv peers a"
    and "\<And>v. a_log a' v \<noteq> a_log a v \<or> a_commit a' v \<noteq> a_commit a v \<Longrightarrow>
      committed peers a' (a_log a' v) (a_commit a' v) (lastTerm (a_log a' v))"
  shows "commit_inv peers a'"
  using assms(2,3) committed_extends [OF assms(1)] unfolding commit_inv_def by metis

lemma spec_invD:
  assumes "spec_inv peers a"
  shows "vote_inv peers a" "leader_inv peers a" "logs_inv a" "acks_inv peers a" "kept_inv a" "commit_inv peers a"
    "log_ok a (a_log a v)" "lastTerm (a_log a v) \<le> a_term a v"
    "committed peers a (a_log a v) (a_commit a v) (lastTerm (a_log a v))"
  using assms by (auto simp: spec_inv_def logs_inv_def commit_inv_def)

lemma vote_term: "spec_inv peers a \<Longrightarrow> a_vote a v t = Some x \<Longrightarrow> t \<le> a_term a v"
  by (cases x) (auto dest!: spec_invD(1) elim: vote_invD)

lemma acked_term: "spec_inv peers a \<Longrightarrow> acked a v t i \<Longrightarrow> t \<le> a_term a v"
  using spec_invD(2,4) [of peers a] unfolding acked_def acks_inv_def leader_inv_def by blast

text \<open>Steps that change neither votes, leaders, logs nor acknowledgements.\<close>

lemma spec_inv_frame:
  assumes "spec_inv peers a" "a_vote a' = a_vote a" "a_leader a' = a_leader a" "a_tlog a' = a_tlog a"
    "a_log a' = a_log a" "a_acks a' = a_acks a" "\<And>v. a_term a v \<le> a_term a' v"
    and "\<And>v. a_commit a' v \<noteq> a_commit a v \<Longrightarrow> committed peers a (a_log a v) (a_commit a' v) (lastTerm (a_log a v))"
  shows "spec_inv peers a'"
proof -
  note inv = spec_invD [OF assms(1)]
  have ext: "extends a a'" using assms(2-7) by (simp add: extends_def)
  have ack: "acked a' = acked a" using assms(2-7) by (intro HOL.ext) (simp add: acked_def)
  have "kept_inv a'" by (rule kept_inv_extends [OF ext inv(1,2,4,5)]) (simp_all add: assms(2-6) ack)
  moreover have "commit_inv peers a'"
    by (rule commit_inv_extends [OF ext inv(6)]) (use assms(5,8) committed_extends [OF ext] in auto)
  moreover have "leader_inv peers a'"
    by (rule leader_inv_extends [OF ext inv(2)]) (use assms(2-5) in auto)
  moreover have "logs_inv a'" by (rule logs_inv_extends [OF ext inv(3)]) (use assms(5) in auto)
  moreover have "acks_inv peers a'" by (rule acks_inv_extends [OF ext inv(4)]) (use assms(6) in auto)
  ultimately show ?thesis using vote_inv_extends [OF ext inv(1) assms(2)] by (simp add: spec_inv_def)
qed

text \<open>A new vote, with the voter's log.\<close>

lemma spec_inv_vote:
  assumes inv: "spec_inv peers a" and v: "v \<in> set peers" and t: "0 < t" "a_term a v \<le> t" "a_vote a v t = None"
    and a': "a' = a\<lparr>a_term := (a_term a)(v := t), a_vote := (a_vote a)(v := (a_vote a v)(t := Some (c, a_log a v)))\<rparr>"
    and c: "a_vote a' c t = Some (c, l')" "isUpToDate (a_log a v) (lastIndex l') (lastTerm l')" "lastTerm l' < t"
  shows "spec_inv peers a'"
proof -
  note i = spec_invD [OF inv]
  have ext: "extends a a'" using t(2,3) a' by (auto simp: extends_def)
  have ack: "acked a' = acked a" using a' by (intro HOL.ext) (simp add: acked_def)
  have "vote_inv peers a'"
    by (rule vote_inv_add [OF ext i(1), of v t c "a_log a v" l']) (use v t c i(7) a' in auto)
  moreover have "kept_inv a'"
    by (rule kept_inv_extends [OF ext i(1,2,4,5)]) (use a' ack in \<open>auto split: if_splits\<close>)
  moreover have "commit_inv peers a'" by (rule commit_inv_extends [OF ext i(6)]) (use a' in auto)
  moreover have "leader_inv peers a'" by (rule leader_inv_extends [OF ext i(2)]) (use a' in auto)
  moreover have "logs_inv a'" by (rule logs_inv_extends [OF ext i(3)]) (use a' in auto)
  moreover have "acks_inv peers a'" by (rule acks_inv_extends [OF ext i(4)]) (use a' in auto)
  ultimately show ?thesis by (simp add: spec_inv_def)
qed

text \<open>The leader's log grows by an entry of its term: an election or a new command.\<close>

lemma spec_inv_append:
  assumes inv: "spec_inv peers a" and t: "a_term a c = t"
    and l: "l = a_log a c @ [\<lparr>ent_Term = t, ent_Index = length (a_log a c), ent_Command = cmd\<rparr>]"
    and a': "a' = a\<lparr>a_leader := (a_leader a)(t := Some c), a_tlog := (a_tlog a)(t := l), a_log := (a_log a)(c := l)\<rparr>"
    and old: "a_leader a t = None \<or> (a_leader a t = Some c \<and> a_log a c = a_tlog a t)"
    and R: "R \<subseteq> set peers" "majority peers \<le> card R" "\<forall>v \<in> R. \<exists>l. a_vote a v t = Some (c, l)"
    and c: "a_vote a c t = Some (c, l0)" "a_log a c = l0 @ es" "\<forall>e \<in> set es. ent_Term e = t"
  shows "spec_inv peers a'"
proof -
  note i = spec_invD [OF inv]
  have ext: "extends a a'" using a' l old by (auto simp: extends_def)
  have last: "lastTerm l = t" using l by simp
  have ok: "log_ok a' l"
    using log_ok_snoc [OF log_ok_extends [OF ext i(7)], of c t cmd] i(8) [of c] t l a' by simp
  have "vote_inv peers a'" by (rule vote_inv_extends [OF ext i(1)]) (use a' in auto)
  moreover have "leader_inv peers a'"
  proof (rule leader_inv_extends [OF ext i(2)])
    fix u d assume d: "a_leader a' u = Some d" "a_leader a u \<noteq> Some d \<or> a_tlog a' u \<noteq> a_tlog a u"
    then have "u = t" using a' by (auto split: if_splits)
    then have "d = c" "u = t" using d a' by auto
    then show "u \<le> a_term a' d \<and> log_ok a' (a_tlog a' u) \<and>
     (\<exists>R \<subseteq> set peers. majority peers \<le> card R \<and> (\<forall>v \<in> R. \<exists>l. a_vote a' v u = Some (d, l))) \<and>
     (\<exists>l es. a_vote a' d u = Some (d, l) \<and> a_tlog a' u = l @ es \<and> es \<noteq> [] \<and> (\<forall>e \<in> set es. ent_Term e = u))"
      using ok R c a' t l
      by (auto intro!: exI [of _ R] exI [of _ "es @ [\<lparr>ent_Term = t, ent_Index = length (a_log a c), ent_Command = cmd\<rparr>]"])
  qed
  moreover have "logs_inv a'" by (rule logs_inv_extends [OF ext i(3)]) (use a' t ok last in auto)
  moreover have "acks_inv peers a'" by (rule acks_inv_extends [OF ext i(4)]) (use a' in auto)
  moreover have "kept_inv a'"
  proof (rule kept_inv_extends [OF ext i(1,2,4,5)])
    fix v u k assume v: "acked a v u k" "a_log a' v \<noteq> a_log a v"
    then have [simp]: "v = c" using a' by (auto split: if_splits)
    have "kept a' (a_log a c) u k"
      using kept_extends [OF ext i(1,2) acked_facts [OF i(4) v(1)]] i(5) v(1) unfolding kept_inv_def by simp
    then have "kept a' l u k"
      using l last i(8) [of c] t agree_append [of k "a_log a c"] unfolding kept_def
      by (metis agree_def le_trans)
    then show "kept a' (a_log a' v) u k" using a' by simp
  next
    fix v u k assume v: "acked a' v u k" "\<not> acked a v u k"
    then have [simp]: "u = t" "v = c" using a' by (auto simp: acked_def split: if_splits)
    have "k < length l" using v a' old l by (auto simp: acked_def)
    then have "kept a' l t k" using a' agree_refl by (simp add: kept_def)
    then show "kept a' (a_log a' v) u k \<and> (\<forall>t' x. a_vote a' v t' = Some x \<longrightarrow> t' \<le> u)"
      using vote_term [OF inv, of c] t a' by auto
  qed (use a' in auto)
  moreover have "commit_inv peers a'"
  proof (rule commit_inv_extends [OF ext i(6)])
    fix v assume "a_log a' v \<noteq> a_log a v \<or> a_commit a' v \<noteq> a_commit a v"
    then have [simp]: "v = c" using a' by (auto split: if_splits)
    have "committed peers a' (a_log a c) (a_commit a c) t"
      using committed_weaken [OF committed_extends [OF ext i(9)]] i(8) [of c] t by simp
    then have "committed peers a' l (a_commit a c) t"
      unfolding committed_def using l agree_append [of "a_commit a c" "a_log a c"] by (metis agree_def)
    then show "committed peers a' (a_log a' v) (a_commit a' v) (lastTerm (a_log a' v))"
      using a' last by simp
  qed
  ultimately show ?thesis by (simp add: spec_inv_def)
qed

text \<open>A server takes over a slice of a leader's log and acknowledges it.\<close>

lemma spec_inv_accept:
  assumes "distinct peers" and inv: "spec_inv peers a" and v: "v \<in> set peers"
    and t: "a_leader a t \<noteq> None" "a_term a v \<le> t" and n: "prev \<le> n" "n < length (a_tlog a t)" "ent_Term (a_tlog a t ! n) = t"
    and p: "prev < length (a_log a v)" "ent_Term (a_log a v ! prev) = ent_Term (a_tlog a t ! prev)"
    and l: "l = snd (appendFrom prev (drop (Suc prev) (take (Suc n) (a_tlog a t))) (a_log a v))"
    and a': "a' = a\<lparr>a_term := (a_term a)(v := t), a_log := (a_log a)(v := l), a_acks := insert (v, t, n) (a_acks a)\<rparr>"
  shows "spec_inv peers a'"
proof -
  note i = spec_invD [OF inv]
  note tl = tlog_facts [OF i(1,2) t(1)]
  have ext: "extends a a'" using a' t(2) by (auto simp: extends_def)
  have cases: "(l = a_log a v \<and> agree (a_log a v) (a_tlog a t) n)
    \<or> (l = take (Suc n) (a_tlog a t) \<and> \<not> agree (a_log a v) (a_tlog a t) n)"
    using accept_log [OF i(7) tl(1) n(1,2) p l] .
  have ln: "agree l (a_tlog a t) n" using cases n(2) by (auto simp: agree_def)
  have ok: "log_ok a l" using cases i(7) log_ok_take [OF tl(1)] by auto
  have last: "lastTerm l = t"
  proof (cases "l = a_log a v")
    case True
    then have "t \<le> lastTerm l"
      using log_ok_le_lastTerm [OF ok, of n] ln agree_nth [OF ln, of n] n(3) by (simp add: agree_def)
    then show ?thesis using True i(8) [of v] t(2) by simp
  next
    case False
    then have "l = take (Suc n) (a_tlog a t)" using cases by simp
    then show ?thesis using n by (simp add: lastTerm_def take_Suc_conv_app_nth)
  qed
  have le: "k < n" if "agree (a_log a v) (a_tlog a t) k" "l \<noteq> a_log a v" for k
    using cases that agree_le by (meson not_le_imp_less)
  have keep: "agree l (a_tlog a t) k" if "agree (a_log a v) (a_tlog a t) k" for k
    using that le [OF that] agree_le [OF ln] by (cases "l = a_log a v") auto
  have "vote_inv peers a'" by (rule vote_inv_extends [OF ext i(1)]) (use a' in auto)
  moreover have "leader_inv peers a'" by (rule leader_inv_extends [OF ext i(2)]) (use a' in auto)
  moreover have "logs_inv a'"
    by (rule logs_inv_extends [OF ext i(3)]) (use a' last log_ok_extends [OF ext ok] in \<open>auto split: if_splits\<close>)
  moreover have "acks_inv peers a'"
    by (rule acks_inv_extends [OF ext i(4)]) (use a' t n v in auto)
  moreover have "kept_inv a'"
  proof (rule kept_inv_extends [OF ext i(1,2,4,5)])
    fix w u k assume w: "acked a w u k" "a_log a' w \<noteq> a_log a w"
    then have [simp]: "w = v" using a' by (auto split: if_splits)
    have u: "u \<le> t" using acked_term [OF inv w(1)] t(2) by simp
    have "kept a (a_log a v) u k" using i(5) w(1) unfolding kept_inv_def by simp
    then have "kept a l u k"
    proof (cases "agree (a_log a v) (a_tlog a u) k")
      case True
      show ?thesis
      proof (cases "agree (a_tlog a t) (a_tlog a u) k")
        case ag: True
        then have "agree l (a_tlog a t) k" using keep True agree_sym agree_trans by blast
        then show ?thesis using ag agree_trans by (auto simp: kept_def)
      next
        case False
        then have "u \<noteq> t" using True agree_refl by (auto simp: agree_def)
        then show ?thesis using u t(1) last False unfolding kept_def by fastforce
      qed
    next
      case False
      assume "kept a (a_log a v) u k"
      then show ?thesis using False last i(8) [of v] t(2) unfolding kept_def by (meson le_trans)
    qed
    then show "kept a' (a_log a' w) u k"
      using kept_extends [OF ext i(1,2) acked_facts [OF i(4) w(1)]] a' by simp
  next
    fix w u k assume w: "acked a' w u k" "\<not> acked a w u k"
    then have [simp]: "w = v" "u = t" and k: "k \<le> n" using a' by (auto simp: acked_def)
    have "kept a' l t k" using agree_le [OF ln k] a' by (simp add: kept_def)
    then show "kept a' (a_log a' w) u k \<and> (\<forall>t' x. a_vote a' w t' = Some x \<longrightarrow> t' \<le> u)"
      using vote_term [OF inv, of v] t(2) a' by fastforce
  qed (use a' in auto)
  moreover have "commit_inv peers a'"
  proof (rule commit_inv_extends [OF ext i(6)])
    fix w assume "a_log a' w \<noteq> a_log a w \<or> a_commit a' w \<noteq> a_commit a w"
    then have [simp]: "w = v" using a' by (auto split: if_splits)
    have lt: "lastTerm (a_log a v) \<le> t" using i(8) [of v] t(2) by simp
    have c: "committed peers a (a_log a v) (a_commit a v) t" using committed_weaken [OF i(9) lt] .
    have "a_commit a v = 0 \<or> agree (a_log a v) (a_tlog a t) (a_commit a v)"
      using committed_in_leader [OF assms(1) inv c _ t(1)] by simp
    then have "committed peers a l (a_commit a v) t"
    proof
      assume "agree (a_log a v) (a_tlog a t) (a_commit a v)"
      then show ?thesis using committed_agree [OF c] keep agree_sym agree_trans by blast
    qed (simp add: committed_def)
    then show "committed peers a' (a_log a' w) (a_commit a' w) (lastTerm (a_log a' w))"
      using committed_extends [OF ext] a' last by simp
  qed
  ultimately show ?thesis by (simp add: spec_inv_def)
qed

lemma spec_step_inv:
  assumes "distinct peers" "spec_step peers a a'" "spec_inv peers a"
  shows "spec_inv peers a'"
  using assms(2)
proof cases
  case (observe v t)
  then show ?thesis by (intro spec_inv_frame [OF assms(3)]) auto
next
  case (campaign v t)
  have none: "a_vote a v t = None" using campaign(3) vote_term [OF assms(3), of v t] by (cases "a_vote a v t") auto
  show ?thesis
    by (rule spec_inv_vote [OF assms(3) campaign(2) _ _ none campaign(1), of "a_log a v"])
      (use campaign spec_invD(8) [OF assms(3), of v] isUpToDate_refl in \<open>auto simp: less_Suc_eq_le\<close>)
next
  case (grant v t c l)
  obtain l' where l': "0 < t" "lastTerm l' < t" "a_vote a c t = Some (c, l')"
    using vote_invD [OF spec_invD(1) [OF assms(3)] grant(5)] by metis
  then have eq: "l' = l" using grant(5) by simp
  have "v \<noteq> c" using grant(4,5) by auto
  then show ?thesis
    using l' eq grant
    by (intro spec_inv_vote [OF assms(3) grant(2) l'(1) grant(3,4,1), of l]) auto
next
  case (elect c t R l)
  have none: "a_leader a t = None"
  proof (rule ccontr)
    assume "a_leader a t \<noteq> None"
    then obtain d where d: "a_leader a t = Some d" by auto
    obtain R' where "R' \<subseteq> set peers" "majority peers \<le> card R'" "\<forall>v \<in> R'. \<exists>l. a_vote a v t = Some (d, l)"
      using leader_invD [OF spec_invD(2) [OF assms(3)] d] by metis
    then have "c = d" using election_safety [OF assms(1) elect(6-8)] by blast
    then show False using d elect(5) by simp
  qed
  show ?thesis
    by (rule spec_inv_append [OF assms(3) elect(3) elect(9) elect(1) _ elect(6-8) elect(4), of "[]"])
      (use none in auto)
next
  case (extend t c l cmd)
  obtain R l0 es where "R \<subseteq> set peers" "majority peers \<le> card R" "\<forall>v \<in> R. \<exists>l. a_vote a v t = Some (c, l)"
    "a_vote a c t = Some (c, l0)" "a_tlog a t = l0 @ es" "\<forall>e \<in> set es. ent_Term e = t"
    using leader_invD [OF spec_invD(2) [OF assms(3)] extend(2)] by metis
  moreover have "a' = a\<lparr>a_leader := (a_leader a)(t := Some c), a_tlog := (a_tlog a)(t := l), a_log := (a_log a)(c := l)\<rparr>"
    using extend(1,2) by (simp add: fun_upd_idem)
  ultimately show ?thesis
    using extend by (intro spec_inv_append [OF assms(3) extend(3) extend(5), of a' R l0 es]) auto
next
  case (accept v t prev n l)
  show ?thesis by (rule spec_inv_accept [OF assms(1,3) accept(2-10,1)])
next
  case (commit v n)
  then show ?thesis by (intro spec_inv_frame [OF assms(3)]) (auto split: if_splits)
next
  case (forget n v)
  then show ?thesis
    using committed_le [OF spec_invD(9) [OF assms(3), of v]]
    by (intro spec_inv_frame [OF assms(3)]) (auto split: if_splits)
qed

lemma lastTerm_sentinel [simp]: "lastTerm [sentinel] = 0"
  by (simp add: sentinel_def lastTerm_def)

lemma spec_inv_init: "spec_inv peers spec_init"
  by (auto simp: spec_inv_def spec_init_def vote_inv_def leader_inv_def logs_inv_def acks_inv_def kept_inv_def
      commit_inv_def acked_def committed_def)

section \<open>Runs of the protocol\<close>

inductive spec_reach :: "NodeID list \<Rightarrow> Spec \<Rightarrow> bool" for peers where
  init: "spec_reach peers spec_init"
| step: "spec_reach peers a \<Longrightarrow> spec_step peers a a' \<Longrightarrow> spec_reach peers a'"

lemma spec_reach_inv: "spec_reach peers a \<Longrightarrow> distinct peers \<Longrightarrow> spec_inv peers a"
  by (induction rule: spec_reach.induct) (simp_all add: spec_inv_init spec_step_inv)

lemma spec_state_machine_safety:
  assumes "spec_reach peers a" "distinct peers" "i \<le> a_commit a v" "i \<le> a_commit a w" "0 < i"
  shows "agree (a_log a v) (a_log a w) i"
proof -
  note inv = spec_reach_inv [OF assms(1,2)]
  show ?thesis
    using committed_logs_agree [OF assms(2) inv committed_le [OF spec_invD(9) [OF inv]]
        committed_le [OF spec_invD(9) [OF inv]] assms(5) order_refl, OF assms(3,4)] .
qed

end
