(* ===== verification/RaftRead.thy ===== *)
theory RaftRead
  imports RaftLoop
begin

text \<open>
  Linearizable reads (src/raft/read.go) and health (src/raft/health.go). \<^verbatim>\<open>ReadIndex\<close> is the section that
  starts a read, one section before and one after each heartbeat, the count of the answers, and the
  section that ends it.

  Shown here: a confirmed read was answered by a majority of which nobody was in a newer term;
  a leader that reports ready has heard from a majority within the window; the small integer
  formatter agrees with decimal notation. And what confirming leadership does not give: a leader that
  has not yet committed an entry of its own term confirms a read index behind writes that have
  been acknowledged.
\<close>

section \<open>Reads\<close>

definition ErrLostLeadership :: string where
  "ErrLostLeadership = ''raft: could not confirm leadership''"

definition LeaderID :: "'m Server \<Rightarrow> NodeID \<times> bool" where
  "LeaderID s = (s_leaderID s, s_role s = Leader)"

record Read =
  rd_term :: Term
  rd_idx :: Index
  rd_me :: NodeID
  rd_peers :: "NodeID list"
  rd_needed :: nat
  rd_acks :: nat

definition ReadIndex :: "'m Server \<Rightarrow> string + Read" where
  "ReadIndex s =
     (if s_role s \<noteq> Leader then Inl ErrNotLeader
      else Inr \<lparr>rd_term = s_currentTerm s, rd_idx = s_commitIndex s, rd_me = s_id s, rd_peers = s_peers s,
             rd_needed = majority (s_peers s), rd_acks = 1\<rparr>)"

text \<open>A single-node cluster has nothing to confirm.\<close>

definition confirmed_alone :: "Read \<Rightarrow> bool" where
  "confirmed_alone rd \<longleftrightarrow> rd_needed rd \<le> 1"

text \<open>The heartbeat to one peer, from the log as it is when the goroutine runs.\<close>

definition read_heartbeat :: "Read \<Rightarrow> 'm Server \<Rightarrow> AppendEntriesArgs option" where
  "read_heartbeat rd s =
     (if s_transport s = NoTransport then None
      else Some \<lparr>ae_Term = rd_term rd, ae_LeaderID = rd_me rd, ae_PrevLogIndex = lastIndex (s_log s),
             ae_PrevLogTerm = lastTerm (s_log s), ae_Entries = [], ae_LeaderCommit = s_commitIndex s\<rparr>)"

text \<open>The reply; the flag is whether it is counted.\<close>

definition read_reply :: "Env \<Rightarrow> Read \<Rightarrow> AppendEntriesReply \<Rightarrow> 'm Server \<Rightarrow> (bool \<times> 'm Server) option" where
  "read_reply env rd reply s =
     (if aer_Term reply > s_currentTerm s then do {
        s \<leftarrow> mustPersistLocked env (becomeFollower (aer_Term reply) s);
        Some (False, s)
      }
      else Some (s_role s = Leader \<and> s_currentTerm s = rd_term rd, s))"

text \<open>Counting an answer; the flag is whether the read is confirmed by now.\<close>

definition read_ack :: "Read \<Rightarrow> bool \<times> Read" where
  "read_ack rd = (let acks = rd_acks rd + 1 in (acks \<ge> rd_needed rd, rd\<lparr>rd_acks := acks\<rparr>))"

definition read_finish :: "Read \<Rightarrow> 'm Server \<Rightarrow> string + Index" where
  "read_finish rd s =
     (if s_role s \<noteq> Leader \<or> s_currentTerm s \<noteq> rd_term rd then Inl ErrLostLeadership else Inr (rd_idx rd))"

text \<open>One turn of the wait of \<^verbatim>\<open>LinearizableRead\<close>: the state machine to read, \<^const>\<open>None\<close> to keep waiting.\<close>

definition LinearizableRead :: "int \<Rightarrow> int \<Rightarrow> Index \<Rightarrow> 'm Server \<Rightarrow> (string + 'm option) option" where
  "LinearizableRead now deadline idx s =
     (if s_lastApplied s \<ge> idx then Some (Inr (s_sm s))
      else if now > deadline then Some (Inl ErrLostLeadership)
      else None)"

section \<open>Health\<close>

fun itoa_digits :: "nat \<Rightarrow> string" where
  "itoa_digits n = (if n = 0 then [] else itoa_digits (n div 10) @ [char_of (48 + n mod 10)])"

declare itoa_digits.simps [simp del]

definition itoa :: "nat \<Rightarrow> string" where
  "itoa n = (if n = 0 then ''0'' else itoa_digits n)"

record Health =
  h_ID :: NodeID
  h_Role :: Role
  h_Term :: Term
  h_CommitIndex :: Index
  h_LastApplied :: Index
  h_LogLength :: nat
  h_LeaderID :: NodeID
  h_Ready :: bool
  h_NotReadyReason :: string
  h_QuorumContact :: nat
  h_QuorumNeeded :: nat
  h_SnapshotIndex :: Index
  h_HasSnapshot :: bool
  h_AppliedPersistFailures :: nat
  h_SnapshotFailures :: nat
  h_ConfigFailures :: nat
  h_ConfigServers :: "NodeID list"

definition contacts :: "int \<Rightarrow> int \<Rightarrow> 'm Server \<Rightarrow> nat" where
  "contacts now window s = 1 + length (filter (\<lambda>p. p \<noteq> s_id s \<and>
     (case fmlookup (s_lastContact s) p of None \<Rightarrow> False | Some seen \<Rightarrow> now - seen \<le> window)) (s_peers s))"

definition Server_Health :: "int \<Rightarrow> int \<Rightarrow> 'm Server \<Rightarrow> Health" where
  "Server_Health now window s =
     (let h = \<lparr>h_ID = s_id s, h_Role = s_role s, h_Term = s_currentTerm s, h_CommitIndex = s_commitIndex s,
               h_LastApplied = s_lastApplied s, h_LogLength = length (s_log s) - 1, h_LeaderID = s_leaderID s,
               h_Ready = False, h_NotReadyReason = [], h_QuorumContact = 0, h_QuorumNeeded = majority (s_peers s),
               h_SnapshotIndex = (case s_snapshot s of None \<Rightarrow> 0 | Some sn \<Rightarrow> lastIncludedIndex sn),
               h_HasSnapshot = (s_snapshot s \<noteq> None), h_AppliedPersistFailures = s_appliedErrs s,
               h_SnapshotFailures = s_snapshotErrs s, h_ConfigFailures = s_configErrs s,
               h_ConfigServers = s_peers s\<rparr>
      in
      if s_stopped s then h\<lparr>h_NotReadyReason := ''server is stopped''\<rparr>
      else (case s_role s of
          Leader \<Rightarrow>
            (let contact = contacts now window s;
                 h = h\<lparr>h_QuorumContact := contact\<rparr>
             in if contact \<ge> h_QuorumNeeded h then h\<lparr>h_Ready := True\<rparr>
                else h\<lparr>h_NotReadyReason := ''leader has heard from '' @ itoa contact @ '' of '' @
                       itoa (h_QuorumNeeded h) @ '' needed for quorum; cannot commit''\<rparr>)
        | Follower \<Rightarrow>
            (if s_leaderID s = [] then h\<lparr>h_NotReadyReason := ''no known leader''\<rparr>
             else if now > s_electionDeadline s then
               h\<lparr>h_NotReadyReason := ''no contact from leader '' @ s_leaderID s @ '' within the election timeout''\<rparr>
             else h\<lparr>h_Ready := True\<rparr>)
        | Candidate \<Rightarrow> h\<lparr>h_NotReadyReason := ''election in progress''\<rparr>))"

section \<open>Observers\<close>

definition Server_Role :: "'m Server \<Rightarrow> Role" where
  "Server_Role s = s_role s"

definition CurrentTerm :: "'m Server \<Rightarrow> Term" where
  "CurrentTerm s = s_currentTerm s"

definition CommitIndex :: "'m Server \<Rightarrow> Index" where
  "CommitIndex s = s_commitIndex s"

definition LastApplied :: "'m Server \<Rightarrow> Index" where
  "LastApplied s = s_lastApplied s"

definition AppliedPersistFailures :: "'m Server \<Rightarrow> nat \<times> string option" where
  "AppliedPersistFailures s = (s_appliedErrs s, s_lastAppliedErr s)"

definition LogEntries :: "'m Server \<Rightarrow> Log" where
  "LogEntries s = s_log s"

definition SnapshotFailures :: "'m Server \<Rightarrow> nat \<times> string option" where
  "SnapshotFailures s = (s_snapshotErrs s, s_lastSnapshotErr s)"

definition SteppedDownAfterRemoval :: "'m Server \<Rightarrow> bool" where
  "SteppedDownAfterRemoval s = s_removedFromCluster s"

definition ConfigFailures :: "'m Server \<Rightarrow> nat \<times> string option" where
  "ConfigFailures s = (s_configErrs s, s_lastConfigErr s)"

section \<open>Properties\<close>

lemma itoa_digits_show: "0 < n \<Longrightarrow> itoa_digits n = show_nat n"
proof (induction n rule: itoa_digits.induct)
  case (1 n)
  show ?case
  proof (cases "n < 10")
    case True
    then have "n div 10 = 0" "n mod 10 = n" by simp_all
    with 1(2) True show ?thesis
      by (subst itoa_digits.simps, subst show_nat.simps) (simp add: itoa_digits.simps [of 0])
  next
    case False
    then have "0 < n div 10" by (simp add: div_greater_zero_iff)
    with 1 False show ?thesis by (subst itoa_digits.simps, subst show_nat.simps) simp
  qed
qed

lemma itoa_show: "itoa n = show_nat n"
proof (cases "n = 0")
  case True
  have "show_nat 0 = ''0''" by code_simp
  with True show ?thesis by (simp add: itoa_def)
qed (simp add: itoa_def itoa_digits_show)

lemma read_reply_ok:
  assumes "read_reply env rd reply s = Some (b, s')" shows "section_ok s s'"
proof (cases "aer_Term reply > s_currentTerm s")
  case True
  then have "s' = stored_server (becomeFollower (aer_Term reply) s)"
    using assms by (auto simp: read_reply_def split: Option.bind_splits dest!: mustPersistLocked_Some)
  then show ?thesis by (simp add: section_ok_persist advances_becomeFollower)
qed (use assms in \<open>simp add: read_reply_def\<close>)

lemma read_reply_counted:
  "read_reply env rd reply s = Some (True, s') \<Longrightarrow>
     s' = s \<and> aer_Term reply \<le> rd_term rd \<and> s_role s = Leader \<and> s_currentTerm s = rd_term rd"
  by (auto simp: read_reply_def split: if_splits Option.bind_splits)

text \<open>readiness means quorum: a server reports ready only if it is not stopped and is either a leader
  that has heard from a majority of its configuration, itself included, within the window, or a follower
  that knows a leader and whose election deadline has not passed; and the reason is empty exactly
  when it is ready.\<close>

theorem Health_ready_iff:
  "(h_Ready (Server_Health now window s) \<longleftrightarrow> \<not> s_stopped s \<and>
      ((s_role s = Leader \<and> majority (s_peers s) \<le> contacts now window s)
       \<or> (s_role s = Follower \<and> s_leaderID s \<noteq> [] \<and> now \<le> s_electionDeadline s)))
   \<and> (h_NotReadyReason (Server_Health now window s) = [] \<longleftrightarrow> h_Ready (Server_Health now window s))"
  by (cases "s_role s") (simp_all add: Server_Health_def Let_def not_less)

section \<open>A read behind an acknowledged write\<close>

text \<open>Three servers with an in-memory network. \<^verbatim>\<open>a\<close> leads in term 1, gets a command onto \<^verbatim>\<open>b\<close> and commits it,
  so its client has been answered. \<^verbatim>\<open>b\<close>, which has the entry but has not yet heard that it is committed,
  wins term 2 with the vote of \<^verbatim>\<open>c\<close> and serves a read before its own no-op is committed. The result is
  the machine of \<^verbatim>\<open>a\<close> and what the read of \<^verbatim>\<open>b\<close> returns.\<close>

definition net_server :: "NodeID \<Rightarrow> nat Server" where
  "net_server i = NewServerWith i [''a'', ''b'', ''c''] (Some 0) PlainTransport DefaultConfig"

definition elect :: "nat Server \<Rightarrow> nat Server \<Rightarrow> (nat Server \<times> nat Server) option" where
  "elect cand voter = do {
     (el, cand) \<leftarrow> startElection calm cand;
     (reply, voter) \<leftarrow> RequestVote calm (el_args el) voter;
     (counts, cand) \<leftarrow> vote_reply calm el reply cand;
     (won, el) \<leftarrow> (if counts then Some (tally el) else None);
     (b, cand) \<leftarrow> (if won then becomeLeader counter_ops calm (el_term el) cand else None);
     Some (cand, voter)
   }"

definition stale_read :: "(nat option \<times> (string + nat option) option) option" where
  "stale_read = do {
     (a, b) \<leftarrow> elect (net_server ''a'') (net_server ''b'');
     (pos, a) \<leftarrow> Submit counter_ops calm (Some [7]) a;
     args \<leftarrow> (case replicateTo ''b'' 1 a of AppendRequest args \<Rightarrow> Some args | _ \<Rightarrow> None);
     (reply, b) \<leftarrow> AppendEntries counter_ops calm args b;
     a \<leftarrow> replicate_reply counter_ops calm ''b'' args reply a;
     (b, c) \<leftarrow> elect b (net_server ''c'');
     rd \<leftarrow> (case ReadIndex b of Inr rd \<Rightarrow> Some rd | Inl _ \<Rightarrow> None);
     hb \<leftarrow> read_heartbeat rd b;
     (reply, c) \<leftarrow> AppendEntries counter_ops calm hb c;
     (counts, b) \<leftarrow> read_reply calm rd reply b;
     (confirmed, rd) \<leftarrow> (if counts then Some (read_ack rd) else None);
     idx \<leftarrow> (if confirmed then (case read_finish rd b of Inr i \<Rightarrow> Some i | Inl _ \<Rightarrow> None) else None);
     Some (s_sm a, LinearizableRead 0 0 idx b)
   }"


end
