(* ===== verification/RaftDisk.thy ===== *)
theory RaftDisk
  imports RaftSnapshot RaftRead
begin

text \<open>
  What every section of src/raft leaves on disk. A section either stores its term, vote and log before
  it ends or does not change them; the applied marker never runs ahead of the applied index; and only
  \<^verbatim>\<open>SaveSnapshot\<close> touches the snapshot. \<open>recoverable\<close> is the consequence for a server that has never been
  compacted: restarting it gives back its term, vote and log, and an applied prefix of what it had applied.
\<close>

abbreviation saved :: "'m Server \<Rightarrow> bytes option" where
  "saved s \<equiv> map_option st_saved (s_storage s)"

definition marker :: "'m Server \<Rightarrow> nat option" where
  "marker s = Option.bind (s_storage s) st_applied"

definition store_step :: "'m Server \<Rightarrow> 'm Server \<Rightarrow> bool" where
  "store_step s s' \<longleftrightarrow>
     (durable s' \<or> (s_currentTerm s' = s_currentTerm s \<and> s_votedFor s' = s_votedFor s \<and> s_log s' = s_log s
        \<and> saved s' = saved s)) \<and>
     snap_store s' = snap_store s \<and>
     (marker s' = marker s \<or> marker s' = Some (s_lastApplied s'))"

lemma store_stepI:
  assumes "durable s' \<or> (s_currentTerm s' = s_currentTerm s \<and> s_votedFor s' = s_votedFor s \<and> s_log s' = s_log s
        \<and> saved s' = saved s)"
    "snap_store s' = snap_store s" "marker s' = marker s \<or> marker s' = Some (s_lastApplied s')"
  shows "store_step s s'"
  using assms by (simp add: store_step_def)

lemma store_step_volatile:
  assumes "s_currentTerm s' = s_currentTerm s" "s_votedFor s' = s_votedFor s" "s_log s' = s_log s"
    "s_storage s' = s_storage s"
  shows "store_step s s'"
  using assms by (simp add: store_step_def marker_def)

lemma store_step_refl [simp]: "store_step s s"
  by (rule store_step_volatile) simp_all

lemma marker_stored [simp]: "marker (stored_server s) = marker s"
  by (cases "s_storage s") (simp_all add: marker_def stored_server_storage)

lemma store_step_stored:
  assumes "s_storage s1 = s_storage s" shows "store_step s (stored_server s1)"
proof -
  have "marker s1 = marker s" "snap_store s1 = snap_store s" using assms by (simp_all add: marker_def)
  then show ?thesis by (intro store_stepI) simp_all
qed

lemma saved_save_applied [simp]: "saved (save_applied env s) = saved s"
  by (cases "s_storage s") (simp_all add: save_applied_def split: option.split)

lemma marker_save_applied:
  "marker (save_applied env s) = marker s \<or> marker (save_applied env s) = Some (s_lastApplied s)"
  by (cases "s_storage s") (simp_all add: save_applied_def marker_def split: option.split)

lemma marker_signalApplied [simp]: "marker (signalApplied s) = marker s"
  by (simp add: marker_def)

lemma applyCommitted_store:
  assumes "applyCommitted M env s = Some s'"
  shows "saved s' = saved s" "marker s' = marker s \<or> marker s' = Some (s_lastApplied s')"
proof -
  obtain applied m where s': "s' = signalApplied (save_applied env (s\<lparr>s_lastApplied := applied, s_sm := m\<rparr>))"
    using assms by (auto simp: applyCommitted_def split: Option.bind_splits)
  have "marker (s\<lparr>s_lastApplied := applied, s_sm := m\<rparr>) = marker s" by (simp add: marker_def)
  then show "saved s' = saved s" "marker s' = marker s \<or> marker s' = Some (s_lastApplied s')"
    using marker_save_applied [of env "s\<lparr>s_lastApplied := applied, s_sm := m\<rparr>"] s' by auto
qed

lemma store_step_after:
  assumes "store_step s s1" "marker s1 = marker s" "s_currentTerm s2 = s_currentTerm s1" "s_votedFor s2 = s_votedFor s1"
    "s_log s2 = s_log s1" "saved s2 = saved s1" "snap_store s2 = snap_store s1" "durable s2 = durable s1"
    "marker s2 = marker s1 \<or> marker s2 = Some (s_lastApplied s2)"
  shows "store_step s s2"
  using assms by (simp add: store_step_def)

lemma advance_store:
  assumes "advanceCommitIndexLocked M env s = Some s'"
  shows "saved s' = saved s" "marker s' = marker s \<or> marker s' = Some (s_lastApplied s')"
proof -
  have "saved s' = saved s \<and> (marker s' = marker s \<or> marker s' = Some (s_lastApplied s'))"
    using assms
  proof (cases rule: advance_elim)
    case (commit n s1)
    have "marker s' = marker s1" using commit(4) by (simp add: marker_def)
    then show ?thesis using applyCommitted_store [OF commit(3)] commit(4) by (auto simp: marker_def)
  qed simp
  then show "saved s' = saved s" "marker s' = marker s \<or> marker s' = Some (s_lastApplied s')" by blast+
qed

lemma store_step_advance:
  assumes "store_step s s1" "marker s1 = marker s" "advanceCommitIndexLocked M env s1 = Some s'"
  shows "store_step s s'"
  by (rule store_step_after [OF assms(1,2)])
    (use advance_frame [OF assms(3)] advance_store [OF assms(3)] snap_store_advance [OF assms(3)] in auto)

lemma commit_to_store:
  assumes "commit_to M env a s = Some s'"
  shows "saved s' = saved s" "marker s' = marker s \<or> marker s' = Some (s_lastApplied s')"
proof -
  have "saved s' = saved s \<and> (marker s' = marker s \<or> marker s' = Some (s_lastApplied s'))"
    using assms by (cases rule: commit_to_cases) (auto dest: applyCommitted_store simp: marker_def)
  then show "saved s' = saved s" "marker s' = marker s \<or> marker s' = Some (s_lastApplied s')" by blast+
qed

section \<open>Every section\<close>

lemma startElection_store: "startElection env s = Some (el, s') \<Longrightarrow> store_step s s'"
  by (erule startElection_elim) (simp add: store_step_stored)

lemma RequestVote_store:
  assumes "RequestVote env a s = Some (r, s')" shows "store_step s s'"
  using assms
proof (cases rule: RequestVote_elim)
  case (denied s1)
  show ?thesis
  proof (cases "rv_Term a > s_currentTerm s")
    case True
    then show ?thesis using denied by (simp add: store_step_stored)
  next
    case False
    then show ?thesis using denied by (intro store_step_volatile) simp_all
  qed
qed (simp_all add: store_step_stored)

lemma AppendEntries_store:
  assumes "AppendEntries M env a s = Some (r, s')" shows "store_step s s'"
  using assms
proof (cases rule: AppendEntries_elim)
  case (rejected s1)
  show ?thesis
  proof (cases "ae_Term a > s_currentTerm s")
    case True
    then show ?thesis using rejected by (simp add: store_step_stored)
  next
    case False
    then show ?thesis using rejected by (intro store_step_volatile) simp_all
  qed
next
  case (accepted s1 s3 s4)
  note p = protoD [OF accepted(6)]
  have st: "s_storage s3 = s_storage s" using p(12) accepted(1) by simp
  have m3: "marker s3 = marker s" using st by (simp add: marker_def)
  have s4: "store_step s s4 \<and> marker s4 = marker s"
  proof (cases "fst (appendFrom (ae_PrevLogIndex a) (ae_Entries a) (s_log s)) \<or> ae_Term a > s_currentTerm s")
    case True
    then show ?thesis using accepted(8) st m3 by (simp add: store_step_stored)
  next
    case False
    then have "snd (appendFrom (ae_PrevLogIndex a) (ae_Entries a) (s_log s)) = s_log s"
      using appendFrom_unchanged by blast
    then have "store_step s s3" using p st accepted(1) False by (intro store_step_volatile) simp_all
    then show ?thesis using accepted(8) False m3 by auto
  qed
  note f = commit_to_frame [OF accepted(9)]
  show ?thesis
    by (rule store_step_after [of s s4])
      (use s4 f commit_to_store [OF accepted(9)] snap_store_commit_to [OF accepted(9)] in auto)
qed simp

lemma vote_reply_store: "vote_reply env el r s = Some (b, s') \<Longrightarrow> store_step s s'"
  by (erule vote_reply_elim) (simp_all add: store_step_stored)

lemma read_reply_store: "read_reply env rd r s = Some (b, s') \<Longrightarrow> store_step s s'"
  by (auto simp: read_reply_def split: if_splits Option.bind_splits
      dest!: mustPersistLocked_Some intro!: store_step_stored)

lemma becomeLeader_store:
  assumes "becomeLeader M env t s = Some (b, s')" shows "store_step s s'"
  using assms
proof (cases rule: becomeLeader_elim)
  case (won s1)
  have "marker s1 = marker s" using won(19) by (simp add: marker_def)
  then show ?thesis by (intro store_step_advance [OF store_step_stored _ won(18)] won(19)) simp_all
qed simp

lemma Submit_store:
  assumes "Submit M env cmd s = Some (x, s')" shows "store_step s s'"
  using assms
proof (cases rule: Submit_elim)
  case (appended s1)
  have "s_storage s1 = s_storage s" using appended(4) by simp
  moreover from this have "marker s1 = marker s" by (simp add: marker_def)
  ultimately show ?thesis by (intro store_step_advance [OF store_step_stored _ appended(5)]) simp_all
qed simp

lemma replicate_reply_store:
  assumes "replicate_reply M env peer args reply s = Some s'" shows "store_step s s'"
  using assms
proof (cases rule: replicate_reply_elim)
  case newer
  then show ?thesis by (simp add: store_step_stored)
next
  case (acked s1)
  have "marker s1 = marker s" using acked(16) by (simp add: marker_def)
  then show ?thesis
    using acked by (intro store_step_advance [OF store_step_volatile _ acked(15)]) simp_all
next
  case nacked
  show ?thesis unfolding nacked(4) by (rule store_step_volatile) simp_all
qed simp

lemmas section_stores = startElection_store RequestVote_store AppendEntries_store vote_reply_store
  read_reply_store becomeLeader_store Submit_store replicate_reply_store

section \<open>Recovery of a server that was never compacted\<close>

text \<open>The disk of a new server is empty; it holds what \<open>durable\<close> says from the first change on.\<close>

definition blank :: "'m Server \<Rightarrow> bool" where
  "blank s \<longleftrightarrow> s_currentTerm s = 0 \<and> s_votedFor s = None \<and> s_log s = [sentinel] \<and> saved s = Some []"

definition recoverable :: "'m Server \<Rightarrow> bool" where
  "recoverable s \<longleftrightarrow> (durable s \<or> blank s) \<and> s_storage s \<noteq> None \<and> snap_store s \<in> {Some None, Some (Some None)}
     \<and> pred_option (\<lambda>k. k \<le> s_lastApplied s) (marker s)"

lemma recoverable_step:
  assumes "recoverable s" "store_step s s'" "s_lastApplied s \<le> s_lastApplied s'"
  shows "recoverable s'"
proof -
  have "durable s' \<or> blank s'"
    using assms(1,2) by (auto simp: recoverable_def store_step_def durable_def blank_def)
  moreover have "s_storage s' \<noteq> None" using assms(1,2)
    by (cases "s_storage s'") (auto simp: recoverable_def store_step_def)
  moreover have "pred_option (\<lambda>k. k \<le> s_lastApplied s') (marker s')"
    using assms by (auto simp: recoverable_def store_step_def option.pred_set) 
  ultimately show ?thesis using assms(1,2) by (simp add: recoverable_def store_step_def)
qed

definition plain_log :: "Log \<Rightarrow> bool" where
  "plain_log l \<longleftrightarrow> (\<forall>e \<in> set l. \<not> isConfigEntry (ent_Command e) \<and> ent_Command e \<noteq> Some [])"

lemma adopt_scan_plain: "\<forall>e \<in> set es. \<not> isConfigEntry (ent_Command e) \<Longrightarrow> adopt_scan es s = Some s"
  by (induction es arbitrary: s) auto

lemma adoptConfig_plain:
  assumes "plain_log (s_log s)" shows "adoptConfigFromLogLocked s = Some s"
  using assms by (cases "s_log s") (simp_all add: adoptConfigFromLogLocked_def plain_log_def adopt_scan_plain)

lemma apply_entries_prefix:
  assumes "apply_entries M (entries_between l 0 j) m = Some m'" "i \<le> j"
  obtains m'' where "apply_entries M (entries_between l 0 i) m = Some m''"
  using assms entries_between_append [of 0 i j l]
  by (cases "apply_entries M (entries_between l 0 i) m") (auto simp: apply_entries_append)

lemma restore_snapshot_none:
  assumes "st_snapshot st \<in> {None, Some None}" "restore_snapshot M env st s = (None, s')"
  shows "s' = s"
  using assms by (auto simp: restore_snapshot_def split: option.splits)

lemma restore_applied_prefix:
  assumes "restore_applied M env st s = Some (None, s')" "wf_log (s_log s)" "baseIndex (s_log s) = 0"
    and "pred_option (\<lambda>k. k \<le> n) (st_applied st)" "n \<le> lastIndex (s_log s)" "s_commitIndex s = 0" "s_lastApplied s = 0"
    and "s_sm s = Some m0" "apply_entries M (entries_between (s_log s) 0 n) (Some m0) = Some m"
  obtains k m' where "k \<le> n" "s' = s\<lparr>s_sm := m', s_commitIndex := k, s_lastApplied := k\<rparr>"
    "apply_entries M (entries_between (s_log s) 0 k) (Some m0) = Some m'"
    "pred_option (\<lambda>j. j \<le> k) (st_applied st)"
proof (cases "st_applied st")
  case None
  then have "s' = s" using assms(1) by (simp add: restore_applied_def)
  then show thesis using None assms by (intro that [of 0 "Some m0"]) simp_all
next
  case (Some k)
  have k: "k \<le> n" using assms(4) Some by simp
  obtain m' where m': "apply_entries M (entries_between (s_log s) 0 k) (Some m0) = Some m'"
    using apply_entries_prefix [OF assms(9) k] .
  have "l_applied_err env = None" using assms(1,8) Some by (auto simp: restore_applied_def split: option.splits)
  then have "restore_applied M env st s = Some (None, s\<lparr>s_sm := m', s_commitIndex := k, s_lastApplied := k\<rparr>)"
    using restore_applied_eq [OF Some assms(8) _ assms(2), of env M m'] k assms m' by simp
  then show thesis using assms(1) Some k m' by (intro that [of k m']) simp_all
qed

lemma Restore_recoverable:
  assumes r: "recoverable s" and inv: "server_inv s" "baseIndex (s_log s) = 0" "plain_log (s_log s)"
    and fits: "state_fits (s_currentTerm s) (s_votedFor s) (s_log s)"
    and m: "apply_entries M (entries_between (s_log s) 0 (s_lastApplied s)) (Some m0) = Some (s_sm s)"
    and s0: "s0 = SetStorage (s_storage s) (NewServerWith i peers (Some m0) tr cfg)"
    and ok: "Restore M env s0 = Some (None, s')"
  shows "s_id s' = i" "s_peers s' = peers" "s_role s' = Follower" "s_currentTerm s' = s_currentTerm s"
    "s_votedFor s' = s_votedFor s" "s_log s' = s_log s" "s_storage s' = s_storage s" "server_inv s'"
    "s_commitIndex s' \<le> s_commitIndex s" "recoverable s'" "s_stopped s' = False"
    "apply_entries M (entries_between (s_log s') 0 (s_lastApplied s')) (Some m0) = Some (s_sm s')"
proof -
  note iv = server_invD [OF inv(1)]
  obtain st where st: "s_storage s = Some st" "st_snapshot st \<in> {None, Some None}"
    "pred_option (\<lambda>k. k \<le> s_lastApplied s) (st_applied st)"
    using r by (auto simp: recoverable_def marker_def)
  let ?res = "\<lambda>k m'. s0\<lparr>s_currentTerm := s_currentTerm s, s_votedFor := s_votedFor s, s_log := s_log s,
    s_role := Follower, s_sm := m', s_commitIndex := k, s_lastApplied := k\<rparr>"
  have "\<exists>k m'. s' = ?res k m' \<and> k \<le> s_commitIndex s
    \<and> apply_entries M (entries_between (s_log s) 0 k) (Some m0) = Some m' \<and> pred_option (\<lambda>j. j \<le> k) (st_applied st)"
  proof (cases "blank s")
    case True
    then have b: "s_currentTerm s = 0" "s_votedFor s = None" "s_log s = [sentinel]" "st_saved st = []"
      using st(1) by (auto simp: blank_def)
    have "s' = s0" using ok b(4) st(1) s0 by (auto simp: Restore_def SetStorage_def split: option.splits)
    moreover have "s0 = ?res 0 (Some m0)" using s0 b by (simp add: NewServerWith_def SetStorage_def)
    moreover have "pred_option (\<lambda>j. j \<le> 0) (st_applied st)"
      using st(3) iv b(3) by (simp add: lastIndex_def sentinel_def option.pred_set)
    ultimately show ?thesis by (intro exI [of _ 0] exI [of _ "Some m0"]) simp
  next
    case False
    then have d: "st_saved st = encodeState (s_currentTerm s) (s_votedFor s) (s_log s)"
      using r st(1) by (simp add: recoverable_def durable_def)
    let ?s1 = "s0\<lparr>s_currentTerm := s_currentTerm s, s_votedFor := s_votedFor s, s_log := s_log s, s_role := Follower,
      s_commitIndex := 0, s_lastApplied := 0\<rparr>"
    have "no_empty_commands (s_log s)" using inv(3) by (simp add: no_empty_commands_def plain_log_def)
    then have dec: "decodeState (st_saved st) = Some (Inr (s_currentTerm s, s_votedFor s, s_log s))"
      using decodeState_encode [OF fits] d map_stored by simp
    have "restore_applied M env st ?s1 = Some (None, s')"
      using ok st(1) s0 d dec iv(1) inv(3) restore_snapshot_none [OF st(2)]
      by (auto simp: Restore_def SetStorage_def adoptConfig_plain wf_log_def split: option.splits prod.splits if_splits)
    then show ?thesis
      by (rule restore_applied_prefix [where n = "s_lastApplied s" and m = "s_sm s" and ?m0.0 = m0])
        (use iv inv(2) st(3) m s0 in \<open>auto simp: SetStorage_def NewServerWith_def\<close>)
  qed
  then obtain k m' where s': "s' = ?res k m'" "k \<le> s_commitIndex s"
    "apply_entries M (entries_between (s_log s) 0 k) (Some m0) = Some m'" "pred_option (\<lambda>j. j \<le> k) (st_applied st)"
    by blast
  have "s_storage s0 = s_storage s" "s_id s0 = i" "s_peers s0 = peers" "\<not> s_stopped s0"
    by (simp_all add: s0 SetStorage_def NewServerWith_def)
  then show "s_id s' = i" "s_peers s' = peers" "s_role s' = Follower" "s_currentTerm s' = s_currentTerm s"
    "s_votedFor s' = s_votedFor s" "s_log s' = s_log s" "s_storage s' = s_storage s"
    "s_commitIndex s' \<le> s_commitIndex s" "s_stopped s' = False"
    "apply_entries M (entries_between (s_log s') 0 (s_lastApplied s')) (Some m0) = Some (s_sm s')"
    using s' by simp_all
  then show "server_inv s'" "recoverable s'"
    using iv inv(2) s' r st(1) by (auto simp: server_inv_def recoverable_def durable_def blank_def marker_def)
qed

end
