(* ===== verification/RaftCluster.thy ===== *)
theory RaftCluster
  imports RaftSpec RaftDisk
begin

text \<open>
  A cluster of the servers of src/raft. A state holds every server, every message sent so far and the
  elections and reads in progress; an \<open>Event\<close> runs one section of one server: a goroutine that campaigns,
  answers a request, takes a reply, replicates or reads. Messages stay in the network, so they may be
  delivered late, out of order, more than once or never; a server may stop or crash at any time and
  restart from its disk. The membership is fixed, entries are client commands and no-ops, and logs are
  not compacted.

  Shown here: the cluster refines the protocol of \<open>RaftSpec\<close>. So no term has two leaders, committed
  entries are never lost or replaced, and servers that applied equally much run the same state machine.
\<close>

section \<open>Clusters\<close>

datatype Msg =
    VoteReq NodeID RequestVoteArgs
  | VoteResp NodeID RequestVoteArgs RequestVoteReply
  | AppReq NodeID AppendEntriesArgs
  | AppResp NodeID AppendEntriesArgs AppendEntriesReply
  | ReadReq NodeID Read AppendEntriesArgs
  | ReadResp NodeID Read AppendEntriesArgs AppendEntriesReply

text \<open>The goroutines of one \<^verbatim>\<open>startElection\<close>: the peers whose reply is awaited, those whose vote was found
  good and is about to be counted, and whether the election was won and \<^verbatim>\<open>becomeLeader\<close> is due.\<close>

record Campaign =
  cp_el :: Election
  cp_waiting :: "NodeID set"
  cp_checked :: "NodeID set"
  cp_won :: bool

record 'm Params =
  p_peers :: "NodeID list"
  p_ops :: "'m SMOps"
  p_machine :: 'm
  p_cfg :: Config
  p_store :: Store

record 'm Cluster =
  c_node :: "NodeID \<Rightarrow> 'm Server"
  c_msgs :: "Msg set"
  c_campaign :: "NodeID \<Rightarrow> Term \<Rightarrow> Campaign option"
  c_reads :: "(NodeID \<times> Read) set"

datatype Event =
    EvStart NodeID Env
  | EvStop NodeID
  | EvElection NodeID Env
  | EvRequestVote NodeID RequestVoteArgs Env
  | EvVoteReply NodeID RequestVoteArgs RequestVoteReply Env
  | EvTally NodeID Term NodeID
  | EvBecomeLeader NodeID Term Env
  | EvBroadcast NodeID Env
  | EvReplicate NodeID NodeID Term
  | EvAppendEntries NodeID AppendEntriesArgs Env
  | EvAppendReply NodeID AppendEntriesArgs AppendEntriesReply Env
  | EvSubmit NodeID "bytes option" Env
  | EvReadIndex NodeID
  | EvReadHeartbeat NodeID Read NodeID
  | EvReadAppend NodeID Read AppendEntriesArgs Env
  | EvReadReply NodeID Read AppendEntriesArgs AppendEntriesReply Env
  | EvRestart NodeID LoadEnv

definition boot :: "'m Params \<Rightarrow> NodeID \<Rightarrow> Store option \<Rightarrow> 'm Server" where
  "boot P i st = SetStorage st (NewServerWith i (p_peers P) (Some (p_machine P)) PlainTransport (p_cfg P))"

definition cluster_init :: "'m Params \<Rightarrow> 'm Cluster" where
  "cluster_init P = \<lparr>c_node = (\<lambda>i. boot P i (Some (p_store P))), c_msgs = {}, c_campaign = (\<lambda>_ _. None), c_reads = {}\<rparr>"

definition put_node :: "NodeID \<Rightarrow> 'm Server \<Rightarrow> Msg set \<Rightarrow> 'm Cluster \<Rightarrow> 'm Cluster" where
  "put_node i s ms c = c\<lparr>c_node := (c_node c)(i := s), c_msgs := c_msgs c \<union> ms\<rparr>"

definition put_campaign :: "NodeID \<Rightarrow> Term \<Rightarrow> Campaign option \<Rightarrow> 'm Cluster \<Rightarrow> 'm Cluster" where
  "put_campaign i t cp c = c\<lparr>c_campaign := (c_campaign c)(i := (c_campaign c i)(t := cp))\<rparr>"

fun exec :: "'m Params \<Rightarrow> Event \<Rightarrow> 'm Cluster \<Rightarrow> 'm Cluster option" where
  "exec P (EvStart i env) c =
     (if i \<in> set (p_peers P) then Some (put_node i (Start env (c_node c i)) {} c) else None)"
| "exec P (EvStop i) c =
     (if i \<in> set (p_peers P) then Some (put_node i (Stop (c_node c i)) {} c) else None)"
| "exec P (EvElection i env) c =
     (if i \<in> set (p_peers P) then do {
        (el, s) \<leftarrow> startElection env (c_node c i);
        let ask = (if wins_alone el then {} else set (asked el));
        Some (put_campaign i (el_term el)
                (Some \<lparr>cp_el = el, cp_waiting = ask, cp_checked = {}, cp_won = wins_alone el\<rparr>)
                (put_node i s ((\<lambda>p. VoteReq p (el_args el)) ` ask) c))
      } else None)"
| "exec P (EvRequestVote p a env) c =
     (if VoteReq p a \<in> c_msgs c then do {
        (r, s) \<leftarrow> RequestVote env a (c_node c p);
        Some (put_node p s {VoteResp p a r} c)
      } else None)"
| "exec P (EvVoteReply p a r env) c =
     (if VoteResp p a r \<in> c_msgs c then do {
        let i = rv_CandidateID a;
        cp \<leftarrow> c_campaign c i (rv_Term a);
        if p \<in> cp_waiting cp then do {
          (b, s) \<leftarrow> vote_reply env (cp_el cp) r (c_node c i);
          Some (put_campaign i (rv_Term a)
                  (Some (cp\<lparr>cp_waiting := cp_waiting cp - {p},
                           cp_checked := (if b then insert p (cp_checked cp) else cp_checked cp)\<rparr>))
                  (put_node i s {} c))
        } else None
      } else None)"
| "exec P (EvTally i t p) c = do {
     cp \<leftarrow> c_campaign c i t;
     if p \<in> cp_checked cp then
       let (won, el) = tally (cp_el cp) in
       Some (put_campaign i t
               (Some (cp\<lparr>cp_el := el, cp_checked := cp_checked cp - {p}, cp_won := cp_won cp \<or> won\<rparr>)) c)
     else None
   }"
| "exec P (EvBecomeLeader i t env) c = do {
     cp \<leftarrow> c_campaign c i t;
     if cp_won cp then do {
       (b, s) \<leftarrow> becomeLeader (p_ops P) env t (c_node c i);
       Some (put_campaign i t (Some (cp\<lparr>cp_won := False\<rparr>)) (put_node i s {} c))
     } else None
   }"
| "exec P (EvBroadcast i env) c =
     (if i \<in> set (p_peers P) then Some (put_node i (snd (broadcastAppendEntries env (c_node c i))) {} c) else None)"
| "exec P (EvReplicate i p t) c =
     (if i \<in> set (p_peers P) \<and> p \<in> set (p_peers P) \<and> p \<noteq> i then
        (case replicateTo p t (c_node c i) of
           AppendRequest a \<Rightarrow> Some (c\<lparr>c_msgs := insert (AppReq p a) (c_msgs c)\<rparr>)
         | _ \<Rightarrow> None)
      else None)"
| "exec P (EvAppendEntries p a env) c =
     (if AppReq p a \<in> c_msgs c then do {
        (r, s) \<leftarrow> AppendEntries (p_ops P) env a (c_node c p);
        Some (put_node p s {AppResp p a r} c)
      } else None)"
| "exec P (EvAppendReply p a r env) c =
     (if AppResp p a r \<in> c_msgs c then do {
        s \<leftarrow> replicate_reply (p_ops P) env p a r (c_node c (ae_LeaderID a));
        Some (put_node (ae_LeaderID a) s {} c)
      } else None)"
| "exec P (EvSubmit i cmd env) c =
     (if i \<in> set (p_peers P) \<and> \<not> isConfigEntry cmd \<and> cmd \<noteq> Some [] then do {
        (x, s) \<leftarrow> Submit (p_ops P) env cmd (c_node c i);
        Some (put_node i s {} c)
      } else None)"
| "exec P (EvReadIndex i) c =
     (if i \<in> set (p_peers P) then
        (case ReadIndex (c_node c i) of
           Inl _ \<Rightarrow> None
         | Inr rd \<Rightarrow> Some (c\<lparr>c_reads := insert (i, rd) (c_reads c)\<rparr>))
      else None)"
| "exec P (EvReadHeartbeat i rd p) c =
     (if (i, rd) \<in> c_reads c \<and> p \<in> set (rd_peers rd) \<and> p \<noteq> i then do {
        a \<leftarrow> read_heartbeat rd (c_node c i);
        Some (c\<lparr>c_msgs := insert (ReadReq p rd a) (c_msgs c)\<rparr>)
      } else None)"
| "exec P (EvReadAppend p rd a env) c =
     (if ReadReq p rd a \<in> c_msgs c then do {
        (r, s) \<leftarrow> AppendEntries (p_ops P) env a (c_node c p);
        Some (put_node p s {ReadResp p rd a r} c)
      } else None)"
| "exec P (EvReadReply p rd a r env) c =
     (if ReadResp p rd a r \<in> c_msgs c then do {
        (b, s) \<leftarrow> read_reply env rd r (c_node c (rd_me rd));
        Some (put_node (rd_me rd) s {} c)
      } else None)"
| "exec P (EvRestart i env) c =
     (let s = c_node c i in
      if i \<in> set (p_peers P) \<and> state_fits (s_currentTerm s) (s_votedFor s) (s_log s) then do {
        (err, s') \<leftarrow> Restore (p_ops P) env (boot P i (s_storage s));
        if err = None then
          Some (c\<lparr>c_node := (c_node c)(i := s'), c_campaign := (c_campaign c)(i := (\<lambda>_. None)),
                  c_reads := {(j, rd) \<in> c_reads c. j \<noteq> i}\<rparr>)
        else None
      } else None)"

section \<open>Protocol steps of one server\<close>

lemma spec_step_extends:
  assumes "distinct peers" "spec_inv peers a" "spec_step peers a a'"
  shows "extends a a'"
  using assms(3)
proof cases
  case (campaign v t)
  then show ?thesis using vote_term [OF assms(2), of v t] by (fastforce simp: extends_def)
next
  case (elect c t R l)
  have "a_leader a t \<noteq> Some d" for d
  proof
    assume d: "a_leader a t = Some d"
    obtain R' where "R' \<subseteq> set peers" "majority peers \<le> card R'" "\<forall>v \<in> R'. \<exists>l. a_vote a v t = Some (d, l)"
      using leader_invD [OF spec_invD(2) [OF assms(2)] d] by metis
    then have "c = d" using election_safety [OF assms(1) elect(6-8)] by blast
    then show False using d elect(5) by simp
  qed
  then show ?thesis using elect by (auto simp: extends_def)
qed (auto simp: extends_def)

definition local_to :: "NodeID \<Rightarrow> Spec \<Rightarrow> Spec \<Rightarrow> bool" where
  "local_to i a a' \<longleftrightarrow> extends a a' \<and>
     (\<forall>j. j \<noteq> i \<longrightarrow> a_term a' j = a_term a j \<and> a_log a' j = a_log a j \<and> a_commit a' j = a_commit a j
        \<and> a_vote a' j = a_vote a j) \<and>
     (\<forall>t. a_leader a' t \<noteq> a_leader a t \<or> a_tlog a' t \<noteq> a_tlog a t \<longrightarrow> a_leader a' t = Some i)"

text \<open>Protocol steps of server \<open>i\<close>, from a reachable state of the protocol to another.\<close>

definition moves :: "NodeID list \<Rightarrow> NodeID \<Rightarrow> Spec \<Rightarrow> Spec \<Rightarrow> bool" where
  "moves peers i a a' \<longleftrightarrow> (spec_step peers)\<^sup>*\<^sup>* a a' \<and> local_to i a a'"

lemma extends_refl [simp]: "extends a a"
  by (simp add: extends_def)

lemma extends_trans:
  assumes "extends a b" "extends b d" shows "extends a d"
  unfolding extends_def
proof (intro conjI allI impI)
  fix t c assume l: "a_leader a t = Some c"
  then have l': "a_leader b t = Some c" using extendsD(1) [OF assms(1)] by blast
  obtain es where es: "a_tlog b t = a_tlog a t @ es" "\<forall>e \<in> set es. ent_Term e = t"
    using extends_tlog [OF assms(1)] l by (metis option.discI)
  obtain es' where es': "a_tlog d t = a_tlog b t @ es'" "\<forall>e \<in> set es'. ent_Term e = t"
    using extends_tlog [OF assms(2)] l' by (metis option.discI)
  show "a_leader d t = Some c" using l' extendsD(1) [OF assms(2)] by blast
  show "\<exists>es. a_tlog d t = a_tlog a t @ es \<and> (\<forall>e\<in>set es. ent_Term e = t)"
    using es es' by (intro exI [of _ "es @ es'"]) auto
next
  show "a_term a v \<le> a_term d v" for v using extendsD(4) [OF assms(1)] extendsD(4) [OF assms(2)] le_trans by blast
qed (use extendsD(2,3) [OF assms(1)] extendsD(2,3) [OF assms(2)] in blast)+

lemma moves_refl [simp]: "moves peers i a a"
  by (simp add: moves_def local_to_def)

lemma moves_trans:
  assumes "moves peers i a b" "moves peers i b d" shows "moves peers i a d"
proof -
  have 1: "extends a b" "extends b d" using assms by (simp_all add: moves_def local_to_def)
  have "a_leader d t = Some i" if "a_leader d t \<noteq> a_leader a t \<or> a_tlog d t \<noteq> a_tlog a t" for t
    using assms that extendsD(1) [OF 1(2), of t i] unfolding moves_def local_to_def by metis
  then show ?thesis using assms extends_trans [OF 1] unfolding moves_def local_to_def by auto
qed

lemma movesI:
  assumes "distinct peers" "spec_inv peers a" "spec_step peers a a'"
    and "\<And>j. j \<noteq> i \<Longrightarrow> a_term a' j = a_term a j \<and> a_log a' j = a_log a j \<and> a_commit a' j = a_commit a j
        \<and> a_vote a' j = a_vote a j"
    and "\<And>t. a_leader a' t \<noteq> a_leader a t \<or> a_tlog a' t \<noteq> a_tlog a t \<Longrightarrow> a_leader a' t = Some i"
  shows "moves peers i a a'"
  using assms spec_step_extends [OF assms(1-3)] by (auto simp: moves_def local_to_def)

lemma moves_reach:
  assumes "spec_reach peers a" "moves peers i a a'" shows "spec_reach peers a'"
proof -
  have "(spec_step peers)\<^sup>*\<^sup>* a a'" using assms(2) by (simp add: moves_def)
  then show ?thesis using assms(1) by (induction rule: rtranclp_induct) (auto intro: spec_reach.step)
qed

lemma moves_inv: "spec_reach peers a \<Longrightarrow> distinct peers \<Longrightarrow> moves peers i a a' \<Longrightarrow> spec_inv peers a'"
  using moves_reach spec_reach_inv by blast

section \<open>The refinement relation\<close>

definition leader_rel :: "NodeID list \<Rightarrow> Spec \<Rightarrow> NodeID \<Rightarrow> 'm Server \<Rightarrow> bool" where
  "leader_rel peers a i s \<longleftrightarrow> (s_role s = Leader \<longrightarrow>
     a_leader a (s_currentTerm s) = Some i \<and> a_tlog a (s_currentTerm s) = s_log s \<and>
     (\<forall>p \<in> set peers. get0 (s_matchIndex s) p < length (s_log s) \<and> get0 (s_nextIndex s) p \<le> length (s_log s) \<and>
        (0 < get0 (s_matchIndex s) p \<longrightarrow> acked a p (s_currentTerm s) (get0 (s_matchIndex s) p))))"

definition candidate_rel :: "Spec \<Rightarrow> NodeID \<Rightarrow> 'm Server \<Rightarrow> bool" where
  "candidate_rel a i s \<longleftrightarrow> (s_role s = Candidate \<longrightarrow>
     a_vote a i (s_currentTerm s) = Some (i, s_log s) \<and> a_leader a (s_currentTerm s) \<noteq> Some i)"

definition state_rel :: "Spec \<Rightarrow> NodeID \<Rightarrow> 'm Server \<Rightarrow> bool" where
  "state_rel a i s \<longleftrightarrow> a_term a i = s_currentTerm s \<and> a_log a i = s_log s \<and> a_commit a i = s_commitIndex s
     \<and> s_votedFor s = map_option fst (a_vote a i (s_currentTerm s))"

definition local_inv :: "'m Params \<Rightarrow> NodeID \<Rightarrow> 'm Server \<Rightarrow> bool" where
  "local_inv P i s \<longleftrightarrow> s_id s = i \<and> s_peers s = p_peers P \<and> server_inv s \<and> recoverable s
     \<and> apply_entries (p_ops P) (entries_between (s_log s) 0 (s_lastApplied s)) (Some (p_machine P)) = Some (s_sm s)"

definition node_rel :: "'m Params \<Rightarrow> Spec \<Rightarrow> NodeID \<Rightarrow> 'm Server \<Rightarrow> bool" where
  "node_rel P a i s \<longleftrightarrow> local_inv P i s \<and> state_rel a i s \<and> leader_rel (p_peers P) a i s \<and> candidate_rel a i s"

text \<open>An AppendEntries request of \<^verbatim>\<open>replicateTo\<close> is a slice of the leader's log, up to an entry of its term.\<close>

definition slice :: "NodeID list \<Rightarrow> Spec \<Rightarrow> NodeID \<Rightarrow> AppendEntriesArgs \<Rightarrow> bool" where
  "slice peers a p m \<longleftrightarrow>
     (let t = ae_Term m; prev = ae_PrevLogIndex m; n = prev + length (ae_Entries m); l = a_tlog a t in
      p \<in> set peers \<and> ae_LeaderID m \<in> set peers \<and> p \<noteq> ae_LeaderID m \<and> a_leader a t = Some (ae_LeaderID m)
      \<and> n < length l \<and> ae_Entries m = drop (Suc prev) (take (Suc n) l)
      \<and> ae_PrevLogTerm m = ent_Term (l ! prev) \<and> ent_Term (l ! n) = t
      \<and> ae_LeaderCommit m \<le> n \<and> committed peers a l (ae_LeaderCommit m) t)"

text \<open>The heartbeat of a read carries no entries; its log is whatever the sender had when it was sent.\<close>

definition beat :: "NodeID list \<Rightarrow> Spec \<Rightarrow> NodeID \<Rightarrow> Read \<Rightarrow> AppendEntriesArgs \<Rightarrow> bool" where
  "beat peers a p rd m \<longleftrightarrow> p \<in> set peers \<and> rd_me rd \<in> set peers \<and> p \<noteq> rd_me rd
     \<and> a_leader a (ae_Term m) = Some (rd_me rd) \<and> ae_Entries m = [] \<and> ae_LeaderCommit m \<le> ae_PrevLogIndex m
     \<and> (\<exists>l. log_ok a l \<and> length l = Suc (ae_PrevLogIndex m) \<and> lastTerm l = ae_PrevLogTerm m
          \<and> committed peers a l (ae_LeaderCommit m) (ae_PrevLogTerm m))"

fun msg_rel :: "NodeID list \<Rightarrow> Spec \<Rightarrow> Msg \<Rightarrow> bool" where
  "msg_rel peers a (VoteReq p v) \<longleftrightarrow> p \<in> set peers \<and> rv_CandidateID v \<in> set peers \<and> p \<noteq> rv_CandidateID v \<and>
     (\<exists>l. a_vote a (rv_CandidateID v) (rv_Term v) = Some (rv_CandidateID v, l)
        \<and> rv_LastLogIndex v = lastIndex l \<and> rv_LastLogTerm v = lastTerm l)"
| "msg_rel peers a (VoteResp p v r) \<longleftrightarrow> p \<in> set peers \<and> rv_CandidateID v \<in> set peers \<and> p \<noteq> rv_CandidateID v \<and>
     (rvr_VoteGranted r \<longrightarrow> (\<exists>l. a_vote a p (rv_Term v) = Some (rv_CandidateID v, l)))"
| "msg_rel peers a (AppReq p m) \<longleftrightarrow> slice peers a p m"
| "msg_rel peers a (AppResp p m r) \<longleftrightarrow> slice peers a p m \<and>
     (aer_Success r \<longrightarrow> (p, ae_Term m, ae_PrevLogIndex m + length (ae_Entries m)) \<in> a_acks a)"
| "msg_rel peers a (ReadReq p rd m) \<longleftrightarrow> beat peers a p rd m"
| "msg_rel peers a (ReadResp p rd m r) \<longleftrightarrow> rd_me rd \<in> set peers"

text \<open>The votes an election has counted.\<close>

definition campaign_rel :: "NodeID list \<Rightarrow> Spec \<Rightarrow> NodeID \<Rightarrow> Term \<Rightarrow> Campaign \<Rightarrow> bool" where
  "campaign_rel peers a i t cp \<longleftrightarrow> i \<in> set peers \<and> el_term (cp_el cp) = t \<and> el_needed (cp_el cp) = majority peers
     \<and> cp_waiting cp \<inter> cp_checked cp = {}
     \<and> (\<exists>C \<subseteq> set peers. i \<in> C \<and> C \<inter> (cp_waiting cp \<union> cp_checked cp) = {} \<and> el_votes (cp_el cp) = card C
          \<and> (\<forall>v \<in> C \<union> cp_checked cp. \<exists>l. a_vote a v t = Some (i, l)))
     \<and> cp_checked cp \<subseteq> set peers
     \<and> (cp_won cp \<longrightarrow> (\<exists>R \<subseteq> set peers. majority peers \<le> card R \<and> (\<forall>v \<in> R. \<exists>l. a_vote a v t = Some (i, l))))"

definition cluster_rel :: "'m Params \<Rightarrow> 'm Cluster \<Rightarrow> Spec \<Rightarrow> bool" where
  "cluster_rel P c a \<longleftrightarrow> spec_reach (p_peers P) a
     \<and> (\<forall>t. a_leader a t \<noteq> None \<longrightarrow> plain_log (a_tlog a t))
     \<and> (\<forall>i \<in> set (p_peers P). node_rel P a i (c_node c i))
     \<and> (\<forall>m \<in> c_msgs c. msg_rel (p_peers P) a m)
     \<and> (\<forall>i t cp. c_campaign c i t = Some cp \<longrightarrow> campaign_rel (p_peers P) a i t cp)
     \<and> (\<forall>(i, rd) \<in> c_reads c. i \<in> set (p_peers P) \<and> rd_me rd = i \<and> rd_peers rd = p_peers P
          \<and> a_leader a (rd_term rd) = Some i)"

section \<open>What other servers and messages see of a step\<close>

lemma slice_extends:
  assumes "extends a a'" "slice peers a p m" shows "slice peers a' p m"
proof -
  have l: "a_leader a (ae_Term m) = Some (ae_LeaderID m)" and n: "ae_PrevLogIndex m + length (ae_Entries m) < length (a_tlog a (ae_Term m))"
    using assms(2) by (auto simp: slice_def Let_def)
  obtain es where es: "a_tlog a' (ae_Term m) = a_tlog a (ae_Term m) @ es"
    using extends_tlog [OF assms(1)] l by (metis option.discI)
  have le: "ae_LeaderCommit m < length (a_tlog a (ae_Term m))" using assms(2) n by (auto simp: slice_def Let_def)
  have "committed peers a' (a_tlog a' (ae_Term m)) (ae_LeaderCommit m) (ae_Term m)"
    using committed_agree [OF committed_extends [OF assms(1)], of peers "a_tlog a (ae_Term m)"] assms(2) es le
    by (auto simp: slice_def Let_def agree_def)
  moreover have "take (Suc n) (a_tlog a' (ae_Term m)) = take (Suc n) (a_tlog a (ae_Term m))"
    if "n < length (a_tlog a (ae_Term m))" for n using es that by simp
  ultimately show ?thesis
    using assms(2) es n extendsD(1) [OF assms(1) l] by (auto simp: slice_def Let_def nth_append)
qed

lemma beat_extends: "extends a a' \<Longrightarrow> beat peers a p rd m \<Longrightarrow> beat peers a' p rd m"
  unfolding beat_def using log_ok_extends committed_extends extendsD(1) by metis

lemma msg_rel_extends:
  assumes "extends a a'" "msg_rel peers a m" shows "msg_rel peers a' m"
proof (cases m)
  case (VoteReq p v)
  then show ?thesis using assms(2) extendsD(2) [OF assms(1)] by simp blast
next
  case (VoteResp p v r)
  then show ?thesis using assms(2) extendsD(2) [OF assms(1)] by simp blast
qed (use assms slice_extends [OF assms(1)] beat_extends [OF assms(1)] extendsD(3) [OF assms(1)] in auto)

lemma campaign_rel_extends: "extends a a' \<Longrightarrow> campaign_rel peers a i t cp \<Longrightarrow> campaign_rel peers a' i t cp"
  unfolding campaign_rel_def by (meson extendsD(2))

lemma local_toD:
  assumes "local_to i a a'" "j \<noteq> i"
  shows "a_term a' j = a_term a j" "a_log a' j = a_log a j" "a_commit a' j = a_commit a j" "a_vote a' j = a_vote a j"
    "a_leader a' t = Some j \<longleftrightarrow> a_leader a t = Some j" "a_leader a t = Some j \<Longrightarrow> a_tlog a' t = a_tlog a t"
proof -
  note l = assms(1) [unfolded local_to_def]
  show "a_term a' j = a_term a j" "a_log a' j = a_log a j" "a_commit a' j = a_commit a j" "a_vote a' j = a_vote a j"
    using l assms(2) by blast+
  show *: "a_leader a' t = Some j \<longleftrightarrow> a_leader a t = Some j"
    using l assms(2) extendsD(1) [of a a' t j] by (metis option.inject)
  show "a_tlog a' t = a_tlog a t" if "a_leader a t = Some j"
    using l assms(2) that * by (metis option.inject)
qed

lemma node_rel_other:
  assumes "node_rel P a j s" "local_to i a a'" "j \<noteq> i" shows "node_rel P a' j s"
proof -
  note l = local_toD [OF assms(2,3)]
  have "extends a a'" using assms(2) by (simp add: local_to_def)
  then show ?thesis
    using assms(1) l acked_extends [of a a']
    unfolding node_rel_def state_rel_def leader_rel_def candidate_rel_def by auto
qed

definition plain_spec :: "Spec \<Rightarrow> bool" where
  "plain_spec a \<longleftrightarrow> (\<forall>t. a_leader a t \<noteq> None \<longrightarrow> plain_log (a_tlog a t))"

lemma cluster_relD:
  assumes "cluster_rel P c a"
  shows "spec_reach (p_peers P) a" "plain_spec a" "i \<in> set (p_peers P) \<Longrightarrow> node_rel P a i (c_node c i)"
    "m \<in> c_msgs c \<Longrightarrow> msg_rel (p_peers P) a m"
    "c_campaign c i t = Some cp \<Longrightarrow> campaign_rel (p_peers P) a i t cp"
    "(i, rd) \<in> c_reads c \<Longrightarrow> i \<in> set (p_peers P) \<and> rd_me rd = i \<and> rd_peers rd = p_peers P \<and> a_leader a (rd_term rd) = Some i"
  using assms by (auto simp: cluster_rel_def plain_spec_def)

lemma cluster_rel_put_node:
  assumes "cluster_rel P c a" "moves (p_peers P) i a a'" "plain_spec a'" "node_rel P a' i s"
    "\<And>m. m \<in> ms \<Longrightarrow> msg_rel (p_peers P) a' m"
  shows "cluster_rel P (put_node i s ms c) a'"
proof -
  have loc: "local_to i a a'" and ext: "extends a a'" using assms(2) by (auto simp: moves_def local_to_def)
  note c = cluster_relD [OF assms(1)]
  have "node_rel P a' j (((c_node c)(i := s)) j)" if "j \<in> set (p_peers P)" for j
    using node_rel_other [OF c(3) loc] that assms(4) by (cases "j = i") auto
  moreover have "\<forall>m \<in> c_msgs c \<union> ms. msg_rel (p_peers P) a' m"
    using assms(5) c(4) msg_rel_extends [OF ext] by blast
  moreover have "\<forall>(j, rd) \<in> c_reads c. j \<in> set (p_peers P) \<and> rd_me rd = j \<and> rd_peers rd = p_peers P
      \<and> a_leader a' (rd_term rd) = Some j"
    using c(6) extendsD(1) [OF ext] by blast
  ultimately show ?thesis
    using moves_reach [OF c(1) assms(2)] assms(3) c(5) campaign_rel_extends [OF ext]
    unfolding cluster_rel_def put_node_def plain_spec_def by simp
qed

lemma cluster_rel_put_campaign:
  assumes "cluster_rel P c a" "campaign_rel (p_peers P) a i t cp"
  shows "cluster_rel P (put_campaign i t (Some cp) c) a"
  using assms unfolding cluster_rel_def put_campaign_def by auto

lemma cluster_rel_put_msg:
  assumes "cluster_rel P c a" "msg_rel (p_peers P) a m"
  shows "cluster_rel P (c\<lparr>c_msgs := insert m (c_msgs c)\<rparr>) a"
  using assms unfolding cluster_rel_def by auto

section \<open>Sections of a server as protocol steps\<close>

lemma node_relD:
  assumes "node_rel P a i s"
  shows "s_id s = i" "s_peers s = p_peers P" "server_inv s" "recoverable s"
    "apply_entries (p_ops P) (entries_between (s_log s) 0 (s_lastApplied s)) (Some (p_machine P)) = Some (s_sm s)"
    "a_term a i = s_currentTerm s" "a_log a i = s_log s" "a_commit a i = s_commitIndex s"
    "s_votedFor s = map_option fst (a_vote a i (s_currentTerm s))"
    "leader_rel (p_peers P) a i s" "candidate_rel a i s"
  using assms by (simp_all add: node_rel_def local_inv_def state_rel_def)

lemma plain_spec_log:
  assumes "plain_spec a" "log_ok a l" shows "plain_log l"
  unfolding plain_log_def
proof
  fix e assume "e \<in> set l"
  then obtain k where k: "k < length l" "e = l ! k" by (auto simp: in_set_conv_nth)
  show "\<not> isConfigEntry (ent_Command e) \<and> ent_Command e \<noteq> Some []"
  proof (cases "k = 0")
    case True
    then show ?thesis using k rootedD(4) [OF log_okD(1) [OF assms(2)]] by (simp add: sentinel_def isConfigEntry_def)
  next
    case False
    then have ld: "a_leader a (ent_Term e) \<noteq> None" and ag: "agree l (a_tlog a (ent_Term e)) k"
      using log_okD(3,4) [OF assms(2), of k] k by auto
    have "k < length (a_tlog a (ent_Term e))" "e = a_tlog a (ent_Term e) ! k"
      using agree_nth [OF ag order_refl] ag k by (simp_all add: agree_def)
    then have "e \<in> set (a_tlog a (ent_Term e))" using nth_mem by metis
    then show ?thesis using ld assms(1) unfolding plain_spec_def plain_log_def by blast
  qed
qed

text \<open>A section that only moves timers, counters and the like.\<close>

lemma node_rel_volatile:
  assumes "node_rel P a i s" "s_id s' = s_id s" "s_peers s' = s_peers s" "s_currentTerm s' = s_currentTerm s"
    "s_votedFor s' = s_votedFor s" "s_log s' = s_log s" "s_commitIndex s' = s_commitIndex s"
    "s_lastApplied s' = s_lastApplied s" "s_sm s' = s_sm s" "s_storage s' = s_storage s" "s_role s' = s_role s"
    "s_matchIndex s' = s_matchIndex s" "s_nextIndex s' = s_nextIndex s"
  shows "node_rel P a i s'"
proof -
  have "recoverable s'"
    using recoverable_step [OF node_relD(4) [OF assms(1)] store_step_volatile] assms(4-6,8,10) by simp
  moreover have "server_inv s'" using server_inv_cong [of s' s] node_relD(3) [OF assms(1)] assms(6-8) by simp
  ultimately show ?thesis
    using assms by (simp add: node_rel_def local_inv_def state_rel_def leader_rel_def candidate_rel_def)
qed

text \<open>The local part of a section that applies nothing.\<close>

lemma local_inv_quiet:
  assumes "local_inv P i s" "section_ok s s'" "store_step s s'" "s_id s' = s_id s" "s_peers s' = s_peers s"
    "s_log s' = s_log s" "s_lastApplied s' = s_lastApplied s" "s_sm s' = s_sm s"
  shows "local_inv P i s'"
  using assms recoverable_step [of s s'] by (simp add: local_inv_def section_ok_def)

lemma sim_step_down:
  assumes "spec_reach (p_peers P) a" "distinct (p_peers P)" "node_rel P a i s" "t > s_currentTerm s"
  obtains a' where "moves (p_peers P) i a a'" "a_leader a' = a_leader a" "a_tlog a' = a_tlog a"
    "node_rel P a' i (stored_server (becomeFollower t s))"
proof
  note r = node_relD [OF assms(3)] and inv = spec_reach_inv [OF assms(1,2)]
  let ?a' = "a\<lparr>a_term := (a_term a)(i := t)\<rparr>" and ?s' = "stored_server (becomeFollower t s)"
  have none: "a_vote a i t = None" using vote_term [OF inv, of i t] assms(4) r(6) by (cases "a_vote a i t") auto
  show "moves (p_peers P) i a ?a'"
    by (rule movesI [OF assms(2) inv spec_step.observe]) (use assms(4) r(6) in auto)
  show "a_leader ?a' = a_leader a" "a_tlog ?a' = a_tlog a" by simp_all
  have "local_inv P i ?s'"
  proof (rule local_inv_quiet)
    show "local_inv P i s" using assms(3) by (simp add: node_rel_def)
    show "section_ok s ?s'" by (rule section_ok_persist) (simp_all add: advances_becomeFollower)
    show "store_step s ?s'" by (rule store_step_stored) simp
  qed simp_all
  then show "node_rel P ?a' i ?s'"
    using r none assms(4) by (simp add: node_rel_def state_rel_def leader_rel_def candidate_rel_def)
qed

lemma sim_startElection:
  assumes "spec_reach (p_peers P) a" "distinct (p_peers P)" "i \<in> set (p_peers P)" "node_rel P a i s"
    "startElection env s = Some (el, s')"
  obtains a' where "moves (p_peers P) i a a'" "a_leader a' = a_leader a" "a_tlog a' = a_tlog a" "node_rel P a' i s'"
    "a_vote a' i (el_term el) = Some (i, s_log s)"
proof
  note r = node_relD [OF assms(4)] and inv = spec_reach_inv [OF assms(1,2)] and e = startElection_ok [OF assms(5)]
  let ?t = "Suc (a_term a i)"
  let ?a' = "a\<lparr>a_term := (a_term a)(i := ?t), a_vote := (a_vote a)(i := (a_vote a i)(?t := Some (i, a_log a i)))\<rparr>"
  show "moves (p_peers P) i a ?a'"
    by (rule movesI [OF assms(2) inv spec_step.campaign [OF assms(3) refl]]) auto
  show "a_leader ?a' = a_leader a" "a_tlog ?a' = a_tlog a" by simp_all
  have t: "s_currentTerm s' = ?t" using e(2) r(6) by simp
  show "a_vote ?a' i (el_term el) = Some (i, s_log s)" using e(5) t r(7) by simp
  have no: "a_leader a ?t \<noteq> Some i" using spec_invD(2) [OF inv] unfolding leader_inv_def by fastforce
  from assms(5) obtain s1 where s1: "s1 = resetElectionTimerLocked env
      (s\<lparr>s_role := Candidate, s_currentTerm := s_currentTerm s + 1, s_votedFor := Some (s_id s)\<rparr>)"
    "s' = stored_server s1" by (rule startElection_elim)
  have "local_inv P i s'"
    by (rule local_inv_quiet [OF _ e(1) startElection_store [OF assms(5)]])
      (use assms(4) s1 in \<open>simp_all add: node_rel_def\<close>)
  then show "node_rel P ?a' i s'"
    using r e t no s1 by (simp add: node_rel_def state_rel_def leader_rel_def candidate_rel_def)
qed

lemma leader_votes_self:
  assumes "spec_inv peers a" "a_leader a t = Some i" shows "\<exists>l. a_vote a i t = Some (i, l)"
  using leader_invD [OF spec_invD(2) [OF assms(1)] assms(2)] by metis

lemma sim_RequestVote:
  assumes "spec_reach (p_peers P) a" "distinct (p_peers P)" "node_rel P a p s"
    and m: "msg_rel (p_peers P) a (VoteReq p v)" and rv: "RequestVote env v s = Some (r, s')"
  obtains a' where "moves (p_peers P) p a a'" "a_leader a' = a_leader a" "a_tlog a' = a_tlog a" "node_rel P a' p s'"
    "msg_rel (p_peers P) a' (VoteResp p v r)"
proof -
  note n = node_relD [OF assms(3)] and inv = spec_reach_inv [OF assms(1,2)]
  let ?t = "rv_Term v" and ?c = "rv_CandidateID v"
  let ?obs = "a\<lparr>a_term := (a_term a)(p := ?t)\<rparr>"
  obtain l where p: "p \<in> set (p_peers P)" "?c \<in> set (p_peers P)" "p \<noteq> ?c" and l: "a_vote a ?c ?t = Some (?c, l)"
    "rv_LastLogIndex v = lastIndex l" "rv_LastLogTerm v = lastTerm l"
    using m by auto
  have loc: "local_inv P p s'"
    using local_inv_quiet [of P p s s'] assms(3) RequestVote_ok [OF rv] RequestVote_store [OF rv] RequestVote_frame [OF rv]
    by (simp add: node_rel_def)
  have none: "a_vote a p ?t = None" if "?t > s_currentTerm s"
    using that vote_term [OF inv, of p ?t] n(6) by (cases "a_vote a p ?t") auto
  have role: "s_role s = Follower" if "?t = s_currentTerm s" "s_votedFor s = None \<or> s_votedFor s = Some ?c"
    using that n(9-11) p(3) leader_votes_self [OF inv, of ?t p]
    by (cases "s_role s") (auto simp: leader_rel_def candidate_rel_def)
  from rv show thesis
  proof (cases rule: RequestVote_elim)
    case ignored
    show thesis by (rule that [of a]) (use ignored assms(3) p in auto)
  next
    case (denied s1)
    have mv: "moves (p_peers P) p a ?obs"
      by (rule movesI [OF assms(2) inv spec_step.observe]) (use denied(2) n(6) in auto)
    show thesis
    proof (cases "?t > s_currentTerm s")
      case True
      have "node_rel P ?obs p s'"
        using loc n none [OF True] True denied
        by (simp add: node_rel_def state_rel_def leader_rel_def candidate_rel_def observeTerm_def)
      then show thesis using mv denied(4) p by (intro that [of ?obs]) auto
    next
      case False
      then have "s' = s" using denied by (simp add: observeTerm_def)
      then show thesis using assms(3) denied(4) p by (intro that [of a]) auto
    qed
  next
    case (granted s1)
    have up: "isUpToDate (a_log a p) (lastIndex l) (lastTerm l)" using granted(5) l n(7) by simp
    have s': "s_currentTerm s' = ?t" "s_votedFor s' = Some ?c" "s_log s' = s_log s" "s_commitIndex s' = s_commitIndex s"
      "s_role s' = Follower"
      using granted role by (auto simp: observeTerm_def split: if_splits)
    show thesis
    proof (cases "a_vote a p ?t")
      case None
      let ?a' = "a\<lparr>a_term := (a_term a)(p := ?t), a_vote := (a_vote a)(p := (a_vote a p)(?t := Some (?c, a_log a p)))\<rparr>"
      have "moves (p_peers P) p a ?a'"
        by (rule movesI [OF assms(2) inv spec_step.grant [OF p(1) _ None l(1) up]]) (use granted(2) n(6) in auto)
      moreover have "node_rel P ?a' p s'"
        using loc s' n by (simp add: node_rel_def state_rel_def leader_rel_def candidate_rel_def)
      ultimately show thesis using p by (intro that [of ?a']) auto
    next
      case (Some x)
      then have t: "?t = s_currentTerm s" using none granted(2) by fastforce
      then have x: "fst x = ?c" using Some granted(4) n(9) granted(1) by (auto simp: observeTerm_def)
      have "node_rel P a p s'"
        using loc s' n Some x t by (simp add: node_rel_def state_rel_def leader_rel_def candidate_rel_def)
      moreover have "\<exists>l. a_vote a p ?t = Some (?c, l)" using Some x by (cases x) auto
      ultimately show thesis using p by (intro that [of a]) auto
    qed
  qed
qed

text \<open>The local part of a section that applies committed entries.\<close>

lemma local_inv_apply:
  assumes "local_inv P i s" "server_inv s'" "store_step s s'" "s_id s' = s_id s" "s_peers s' = s_peers s"
    "s_commitIndex s \<le> s_commitIndex s'" "\<And>k. k \<le> s_commitIndex s \<Longrightarrow> entryAt (s_log s') k = entryAt (s_log s) k"
    "apply_entries (p_ops P) (entries_between (s_log s') (s_commitIndex s) (s_commitIndex s')) (s_sm s) = Some (s_sm s')"
  shows "local_inv P i s'"
proof -
  have s: "s_lastApplied s = s_commitIndex s" "s_lastApplied s' = s_commitIndex s'"
    using assms(1,2) by (auto simp: local_inv_def server_inv_def)
  have "entries_between (s_log s') 0 (s_commitIndex s) = entries_between (s_log s) 0 (s_commitIndex s)"
    by (rule entries_between_cong) (use assms(7) in auto)
  then have "apply_entries (p_ops P) (entries_between (s_log s') 0 (s_commitIndex s')) (Some (p_machine P)) = Some (s_sm s')"
    using assms(1,6,8) s entries_between_append [of 0 "s_commitIndex s" "s_commitIndex s'" "s_log s'"]
    by (simp add: local_inv_def apply_entries_append)
  then show ?thesis
    using assms s recoverable_step [of s s'] by (simp add: local_inv_def)
qed

lemma sim_advance:
  assumes "spec_reach (p_peers P) a" "distinct (p_peers P)" "i \<in> set (p_peers P)" "node_rel P a i s"
    "advanceCommitIndexLocked (p_ops P) env s = Some s'"
  obtains a' where "moves (p_peers P) i a a'" "a_leader a' = a_leader a" "a_tlog a' = a_tlog a" "node_rel P a' i s'"
proof -
  note n = node_relD [OF assms(4)] and inv = spec_reach_inv [OF assms(1,2)]
  note f = advance_frame [OF assms(5)] and c = advance_commit [OF assms(5) n(3)]
  have role: "s_role s' = s_role s" using advance_role [OF assms(5)] n(1,2) assms(3) by simp
  have loc: "local_inv P i s'"
    by (rule local_inv_apply [of P i s])
      (use assms(4) c f store_step_advance [OF store_step_refl refl assms(5)] in \<open>auto simp: node_rel_def\<close>)
  let ?a' = "a\<lparr>a_commit := (a_commit a)(i := s_commitIndex s')\<rparr>"
  have "committed (p_peers P) a (a_log a i) (s_commitIndex s') (lastTerm (a_log a i))"
  proof (cases "s_commitIndex s' = s_commitIndex s")
    case True
    then show ?thesis using spec_invD(9) [OF inv, of i] n(8) by simp
  next
    case False
    let ?n = "s_commitIndex s'" and ?t = "s_currentTerm s"
    let ?Q = "{p \<in> set (p_peers P). ?n \<le> get0 (s_matchIndex s) p}"
    from False c(3) have r: "s_role s = Leader" "0 < ?n" "committable s ?n" by auto
    then have l: "a_leader a ?t = Some i" "a_tlog a ?t = s_log s"
      "\<forall>p \<in> ?Q. acked a p ?t (get0 (s_matchIndex s) p)"
      using n(10) by (auto simp: leader_rel_def)
    have "rooted (s_log s)" using log_okD(1) [OF spec_invD(7) [OF inv, of i]] n(7) by simp
    then have nt: "?n < length (s_log s)" "ent_Term (s_log s ! ?n) = ?t"
      using r(3) by (auto simp: committable_def rooted_termAt split: if_splits)
    have "acked a p ?t ?n" if "p \<in> ?Q" for p
      using l(1,2,3) that nt(1) unfolding acked_def by (auto intro: le_trans)
    moreover have "majority (p_peers P) \<le> card ?Q"
      using r(3) n(2) assms(2) replicas_card [of s ?n] by (simp add: committable_def)
    ultimately have "chosen (p_peers P) a ?t ?n"
      using l(1,2) nt r(2) unfolding chosen_def by (auto intro!: exI [of _ ?Q])
    moreover have "?t \<le> lastTerm (a_log a i)"
      using log_ok_le_lastTerm [OF spec_invD(7) [OF inv, of i], of ?n] nt n(7) by simp
    moreover have "agree (a_log a i) (a_tlog a ?t) ?n" using l(2) n(7) nt(1) agree_refl by simp
    ultimately show ?thesis unfolding committed_def by blast
  qed
  then have mv: "moves (p_peers P) i a ?a'"
    by (intro movesI [OF assms(2) inv spec_step.commit]) auto
  have "acked ?a' = acked a" by (intro HOL.ext) (simp add: acked_def)
  then have "node_rel P ?a' i s'"
    using loc n f role advance_next [OF assms(5)] by (simp add: node_rel_def state_rel_def leader_rel_def candidate_rel_def)
  then show thesis using mv by (intro that [of ?a']) auto
qed

lemma sim_vote_reply:
  assumes "spec_reach (p_peers P) a" "distinct (p_peers P)" "node_rel P a i s" "vote_reply env el r s = Some (b, s')"
  obtains a' where "moves (p_peers P) i a a'" "a_leader a' = a_leader a" "a_tlog a' = a_tlog a" "node_rel P a' i s'"
    "b \<longrightarrow> rvr_VoteGranted r"
  using assms(4)
proof (cases rule: vote_reply_elim)
  case newer
  then show thesis using sim_step_down [OF assms(1-3) newer(2)] that by metis
qed (use that [of a] assms(3) in auto)

lemma sim_read_reply:
  assumes "spec_reach (p_peers P) a" "distinct (p_peers P)" "node_rel P a i s" "read_reply env rd r s = Some (b, s')"
  obtains a' where "moves (p_peers P) i a a'" "a_leader a' = a_leader a" "a_tlog a' = a_tlog a" "node_rel P a' i s'"
proof (cases "aer_Term r > s_currentTerm s")
  case True
  then have "s' = stored_server (becomeFollower (aer_Term r) s)"
    using assms(4) by (auto simp: read_reply_def split: Option.bind_splits dest!: mustPersistLocked_Some)
  then show thesis using sim_step_down [OF assms(1-3) True] that by metis
next
  case False
  then show thesis using assms(3,4) that [of a] by (auto simp: read_reply_def)
qed

lemma sim_replicate_reply:
  assumes "spec_reach (p_peers P) a" "distinct (p_peers P)" "node_rel P a (ae_LeaderID m) s"
    and msg: "msg_rel (p_peers P) a (AppResp p m r)"
    and rr: "replicate_reply (p_ops P) env p m r s = Some s'"
  obtains a' where "moves (p_peers P) (ae_LeaderID m) a a'" "a_leader a' = a_leader a" "a_tlog a' = a_tlog a"
    "node_rel P a' (ae_LeaderID m) s'"
  using rr
proof (cases rule: replicate_reply_elim)
  case newer
  then show thesis using sim_step_down [OF assms(1-3) newer(1)] that by metis
next
  case stale
  then show thesis using that [of a] assms(3) by simp
next
  case (acked s1)
  note n = node_relD [OF assms(3)]
  let ?n = "ae_PrevLogIndex m + length (ae_Entries m)" and ?t = "s_currentTerm s"
  have l: "a_leader a ?t = Some (ae_LeaderID m)" "a_tlog a ?t = s_log s"
    using n(10) acked(1) by (auto simp: leader_rel_def)
  have i: "ae_LeaderID m \<in> set (p_peers P)" and len: "?n < length (s_log s)" and ack: "(p, ?t, ?n) \<in> a_acks a"
    using msg acked(2,3) l(2) by (auto simp: slice_def Let_def)
  have "local_inv P (ae_LeaderID m) s1"
    by (rule local_inv_quiet [OF _ acked(4) store_step_volatile])
      (use assms(3) acked in \<open>auto simp: node_rel_def\<close>)
  moreover have "leader_rel (p_peers P) a (ae_LeaderID m) s1"
    unfolding leader_rel_def
  proof (intro impI conjI ballI)
    show "a_leader a (s_currentTerm s1) = Some (ae_LeaderID m)" "a_tlog a (s_currentTerm s1) = s_log s1"
      using l acked by simp_all
    fix q assume q: "q \<in> set (p_peers P)"
    then have old: "get0 (s_matchIndex s) q < length (s_log s)" "get0 (s_nextIndex s) q \<le> length (s_log s)"
      "0 < get0 (s_matchIndex s) q \<longrightarrow> acked a q ?t (get0 (s_matchIndex s) q)"
      using n(10) acked(1) by (auto simp: leader_rel_def)
    show "get0 (s_matchIndex s1) q < length (s_log s1)" using old(1) acked(5,14) len by auto
    show "get0 (s_nextIndex s1) q \<le> length (s_log s1)" using old(2) acked(18) acked(5) len by (metis Suc_eq_plus1 Suc_leI)
    have "acked a p ?t ?n" using ack by (auto simp: acked_def)
    then show "acked a q (s_currentTerm s1) (get0 (s_matchIndex s1) q)" if "0 < get0 (s_matchIndex s1) q"
      using that old(3) acked(8,14) by (auto simp: max_def)
  qed
  ultimately have "node_rel P a (ae_LeaderID m) s1"
    using n acked by (simp add: node_rel_def state_rel_def candidate_rel_def)
  from sim_advance [OF assms(1,2) i this acked(15)] that show thesis by metis
next
  case nacked
  note n = node_relD [OF assms(3)]
  have le: "get0 (fmupd p (get0 (s_nextIndex s) p - 1) (s_nextIndex s)) q \<le> get0 (s_nextIndex s) q" for q
    by (simp add: get0_def split: option.split)
  have "local_inv P (ae_LeaderID m) s'"
    by (rule local_inv_quiet [OF _ replicate_reply_ok [OF rr] replicate_reply_store [OF rr]])
      (use assms(3) nacked(4) in \<open>auto simp: node_rel_def\<close>)
  moreover have "leader_rel (p_peers P) a (ae_LeaderID m) s'"
    using n(10) nacked(1,4) le by (auto simp: leader_rel_def intro: le_trans)
  ultimately have "node_rel P a (ae_LeaderID m) s'"
    using n nacked by (simp add: node_rel_def state_rel_def candidate_rel_def)
  then show thesis by (intro that [of a]) auto
qed

text \<open>A leader appends an entry: the no-op of its election or a command.\<close>

lemma local_inv_append:
  assumes "local_inv P i s" "s_id s1 = s_id s" "s_peers s1 = s_peers s" "s_currentTerm s1 = s_currentTerm s"
    "s_votedFor s1 = s_votedFor s" "s_commitIndex s1 = s_commitIndex s" "s_lastApplied s1 = s_lastApplied s"
    "s_sm s1 = s_sm s" "s_storage s1 = s_storage s"
    "s_log s1 = s_log s @ [\<lparr>ent_Term = t, ent_Index = lastIndex (s_log s) + 1, ent_Command = c\<rparr>]"
  shows "local_inv P i (stored_server s1)"
proof (rule local_inv_apply [OF assms(1)])
  have inv: "server_inv s" using assms(1) by (simp add: local_inv_def)
  show "server_inv (stored_server s1)"
    using section_ok_append [OF assms(2,4,5,10,6,7)] inv by (simp add: section_ok_def)
  show "store_step s (stored_server s1)" by (rule store_step_stored) fact
  show "entryAt (s_log (stored_server s1)) k = entryAt (s_log s) k" if "k \<le> s_commitIndex s" for k
    using that server_invD [OF inv] assms(10)
      entryAt_snoc [of "s_log s" "\<lparr>ent_Term = t, ent_Index = lastIndex (s_log s) + 1, ent_Command = c\<rparr>" k] by simp
qed (use assms in simp_all)

lemma plain_spec_snoc:
  assumes "plain_spec a" "plain_log l" "\<not> isConfigEntry cmd" "cmd \<noteq> Some []"
    "a_tlog a' = (a_tlog a)(t := l @ [\<lparr>ent_Term = t, ent_Index = n, ent_Command = cmd\<rparr>])"
    "\<And>u. u \<noteq> t \<Longrightarrow> a_leader a' u = a_leader a u"
  shows "plain_spec a'"
  using assms by (auto simp: plain_spec_def plain_log_def)

lemma sim_becomeLeader:
  assumes "spec_reach (p_peers P) a" "distinct (p_peers P)" "i \<in> set (p_peers P)" "node_rel P a i s" "plain_spec a"
    and R: "R \<subseteq> set (p_peers P)" "majority (p_peers P) \<le> card R" "\<forall>v \<in> R. \<exists>l. a_vote a v t = Some (i, l)"
    and bl: "becomeLeader (p_ops P) env t s = Some (b, s')"
  obtains a' where "moves (p_peers P) i a a'" "plain_spec a'" "node_rel P a' i s'"
  using bl
proof (cases rule: becomeLeader_elim)
  case stale
  then show thesis using that [of a] assms(4,5) by simp
next
  case (won s1)
  note n = node_relD [OF assms(4)] and inv = spec_reach_inv [OF assms(1,2)]
  have rt: "rooted (s_log s)" using log_okD(1) [OF spec_invD(7) [OF inv, of i]] n(7) by simp
  then have len: "lastIndex (s_log s) + 1 = length (s_log s)" using rootedD [OF rt] by simp
  have c: "a_vote a i t = Some (i, s_log s)" "a_leader a t \<noteq> Some i"
    using n(11) won(2,3) by (auto simp: candidate_rel_def)
  let ?l = "a_log a i @ [\<lparr>ent_Term = t, ent_Index = length (a_log a i), ent_Command = None\<rparr>]"
  let ?a1 = "a\<lparr>a_leader := (a_leader a)(t := Some i), a_tlog := (a_tlog a)(t := ?l), a_log := (a_log a)(i := ?l)\<rparr>"
  have mv: "moves (p_peers P) i a ?a1"
    by (rule movesI [OF assms(2) inv spec_step.elect [OF assms(3) _ _ c(2) R refl]])
      (use n(6,7) c(1) won(3) in auto)
  have log: "s_log s1 = ?l" using won(4) len n(7) by simp
  have plain: "plain_spec ?a1"
    by (rule plain_spec_snoc [OF assms(5) plain_spec_log [OF assms(5) spec_invD(7) [OF inv, of i]], where cmd = None])
      (auto simp: isConfigEntry_def)
  have "local_inv P i (stored_server s1)"
    by (rule local_inv_append [of P i s]) (use won assms(4) in \<open>auto simp: node_rel_def\<close>)
  moreover have "leader_rel (p_peers P) ?a1 i (stored_server s1)"
  proof -
    have len1: "length (s_log s1) = Suc (length (s_log s))" using won(4) by simp
    have self: "acked ?a1 i t (length (s_log s))" "get0 (s_matchIndex s1) i = length (s_log s)"
      "get0 (s_nextIndex s1) i = Suc (length (s_log s))"
      using won(16,20) n(1,7) len by (simp_all add: acked_def)
    have other: "get0 (s_matchIndex s1) p = 0" "get0 (s_nextIndex s1) p = length (s_log s)"
      if "p \<in> set (p_peers P)" "p \<noteq> i" for p using won(17) that n(1,2) len by simp_all
    have "get0 (s_matchIndex s1) p < length (s_log s1) \<and> get0 (s_nextIndex s1) p \<le> length (s_log s1) \<and>
        (0 < get0 (s_matchIndex s1) p \<longrightarrow> acked ?a1 p t (get0 (s_matchIndex s1) p))" if "p \<in> set (p_peers P)" for p
    proof (cases "p = i")
      case True
      then show ?thesis using self len1 by simp
    next
      case False
      then show ?thesis using other [OF that False] len1 by simp
    qed
    then show ?thesis using won(7) log unfolding leader_rel_def by simp
  qed
  ultimately have rel: "node_rel P ?a1 i (stored_server s1)"
    using n won log by (simp add: node_rel_def state_rel_def candidate_rel_def)
  obtain a' where a': "moves (p_peers P) i ?a1 a'" "a_leader a' = a_leader ?a1" "a_tlog a' = a_tlog ?a1" "node_rel P a' i s'"
    using sim_advance [OF moves_reach [OF assms(1) mv] assms(2,3) rel won(18)] .
  show thesis
  proof (rule that)
    show "moves (p_peers P) i a a'" using moves_trans [OF mv a'(1)] .
    show "plain_spec a'" using plain a'(2,3) by (simp add: plain_spec_def)
  qed (fact a'(4))
qed

lemma sim_Submit:
  assumes "spec_reach (p_peers P) a" "distinct (p_peers P)" "i \<in> set (p_peers P)" "node_rel P a i s" "plain_spec a"
    and cmd: "\<not> isConfigEntry cmd" "cmd \<noteq> Some []"
    and sb: "Submit (p_ops P) env cmd s = Some (x, s')"
  obtains a' where "moves (p_peers P) i a a'" "plain_spec a'" "node_rel P a' i s'"
  using sb
proof (cases rule: Submit_elim)
  case refused
  then show thesis using that [of a] assms(4,5) by simp
next
  case (appended s1)
  note n = node_relD [OF assms(4)] and inv = spec_reach_inv [OF assms(1,2)]
  let ?t = "s_currentTerm s"
  have rt: "rooted (s_log s)" using log_okD(1) [OF spec_invD(7) [OF inv, of i]] n(7) by simp
  then have len: "lastIndex (s_log s) + 1 = length (s_log s)" using rootedD [OF rt] by simp
  have ld: "a_leader a ?t = Some i" "a_tlog a ?t = s_log s"
    using n(10) appended(2) by (auto simp: leader_rel_def)
  let ?l = "a_log a i @ [\<lparr>ent_Term = ?t, ent_Index = length (a_log a i), ent_Command = cmd\<rparr>]"
  let ?a1 = "a\<lparr>a_tlog := (a_tlog a)(?t := ?l), a_log := (a_log a)(i := ?l)\<rparr>"
  have mv: "moves (p_peers P) i a ?a1"
    by (rule movesI [OF assms(2) inv spec_step.extend [OF ld(1) _ _ refl]]) (use n(6,7) ld in \<open>auto split: if_splits\<close>)
  have ext: "extends a ?a1" using mv by (simp add: moves_def local_to_def)
  have log: "s_log s1 = ?l" using appended(4) len n(7) by simp
  have plain: "plain_spec ?a1"
    by (rule plain_spec_snoc [OF assms(5) plain_spec_log [OF assms(5) spec_invD(7) [OF inv, of i]] cmd]) simp_all
  have "local_inv P i (stored_server s1)"
    by (rule local_inv_append [of P i s]) (use appended assms(4) in \<open>auto simp: node_rel_def\<close>)
  moreover have "leader_rel (p_peers P) ?a1 i (stored_server s1)"
  proof -
    have len1: "length (s_log s1) = Suc (length (s_log s))" using appended(4) by simp
    have self: "acked ?a1 i ?t (length (s_log s))" using n(7) ld by (simp add: acked_def)
    have "get0 (s_matchIndex s1) p < length (s_log s1) \<and> get0 (s_nextIndex s1) p \<le> length (s_log s1) \<and>
        (0 < get0 (s_matchIndex s1) p \<longrightarrow> acked ?a1 p ?t (get0 (s_matchIndex s1) p))" if p: "p \<in> set (p_peers P)" for p
    proof -
      have old: "get0 (s_matchIndex s) p < length (s_log s)" "get0 (s_nextIndex s) p \<le> length (s_log s)"
        "0 < get0 (s_matchIndex s) p \<longrightarrow> acked a p ?t (get0 (s_matchIndex s) p)"
        using n(10) appended(2) p by (auto simp: leader_rel_def)
      have "s_nextIndex s1 = s_nextIndex s"
        "get0 (s_matchIndex s1) p = (if p = i then length (s_log s) else get0 (s_matchIndex s) p)"
        using appended(4) n(1) len by (simp_all add: get0_def)
      then show ?thesis using old self len1 acked_extends [OF ext] by simp
    qed
    moreover have "s_currentTerm s1 = ?t" using appended(4) by simp
    ultimately show ?thesis using log ld unfolding leader_rel_def by simp
  qed
  moreover have "s_currentTerm s1 = ?t \<and> s_commitIndex s1 = s_commitIndex s \<and> s_votedFor s1 = s_votedFor s \<and> s_role s1 = Leader"
    using appended(2,4) by simp
  ultimately have rel: "node_rel P ?a1 i (stored_server s1)"
    using n log by (simp add: node_rel_def state_rel_def candidate_rel_def)
  obtain a' where a': "moves (p_peers P) i ?a1 a'" "a_leader a' = a_leader ?a1" "a_tlog a' = a_tlog ?a1" "node_rel P a' i s'"
    using sim_advance [OF moves_reach [OF assms(1) mv] assms(2,3) rel appended(5)] .
  show thesis
  proof (rule that)
    show "moves (p_peers P) i a a'" using moves_trans [OF mv a'(1)] .
    show "plain_spec a'" using plain a'(2,3) by (simp add: plain_spec_def)
  qed (fact a'(4))
qed

subsection \<open>Hearing from a leader\<close>

lemma AppendEntries_heard:
  assumes "AppendEntries M env m s = Some (r, s')" "\<not> s_stopped s" "s_currentTerm s \<le> ae_Term m"
  shows "s_id s' = s_id s" "s_currentTerm s' = ae_Term m"
    "s_votedFor s' = (if ae_Term m > s_currentTerm s then None else s_votedFor s)"
    "s_role s = Leader \<Longrightarrow> ae_Term m > s_currentTerm s \<Longrightarrow> s_role s' = Follower"
    "s_role s \<noteq> Leader \<Longrightarrow> s_role s' = Follower"
proof -
  have role: "s_role (snd (accept_leader env m s)) = Follower"
    if "s_role s \<noteq> Leader \<or> ae_Term m > s_currentTerm s"
    using that assms(3) by (cases "s_role s") (auto simp: role_accept_leader)
  have "s_id s' = s_id s \<and> s_currentTerm s' = ae_Term m
    \<and> s_votedFor s' = (if ae_Term m > s_currentTerm s then None else s_votedFor s)
    \<and> s_role s' = s_role (snd (accept_leader env m s))"
    using assms(1)
  proof (cases rule: AppendEntries_elim)
    case ignored
    then show ?thesis using assms(2,3) by simp
  next
    case (rejected s1)
    then show ?thesis by simp
  next
    case (accepted s1 s3 s4)
    show ?thesis
      using commit_to_frame [OF accepted(9)] accepted(1,2,8) protoD [OF accepted(6)] by auto
  qed
  then show "s_id s' = s_id s" "s_currentTerm s' = ae_Term m"
    "s_votedFor s' = (if ae_Term m > s_currentTerm s then None else s_votedFor s)"
    "s_role s = Leader \<Longrightarrow> ae_Term m > s_currentTerm s \<Longrightarrow> s_role s' = Follower"
    "s_role s \<noteq> Leader \<Longrightarrow> s_role s' = Follower"
    using role by auto
qed

lemma AppendEntries_peers:
  assumes "AppendEntries M env m s = Some (r, s')"
    "plain_log (snd (appendFrom (ae_PrevLogIndex m) (ae_Entries m) (s_log s)))"
  shows "s_peers s' = s_peers s"
proof -
  have "adoptConfigFromLogLocked (s1\<lparr>s_log := snd (appendFrom (ae_PrevLogIndex m) (ae_Entries m) (s_log s))\<rparr>)
      = Some (s1\<lparr>s_log := snd (appendFrom (ae_PrevLogIndex m) (ae_Entries m) (s_log s))\<rparr>)" for s1 :: "'a Server"
    using assms(2) by (intro adoptConfig_plain) simp
  then show ?thesis
    using assms(1) unfolding AppendEntries_def
    by (auto simp: Let_def case_prod_beta split: if_splits Option.bind_splits dest!: mustPersistLocked_Some
        dest: commit_to_frame(2))
qed

text \<open>The common part: the handler ran in term \<open>t\<close>, which some other server leads.\<close>

lemma heard_role:
  assumes "spec_reach (p_peers P) a" "distinct (p_peers P)" "node_rel P a p s" "a_leader a (ae_Term m) = Some i" "p \<noteq> i"
    and "AppendEntries M env m s = Some (r, s')" "\<not> s_stopped s" "s_currentTerm s \<le> ae_Term m"
  shows "s_role s' = Follower" "s_votedFor s' = map_option fst (a_vote a p (ae_Term m))"
proof -
  note n = node_relD [OF assms(3)] and h = AppendEntries_heard [OF assms(6-8)]
  have "s_role s \<noteq> Leader" if "ae_Term m = s_currentTerm s"
    using that n(10) assms(4,5) by (auto simp: leader_rel_def)
  then show "s_role s' = Follower" using h(4,5) assms(8) by (metis nat_less_le)
  show "s_votedFor s' = map_option fst (a_vote a p (ae_Term m))"
  proof (cases "ae_Term m > s_currentTerm s")
    case True
    then have "a_vote a p (ae_Term m) = None"
      using vote_term [OF spec_reach_inv [OF assms(1,2)], of p "ae_Term m"] n(6)
      by (cases "a_vote a p (ae_Term m)") auto
    then show ?thesis using h(3) True by simp
  next
    case False
    then show ?thesis using h(3) n(9) assms(8) by simp
  qed
qed

lemma matchesPrevLog_rooted:
  "rooted l \<Longrightarrow> matchesPrevLog l p t \<longleftrightarrow> p < length l \<and> ent_Term (l ! p) = t"
  using rootedD(3) [of l] by (auto simp: matchesPrevLog_def compactedAway_def rooted_termAt)

text \<open>A request that does not change the log: the heartbeat of a read, or anything refused. The server adopts
  the term, and its commit index may advance to one that the protocol allows.\<close>

lemma sim_heard:
  assumes "spec_reach (p_peers P) a" "distinct (p_peers P)" "node_rel P a p s" "a_leader a (ae_Term m) = Some i" "p \<noteq> i"
    and ae: "AppendEntries (p_ops P) env m s = Some (r, s')" "\<not> s_stopped s" "s_currentTerm s \<le> ae_Term m"
    and s': "local_inv P p s'" "s_log s' = s_log s"
    and c: "committed (p_peers P) a (s_log s) (s_commitIndex s') (lastTerm (s_log s))"
  obtains a' where "moves (p_peers P) p a a'" "a_leader a' = a_leader a" "a_tlog a' = a_tlog a" "node_rel P a' p s'"
    "a_acks a' = a_acks a"
proof -
  note n = node_relD [OF assms(3)] and inv = spec_reach_inv [OF assms(1,2)] and h = AppendEntries_heard [OF ae]
  note hr = heard_role [OF assms(1-5) ae]
  let ?a1 = "a\<lparr>a_term := (a_term a)(p := ae_Term m)\<rparr>"
  let ?a2 = "?a1\<lparr>a_commit := (a_commit a)(p := s_commitIndex s')\<rparr>"
  have mv1: "moves (p_peers P) p a ?a1"
    by (rule movesI [OF assms(2) inv spec_step.observe]) (use ae(3) n(6) in auto)
  have ext: "extends a ?a1" using mv1 by (simp add: moves_def local_to_def)
  have "committed (p_peers P) ?a1 (a_log ?a1 p) (s_commitIndex s') (lastTerm (a_log ?a1 p))"
    using committed_extends [OF ext c] n(7) by simp
  then have "moves (p_peers P) p ?a1 ?a2"
    by (intro movesI [OF assms(2) moves_inv [OF assms(1,2) mv1]]) (auto intro: spec_step.commit [where a = ?a1, simplified])
  then have "moves (p_peers P) p a ?a2" using moves_trans [OF mv1] by blast
  moreover have "node_rel P ?a2 p s'"
    using s' n h hr by (simp add: node_rel_def state_rel_def leader_rel_def candidate_rel_def)
  ultimately show thesis by (intro that [of ?a2]) auto
qed

lemma committed_prefix_terms:
  assumes "spec_reach (p_peers P) a" "distinct (p_peers P)" "node_rel P a p s" "a_leader a t \<noteq> None" "s_currentTerm s \<le> t"
    and "k \<le> s_commitIndex s" "0 < k"
  shows "termAt (s_log s) k = Some (ent_Term (a_tlog a t ! k))"
proof -
  note n = node_relD [OF assms(3)] and inv = spec_reach_inv [OF assms(1,2)]
  have "agree (a_log a p) (a_tlog a t) (a_commit a p)"
    using committed_in_leader [OF assms(2) inv spec_invD(9) [OF inv, of p] _ assms(4)] spec_invD(8) [OF inv, of p]
      n(6,8) assms(5-7) by fastforce
  then have "agree (s_log s) (a_tlog a t) k" using agree_le n(7,8) assms(6) by simp
  moreover have "rooted (s_log s)" using log_okD(1) [OF spec_invD(7) [OF inv, of p]] n(7) by simp
  ultimately show ?thesis using agree_nth [of "s_log s" "a_tlog a t" k k] by (simp add: rooted_termAt agree_def)
qed

lemma local_inv_AppendEntries:
  assumes "local_inv P p s" "AppendEntries (p_ops P) env m s = Some (r, s')" "sound_append m s" "s_peers s' = s_peers s"
  shows "local_inv P p s'"
proof (rule local_inv_apply [OF assms(1)])
  have inv: "server_inv s" using assms(1) by (simp add: local_inv_def)
  show "server_inv s'" by (rule AppendEntries_inv [OF assms(2) inv assms(3)])
  show "store_step s s'" by (rule AppendEntries_store [OF assms(2)])
  show "s_id s' = s_id s" using AppendEntries_advances [OF assms(2)] by (simp add: advances_def)
  show "s_peers s' = s_peers s" by fact
  show "s_commitIndex s \<le> s_commitIndex s'"
    using AppendEntries_accepted_inv(3) [OF assms(2) _ inv assms(3)] AppendEntries_refused(2) [OF assms(2)]
    by (cases "aer_Success r") auto
  show "entryAt (s_log s') k = entryAt (s_log s) k" if "k \<le> s_commitIndex s" for k
    using AppendEntries_keeps_committed [OF assms(2) inv assms(3) that] .
  show "apply_entries (p_ops P) (entries_between (s_log s') (s_commitIndex s) (s_commitIndex s')) (s_sm s) = Some (s_sm s')"
    using AppendEntries_accepted_inv(4) [OF assms(2) _ inv assms(3)] AppendEntries_refused(2,4) [OF assms(2)]
    by (cases "aer_Success r") auto
qed

lemma AppendEntries_same_log:
  assumes "AppendEntries M env m s = Some (r, s')" "s_stopped s \<or> ae_Term m < s_currentTerm s"
  shows "s' = s" "\<not> aer_Success r"
  using assms(1) by (cases rule: AppendEntries_elim; use assms(2) in simp)+

lemma sim_beat:
  assumes "spec_reach (p_peers P) a" "distinct (p_peers P)" "node_rel P a p s" "plain_spec a"
    and b: "beat (p_peers P) a p rd m" and ae: "AppendEntries (p_ops P) env m s = Some (r, s')"
  obtains a' where "moves (p_peers P) p a a'" "a_leader a' = a_leader a" "a_tlog a' = a_tlog a" "node_rel P a' p s'"
proof (cases "s_stopped s \<or> ae_Term m < s_currentTerm s")
  case True
  then show thesis using AppendEntries_same_log(1) [OF ae True] assms(3) by (intro that [of a]) auto
next
  case False
  note n = node_relD [OF assms(3)] and inv = spec_reach_inv [OF assms(1,2)]
  note bt = b [unfolded beat_def]
  have lok: "log_ok a (s_log s)" using spec_invD(7) [OF inv, of p] n(7) by simp
  note rt = log_okD(1) [OF lok]
  have app: "appendFrom (ae_PrevLogIndex m) (ae_Entries m) (s_log s) = (False, s_log s)" using bt by simp
  have sound: "sound_append m s" using bt by (simp add: sound_append_def)
  have peers: "s_peers s' = s_peers s"
    using AppendEntries_peers [OF ae] app plain_spec_log [OF assms(4) lok] by simp
  have loc: "local_inv P p s'"
    using local_inv_AppendEntries [OF _ ae sound peers] assms(3) by (simp add: node_rel_def)
  have old: "committed (p_peers P) a (s_log s) (s_commitIndex s) (lastTerm (s_log s))"
    using spec_invD(9) [OF inv, of p] n(7,8) by simp
  have log: "s_log s' = s_log s"
    using AppendEntries_accepted_inv(2) [OF ae _ n(3) sound] AppendEntries_refused(1) [OF ae] app
    by (cases "aer_Success r") auto
  have "committed (p_peers P) a (s_log s) (s_commitIndex s') (lastTerm (s_log s))"
  proof (cases "aer_Success r")
    case True
    have "matchesPrevLog (s_log s) (ae_PrevLogIndex m) (ae_PrevLogTerm m)"
      using ae True by (cases rule: AppendEntries_elim) auto
    then have mt: "ae_PrevLogIndex m < length (s_log s)" "ent_Term (s_log s ! ae_PrevLogIndex m) = ae_PrevLogTerm m"
      using matchesPrevLog_rooted [OF rt] by auto
    obtain l where l: "log_ok a l" "length l = Suc (ae_PrevLogIndex m)" "lastTerm l = ae_PrevLogTerm m"
      "committed (p_peers P) a l (ae_LeaderCommit m) (ae_PrevLogTerm m)" "ae_LeaderCommit m \<le> ae_PrevLogIndex m"
      using bt by blast
    have "agree l (s_log s) (ae_PrevLogIndex m)"
      using log_matching [OF l(1) lok, of "ae_PrevLogIndex m"] l(2,3) mt rootedD(6) [OF log_okD(1) [OF l(1)]] by simp
    then have "committed (p_peers P) a (s_log s) (ae_LeaderCommit m) (ae_PrevLogTerm m)"
      using committed_agree [OF l(4)] agree_le l(5) by blast
    then have "committed (p_peers P) a (s_log s) (ae_LeaderCommit m) (lastTerm (s_log s))"
      using committed_weaken log_ok_le_lastTerm [OF lok mt(1)] mt(2) by simp
    then show ?thesis using old AppendEntries_accepted_inv(3) [OF ae True n(3) sound] by (simp add: max_def)
  next
    case False
    then show ?thesis using AppendEntries_refused(2) [OF ae] old by simp
  qed
  then show thesis
    using sim_heard [OF assms(1-3) _ _ ae _ _ loc log] bt False that by (metis not_less)
qed

lemma sim_append:
  assumes "spec_reach (p_peers P) a" "distinct (p_peers P)" "node_rel P a p s" "plain_spec a"
    and sl: "slice (p_peers P) a p m" and ae: "AppendEntries (p_ops P) env m s = Some (r, s')"
  obtains a' where "moves (p_peers P) p a a'" "a_leader a' = a_leader a" "a_tlog a' = a_tlog a" "node_rel P a' p s'"
    "msg_rel (p_peers P) a' (AppResp p m r)"
proof (cases "s_stopped s \<or> ae_Term m < s_currentTerm s")
  case True
  then show thesis using AppendEntries_same_log [OF ae True] assms(3) sl by (intro that [of a]) auto
next
  case False
  then have heard: "\<not> s_stopped s" "s_currentTerm s \<le> ae_Term m" by auto
  note n = node_relD [OF assms(3)] and inv = spec_reach_inv [OF assms(1,2)]
  let ?t = "ae_Term m" and ?prev = "ae_PrevLogIndex m" and ?es = "ae_Entries m"
  let ?n = "?prev + length ?es" and ?L = "a_tlog a (ae_Term m)"
  have p: "p \<in> set (p_peers P)" "p \<noteq> ae_LeaderID m" "a_leader a ?t = Some (ae_LeaderID m)" "?n < length ?L"
    "?es = drop (Suc ?prev) (take (Suc ?n) ?L)" "ae_PrevLogTerm m = ent_Term (?L ! ?prev)" "ent_Term (?L ! ?n) = ?t"
    "ae_LeaderCommit m \<le> ?n" "committed (p_peers P) a ?L (ae_LeaderCommit m) ?t"
    using sl by (auto simp: slice_def Let_def)
  have ld: "a_leader a ?t \<noteq> None" using p(3) by simp
  have lok: "log_ok a (s_log s)" using spec_invD(7) [OF inv, of p] n(7) by simp
  have nth: "?es ! k = ?L ! (?prev + k + 1)" if "k < length ?es" for k
    using that p(4) by (subst p(5)) (simp add: add.commute)
  have sound: "sound_append m s"
    unfolding sound_append_def
  proof (intro conjI allI impI)
    show "ae_LeaderCommit m \<le> ?n" by (fact p(8))
    fix k assume k: "k < length ?es" "baseIndex (s_log s) < ?prev + k + 1 \<and> ?prev + k + 1 \<le> s_commitIndex s"
    then show "termAt (s_log s) (?prev + k + 1) = Some (ent_Term (?es ! k))"
      using committed_prefix_terms [OF assms(1-3) ld heard(2), of "?prev + k + 1"] nth [OF k(1)] by simp
  qed
  show thesis
  proof (cases "aer_Success r")
    case False
    note rf = AppendEntries_refused [OF ae False]
    have peers: "s_peers s' = s_peers s"
      using ae False by (cases rule: AppendEntries_elim) auto
    have loc: "local_inv P p s'"
      using local_inv_AppendEntries [OF _ ae sound peers] assms(3) by (simp add: node_rel_def)
    have "committed (p_peers P) a (s_log s) (s_commitIndex s') (lastTerm (s_log s))"
      using spec_invD(9) [OF inv, of p] n(7,8) rf(2) by simp
    from sim_heard [OF assms(1-3) p(3,2) ae heard loc rf(1) this]
    obtain a' where "moves (p_peers P) p a a'" "a_leader a' = a_leader a" "a_tlog a' = a_tlog a" "node_rel P a' p s'" .
    moreover from this(1) have "slice (p_peers P) a' p m"
      using slice_extends [OF _ sl] by (simp add: moves_def local_to_def)
    ultimately show thesis using False by (intro that [of a']) auto
  next
    case True
    note ac = AppendEntries_accepted_inv [OF ae True n(3) sound]
    have "matchesPrevLog (s_log s) ?prev (ae_PrevLogTerm m)"
      using ae True by (cases rule: AppendEntries_elim) auto
    then have mt: "?prev < length (a_log a p)" "ent_Term (a_log a p ! ?prev) = ent_Term (?L ! ?prev)"
      using matchesPrevLog_rooted [OF log_okD(1) [OF lok]] p(6) n(7) by auto
    let ?l = "snd (appendFrom ?prev (drop (Suc ?prev) (take (Suc ?n) ?L)) (a_log a p))"
    let ?a1 = "a\<lparr>a_term := (a_term a)(p := ?t), a_log := (a_log a)(p := ?l), a_acks := insert (p, ?t, ?n) (a_acks a)\<rparr>"
    have mv1: "moves (p_peers P) p a ?a1"
      by (rule movesI [OF assms(2) inv spec_step.accept [OF p(1) ld _ _ p(4,7) mt refl]]) (use heard n(6) in auto)
    note inv1 = moves_inv [OF assms(1,2) mv1]
    have ext: "extends a ?a1" using mv1 by (simp add: moves_def local_to_def)
    have log: "s_log s' = ?l" using ac(2) p(5) n(7) by simp
    have ag: "agree (s_log s') ?L ?n"
      using accept_log [OF spec_invD(7) [OF inv, of p] tlog_facts(1) [OF spec_invD(1,2) [OF inv] ld], of ?prev ?n ?l]
        p(4) mt log by (auto simp: agree_def)
    have ok1: "log_ok ?a1 (s_log s')" using spec_invD(7) [OF inv1, of p] log by simp
    have plain1: "plain_spec ?a1" using assms(4) by (simp add: plain_spec_def)
    have peers: "s_peers s' = s_peers s"
      using AppendEntries_peers [OF ae] ac(2) plain_spec_log [OF plain1 ok1] by simp
    have loc: "local_inv P p s'"
      using local_inv_AppendEntries [OF _ ae sound peers] assms(3) by (simp add: node_rel_def)
    have "committed (p_peers P) ?a1 (s_log s') (s_commitIndex s') (lastTerm (s_log s'))"
    proof (cases "s_commitIndex s' = s_commitIndex s")
      case True
      then show ?thesis using spec_invD(9) [OF inv1, of p] log n(8) by simp
    next
      case False
      then have eq: "s_commitIndex s' = ae_LeaderCommit m" using ac(3) by (simp add: max_def split: if_splits)
      have "committed (p_peers P) ?a1 (s_log s') (ae_LeaderCommit m) ?t"
        using committed_agree [OF committed_extends [OF ext p(9)]] agree_sym [OF agree_le [OF ag p(8)]] by blast
      moreover have "?t \<le> lastTerm (s_log s')"
        using log_ok_le_lastTerm [OF ok1, of ?n] ag agree_nth [OF ag, of ?n] p(7) by (simp add: agree_def)
      ultimately show ?thesis using eq committed_weaken by simp
    qed
    then have mv2: "moves (p_peers P) p ?a1 (?a1\<lparr>a_commit := (a_commit ?a1)(p := s_commitIndex s')\<rparr>)"
      using log by (intro movesI [OF assms(2) inv1 spec_step.commit]) auto
    let ?a2 = "?a1\<lparr>a_commit := (a_commit ?a1)(p := s_commitIndex s')\<rparr>"
    have mv: "moves (p_peers P) p a ?a2" using moves_trans [OF mv1 mv2] .
    have "node_rel P ?a2 p s'"
      using loc log n AppendEntries_heard(2) [OF ae heard] heard_role [OF assms(1-3) p(3,2) ae heard]
      by (simp add: node_rel_def state_rel_def leader_rel_def candidate_rel_def)
    moreover have "slice (p_peers P) ?a2 p m"
      using slice_extends [OF _ sl] mv by (simp add: moves_def local_to_def)
    ultimately show thesis using mv by (intro that [of ?a2]) auto
  qed
qed

section \<open>Requests\<close>

lemma replicate_slice:
  assumes "spec_reach (p_peers P) a" "distinct (p_peers P)" "i \<in> set (p_peers P)" "p \<in> set (p_peers P)" "p \<noteq> i"
    and "node_rel P a i s" "replicateTo p t s = AppendRequest m"
  shows "slice (p_peers P) a p m"
proof -
  note n = node_relD [OF assms(6)] and inv = spec_reach_inv [OF assms(1,2)]
  note r = replicateTo_request [OF assms(7) n(3)]
  have rt: "rooted (s_log s)" using log_okD(1) [OF spec_invD(7) [OF inv, of i]] n(7) by simp
  have ld: "a_leader a t = Some i" "a_tlog a t = s_log s" "get0 (s_nextIndex s) p \<le> length (s_log s)"
    using n(10) r(2,3) assms(4) by (auto simp: leader_rel_def)
  have prev: "ae_PrevLogIndex m = (if get0 (s_nextIndex s) p < 1 then 1 else get0 (s_nextIndex s) p) - 1"
    using assms(7) unfolding replicateTo_def Let_def by (auto split: if_splits)
  have len: "length (s_log s) \<noteq> 0" "lastIndex (s_log s) = length (s_log s) - 1" using rootedD [OF rt] by simp_all
  have le: "ae_PrevLogIndex m \<le> lastIndex (s_log s)" using prev ld(3) len by (auto split: if_splits)
  let ?n = "ae_PrevLogIndex m + length (ae_Entries m)"
  have n1: "?n = length (s_log s) - 1" using r(8) [OF le] len by simp
  have es: "ae_Entries m = drop (Suc (ae_PrevLogIndex m)) (take (Suc ?n) (s_log s))"
  proof (rule nth_equalityI)
    show "length (ae_Entries m) = length (drop (Suc (ae_PrevLogIndex m)) (take (Suc ?n) (s_log s)))"
      using n1 len by simp
    fix k assume k: "k < length (ae_Entries m)"
    then have "entryAt (s_log s) (ae_PrevLogIndex m + k + 1) = Some (ae_Entries m ! k)" using r(10) by simp
    then show "ae_Entries m ! k = drop (Suc (ae_PrevLogIndex m)) (take (Suc ?n) (s_log s)) ! k"
      using k n1 len by (simp add: rooted_entryAt [OF rt] add.commute split: if_splits)
  qed
  have pt: "ent_Term (s_log s ! ae_PrevLogIndex m) = ae_PrevLogTerm m"
    using r(9) [OF le] by (auto simp: rooted_termAt [OF rt] split: if_splits)
  have last: "lastTerm (s_log s) = t" using tlog_facts(2) [OF spec_invD(1,2) [OF inv], of t] ld by simp
  have "ent_Term (s_log s ! ?n) = t" "?n < length (s_log s)" "s_commitIndex s \<le> ?n"
    using last rootedD(6) [OF rt] n1 len r(5,7) le by simp_all
  moreover have "committed (p_peers P) a (s_log s) (s_commitIndex s) t"
    using spec_invD(9) [OF inv, of i] n(7,8) last by simp
  ultimately show ?thesis
    unfolding slice_def Let_def r(1) ld(2) r(4,5) n(1)
    by (intro conjI assms(3-5) ld(1) es pt [symmetric])
qed

lemma heartbeat_beat:
  assumes "spec_reach (p_peers P) a" "distinct (p_peers P)" "i \<in> set (p_peers P)" "p \<in> set (p_peers P)" "p \<noteq> i"
    and "node_rel P a i s" "read_heartbeat rd s = Some m" "rd_me rd = i" "a_leader a (rd_term rd) = Some i"
  shows "beat (p_peers P) a p rd m"
proof -
  note n = node_relD [OF assms(6)] and inv = spec_reach_inv [OF assms(1,2)]
  have m: "m = \<lparr>ae_Term = rd_term rd, ae_LeaderID = rd_me rd, ae_PrevLogIndex = lastIndex (s_log s),
             ae_PrevLogTerm = lastTerm (s_log s), ae_Entries = [], ae_LeaderCommit = s_commitIndex s\<rparr>"
    using assms(7) by (auto simp: read_heartbeat_def split: if_splits)
  have lok: "log_ok a (s_log s)" using spec_invD(7) [OF inv, of i] n(7) by simp
  have "committed (p_peers P) a (s_log s) (s_commitIndex s) (lastTerm (s_log s))"
    using spec_invD(9) [OF inv, of i] n(7,8) by simp
  moreover have "length (s_log s) = Suc (lastIndex (s_log s))" using rootedD [OF log_okD(1) [OF lok]] by simp
  ultimately show ?thesis
    using m assms(3-5,8,9) lok server_invD(4) [OF n(3)] unfolding beat_def by auto
qed

end
