(* ===== verification/RaftSafety.thy ===== *)
theory RaftSafety
  imports RaftCluster
begin

text \<open>
  Safety of a cluster of src/raft servers: every event of \<open>RaftCluster\<close> is a sequence of steps of the
  protocol of \<open>RaftSpec\<close>, so what holds of the protocol holds of the servers.
\<close>

section \<open>Every event refines the protocol\<close>

lemma cluster_rel_fewer:
  assumes "cluster_rel P c a" "c_node c' = c_node c" "c_msgs c' = c_msgs c" "c_reads c' \<subseteq> c_reads c"
    "\<And>i t cp. c_campaign c' i t = Some cp \<Longrightarrow> c_campaign c i t = Some cp"
  shows "cluster_rel P c' a"
  using assms unfolding cluster_rel_def by (auto 0 3)

lemma sim_restart:
  assumes "spec_reach (p_peers P) a" "distinct (p_peers P)" "node_rel P a i s" "plain_spec a"
    and "state_fits (s_currentTerm s) (s_votedFor s) (s_log s)"
    and "Restore (p_ops P) env (boot P i (s_storage s)) = Some (None, s')"
  obtains a' where "moves (p_peers P) i a a'" "a_leader a' = a_leader a" "a_tlog a' = a_tlog a" "node_rel P a' i s'"
proof -
  note n = node_relD [OF assms(3)] and inv = spec_reach_inv [OF assms(1,2)]
  have lok: "log_ok a (s_log s)" using spec_invD(7) [OF inv, of i] n(7) by simp
  note r = Restore_recoverable [OF n(4,3) rootedD(3) [OF log_okD(1) [OF lok]] plain_spec_log [OF assms(4) lok] assms(5)
      n(5) boot_def assms(6)]
  let ?a' = "a\<lparr>a_commit := (a_commit a)(i := s_commitIndex s')\<rparr>"
  have mv: "moves (p_peers P) i a ?a'"
    by (rule movesI [OF assms(2) inv spec_step.forget]) (use r(9) n(8) in auto)
  have "node_rel P ?a' i s'"
    using r n by (simp add: node_rel_def local_inv_def state_rel_def leader_rel_def candidate_rel_def)
  then show thesis using mv by (intro that [of ?a']) auto
qed

lemma plain_spec_cong: "plain_spec a \<Longrightarrow> a_leader a' = a_leader a \<Longrightarrow> a_tlog a' = a_tlog a \<Longrightarrow> plain_spec a'"
  by (simp add: plain_spec_def)

lemma volatile_rel:
  "node_rel P a i s \<Longrightarrow> node_rel P a i (Start env s)"
  "node_rel P a i s \<Longrightarrow> node_rel P a i (Stop s)"
  "node_rel P a i s \<Longrightarrow> node_rel P a i (snd (broadcastAppendEntries env s))"
  by (erule node_rel_volatile; simp add: Start_def Stop_def broadcastAppendEntries_def Let_def)+

lemma new_campaign_rel:
  assumes "startElection env s = Some (el, s')" "s_id s = i" "s_peers s = peers" "i \<in> set peers"
    "a_vote a i (el_term el) = Some (i, l)"
  shows "campaign_rel peers a i (el_term el)
    \<lparr>cp_el = el, cp_waiting = (if wins_alone el then {} else set (asked el)), cp_checked = {}, cp_won = wins_alone el\<rparr>"
proof -
  note e = startElection_ok [OF assms(1)]
  have "el_needed el = majority peers" "el_votes el = card {i}" "i \<notin> set (asked el)"
    using e assms(2,3) by (simp_all add: asked_def)
  then show ?thesis
    using assms(4,5) unfolding campaign_rel_def
    by (auto simp: wins_alone_def intro!: exI [of _ "{i}"])
qed

lemma campaign_checked:
  assumes "campaign_rel peers a i t cp" "p \<in> cp_waiting cp" "p \<in> set peers" "b \<Longrightarrow> \<exists>l. a_vote a p t = Some (i, l)"
  shows "campaign_rel peers a i t (cp\<lparr>cp_waiting := cp_waiting cp - {p},
      cp_checked := (if b then insert p (cp_checked cp) else cp_checked cp)\<rparr>)"
proof -
  from assms(1) obtain C where C: "C \<subseteq> set peers" "i \<in> C" "C \<inter> (cp_waiting cp \<union> cp_checked cp) = {}"
    "el_votes (cp_el cp) = card C" "\<forall>v \<in> C \<union> cp_checked cp. \<exists>l. a_vote a v t = Some (i, l)"
    unfolding campaign_rel_def by blast
  then show ?thesis
    using assms unfolding campaign_rel_def
    by (auto intro!: exI [of _ C])
qed

lemma campaign_tally:
  assumes "campaign_rel peers a i t cp" "p \<in> cp_checked cp" "tally (cp_el cp) = (won, el)"
  shows "campaign_rel peers a i t (cp\<lparr>cp_el := el, cp_checked := cp_checked cp - {p}, cp_won := cp_won cp \<or> won\<rparr>)"
proof -
  from assms(1) obtain C where C: "C \<subseteq> set peers" "i \<in> C" "C \<inter> (cp_waiting cp \<union> cp_checked cp) = {}"
    "el_votes (cp_el cp) = card C" "\<forall>v \<in> C \<union> cp_checked cp. \<exists>l. a_vote a v t = Some (i, l)"
    unfolding campaign_rel_def by blast
  have sub: "cp_checked cp \<subseteq> set peers" "cp_waiting cp \<inter> cp_checked cp = {}"
    using assms(1) by (auto simp: campaign_rel_def)
  have "finite C" "p \<notin> C" using C(1,3) assms(2) finite_subset by auto
  then have card: "card (insert p C) = Suc (card C)" by simp
  have el: "el_votes el = Suc (card C)" "won \<Longrightarrow> el_needed (cp_el cp) \<le> Suc (card C)"
    "el_term el = el_term (cp_el cp)" "el_needed el = el_needed (cp_el cp)"
    using assms(3) C(4) by (auto simp: tally_def Let_def)
  show ?thesis
    unfolding campaign_rel_def
  proof (intro conjI)
    show "\<exists>C' \<subseteq> set peers. i \<in> C' \<and>
       C' \<inter> (cp_waiting (cp\<lparr>cp_el := el, cp_checked := cp_checked cp - {p}, cp_won := cp_won cp \<or> won\<rparr>) \<union>
         cp_checked (cp\<lparr>cp_el := el, cp_checked := cp_checked cp - {p}, cp_won := cp_won cp \<or> won\<rparr>)) = {} \<and>
       el_votes (cp_el (cp\<lparr>cp_el := el, cp_checked := cp_checked cp - {p}, cp_won := cp_won cp \<or> won\<rparr>)) = card C' \<and>
       (\<forall>v \<in> C' \<union> cp_checked (cp\<lparr>cp_el := el, cp_checked := cp_checked cp - {p}, cp_won := cp_won cp \<or> won\<rparr>).
          \<exists>l. a_vote a v t = Some (i, l))"
      using C sub assms(2) el(1) card by (intro exI [of _ "insert p C"]) auto
    show "cp_won (cp\<lparr>cp_el := el, cp_checked := cp_checked cp - {p}, cp_won := cp_won cp \<or> won\<rparr>) \<longrightarrow>
      (\<exists>R \<subseteq> set peers. majority peers \<le> card R \<and> (\<forall>v \<in> R. \<exists>l. a_vote a v t = Some (i, l)))"
    proof
      assume "cp_won (cp\<lparr>cp_el := el, cp_checked := cp_checked cp - {p}, cp_won := cp_won cp \<or> won\<rparr>)"
      then consider "cp_won cp" | "won" by auto
      then show "\<exists>R \<subseteq> set peers. majority peers \<le> card R \<and> (\<forall>v \<in> R. \<exists>l. a_vote a v t = Some (i, l))"
      proof cases
        case 1
        then show ?thesis using assms(1) by (auto simp: campaign_rel_def)
      next
        case 2
        then show ?thesis using C sub assms(1,2) el(2) card
          by (intro exI [of _ "insert p C"]) (auto simp: campaign_rel_def)
      qed
    qed
  qed (use assms(1) sub el in \<open>auto simp: campaign_rel_def\<close>)
qed

lemma msg_rel_slice_leader: "slice peers a p m \<Longrightarrow> ae_LeaderID m \<in> set peers"
  by (simp add: slice_def Let_def)

definition refined_by :: "'m Params \<Rightarrow> Spec \<Rightarrow> 'm Cluster \<Rightarrow> bool" where
  "refined_by P a c \<longleftrightarrow> (\<exists>a'. (spec_step (p_peers P))\<^sup>*\<^sup>* a a' \<and> extends a a' \<and> cluster_rel P c a')"

lemma refined_byI: "moves (p_peers P) i a a' \<Longrightarrow> cluster_rel P c a' \<Longrightarrow> refined_by P a c"
  unfolding refined_by_def moves_def local_to_def by blast

lemma refined_by_refl: "cluster_rel P c a \<Longrightarrow> refined_by P a c"
  by (rule refined_byI [OF moves_refl])

lemma refines_timers:
  assumes "cluster_rel P c a" "exec P ev c = Some c'" "ev = EvStart i env \<or> ev = EvStop i \<or> ev = EvBroadcast i env"
  shows "refined_by P a c'"
proof -
  from assms(2,3) have i: "i \<in> set (p_peers P)" by (auto split: if_splits)
  note n = cluster_relD(3) [OF assms(1) i] and pl = cluster_relD(2) [OF assms(1)]
  obtain s where "c' = put_node i s {} c" "node_rel P a i s"
    using assms(2,3) volatile_rel [OF n] by (auto split: if_splits)
  then show ?thesis
    by (auto intro!: refined_by_refl cluster_rel_put_node [OF assms(1) moves_refl pl])
qed

lemma refines_election:
  assumes "distinct (p_peers P)" "cluster_rel P c a" "exec P (EvElection i env) c = Some c'"
  shows "refined_by P a c'"
proof -
  note c = cluster_relD [OF assms(2)]
  from assms(3) obtain el s' where i: "i \<in> set (p_peers P)" and se: "startElection env (c_node c i) = Some (el, s')"
    and c': "c' = put_campaign i (el_term el)
       (Some \<lparr>cp_el = el, cp_waiting = (if wins_alone el then {} else set (asked el)), cp_checked = {}, cp_won = wins_alone el\<rparr>)
       (put_node i s' ((\<lambda>p. VoteReq p (el_args el)) ` (if wins_alone el then {} else set (asked el))) c)"
    by (auto simp: Let_def split: if_splits Option.bind_splits)
  note n = node_relD [OF c(3) [OF i]]
  obtain a' where a': "moves (p_peers P) i a a'" "a_leader a' = a_leader a" "a_tlog a' = a_tlog a" "node_rel P a' i s'"
    "a_vote a' i (el_term el) = Some (i, s_log (c_node c i))"
    using sim_startElection [OF c(1) assms(1) i c(3) [OF i] se] .
  from se have args: "el_args el = \<lparr>rv_Term = el_term el, rv_CandidateID = i,
      rv_LastLogIndex = lastIndex (s_log (c_node c i)), rv_LastLogTerm = lastTerm (s_log (c_node c i))\<rparr>"
    "set (asked el) \<subseteq> set (p_peers P) - {i}"
    using n(1,2) by (auto elim!: startElection_elim simp: asked_def)
  have "cluster_rel P (put_node i s' ((\<lambda>p. VoteReq p (el_args el)) ` (if wins_alone el then {} else set (asked el))) c) a'"
    by (rule cluster_rel_put_node [OF assms(2) a'(1) plain_spec_cong [OF c(2) a'(2,3)] a'(4)])
      (use args a'(5) i in \<open>auto split: if_splits\<close>)
  then have "cluster_rel P c' a'"
    unfolding c' by (rule cluster_rel_put_campaign [OF _ new_campaign_rel [OF se n(1,2) i a'(5)]])
  then show ?thesis by (rule refined_byI [OF a'(1)])
qed

lemma refines_votes:
  assumes "distinct (p_peers P)" "cluster_rel P c a" "exec P (EvRequestVote p v env) c = Some c'"
  shows "refined_by P a c'"
proof -
  note c = cluster_relD [OF assms(2)]
  from assms(3) obtain r s' where m: "VoteReq p v \<in> c_msgs c" and rv: "RequestVote env v (c_node c p) = Some (r, s')"
    and c': "c' = put_node p s' {VoteResp p v r} c"
    by (auto split: if_splits Option.bind_splits)
  have p: "p \<in> set (p_peers P)" using c(4) [OF m] by simp
  obtain a' where a': "moves (p_peers P) p a a'" "a_leader a' = a_leader a" "a_tlog a' = a_tlog a" "node_rel P a' p s'"
    "msg_rel (p_peers P) a' (VoteResp p v r)"
    using sim_RequestVote [OF c(1) assms(1) c(3) [OF p] c(4) [OF m] rv] .
  have "cluster_rel P c' a'"
    unfolding c' by (rule cluster_rel_put_node [OF assms(2) a'(1) plain_spec_cong [OF c(2) a'(2,3)] a'(4)]) (use a'(5) in auto)
  then show ?thesis by (rule refined_byI [OF a'(1)])
qed

lemma refines_vote_reply:
  assumes "distinct (p_peers P)" "cluster_rel P c a" "exec P (EvVoteReply p v r env) c = Some c'"
  shows "refined_by P a c'"
proof -
  note c = cluster_relD [OF assms(2)]
  let ?i = "rv_CandidateID v"
  from assms(3) obtain cp b s' where m: "VoteResp p v r \<in> c_msgs c" and cp: "c_campaign c ?i (rv_Term v) = Some cp"
    and w: "p \<in> cp_waiting cp" and vr: "vote_reply env (cp_el cp) r (c_node c ?i) = Some (b, s')"
    and c': "c' = put_campaign ?i (rv_Term v) (Some (cp\<lparr>cp_waiting := cp_waiting cp - {p},
        cp_checked := (if b then insert p (cp_checked cp) else cp_checked cp)\<rparr>)) (put_node ?i s' {} c)"
    by (auto simp: Let_def split: if_splits Option.bind_splits)
  have i: "?i \<in> set (p_peers P)" "p \<in> set (p_peers P)" using c(4) [OF m] by simp_all
  obtain a' where a': "moves (p_peers P) ?i a a'" "a_leader a' = a_leader a" "a_tlog a' = a_tlog a" "node_rel P a' ?i s'"
    "b \<longrightarrow> rvr_VoteGranted r"
    using sim_vote_reply [OF c(1) assms(1) c(3) [OF i(1)] vr] .
  have ext: "extends a a'" using a'(1) by (simp add: moves_def local_to_def)
  have rel: "cluster_rel P (put_node ?i s' {} c) a'"
    by (rule cluster_rel_put_node [OF assms(2) a'(1) plain_spec_cong [OF c(2) a'(2,3)] a'(4)]) simp
  have "\<exists>l. a_vote a' p (rv_Term v) = Some (?i, l)" if b
    using c(4) [OF m] mp [OF a'(5) that] extendsD(2) [OF ext] by auto
  then have "cluster_rel P c' a'"
    unfolding c'
    by (intro cluster_rel_put_campaign [OF rel] campaign_checked [OF campaign_rel_extends [OF ext c(5) [OF cp]] w i(2)])
  then show ?thesis by (rule refined_byI [OF a'(1)])
qed

lemma refines_tally:
  assumes "cluster_rel P c a" "exec P (EvTally i t p) c = Some c'"
  shows "refined_by P a c'"
proof -
  note c = cluster_relD [OF assms(1)]
  from assms(2) obtain cp won el where cp: "c_campaign c i t = Some cp" "p \<in> cp_checked cp" "tally (cp_el cp) = (won, el)"
    and c': "c' = put_campaign i t (Some (cp\<lparr>cp_el := el, cp_checked := cp_checked cp - {p}, cp_won := cp_won cp \<or> won\<rparr>)) c"
    by (auto simp: Let_def split: if_splits Option.bind_splits prod.splits)
  show ?thesis
    unfolding c'
    by (intro refined_by_refl cluster_rel_put_campaign [OF assms(1)] campaign_tally [OF c(5) [OF cp(1)] cp(2,3)])
qed

lemma refines_promotion:
  assumes "distinct (p_peers P)" "cluster_rel P c a" "exec P (EvBecomeLeader i t env) c = Some c'"
  shows "refined_by P a c'"
proof -
  note c = cluster_relD [OF assms(2)]
  from assms(3) obtain cp b s' where cp: "c_campaign c i t = Some cp" "cp_won cp"
    and bl: "becomeLeader (p_ops P) env t (c_node c i) = Some (b, s')"
    and c': "c' = put_campaign i t (Some (cp\<lparr>cp_won := False\<rparr>)) (put_node i s' {} c)"
    by (auto split: if_splits Option.bind_splits)
  have cr: "campaign_rel (p_peers P) a i t cp" by (rule c(5) [OF cp(1)])
  then obtain R where i: "i \<in> set (p_peers P)" and R: "R \<subseteq> set (p_peers P)" "majority (p_peers P) \<le> card R"
    "\<forall>v \<in> R. \<exists>l. a_vote a v t = Some (i, l)"
    using cp(2) unfolding campaign_rel_def by blast
  obtain a' where a': "moves (p_peers P) i a a'" "plain_spec a'" "node_rel P a' i s'"
    using sim_becomeLeader [OF c(1) assms(1) i c(3) [OF i] c(2) R bl] .
  have ext: "extends a a'" using a'(1) by (simp add: moves_def local_to_def)
  have rel: "cluster_rel P (put_node i s' {} c) a'" by (rule cluster_rel_put_node [OF assms(2) a']) simp
  have "campaign_rel (p_peers P) a' i t (cp\<lparr>cp_won := False\<rparr>)"
    using campaign_rel_extends [OF ext cr] by (simp add: campaign_rel_def)
  then have "cluster_rel P c' a'" unfolding c' by (rule cluster_rel_put_campaign [OF rel])
  then show ?thesis by (rule refined_byI [OF a'(1)])
qed

lemma refines_replicate:
  assumes "distinct (p_peers P)" "cluster_rel P c a" "exec P (EvReplicate i p t) c = Some c'"
  shows "refined_by P a c'"
proof -
  note c = cluster_relD [OF assms(2)]
  from assms(3) obtain m where i: "i \<in> set (p_peers P)" "p \<in> set (p_peers P)" "p \<noteq> i"
    and m: "replicateTo p t (c_node c i) = AppendRequest m" and c': "c' = c\<lparr>c_msgs := insert (AppReq p m) (c_msgs c)\<rparr>"
    by (auto split: if_splits Request.splits)
  show ?thesis
    unfolding c'
    using replicate_slice [OF c(1) assms(1) i c(3) [OF i(1)] m]
    by (intro refined_by_refl cluster_rel_put_msg [OF assms(2)]) simp
qed

lemma refines_append:
  assumes "distinct (p_peers P)" "cluster_rel P c a" "exec P (EvAppendEntries p m env) c = Some c'"
  shows "refined_by P a c'"
proof -
  note c = cluster_relD [OF assms(2)]
  from assms(3) obtain r s' where m: "AppReq p m \<in> c_msgs c"
    and ae: "AppendEntries (p_ops P) env m (c_node c p) = Some (r, s')" and c': "c' = put_node p s' {AppResp p m r} c"
    by (auto split: if_splits Option.bind_splits)
  have sl: "slice (p_peers P) a p m" using c(4) [OF m] by simp
  then have p: "p \<in> set (p_peers P)" by (simp add: slice_def Let_def)
  obtain a' where a': "moves (p_peers P) p a a'" "a_leader a' = a_leader a" "a_tlog a' = a_tlog a" "node_rel P a' p s'"
    "msg_rel (p_peers P) a' (AppResp p m r)"
    using sim_append [OF c(1) assms(1) c(3) [OF p] c(2) sl ae] .
  have "cluster_rel P c' a'"
    unfolding c' by (rule cluster_rel_put_node [OF assms(2) a'(1) plain_spec_cong [OF c(2) a'(2,3)] a'(4)]) (use a'(5) in auto)
  then show ?thesis by (rule refined_byI [OF a'(1)])
qed

lemma refines_append_reply:
  assumes "distinct (p_peers P)" "cluster_rel P c a" "exec P (EvAppendReply p m r env) c = Some c'"
  shows "refined_by P a c'"
proof -
  note c = cluster_relD [OF assms(2)]
  let ?i = "ae_LeaderID m"
  from assms(3) obtain s' where m: "AppResp p m r \<in> c_msgs c"
    and rr: "replicate_reply (p_ops P) env p m r (c_node c ?i) = Some s'" and c': "c' = put_node ?i s' {} c"
    by (auto split: if_splits Option.bind_splits)
  have i: "?i \<in> set (p_peers P)" using c(4) [OF m] msg_rel_slice_leader by auto
  obtain a' where a': "moves (p_peers P) ?i a a'" "a_leader a' = a_leader a" "a_tlog a' = a_tlog a" "node_rel P a' ?i s'"
    using sim_replicate_reply [OF c(1) assms(1) c(3) [OF i] c(4) [OF m] rr] .
  have "cluster_rel P c' a'"
    unfolding c' by (rule cluster_rel_put_node [OF assms(2) a'(1) plain_spec_cong [OF c(2) a'(2,3)] a'(4)]) simp
  then show ?thesis by (rule refined_byI [OF a'(1)])
qed

lemma refines_submit:
  assumes "distinct (p_peers P)" "cluster_rel P c a" "exec P (EvSubmit i cmd env) c = Some c'"
  shows "refined_by P a c'"
proof -
  note c = cluster_relD [OF assms(2)]
  from assms(3) obtain x s' where i: "i \<in> set (p_peers P)" "\<not> isConfigEntry cmd" "cmd \<noteq> Some []"
    and sb: "Submit (p_ops P) env cmd (c_node c i) = Some (x, s')" and c': "c' = put_node i s' {} c"
    by (auto split: if_splits Option.bind_splits)
  obtain a' where a': "moves (p_peers P) i a a'" "plain_spec a'" "node_rel P a' i s'"
    using sim_Submit [OF c(1) assms(1) i(1) c(3) [OF i(1)] c(2) i(2,3) sb] .
  have "cluster_rel P c' a'" unfolding c' by (rule cluster_rel_put_node [OF assms(2) a']) simp
  then show ?thesis by (rule refined_byI [OF a'(1)])
qed

lemma refines_read_index:
  assumes "cluster_rel P c a" "exec P (EvReadIndex i) c = Some c'"
  shows "refined_by P a c'"
proof -
  note c = cluster_relD [OF assms(1)]
  from assms(2) obtain rd where i: "i \<in> set (p_peers P)" and rd: "ReadIndex (c_node c i) = Inr rd"
    and c': "c' = c\<lparr>c_reads := insert (i, rd) (c_reads c)\<rparr>"
    by (auto split: if_splits sum.splits)
  note n = node_relD [OF c(3) [OF i]]
  have "rd_me rd = i" "rd_peers rd = p_peers P" "a_leader a (rd_term rd) = Some i"
    using rd n(1,2,10) by (auto simp: ReadIndex_def leader_rel_def split: if_splits)
  then show ?thesis using assms(1) i unfolding c' by (auto intro!: refined_by_refl simp: cluster_rel_def)
qed

lemma refines_heartbeat:
  assumes "distinct (p_peers P)" "cluster_rel P c a" "exec P (EvReadHeartbeat i rd p) c = Some c'"
  shows "refined_by P a c'"
proof -
  note c = cluster_relD [OF assms(2)]
  from assms(3) obtain m where r: "(i, rd) \<in> c_reads c" "p \<in> set (rd_peers rd)" "p \<noteq> i"
    and m: "read_heartbeat rd (c_node c i) = Some m" and c': "c' = c\<lparr>c_msgs := insert (ReadReq p rd m) (c_msgs c)\<rparr>"
    by (auto split: if_splits Option.bind_splits)
  have i: "i \<in> set (p_peers P)" "rd_me rd = i" "p \<in> set (p_peers P)" "a_leader a (rd_term rd) = Some i"
    using c(6) [OF r(1)] r(2) by auto
  show ?thesis
    unfolding c'
    using heartbeat_beat [OF c(1) assms(1) i(1,3) r(3) c(3) [OF i(1)] m i(2,4)]
    by (intro refined_by_refl cluster_rel_put_msg [OF assms(2)]) simp
qed

lemma refines_read_append:
  assumes "distinct (p_peers P)" "cluster_rel P c a" "exec P (EvReadAppend p rd m env) c = Some c'"
  shows "refined_by P a c'"
proof -
  note c = cluster_relD [OF assms(2)]
  from assms(3) obtain r s' where m: "ReadReq p rd m \<in> c_msgs c"
    and ae: "AppendEntries (p_ops P) env m (c_node c p) = Some (r, s')" and c': "c' = put_node p s' {ReadResp p rd m r} c"
    by (auto split: if_splits Option.bind_splits)
  have b: "beat (p_peers P) a p rd m" using c(4) [OF m] by simp
  then have p: "p \<in> set (p_peers P)" "rd_me rd \<in> set (p_peers P)" by (simp_all add: beat_def)
  obtain a' where a': "moves (p_peers P) p a a'" "a_leader a' = a_leader a" "a_tlog a' = a_tlog a" "node_rel P a' p s'"
    using sim_beat [OF c(1) assms(1) c(3) [OF p(1)] c(2) b ae] .
  have "cluster_rel P c' a'"
    unfolding c' by (rule cluster_rel_put_node [OF assms(2) a'(1) plain_spec_cong [OF c(2) a'(2,3)] a'(4)]) (use p in auto)
  then show ?thesis by (rule refined_byI [OF a'(1)])
qed

lemma refines_read_reply:
  assumes "distinct (p_peers P)" "cluster_rel P c a" "exec P (EvReadReply p rd m r env) c = Some c'"
  shows "refined_by P a c'"
proof -
  note c = cluster_relD [OF assms(2)]
  from assms(3) obtain b s' where m: "ReadResp p rd m r \<in> c_msgs c"
    and rr: "read_reply env rd r (c_node c (rd_me rd)) = Some (b, s')" and c': "c' = put_node (rd_me rd) s' {} c"
    by (auto split: if_splits Option.bind_splits)
  have i: "rd_me rd \<in> set (p_peers P)" using c(4) [OF m] by simp
  obtain a' where a': "moves (p_peers P) (rd_me rd) a a'" "a_leader a' = a_leader a" "a_tlog a' = a_tlog a"
    "node_rel P a' (rd_me rd) s'"
    using sim_read_reply [OF c(1) assms(1) c(3) [OF i] rr] .
  have "cluster_rel P c' a'"
    unfolding c' by (rule cluster_rel_put_node [OF assms(2) a'(1) plain_spec_cong [OF c(2) a'(2,3)] a'(4)]) simp
  then show ?thesis by (rule refined_byI [OF a'(1)])
qed

lemma refines_restart:
  assumes "distinct (p_peers P)" "cluster_rel P c a" "exec P (EvRestart i env) c = Some c'"
  shows "refined_by P a c'"
proof -
  note c = cluster_relD [OF assms(2)]
  let ?s = "c_node c i"
  from assms(3) obtain s' where i: "i \<in> set (p_peers P)" and f: "state_fits (s_currentTerm ?s) (s_votedFor ?s) (s_log ?s)"
    and rs: "Restore (p_ops P) env (boot P i (s_storage ?s)) = Some (None, s')"
    and c': "c' = c\<lparr>c_node := (c_node c)(i := s'), c_campaign := (c_campaign c)(i := (\<lambda>_. None)),
                  c_reads := {(j, rd) \<in> c_reads c. j \<noteq> i}\<rparr>"
    by (auto simp: Let_def split: if_splits Option.bind_splits)
  obtain a' where a': "moves (p_peers P) i a a'" "a_leader a' = a_leader a" "a_tlog a' = a_tlog a" "node_rel P a' i s'"
    using sim_restart [OF c(1) assms(1) c(3) [OF i] c(2) f rs] .
  have "cluster_rel P (put_node i s' {} c) a'"
    by (rule cluster_rel_put_node [OF assms(2) a'(1) plain_spec_cong [OF c(2) a'(2,3)] a'(4)]) simp
  then have "cluster_rel P c' a'"
    unfolding c' by (rule cluster_rel_fewer) (auto simp: put_node_def split: if_splits)
  then show ?thesis by (rule refined_byI [OF a'(1)])
qed

lemma exec_refines:
  assumes "distinct (p_peers P)" "cluster_rel P c a" "exec P ev c = Some c'"
  shows "refined_by P a c'"
proof (cases ev)
  case (EvElection i env)
  show ?thesis by (rule refines_election [OF assms(1,2) assms(3) [unfolded EvElection]])
next
  case (EvRequestVote p v env)
  show ?thesis by (rule refines_votes [OF assms(1,2) assms(3) [unfolded EvRequestVote]])
next
  case (EvVoteReply p v r env)
  show ?thesis by (rule refines_vote_reply [OF assms(1,2) assms(3) [unfolded EvVoteReply]])
next
  case (EvTally i t p)
  show ?thesis by (rule refines_tally [OF assms(2) assms(3) [unfolded EvTally]])
next
  case (EvBecomeLeader i t env)
  show ?thesis by (rule refines_promotion [OF assms(1,2) assms(3) [unfolded EvBecomeLeader]])
next
  case (EvReplicate i p t)
  show ?thesis by (rule refines_replicate [OF assms(1,2) assms(3) [unfolded EvReplicate]])
next
  case (EvAppendEntries p m env)
  show ?thesis by (rule refines_append [OF assms(1,2) assms(3) [unfolded EvAppendEntries]])
next
  case (EvAppendReply p m r env)
  show ?thesis by (rule refines_append_reply [OF assms(1,2) assms(3) [unfolded EvAppendReply]])
next
  case (EvSubmit i cmd env)
  show ?thesis by (rule refines_submit [OF assms(1,2) assms(3) [unfolded EvSubmit]])
next
  case (EvReadIndex i)
  show ?thesis by (rule refines_read_index [OF assms(2) assms(3) [unfolded EvReadIndex]])
next
  case (EvReadHeartbeat i rd p)
  show ?thesis by (rule refines_heartbeat [OF assms(1,2) assms(3) [unfolded EvReadHeartbeat]])
next
  case (EvReadAppend p rd m env)
  show ?thesis by (rule refines_read_append [OF assms(1,2) assms(3) [unfolded EvReadAppend]])
next
  case (EvReadReply p rd m r env)
  show ?thesis by (rule refines_read_reply [OF assms(1,2) assms(3) [unfolded EvReadReply]])
next
  case (EvRestart i env)
  show ?thesis by (rule refines_restart [OF assms(1,2) assms(3) [unfolded EvRestart]])
qed (rule refines_timers [OF assms(2,3)], simp)+

section \<open>Runs\<close>

definition new_store :: "Store \<Rightarrow> bool" where
  "new_store st \<longleftrightarrow> st_saved st = [] \<and> st_applied st \<in> {None, Some 0} \<and> st_snapshot st \<in> {None, Some None}"

lemma cluster_rel_init:
  assumes "new_store (p_store P)" shows "cluster_rel P (cluster_init P) spec_init"
proof -
  have "node_rel P spec_init i (boot P i (Some (p_store P)))" for i
    using assms
    by (auto simp: node_rel_def local_inv_def state_rel_def leader_rel_def candidate_rel_def boot_def SetStorage_def
        NewServerWith_def spec_init_def server_inv_def recoverable_def blank_def new_store_def marker_def
        baseIndex_def lastIndex_def sentinel_def)
  then show ?thesis
    by (simp add: cluster_rel_def cluster_init_def spec_reach.init) (simp add: spec_init_def)
qed

fun run :: "'m Params \<Rightarrow> Event list \<Rightarrow> 'm Cluster \<Rightarrow> 'm Cluster option" where
  "run P [] c = Some c"
| "run P (ev # evs) c = do { c \<leftarrow> exec P ev c; run P evs c }"

lemma run_refines:
  assumes "distinct (p_peers P)" "cluster_rel P c a" "run P evs c = Some c'"
  obtains a' where "(spec_step (p_peers P))\<^sup>*\<^sup>* a a'" "extends a a'" "cluster_rel P c' a'"
  using assms(2,3)
proof (induction evs arbitrary: c a thesis)
  case Nil
  then show ?case by (metis extends_refl option.inject rtranclp.rtrancl_refl run.simps(1))
next
  case (Cons ev evs)
  from Cons.prems(3) obtain c1 where c1: "exec P ev c = Some c1" "run P evs c1 = Some c'"
    by (auto split: Option.bind_splits)
  obtain a1 where a1: "(spec_step (p_peers P))\<^sup>*\<^sup>* a a1" "extends a a1" "cluster_rel P c1 a1"
    using exec_refines [OF assms(1) Cons.prems(2) c1(1)] unfolding refined_by_def by blast
  obtain a' where "(spec_step (p_peers P))\<^sup>*\<^sup>* a1 a'" "extends a1 a'" "cluster_rel P c' a'"
    using Cons.IH [OF _ a1(3) c1(2)] by blast
  then show ?case using Cons.prems(1) a1 extends_trans rtranclp_trans by metis
qed

section \<open>What related states agree on\<close>

lemma run_init:
  assumes "distinct (p_peers P)" "new_store (p_store P)" "run P evs (cluster_init P) = Some c"
  obtains a where "cluster_rel P c a" "spec_inv (p_peers P) a"
proof -
  obtain a where "cluster_rel P c a"
    using run_refines [OF assms(1) cluster_rel_init [OF assms(2)] assms(3)] .
  then show thesis using that spec_reach_inv [OF cluster_relD(1) assms(1)] by blast
qed

lemma commit_related:
  assumes "cluster_rel P c a" "spec_inv (p_peers P) a" "i \<in> set (p_peers P)" "k \<le> s_commitIndex (c_node c i)"
  shows "committed (p_peers P) a (s_log (c_node c i)) k (lastTerm (s_log (c_node c i)))" "rooted (s_log (c_node c i))"
    "k < length (s_log (c_node c i))" "lastTerm (s_log (c_node c i)) \<le> s_currentTerm (c_node c i)"
proof -
  note n = node_relD [OF cluster_relD(3) [OF assms(1,3)]]
  show "committed (p_peers P) a (s_log (c_node c i)) k (lastTerm (s_log (c_node c i)))"
    using committed_le [OF spec_invD(9) [OF assms(2), of i]] n(7,8) assms(4) by simp
  show rt: "rooted (s_log (c_node c i))" using log_okD(1) [OF spec_invD(7) [OF assms(2), of i]] n(7) by simp
  show "k < length (s_log (c_node c i))"
    using server_invD(4) [OF n(3)] assms(4) rootedD(2,5) [OF rt] by (cases "s_log (c_node c i)") auto
  show "lastTerm (s_log (c_node c i)) \<le> s_currentTerm (c_node c i)" using spec_invD(8) [OF assms(2), of i] n(6,7) by simp
qed

lemma same_entry:
  assumes "rooted l" "rooted l'" "k < length l" "k < length l'" "k = 0 \<or> agree l l' k"
  shows "entryAt l k = entryAt l' k \<and> entryAt l k \<noteq> None"
  using assms rootedD(4) agree_nth [of l l' k k] by (auto simp: rooted_entryAt)

section \<open>A run\<close>

text \<open>Three servers: \<^verbatim>\<open>a\<close> is elected with the vote of \<^verbatim>\<open>b\<close>, replicates its no-op and a command to \<^verbatim>\<open>b\<close> and commits
  both; then it crashes and restarts from its disk, and \<^verbatim>\<open>b\<close> learns of the commit from a late message.\<close>

definition trio :: "nat Params" where
  "trio = \<lparr>p_peers = [''a'', ''b'', ''c''], p_ops = counter_ops, p_machine = 0, p_cfg = DefaultConfig,
     p_store = \<lparr>st_saved = [], st_applied = Some 0, st_snapshot = None\<rparr>\<rparr>"

definition ballot :: RequestVoteArgs where
  "ballot = \<lparr>rv_Term = 1, rv_CandidateID = ''a'', rv_LastLogIndex = 0, rv_LastLogTerm = 0\<rparr>"

definition entry :: "Index \<Rightarrow> bytes option \<Rightarrow> LogEntry" where
  "entry i cmd = \<lparr>ent_Term = 1, ent_Index = i, ent_Command = cmd\<rparr>"

definition append_of :: "Index \<Rightarrow> Term \<Rightarrow> LogEntry list \<Rightarrow> Index \<Rightarrow> AppendEntriesArgs" where
  "append_of prev t es n = \<lparr>ae_Term = 1, ae_LeaderID = ''a'', ae_PrevLogIndex = prev, ae_PrevLogTerm = t,
     ae_Entries = es, ae_LeaderCommit = n\<rparr>"

definition send :: "AppendEntriesArgs \<Rightarrow> Event list" where
  "send m = [EvReplicate ''a'' ''b'' 1, EvAppendEntries ''b'' m calm,
     EvAppendReply ''b'' m \<lparr>aer_Term = 1, aer_Success = True\<rparr> calm]"

definition commits_two :: "Event list" where
  "commits_two =
     [EvElection ''a'' calm, EvRequestVote ''b'' ballot calm,
      EvVoteReply ''b'' ballot \<lparr>rvr_Term = 1, rvr_VoteGranted = True\<rparr> calm, EvTally ''a'' 1 ''b'', EvBecomeLeader ''a'' 1 calm]
     @ send (append_of 0 0 [entry 1 None] 0) @ [EvSubmit ''a'' (Some [5, 6]) calm]
     @ send (append_of 1 1 [entry 2 (Some [5, 6])] 1)"

definition crash_and_catch_up :: "Event list" where
  "crash_and_catch_up =
     [EvReplicate ''a'' ''b'' 1, EvRestart ''a'' no_load_errors, EvAppendEntries ''b'' (append_of 2 1 [] 2) calm]"

lemma trio_ok: "distinct (p_peers trio)" "new_store (p_store trio)" "''a'' \<in> set (p_peers trio)" "''b'' \<in> set (p_peers trio)"
  by (simp_all add: trio_def new_store_def)

lemma commits_two_run:
  obtains c where "run trio commits_two (cluster_init trio) = Some c"
    "s_role (c_node c ''a'') = Leader" "s_currentTerm (c_node c ''a'') = 1" "s_commitIndex (c_node c ''a'') = 2"
    "s_commitIndex (c_node c ''b'') = 1" "s_currentTerm (c_node c ''b'') = 1"
proof -
  have "case run trio commits_two (cluster_init trio) of None \<Rightarrow> False
    | Some c \<Rightarrow> s_role (c_node c ''a'') = Leader \<and> s_currentTerm (c_node c ''a'') = 1 \<and> s_commitIndex (c_node c ''a'') = 2
       \<and> s_commitIndex (c_node c ''b'') = 1 \<and> s_currentTerm (c_node c ''b'') = 1"
    by code_simp
  then show thesis using that by (auto split: option.splits)
qed

lemma catch_up_run:
  obtains c where "run trio (commits_two @ crash_and_catch_up) (cluster_init trio) = Some c"
    "s_role (c_node c ''a'') = Follower" "s_lastApplied (c_node c ''a'') = 2" "s_sm (c_node c ''a'') = Some 2"
    "s_lastApplied (c_node c ''b'') = 2" "s_commitIndex (c_node c ''b'') = 2"
proof -
  have "case run trio (commits_two @ crash_and_catch_up) (cluster_init trio) of None \<Rightarrow> False
    | Some c \<Rightarrow> s_role (c_node c ''a'') = Follower \<and> s_lastApplied (c_node c ''a'') = 2 \<and> s_sm (c_node c ''a'') = Some 2
       \<and> s_lastApplied (c_node c ''b'') = 2 \<and> s_commitIndex (c_node c ''b'') = 2"
    by code_simp
  then show thesis using that by (auto split: option.splits)
qed

lemma run_append: "run P (xs @ ys) c = do { c \<leftarrow> run P xs c; run P ys c }"
  by (induction xs arbitrary: c) (auto split: Option.bind_splits)

section \<open>Safety\<close>

text \<open>C1: Election Safety: whatever messages are lost, delayed, repeated or reordered and whichever servers crash
  and restart from their disks, no two servers lead in the same term.\<close>

theorem cluster_election_safety:
  assumes "distinct (p_peers P)" "new_store (p_store P)" "run P evs (cluster_init P) = Some c"
    and "i \<in> set (p_peers P)" "j \<in> set (p_peers P)"
    and "s_role (c_node c i) = Leader" "s_role (c_node c j) = Leader"
    and "s_currentTerm (c_node c i) = s_currentTerm (c_node c j)"
  shows "i = j"
proof -
  obtain a where a: "cluster_rel P c a" using run_init [OF assms(1-3)] by blast
  then show ?thesis
    using node_relD(10) [OF cluster_relD(3) [OF a assms(4)]] node_relD(10) [OF cluster_relD(3) [OF a assms(5)]] assms(6-8)
    by (simp add: leader_rel_def)
qed

theorem cluster_election_safety_witness:
  "\<exists>c. run trio commits_two (cluster_init trio) = Some c \<and>
     \<not> (s_role (c_node c ''b'') = Leader \<and> s_currentTerm (c_node c ''b'') = 1) \<and>
     \<not> (s_role (c_node c ''c'') = Leader \<and> s_currentTerm (c_node c ''c'') = 1)"
proof -
  obtain c where c: "run trio commits_two (cluster_init trio) = Some c"
    "s_role (c_node c ''a'') = Leader" "s_currentTerm (c_node c ''a'') = 1"
    using commits_two_run by blast
  have "''a'' = j" if "j \<in> {''b'', ''c''}" "s_role (c_node c j) = Leader" "s_currentTerm (c_node c j) = 1" for j
    by (rule cluster_election_safety [OF trio_ok(1,2) c(1) trio_ok(3)]) (use that c in \<open>auto simp: trio_def\<close>)
  then show ?thesis using c(1) by auto
qed

text \<open>C2: State Machine Safety over time: an entry that any server has committed at any point of a run is the
  entry every server has at that index when it commits that far, then or later, across crashes, restarts
  and changes of leader.\<close>

theorem committed_entries_permanent:
  assumes "distinct (p_peers P)" "new_store (p_store P)" "run P evs (cluster_init P) = Some c" "run P evs' c = Some c'"
    and "i \<in> set (p_peers P)" "j \<in> set (p_peers P)"
    and "k \<le> s_commitIndex (c_node c i)" "k \<le> s_commitIndex (c_node c' j)"
  shows "entryAt (s_log (c_node c i)) k = entryAt (s_log (c_node c' j)) k \<and> entryAt (s_log (c_node c i)) k \<noteq> None"
proof -
  obtain a where a: "cluster_rel P c a" "spec_inv (p_peers P) a" using run_init [OF assms(1-3)] .
  obtain a' where a': "(spec_step (p_peers P))\<^sup>*\<^sup>* a a'" "extends a a'" "cluster_rel P c' a'"
    using run_refines [OF assms(1) a(1) assms(4)] .
  have inv': "spec_inv (p_peers P) a'" using spec_reach_inv [OF cluster_relD(1) [OF a'(3)] assms(1)] .
  note i = commit_related [OF a assms(5,7)] and j = commit_related [OF a'(3) inv' assms(6,8)]
  show ?thesis
    using committed_logs_agree [OF assms(1) inv' committed_extends [OF a'(2) i(1)] j(1)]
    by (intro same_entry i(2,3) j(2,3)) auto
qed

theorem committed_entries_permanent_witness:
  "\<exists>c c'. run trio commits_two (cluster_init trio) = Some c \<and> run trio crash_and_catch_up c = Some c'
     \<and> entryAt (s_log (c_node c ''a'')) 2 = entryAt (s_log (c_node c' ''b'')) 2 \<and> entryAt (s_log (c_node c ''a'')) 2 \<noteq> None"
proof -
  obtain c where c: "run trio commits_two (cluster_init trio) = Some c" "s_commitIndex (c_node c ''a'') = 2"
    using commits_two_run by blast
  obtain c' where "run trio (commits_two @ crash_and_catch_up) (cluster_init trio) = Some c'"
    and b: "s_commitIndex (c_node c' ''b'') = 2"
    using catch_up_run by blast
  then have c': "run trio crash_and_catch_up c = Some c'" using c(1) by (simp add: run_append)
  have "entryAt (s_log (c_node c ''a'')) 2 = entryAt (s_log (c_node c' ''b'')) 2 \<and> entryAt (s_log (c_node c ''a'')) 2 \<noteq> None"
    by (rule committed_entries_permanent [OF trio_ok(1,2) c(1) c' trio_ok(3,4)]) (simp_all add: c(2) b)
  then show ?thesis using c(1) c' by blast
qed

text \<open>C3: Leader Completeness: a leader's log has every entry committed so far by a server whose term had not
  passed the leader's.\<close>

theorem leader_has_committed:
  assumes "distinct (p_peers P)" "new_store (p_store P)" "run P evs (cluster_init P) = Some c" "run P evs' c = Some c'"
    and "i \<in> set (p_peers P)" "j \<in> set (p_peers P)"
    and "k \<le> s_commitIndex (c_node c i)" "s_role (c_node c' j) = Leader"
    and "s_currentTerm (c_node c i) \<le> s_currentTerm (c_node c' j)"
  shows "entryAt (s_log (c_node c i)) k = entryAt (s_log (c_node c' j)) k \<and> entryAt (s_log (c_node c i)) k \<noteq> None"
proof -
  obtain a where a: "cluster_rel P c a" "spec_inv (p_peers P) a" using run_init [OF assms(1-3)] .
  obtain a' where a': "(spec_step (p_peers P))\<^sup>*\<^sup>* a a'" "extends a a'" "cluster_rel P c' a'"
    using run_refines [OF assms(1) a(1) assms(4)] .
  have inv': "spec_inv (p_peers P) a'" using spec_reach_inv [OF cluster_relD(1) [OF a'(3)] assms(1)] .
  note i = commit_related [OF a assms(5,7)] and j = commit_related [OF a'(3) inv' assms(6) le0]
  have ld: "a_leader a' (s_currentTerm (c_node c' j)) \<noteq> None" "a_tlog a' (s_currentTerm (c_node c' j)) = s_log (c_node c' j)"
    using node_relD(10) [OF cluster_relD(3) [OF a'(3) assms(6)]] assms(8) by (auto simp: leader_rel_def)
  have "k = 0 \<or> agree (s_log (c_node c i)) (s_log (c_node c' j)) k"
    using committed_in_leader [OF assms(1) inv' committed_extends [OF a'(2) i(1)] _ ld(1)] i(4) assms(9) ld(2) by simp
  then show ?thesis using i(2,3) j(2,3) by (intro same_entry) (auto simp: agree_def)
qed

theorem leader_has_committed_witness:
  "\<exists>c. run trio commits_two (cluster_init trio) = Some c
     \<and> entryAt (s_log (c_node c ''b'')) 1 = entryAt (s_log (c_node c ''a'')) 1 \<and> entryAt (s_log (c_node c ''b'')) 1 \<noteq> None"
proof -
  obtain c where c: "run trio commits_two (cluster_init trio) = Some c" "s_role (c_node c ''a'') = Leader"
    "s_currentTerm (c_node c ''a'') = 1" "s_commitIndex (c_node c ''b'') = 1" "s_currentTerm (c_node c ''b'') = 1"
    using commits_two_run by blast
  have "entryAt (s_log (c_node c ''b'')) 1 = entryAt (s_log (c_node c ''a'')) 1 \<and> entryAt (s_log (c_node c ''b'')) 1 \<noteq> None"
    by (rule leader_has_committed [OF trio_ok(1,2) c(1) _ trio_ok(4,3), of "[]"]) (simp_all add: c)
  then show ?thesis using c(1) by blast
qed

text \<open>C4: replicas that have applied equally much run the same state machine.\<close>

theorem replicas_run_the_same_machine:
  assumes "distinct (p_peers P)" "new_store (p_store P)" "run P evs (cluster_init P) = Some c"
    and "i \<in> set (p_peers P)" "j \<in> set (p_peers P)"
    and "s_lastApplied (c_node c i) = s_lastApplied (c_node c j)"
  shows "s_sm (c_node c i) = s_sm (c_node c j)"
proof -
  obtain a where a: "cluster_rel P c a" "spec_inv (p_peers P) a" using run_init [OF assms(1-3)] .
  note ni = node_relD [OF cluster_relD(3) [OF a(1) assms(4)]] and nj = node_relD [OF cluster_relD(3) [OF a(1) assms(5)]]
  have c: "s_commitIndex (c_node c i) = s_commitIndex (c_node c j)"
    using server_invD(3) [OF ni(3)] server_invD(3) [OF nj(3)] assms(6) by simp
  have "entryAt (s_log (c_node c i)) k = entryAt (s_log (c_node c j)) k" if "0 < k" "k \<le> s_commitIndex (c_node c i)" for k
    using committed_logs_agree [OF assms(1) a(2) commit_related(1) [OF a assms(4) that(2)] commit_related(1) [OF a assms(5)] that(1)]
      commit_related(2,3) [OF a assms(4) that(2)] commit_related(2,3) [OF a assms(5), of k] c that
    by (intro conjunct1 [OF same_entry]) auto
  then have "entries_between (s_log (c_node c i)) 0 (s_lastApplied (c_node c i))
    = entries_between (s_log (c_node c j)) 0 (s_lastApplied (c_node c j))"
    using assms(6) server_invD(3) [OF ni(3)] by (metis entries_between_cong)
  then show ?thesis using ni(5) nj(5) by simp
qed

theorem replicas_run_the_same_machine_witness:
  "\<exists>c. run trio (commits_two @ crash_and_catch_up) (cluster_init trio) = Some c
     \<and> s_sm (c_node c ''a'') = Some 2 \<and> s_sm (c_node c ''b'') = Some 2"
proof -
  obtain c where c: "run trio (commits_two @ crash_and_catch_up) (cluster_init trio) = Some c"
    "s_lastApplied (c_node c ''a'') = 2" "s_sm (c_node c ''a'') = Some 2" "s_lastApplied (c_node c ''b'') = 2"
    using catch_up_run by blast
  have "s_sm (c_node c ''a'') = s_sm (c_node c ''b'')"
    by (rule replicas_run_the_same_machine [OF trio_ok(1,2) c(1) trio_ok(3,4)]) (simp add: c)
  then show ?thesis using c by auto
qed



end
