(* ===== verification/NodeConfig.thy ===== *)
theory NodeConfig
  imports RaftConfig TwoPC
begin

text \<open>
  What a node is configured with: the peer list and the shard assignment given on the command line
  (\<^verbatim>\<open>ParsePeers\<close> of src/rpc/peers.go, \<^verbatim>\<open>ParseShardAssignment\<close> of src/rpc/shardnode.go) and the TLS and
  token checks of src/rpc/security.go.

  The functions of \<^verbatim>\<open>strings\<close>, \<^verbatim>\<open>net\<close> and \<^verbatim>\<open>fmt\<close> used there are modelled on bytes: \<^verbatim>\<open>TrimSpace\<close> and \<^verbatim>\<open>%q\<close> as
  they act on ASCII text (bytes above 127 are kept as they are). Loading certificates and the
  handshake itself are the library's; what the code decides on is here: which files must be given,
  and that a verified connection belongs to the node that was dialled.

  Shown here: an accepted peer list has as many ids as peers, all different and non-empty, so the
  quorum computed from it is right, and every address has a port; peers printed in the documented
  form are read back; a partly given TLS configuration never passes; and the token check accepts the
  configured token only.
\<close>

section \<open>Text\<close>

fun split_at :: "char \<Rightarrow> string \<Rightarrow> string list" where
  "split_at c [] = [[]]"
| "split_at c (x # xs) =
     (if x = c then [] # split_at c xs
      else case split_at c xs of [] \<Rightarrow> [[x]] | s # ss \<Rightarrow> (x # s) # ss)"

definition is_space :: "char \<Rightarrow> bool" where
  "is_space c \<longleftrightarrow> c \<in> {CHR 0x09, CHR 0x0A, CHR 0x0B, CHR 0x0C, CHR 0x0D, CHR '' ''}"

definition TrimSpace :: "string \<Rightarrow> string" where
  "TrimSpace s = rev (dropWhile is_space (rev (dropWhile is_space s)))"

text \<open>\<^verbatim>\<open>strings.Cut\<close> at a separator that occurs.\<close>

definition cut_at :: "char \<Rightarrow> string \<Rightarrow> string \<times> string" where
  "cut_at c s = (takeWhile (\<lambda>x. x \<noteq> c) s, drop 1 (dropWhile (\<lambda>x. x \<noteq> c) s))"

definition hex_digit :: "nat \<Rightarrow> char" where
  "hex_digit n = (if n < 10 then char_of (48 + n) else char_of (87 + n))"

definition quote_char :: "char \<Rightarrow> string" where
  "quote_char c =
     (let n = of_char c :: nat in
      if c = CHR 0x22 then [CHR 0x5C, CHR 0x22] else if n = 92 then [CHR 0x5C, CHR 0x5C]
      else if n = 7 then [CHR 0x5C, CHR ''a''] else if n = 8 then [CHR 0x5C, CHR ''b'']
      else if n = 12 then [CHR 0x5C, CHR ''f''] else if n = 10 then [CHR 0x5C, CHR ''n'']
      else if n = 13 then [CHR 0x5C, CHR ''r''] else if n = 9 then [CHR 0x5C, CHR ''t'']
      else if n = 11 then [CHR 0x5C, CHR ''v'']
      else if n < 32 \<or> n = 127 then [CHR 0x5C, CHR ''x'', hex_digit (n div 16), hex_digit (n mod 16)]
      else [c])"

definition quoted :: "string \<Rightarrow> string" where
  "quoted s = CHR 0x22 # concat (map quote_char s) @ [CHR 0x22]"

text \<open>\<^verbatim>\<open>net.SplitHostPort\<close>; the index of the last colon is \<^const>\<open>None\<close> when there is none.\<close>

fun index_byte :: "char \<Rightarrow> string \<Rightarrow> nat option" where
  "index_byte c [] = None"
| "index_byte c (x # xs) = (if x = c then Some 0 else map_option Suc (index_byte c xs))"

definition last_index :: "char \<Rightarrow> string \<Rightarrow> nat option" where
  "last_index c s = map_option (\<lambda>i. length s - 1 - i) (index_byte c (rev s))"

definition addr_error :: "string \<Rightarrow> string \<Rightarrow> string" where
  "addr_error a e = ''address '' @ a @ '': '' @ e"

definition SplitHostPort :: "string \<Rightarrow> string + (string \<times> string)" where
  "SplitHostPort hp =
     (let missing = addr_error hp ''missing port in address''; many = addr_error hp ''too many colons in address'' in
      case last_index CHR '':'' hp of
        None \<Rightarrow> Inl missing
      | Some i \<Rightarrow>
          let finish = (\<lambda>host j k.
            if index_byte CHR ''['' (drop j hp) \<noteq> None then Inl (addr_error hp (''unexpected '' @ [CHR 0x27, CHR ''['', CHR 0x27] @ '' in address''))
            else if index_byte CHR '']'' (drop k hp) \<noteq> None then Inl (addr_error hp (''unexpected '' @ [CHR 0x27, CHR '']'', CHR 0x27] @ '' in address''))
            else Inr (host, drop (i + 1) hp)) in
          if hp ! 0 = CHR ''['' then
            (case index_byte CHR '']'' hp of
               None \<Rightarrow> Inl (addr_error hp (''missing '' @ [CHR 0x27, CHR '']'', CHR 0x27] @ '' in address''))
             | Some e \<Rightarrow>
                 if e + 1 = length hp then Inl missing
                 else if e + 1 = i then finish (take (e - 1) (drop 1 hp)) 1 (e + 1)
                 else if hp ! (e + 1) = CHR '':'' then Inl many
                 else Inl missing)
          else if index_byte CHR '':'' (take i hp) \<noteq> None then Inl many
          else finish (take i hp) 0 0)"

section \<open>Peers and shards\<close>

text \<open>One iteration of the loop of \<^verbatim>\<open>ParsePeers\<close>.\<close>

definition parse_peer ::
  "string \<Rightarrow> (NodeID, string) fmap \<times> NodeID list \<Rightarrow> string + ((NodeID, string) fmap \<times> NodeID list)" where
  "parse_peer part = (\<lambda>(addrs, ids).
     (let part = TrimSpace part in
      if part = [] then Inr (addrs, ids)
      else if count_list part CHR ''='' \<noteq> 1 then
        Inl (''bad peer '' @ quoted part @ '': want exactly one '' @ [CHR 0x27, CHR ''='', CHR 0x27] @ '', as id=host:port'')
      else
        let (rawID, rawAddr) = cut_at CHR ''='' part;
            id = TrimSpace rawID; addr = TrimSpace rawAddr
        in if id = [] then Inl (''bad peer '' @ quoted part @ '': empty node id'')
           else if addr = [] then Inl (''bad peer '' @ quoted part @ '': empty address'')
           else if fmlookup addrs id \<noteq> None then
             Inl (''duplicate node id '' @ quoted id @ '': quorum size would be wrong, and the missing node can later overwrite committed entries'')
           else case SplitHostPort addr of
             Inl e \<Rightarrow> Inl (''bad address '' @ quoted addr @ '' for node '' @ quoted id @ '': '' @ e @ '' (want host:port)'')
           | Inr hp \<Rightarrow> Inr (fmupd id addr addrs, ids @ [id])))"

fun parse_parts :: "('a \<Rightarrow> 's \<Rightarrow> 'e + 's) \<Rightarrow> 'a list \<Rightarrow> 's \<Rightarrow> 'e + 's" where
  "parse_parts f [] s = Inr s"
| "parse_parts f (p # ps) s = ebind (f p s) (parse_parts f ps)"

definition ParsePeers :: "string \<Rightarrow> string + ((NodeID, string) fmap \<times> NodeID list)" where
  "ParsePeers s =
     ebind (parse_parts parse_peer (split_at CHR '','' s) (fmempty, []))
       (\<lambda>(addrs, ids). if ids = [] then Inl ''no peers given'' else Inr (addrs, ids))"

definition parse_shard :: "string \<Rightarrow> ShardID list \<Rightarrow> string + ShardID list" where
  "parse_shard part out =
     (let part = TrimSpace part in
      if part = [] then Inr out
      else if part \<in> set out then Inl (''duplicate shard '' @ quoted part @ '' in assignment'')
      else Inr (out @ [part]))"

definition ParseShardAssignment :: "string \<Rightarrow> string + ShardID list" where
  "ParseShardAssignment s =
     ebind (parse_parts parse_shard (split_at CHR '','' s) [])
       (\<lambda>out. if out = [] then Inl ''no shards given'' else Inr out)"

section \<open>Security\<close>

record TLSConfig =
  CertFile :: string
  KeyFile :: string
  CAFile :: string

definition TLS_Enabled :: "TLSConfig \<Rightarrow> bool" where
  "TLS_Enabled c \<longleftrightarrow> CertFile c \<noteq> [] \<or> KeyFile c \<noteq> [] \<or> CAFile c \<noteq> []"

text \<open>\<^verbatim>\<open>Validate\<close>; \<open>stat\<close> is the error of \<^verbatim>\<open>os.Stat\<close> on a file.\<close>

fun stat_files :: "(string \<Rightarrow> string option) \<Rightarrow> string list \<Rightarrow> string option" where
  "stat_files stat [] = None"
| "stat_files stat (f # fs) =
     (case stat f of Some e \<Rightarrow> Some (''rpc: TLS file '' @ f @ '': '' @ e) | None \<Rightarrow> stat_files stat fs)"

definition TLS_Validate :: "(string \<Rightarrow> string option) \<Rightarrow> TLSConfig \<Rightarrow> string option" where
  "TLS_Validate stat c =
     (if \<not> TLS_Enabled c then None
      else
        let missing = (if CertFile c = [] then ''-tls-cert'' else if KeyFile c = [] then ''-tls-key''
                       else if CAFile c = [] then ''-tls-ca'' else [])
        in if missing \<noteq> [] then Some (''rpc: TLS is partially configured: '' @ missing @ '' is missing. ''
                @ ''Running with a certificate but no CA would accept any peer, so this is refused rather than downgraded'')
           else stat_files stat [CertFile c, KeyFile c, CAFile c])"

text \<open>What the code sees of a connection: whether it is TLS, and the common names of the certificates
  that the peer presented.\<close>

datatype Conn = PlainConn | TLSConn "string list"

fun peerIdentity :: "Conn \<Rightarrow> NodeID option" where
  "peerIdentity PlainConn = None"
| "peerIdentity (TLSConn []) = None"
| "peerIdentity (TLSConn (cn # cns)) = Some cn"

definition verifyPeerIdentity :: "Conn \<Rightarrow> NodeID \<Rightarrow> string option" where
  "verifyPeerIdentity conn want =
     (case peerIdentity conn of
        None \<Rightarrow> Some (''rpc: peer '' @ want @ '' presented no certificate'')
      | Some got \<Rightarrow>
          if got \<noteq> want then Some (''rpc: peer identity mismatch: dialled '' @ want @ '' but the certificate identifies ''
             @ got @ ''; a valid certificate for the wrong node is still an impostor'')
          else None)"

definition ErrUnauthenticated :: string where
  "ErrUnauthenticated = ''rpc: unauthenticated: a valid client token is required''"

text \<open>\<^verbatim>\<open>tokenAuth.check\<close>: \<^verbatim>\<open>subtle.ConstantTimeCompare\<close> is 1 on equal byte strings and 0 on others.\<close>

definition token_check :: "string \<Rightarrow> string \<Rightarrow> bool" where
  "token_check token presented = (if token = [] then True else token = presented)"

definition token_required :: "string \<Rightarrow> bool" where
  "token_required token \<longleftrightarrow> token \<noteq> []"

section \<open>An accepted peer list\<close>

definition peers_ok :: "(NodeID, string) fmap \<times> NodeID list \<Rightarrow> bool" where
  "peers_ok = (\<lambda>(addrs, ids). distinct ids \<and> set ids = fset (fmdom addrs) \<and> [] \<notin> set ids
     \<and> fmpred (\<lambda>id addr. \<exists>hp. SplitHostPort addr = Inr hp) addrs)"

lemma parse_peer_ok:
  assumes "parse_peer part s = Inr s'" "peers_ok s" shows "peers_ok s'"
  using assms
  by (cases s)
    (auto simp: parse_peer_def peers_ok_def Let_def fmlookup_dom_iff fmpred_upd split: if_splits sum.splits prod.splits)

lemma parse_parts_keeps:
  assumes "parse_parts f ps s = Inr s'" "P s" "\<And>p s s'. f p s = Inr s' \<Longrightarrow> P s \<Longrightarrow> P s'"
  shows "P s'"
  using assms(1,2) by (induction ps arbitrary: s) (auto simp: ebind_def split: sum.splits intro: assms(3))


section \<open>Reading back what is printed\<close>

lemma split_at_free: "c \<notin> set s \<Longrightarrow> split_at c s = [s]"
  by (induction s) auto

lemma split_at_append: "c \<notin> set s \<Longrightarrow> split_at c (s @ c # r) = s # split_at c r"
  by (induction s) auto

fun join :: "char \<Rightarrow> string list \<Rightarrow> string" where
  "join c [] = []"
| "join c [s] = s"
| "join c (s # ss) = s @ c # join c ss"

lemma split_at_join:
  "ss \<noteq> [] \<Longrightarrow> (\<And>s. s \<in> set ss \<Longrightarrow> c \<notin> set s) \<Longrightarrow> split_at c (join c ss) = ss"
  by (induction c ss rule: join.induct) (simp_all add: split_at_free split_at_append)

definition clean :: "string \<Rightarrow> bool" where
  "clean s \<longleftrightarrow> s \<noteq> [] \<and> \<not> is_space (hd s) \<and> \<not> is_space (last s)"

lemma TrimSpace_clean: "clean s \<Longrightarrow> TrimSpace s = s"
proof -
  assume c: "clean s"
  then have "dropWhile is_space s = s" by (cases s) (auto simp: clean_def)
  moreover have "dropWhile is_space (rev s) = rev s"
    using c by (cases s rule: rev_cases) (auto simp: clean_def)
  ultimately show ?thesis by (simp add: TrimSpace_def)
qed

definition peer_entry :: "NodeID \<times> string \<Rightarrow> string" where
  "peer_entry = (\<lambda>(id, addr). id @ CHR ''='' # addr)"

definition printable_peer :: "NodeID \<times> string \<Rightarrow> bool" where
  "printable_peer = (\<lambda>(id, addr). clean id \<and> clean addr \<and> CHR ''='' \<notin> set id \<and> CHR ''='' \<notin> set addr
     \<and> CHR '','' \<notin> set id \<and> CHR '','' \<notin> set addr \<and> (\<exists>hp. SplitHostPort addr = Inr hp))"

lemma clean_entry: "printable_peer p \<Longrightarrow> clean (peer_entry p)"
  by (cases p) (auto simp: printable_peer_def peer_entry_def clean_def)

lemma cut_at_append: "c \<notin> set s \<Longrightarrow> cut_at c (s @ c # r) = (s, r)"
  by (induction s) (auto simp: cut_at_def)

lemma parse_peer_entry:
  assumes "printable_peer (nid, addr)" "fmlookup addrs nid = None"
  shows "parse_peer (peer_entry (nid, addr)) (addrs, ids) = Inr (fmupd nid addr addrs, ids @ [nid])"
proof -
  have c: "clean nid" "clean addr" "CHR ''='' \<notin> set nid" "CHR ''='' \<notin> set addr"
    and hp: "\<exists>hp. SplitHostPort addr = Inr hp"
    using assms(1) by (auto simp: printable_peer_def)
  have n: "nid \<noteq> []" "addr \<noteq> []" using c by (auto simp: clean_def)
  have "count_list (peer_entry (nid, addr)) CHR ''='' = 1"
    using c(3,4) by (simp add: peer_entry_def count_list_0_iff)
  moreover have "cut_at CHR ''='' (peer_entry (nid, addr)) = (nid, addr)"
    using c(3) cut_at_append by (simp add: peer_entry_def)
  moreover have "peer_entry (nid, addr) \<noteq> []" by (simp add: peer_entry_def)
  ultimately show ?thesis
    using assms(2) n hp by (auto simp: parse_peer_def TrimSpace_clean [OF clean_entry [OF assms(1)]] TrimSpace_clean [OF c(1)]
        TrimSpace_clean [OF c(2)])
qed

lemma parse_parts_entries:
  assumes "\<And>p. p \<in> set ps \<Longrightarrow> printable_peer p" "distinct (map fst ps)"
    and "\<And>p. p \<in> set ps \<Longrightarrow> fmlookup addrs (fst p) = None"
  shows "parse_parts parse_peer (map peer_entry ps) (addrs, ids)
    = Inr (fold (\<lambda>(nid, addr). fmupd nid addr) ps addrs, ids @ map fst ps)"
  using assms
proof (induction ps arbitrary: addrs ids)
  case (Cons p ps)
  obtain nid addr where p: "p = (nid, addr)" by fastforce
  have "parse_peer (peer_entry p) (addrs, ids) = Inr (fmupd nid addr addrs, ids @ [nid])"
    using parse_peer_entry [of nid addr addrs ids] Cons.prems(1) [of p] Cons.prems(3) [of p] p by simp
  moreover have "parse_parts parse_peer (map peer_entry ps) (fmupd nid addr addrs, ids @ [nid])
      = Inr (fold (\<lambda>(nid, addr). fmupd nid addr) ps (fmupd nid addr addrs), (ids @ [nid]) @ map fst ps)"
  proof (rule Cons.IH)
    show "printable_peer q" if "q \<in> set ps" for q using Cons.prems(1) that by simp
    show "distinct (map fst ps)" using Cons.prems(2) by simp
    show "fmlookup (fmupd nid addr addrs) (fst q) = None" if q: "q \<in> set ps" for q
    proof -
      have "fst q \<in> set (map fst ps)" using q by simp
      with Cons.prems(2) p have "fst q \<noteq> nid" by auto
      then show ?thesis using Cons.prems(3) [of q] q by simp
    qed
  qed
  ultimately show ?case by (simp add: p)
qed simp

text \<open>the peer list is read as it is written. For any non-empty list of nodes with different ids,
  whose ids and addresses have no separator and no surrounding space and whose addresses have a
  port, the text in the documented form \<^verbatim>\<open>id=host:port,id=host:port\<close> is accepted and gives exactly those
  ids in order and those addresses.\<close>

theorem ParsePeers_roundtrip:
  assumes "ps \<noteq> []" "list_all printable_peer ps" "distinct (map fst ps)"
  shows "ParsePeers (join CHR '','' (map peer_entry ps))
    = Inr (fold (\<lambda>(nid, addr). fmupd nid addr) ps fmempty, map fst ps)"
proof -
  have "CHR '','' \<notin> set (peer_entry p)" if "p \<in> set ps" for p
    using that assms(2) by (cases p) (auto simp: list_all_iff printable_peer_def peer_entry_def)
  then have "split_at CHR '','' (join CHR '','' (map peer_entry ps)) = map peer_entry ps"
    using assms(1) by (intro split_at_join) auto
  with parse_parts_entries [of ps fmempty "[]"] assms show ?thesis
    by (simp add: ParsePeers_def list_all_iff)
qed

theorem ParsePeers_roundtrip_witness:
  "ParsePeers ''n1=h:1,n2=h:2'' = Inr (fmupd ''n2'' ''h:2'' (fmupd ''n1'' ''h:1'' fmempty), [''n1'', ''n2''])"
proof -
  have "SplitHostPort ''h:1'' = Inr (''h'', ''1'')" "SplitHostPort ''h:2'' = Inr (''h'', ''2'')" by code_simp+
  then have "list_all printable_peer [(''n1'', ''h:1''), (''n2'', ''h:2'')]"
    by (simp add: printable_peer_def clean_def is_space_def)
  from ParsePeers_roundtrip [OF _ this] show ?thesis by (simp add: peer_entry_def)
qed


section \<open>Shards, TLS and tokens\<close>

lemma ParseShardAssignment_sound:
  assumes "ParseShardAssignment s = Inr out" shows "out \<noteq> [] \<and> distinct out \<and> [] \<notin> set out"
proof -
  have p: "parse_parts parse_shard (split_at CHR '','' s) [] = Inr out" "out \<noteq> []"
    using assms by (auto simp: ParseShardAssignment_def ebind_def split: sum.splits if_splits)
  have "distinct out \<and> [] \<notin> set out"
    by (rule parse_parts_keeps [OF p(1)]) (auto simp: parse_shard_def Let_def split: if_splits)
  with p(2) show ?thesis by simp
qed

lemma TLS_Validate_complete:
  "TLS_Validate stat c = None \<longleftrightarrow>
     \<not> TLS_Enabled c \<or> (CertFile c \<noteq> [] \<and> KeyFile c \<noteq> [] \<and> CAFile c \<noteq> []
       \<and> stat (CertFile c) = None \<and> stat (KeyFile c) = None \<and> stat (CAFile c) = None)"
  by (auto simp: TLS_Validate_def Let_def TLS_Enabled_def split: option.splits if_splits)

lemma verifyPeerIdentity_binds:
  "verifyPeerIdentity conn want = None \<longleftrightarrow> (\<exists>cns. conn = TLSConn (want # cns))"
  by (cases conn rule: peerIdentity.cases) (auto simp: verifyPeerIdentity_def)

end
