(* ===== verification/Admission.thy ===== *)
theory Admission
  imports Prelude
begin

text \<open>
  Admission control and draining (src/rpc/admission.go, src/rpc/drain.go).

  Time is in nanoseconds. The \<^verbatim>\<open>float64\<close> arithmetic of the token bucket is exact rational arithmetic
  followed by a rounding function, a parameter of the definitions; the bound on the request rate
  holds for every rounding with a bounded error, which is stated as its hypotheses. Counters are
  integers.

  The operations are given twice: as whole functions, for a caller that runs alone, and as the atomic
  operations they are made of, for any number of requests running at once. Shown here: the bound on
  what one client can get through, the bound on the requests that hold a slot at any time under any
  interleaving, that no slot leaks, and that a drain can report an empty node while a request is
  still on its way in.
\<close>

section \<open>The token bucket\<close>

record tokenBucket =
  tb_tokens :: rat
  tb_capacity :: rat
  tb_rate :: rat
  tb_last :: int

definition newTokenBucket :: "rat \<Rightarrow> int \<Rightarrow> int \<Rightarrow> tokenBucket" where
  "newTokenBucket rate burst now =
     \<lparr>tb_tokens = of_int burst, tb_capacity = of_int burst, tb_rate = rate, tb_last = now\<rparr>"

definition tb_allow :: "(rat \<Rightarrow> rat) \<Rightarrow> int \<Rightarrow> tokenBucket \<Rightarrow> bool \<times> tokenBucket" where
  "tb_allow fl now b =
     (let secs = fl (of_int (now - tb_last b) / 1000000000);
          tokens = fl (tb_tokens b + fl (secs * tb_rate b));
          tokens = (if tokens > tb_capacity b then tb_capacity b else tokens);
          b = b\<lparr>tb_tokens := tokens, tb_last := now\<rparr>
      in if tokens < 1 then (False, b) else (True, b\<lparr>tb_tokens := fl (tokens - 1)\<rparr>))"

section \<open>The admitter\<close>

record Limits =
  MaxInFlight :: int
  PerClientRate :: rat
  PerClientBurst :: int

definition Limits_Enabled :: "Limits \<Rightarrow> bool" where
  "Limits_Enabled l \<longleftrightarrow> MaxInFlight l > 0 \<or> (PerClientRate l > 0 \<and> PerClientBurst l > 0)"

record Admitter =
  ad_limits :: Limits
  ad_inFlight :: int
  ad_draining :: bool
  ad_buckets :: "(string, tokenBucket) fmap"
  ad_shedInFlight :: int
  ad_shedRate :: int
  ad_admitted :: int

definition NewAdmitter :: "Limits \<Rightarrow> Admitter" where
  "NewAdmitter l = \<lparr>ad_limits = l, ad_inFlight = 0, ad_draining = False, ad_buckets = fmempty,
     ad_shedInFlight = 0, ad_shedRate = 0, ad_admitted = 0\<rparr>"

record Rejection =
  rej_Busy :: bool
  rej_RateLimited :: bool
  rej_Reason :: string
  rej_RetryAfter :: int

definition no_rejection :: Rejection where
  "no_rejection = \<lparr>rej_Busy = False, rej_RateLimited = False, rej_Reason = [], rej_RetryAfter = 0\<rparr>"

definition allowRate :: "(rat \<Rightarrow> rat) \<Rightarrow> int \<Rightarrow> string \<Rightarrow> Admitter \<Rightarrow> bool \<times> Admitter" where
  "allowRate fl now client a =
     (let b = (case fmlookup (ad_buckets a) client of
                 Some b \<Rightarrow> b
               | None \<Rightarrow> newTokenBucket (PerClientRate (ad_limits a)) (PerClientBurst (ad_limits a)) now);
          (ok, b) = tb_allow fl now b
      in (ok, a\<lparr>ad_buckets := fmupd client b (ad_buckets a)\<rparr>))"

text \<open>The release function that \<^verbatim>\<open>Admit\<close> returns: whether it gives a slot back, and whether it has.\<close>

record Release =
  rel_slot :: bool
  rel_done :: bool

definition run_release :: "Release \<Rightarrow> Admitter \<Rightarrow> Release \<times> Admitter" where
  "run_release r a =
     (if rel_slot r \<and> \<not> rel_done r then (r\<lparr>rel_done := True\<rparr>, a\<lparr>ad_inFlight := ad_inFlight a - 1\<rparr>)
      else (r, a))"

definition no_release :: Release where
  "no_release = \<lparr>rel_slot = False, rel_done = False\<rparr>"

text \<open>The duration advised to a client over its rate: a conversion that cuts off the fraction.\<close>

definition rate_retry :: "(rat \<Rightarrow> rat) \<Rightarrow> Limits \<Rightarrow> int" where
  "rate_retry fl l = \<lfloor>fl (1000000000 / PerClientRate l)\<rfloor>"

definition Admit :: "(rat \<Rightarrow> rat) \<Rightarrow> int \<Rightarrow> string \<Rightarrow> Admitter \<Rightarrow> (Release \<times> Rejection \<times> bool) \<times> Admitter" where
  "Admit fl now client a =
     (if ad_draining a then
        ((no_release, no_rejection\<lparr>rej_Busy := True,
           rej_Reason := ''this node is shutting down; nothing was proposed, retry elsewhere''\<rparr>, False), a)
      else
        let limited = PerClientRate (ad_limits a) > 0 \<and> PerClientBurst (ad_limits a) > 0;
            (ok, a) = (if limited then allowRate fl now client a else (True, a))
        in if \<not> ok then
             ((no_release, no_rejection\<lparr>rej_RateLimited := True, rej_Reason := ''rate limit exceeded for this client'',
                rej_RetryAfter := rate_retry fl (ad_limits a)\<rparr>, False), a\<lparr>ad_shedRate := ad_shedRate a + 1\<rparr>)
           else
             let n = ad_inFlight a + 1; a = a\<lparr>ad_inFlight := n\<rparr> in
             if MaxInFlight (ad_limits a) > 0 \<and> n > MaxInFlight (ad_limits a) then
               ((no_release, no_rejection\<lparr>rej_Busy := True, rej_Reason :=
                  ''the leader has too many proposals in flight; nothing was proposed, so retrying is safe'',
                  rej_RetryAfter := 50000000\<rparr>, False),
                a\<lparr>ad_inFlight := ad_inFlight a - 1, ad_shedInFlight := ad_shedInFlight a + 1\<rparr>)
             else ((\<lparr>rel_slot = True, rel_done = False\<rparr>, no_rejection, True),
                a\<lparr>ad_admitted := ad_admitted a + 1\<rparr>))"

definition Admitter_Stats :: "Admitter \<Rightarrow> int \<times> int \<times> int \<times> int" where
  "Admitter_Stats a = (ad_inFlight a, ad_admitted a, ad_shedInFlight a, ad_shedRate a)"

definition Draining :: "Admitter \<Rightarrow> bool" where
  "Draining a = ad_draining a"

text \<open>\<^verbatim>\<open>Drain\<close>: the flag, and the loop over what it sees at each poll, a time and the value of the counter.
  The list is as long as the drain has run: \<^const>\<open>None\<close> is a drain that has not returned yet.\<close>

definition drain_start :: "Admitter \<Rightarrow> Admitter" where
  "drain_start a = a\<lparr>ad_draining := True\<rparr>"

fun drain_loop :: "int \<Rightarrow> (int \<times> int) list \<Rightarrow> int option" where
  "drain_loop deadline [] = None"
| "drain_loop deadline ((now, n) # ps) =
     (if now < deadline then if n = 0 then Some 0 else drain_loop deadline ps
      else Some n)"

section \<open>What one client can get through\<close>

text \<open>The calls of one client at the given times, and how many of them were let through.\<close>

fun bucket_run :: "(rat \<Rightarrow> rat) \<Rightarrow> int list \<Rightarrow> tokenBucket \<Rightarrow> nat \<times> tokenBucket" where
  "bucket_run fl [] b = (0, b)"
| "bucket_run fl (t # ts) b =
     (let (ok, b) = tb_allow fl t b; (n, b) = bucket_run fl ts b in (if ok then Suc n else n, b))"

text \<open>A rounding with relative error \<open>u\<close>, and absolute error \<open>d\<close> up to the capacity.\<close>

definition rounds :: "(rat \<Rightarrow> rat) \<Rightarrow> rat \<Rightarrow> rat \<Rightarrow> rat \<Rightarrow> bool" where
  "rounds fl cap u d \<longleftrightarrow> 0 \<le> u \<and> 0 \<le> d \<and> (\<forall>x. 0 \<le> x \<longrightarrow> 0 \<le> fl x \<and> fl x \<le> (1 + u) * x)
     \<and> (\<forall>x. 0 \<le> x \<and> x \<le> cap \<longrightarrow> fl x \<le> x + d)"

lemma roundsD:
  assumes "rounds fl cap u d"
  shows "0 \<le> u" "0 \<le> d" "0 \<le> x \<Longrightarrow> 0 \<le> fl x" "0 \<le> x \<Longrightarrow> fl x \<le> (1 + u) * x"
    "0 \<le> x \<Longrightarrow> x \<le> cap \<Longrightarrow> fl x \<le> x + d"
  using assms by (simp_all add: rounds_def)

text \<open>What the bucket may have gained between two times, with the rounding of two multiplications.\<close>

definition refill :: "rat \<Rightarrow> rat \<Rightarrow> int \<Rightarrow> int \<Rightarrow> rat" where
  "refill u rate t t' = (1 + u) * (1 + u) * (of_int (t' - t) / 1000000000 * rate)"

lemma refill_add: "refill u rate t1 t2 + refill u rate t2 t3 = refill u rate t1 t3"
  by (simp add: refill_def field_simps)

lemma tb_allow_frame:
  "tb_allow fl now b = (ok, b') \<Longrightarrow> tb_capacity b' = tb_capacity b \<and> tb_rate b' = tb_rate b \<and> tb_last b' = now"
  by (auto simp: tb_allow_def Let_def split: if_splits)

text \<open>One call: the tokens left and the token spent are covered by those before and the refill.\<close>

lemma tb_allow_account:
  assumes r: "rounds fl (tb_capacity b) u d" and b: "0 \<le> tb_tokens b" "0 \<le> tb_rate b" "tb_last b \<le> now"
    and c: "0 \<le> tb_capacity b"
    and a: "tb_allow fl now b = (ok, b')"
  shows "0 \<le> tb_tokens b'"
    and "tb_tokens b' + (if ok then 1 else 0)
       \<le> tb_tokens b + refill u (tb_rate b) (tb_last b) now + 2 * d"
    and "tb_tokens b' \<le> tb_capacity b + d"
proof -
  note R = roundsD [OF r]
  define e :: rat where "e = of_int (now - tb_last b) / 1000000000"
  define s where "s = fl e"
  define q where "q = fl (s * tb_rate b)"
  define x where "x = tb_tokens b + q"
  define k where "k = (if fl x > tb_capacity b then tb_capacity b else fl x)"
  have e: "0 \<le> e" using b(3) by (simp add: e_def)
  have s: "0 \<le> s" "s \<le> (1 + u) * e" using R(3,4) [OF e] by (simp_all add: s_def)
  have sr: "0 \<le> s * tb_rate b" "s * tb_rate b \<le> (1 + u) * e * tb_rate b"
    using s b(2) by (simp_all add: mult_right_mono)
  have q: "0 \<le> q" "q \<le> (1 + u) * (s * tb_rate b)" using R(3,4) [OF sr(1)] by (simp_all add: q_def)
  have "(1 + u) * (s * tb_rate b) \<le> (1 + u) * ((1 + u) * e * tb_rate b)"
    using sr(2) R(1) by (intro mult_left_mono) simp_all
  with q have q': "q \<le> (1 + u) * (1 + u) * (e * tb_rate b)" by (simp add: mult.assoc)
  have x: "0 \<le> x" using b(1) q(1) by (simp add: x_def)
  have k0: "0 \<le> k" using R(3) [OF x] c by (simp add: k_def)
  have kx: "k \<le> x + d"
  proof (cases "x \<le> tb_capacity b")
    case True
    then show ?thesis using R(5) [OF x] R(2) by (auto simp: k_def)
  next
    case False
    then show ?thesis using R(2) by (auto simp: k_def)
  qed
  have kc: "k \<le> tb_capacity b" by (simp add: k_def)
  have ok: "ok = (\<not> k < 1)" "tb_tokens b' = (if k < 1 then k else fl (k - 1))"
    using a by (auto simp: tb_allow_def Let_def k_def x_def q_def s_def e_def split: if_splits)
  have d1: "fl (k - 1) \<le> k - 1 + d" "0 \<le> fl (k - 1)" if "\<not> k < 1"
    using R(3,5) [of "k - 1"] kc that by simp_all
  show "0 \<le> tb_tokens b'" using ok d1 k0 by auto
  have "tb_tokens b' + (if ok then 1 else 0) \<le> tb_tokens b + (1 + u) * (1 + u) * (e * tb_rate b) + 2 * d"
    using ok d1 kx q' R(2) by (auto simp: x_def)
  then show "tb_tokens b' + (if ok then 1 else 0)
      \<le> tb_tokens b + refill u (tb_rate b) (tb_last b) now + 2 * d"
    by (simp only: e_def refill_def)
  show "tb_tokens b' \<le> tb_capacity b + d" using ok d1 kc R(2) by auto
qed

lemma bucket_run_account:
  assumes "rounds fl (tb_capacity b) u d" "0 \<le> tb_tokens b" "0 \<le> tb_rate b" "0 \<le> tb_capacity b"
    and "sorted (tb_last b # ts)" "bucket_run fl ts b = (n, b')"
  shows "of_nat n + tb_tokens b' \<le> tb_tokens b
      + refill u (tb_rate b) (tb_last b) (tb_last b') + 2 * d * of_nat (length ts)
    \<and> 0 \<le> tb_tokens b'"
  using assms
proof (induction ts arbitrary: b n)
  case (Cons t ts)
  obtain ok b1 where a: "tb_allow fl t b = (ok, b1)" by fastforce
  obtain m b2 where m: "bucket_run fl ts b1 = (m, b2)" by fastforce
  note f = tb_allow_frame [OF a]
  have n: "n = (if ok then Suc m else m)" "b' = b2" using Cons.prems(6) a m by (simp_all split: if_splits)
  have le: "tb_last b \<le> t" using Cons.prems(5) by simp
  note s = tb_allow_account [OF Cons.prems(1,2,3) le Cons.prems(4) a]
  have "sorted (tb_last b1 # ts)" using Cons.prems(5) f by simp
  then have "of_nat m + tb_tokens b2 \<le> tb_tokens b1
      + refill u (tb_rate b1) (tb_last b1) (tb_last b2) + 2 * d * of_nat (length ts)
    \<and> 0 \<le> tb_tokens b2"
    using Cons.IH [of b1 m] Cons.prems(1,3,4) s(1) f m n(2) by simp
  moreover note refill_add [of u "tb_rate b" "tb_last b" t "tb_last b2"]
  ultimately show ?case using s(2) n f by (auto simp: algebra_simps)
qed (auto simp: refill_def)

lemma bucket_run_last: "bucket_run fl ts b = (n, b') \<Longrightarrow> tb_last b' = last (tb_last b # ts)"
proof (induction ts arbitrary: b n b')
  case (Cons t ts)
  obtain ok b1 where a: "tb_allow fl t b = (ok, b1)" by fastforce
  obtain m b2 where m: "bucket_run fl ts b1 = (m, b2)" by fastforce
  from Cons.prems a m have "b' = b2" by simp
  with Cons.IH [OF m] tb_allow_frame [OF a] show ?case by simp
qed simp



section \<open>Requests running at once\<close>

text \<open>Where a request is inside \<^verbatim>\<open>Admit\<close>, between its atomic operations; \<open>Reserved n\<close> has added itself to
  the counter and read \<open>n\<close>.\<close>

datatype Place = Outside | PastGate | PastRate | Reserved int | Holding

record Gate =
  gt_admitter :: Admitter
  gt_place :: "nat \<Rightarrow> Place"
  gt_drained :: bool

abbreviation put_place :: "nat \<Rightarrow> Place \<Rightarrow> Gate \<Rightarrow> Gate" where
  "put_place i p g \<equiv> g\<lparr>gt_place := (gt_place g)(i := p)\<rparr>"

text \<open>One atomic operation of some request, of a release or of a drain.\<close>

inductive gate_step :: "Gate \<Rightarrow> Gate \<Rightarrow> bool" where
  gate_open: "gt_place g i = Outside \<Longrightarrow> \<not> ad_draining (gt_admitter g) \<Longrightarrow> gate_step g (put_place i PastGate g)"
| rate_passed: "gt_place g i = PastGate \<Longrightarrow>
    \<not> (PerClientRate (ad_limits a) > 0 \<and> PerClientBurst (ad_limits a) > 0) \<and> a' = a
      \<or> allowRate fl now client a = (True, a') \<Longrightarrow> a = gt_admitter g \<Longrightarrow>
    gate_step g (put_place i PastRate g\<lparr>gt_admitter := a'\<rparr>)"
| rate_refused: "gt_place g i = PastGate \<Longrightarrow> allowRate fl now client (gt_admitter g) = (False, a') \<Longrightarrow>
    gate_step g (put_place i Outside g\<lparr>gt_admitter := a'\<lparr>ad_shedRate := ad_shedRate a' + 1\<rparr>\<rparr>)"
| reserve: "gt_place g i = PastRate \<Longrightarrow> a = gt_admitter g \<Longrightarrow>
    gate_step g (put_place i (Reserved (ad_inFlight a + 1)) g\<lparr>gt_admitter := a\<lparr>ad_inFlight := ad_inFlight a + 1\<rparr>\<rparr>)"
| over_bound: "gt_place g i = Reserved n \<Longrightarrow> a = gt_admitter g \<Longrightarrow>
    MaxInFlight (ad_limits a) > 0 \<and> n > MaxInFlight (ad_limits a) \<Longrightarrow>
    gate_step g (put_place i Outside g\<lparr>gt_admitter := a\<lparr>ad_inFlight := ad_inFlight a - 1,
      ad_shedInFlight := ad_shedInFlight a + 1\<rparr>\<rparr>)"
| let_in: "gt_place g i = Reserved n \<Longrightarrow> a = gt_admitter g \<Longrightarrow>
    \<not> (MaxInFlight (ad_limits a) > 0 \<and> n > MaxInFlight (ad_limits a)) \<Longrightarrow>
    gate_step g (put_place i Holding g\<lparr>gt_admitter := a\<lparr>ad_admitted := ad_admitted a + 1\<rparr>\<rparr>)"
| release: "gt_place g i = Holding \<Longrightarrow> a = gt_admitter g \<Longrightarrow>
    gate_step g (put_place i Outside g\<lparr>gt_admitter := a\<lparr>ad_inFlight := ad_inFlight a - 1\<rparr>\<rparr>)"
| drain: "gate_step g (g\<lparr>gt_admitter := drain_start (gt_admitter g)\<rparr>)"
| drained: "ad_draining (gt_admitter g) \<Longrightarrow> drain_loop deadline [(now, ad_inFlight (gt_admitter g))] = Some 0 \<Longrightarrow>
    gate_step g (g\<lparr>gt_drained := True\<rparr>)"

definition gate_init :: "Limits \<Rightarrow> Gate" where
  "gate_init l = \<lparr>gt_admitter = NewAdmitter l, gt_place = (\<lambda>i. Outside), gt_drained = False\<rparr>"

inductive gate_reach :: "Limits \<Rightarrow> Gate \<Rightarrow> bool" for l where
  start: "gate_reach l (gate_init l)"
| step: "gate_reach l g \<Longrightarrow> gate_step g g' \<Longrightarrow> gate_reach l g'"

text \<open>The requests that hold a slot, those counted, and those that have or will get one.\<close>

definition holding :: "Gate \<Rightarrow> nat set" where
  "holding g = {i. gt_place g i = Holding}"

definition counted :: "Gate \<Rightarrow> nat set" where
  "counted g = {i. gt_place g i = Holding \<or> (\<exists>n. gt_place g i = Reserved n)}"

definition winners :: "int \<Rightarrow> Gate \<Rightarrow> nat set" where
  "winners mx g = {i. gt_place g i = Holding \<or> (\<exists>n. gt_place g i = Reserved n \<and> n \<le> mx)}"

lemma winners_counted: "winners mx g \<subseteq> counted g" and holding_winners: "holding g \<subseteq> winners mx g"
  by (auto simp: winners_def counted_def holding_def)

definition gate_inv :: "Limits \<Rightarrow> Gate \<Rightarrow> bool" where
  "gate_inv l g \<longleftrightarrow> ad_limits (gt_admitter g) = l \<and> finite (counted g)
     \<and> ad_inFlight (gt_admitter g) = int (card (counted g))
     \<and> (MaxInFlight l > 0 \<longrightarrow> int (card (winners (MaxInFlight l) g)) \<le> MaxInFlight l)"

lemma gate_inv_init: "gate_inv l (gate_init l)"
  by (simp add: gate_inv_def gate_init_def NewAdmitter_def counted_def winners_def)

lemma allowRate_frame:
  "allowRate fl now client a = (ok, a') \<Longrightarrow> ad_limits a' = ad_limits a \<and> ad_inFlight a' = ad_inFlight a
     \<and> ad_draining a' = ad_draining a"
  by (auto simp: allowRate_def Let_def split: prod.splits)

lemma place_sets:
  assumes "gt_place g' = (gt_place g)(i := p)"
  shows "counted g' = (if p = Holding \<or> (\<exists>n. p = Reserved n) then insert i (counted g) else counted g - {i})"
    and "winners mx g' = (if p = Holding \<or> (\<exists>n. p = Reserved n \<and> n \<le> mx) then insert i (winners mx g)
           else winners mx g - {i})"
  using assms by (auto simp: counted_def winners_def)

lemma not_counted: "gt_place g i \<noteq> Holding \<Longrightarrow> (\<And>n. gt_place g i \<noteq> Reserved n) \<Longrightarrow> i \<notin> counted g \<and> i \<notin> winners mx g"
  by (simp add: counted_def winners_def)

lemma gate_inv_step:
  assumes "gate_step g g'" "gate_inv l g" shows "gate_inv l g'"
  using assms
proof (induction rule: gate_step.induct)
  case (gate_open g i)
  then show ?case
    using place_sets [of "put_place i PastGate g" g i PastGate] not_counted [of g i] by (simp add: gate_inv_def)
next
  case (rate_passed g i a a' fl now client)
  let ?g = "put_place i PastRate g\<lparr>gt_admitter := a'\<rparr>"
  have "ad_limits a' = ad_limits a \<and> ad_inFlight a' = ad_inFlight a"
    using rate_passed(2) allowRate_frame by blast
  then show ?case
    using rate_passed place_sets [of ?g g i PastRate] not_counted [of g i] by (simp add: gate_inv_def)
next
  case (rate_refused g i fl now client a')
  let ?g = "put_place i Outside g\<lparr>gt_admitter := a'\<lparr>ad_shedRate := ad_shedRate a' + 1\<rparr>\<rparr>"
  show ?case
    using rate_refused place_sets [of ?g g i Outside] not_counted [of g i] allowRate_frame [OF rate_refused(2)]
    by (simp add: gate_inv_def)
next
  case (reserve g i a)
  let ?n = "ad_inFlight a + 1"
  let ?g = "put_place i (Reserved ?n) g\<lparr>gt_admitter := a\<lparr>ad_inFlight := ?n\<rparr>\<rparr>"
  have i: "i \<notin> counted g" "i \<notin> winners mx g" for mx using reserve(1) not_counted [of g i] by simp_all
  have w: "card (winners mx g) \<le> card (counted g)" "finite (winners mx g)" for mx
    using reserve(3) winners_counted [of mx g] by (auto simp: gate_inv_def intro: card_mono finite_subset)
  show ?case
    using reserve(2,3) i w [of "MaxInFlight l"] place_sets [of ?g g i "Reserved ?n"] by (auto simp: gate_inv_def)
next
  case (over_bound g i n a)
  let ?g = "put_place i Outside g\<lparr>gt_admitter := a\<lparr>ad_inFlight := ad_inFlight a - 1,
      ad_shedInFlight := ad_shedInFlight a + 1\<rparr>\<rparr>"
  have "i \<in> counted g" "i \<notin> winners (MaxInFlight l) g"
    using over_bound by (auto simp: counted_def winners_def gate_inv_def)
  then show ?case
    using over_bound(2,4) place_sets [of ?g g i Outside] card_gt_0_iff [of "counted g"] by (auto simp: gate_inv_def)
next
  case (let_in g i n a)
  let ?g = "put_place i Holding g\<lparr>gt_admitter := a\<lparr>ad_admitted := ad_admitted a + 1\<rparr>\<rparr>"
  have "i \<in> counted g" "MaxInFlight l > 0 \<Longrightarrow> i \<in> winners (MaxInFlight l) g"
    using let_in by (auto simp: counted_def winners_def gate_inv_def)
  then show ?case
    using let_in(2,4) place_sets [of ?g g i Holding] by (auto simp: gate_inv_def insert_absorb)
next
  case (release g i a)
  let ?g = "put_place i Outside g\<lparr>gt_admitter := a\<lparr>ad_inFlight := ad_inFlight a - 1\<rparr>\<rparr>"
  have "i \<in> counted g" "finite (winners (MaxInFlight l) g)"
    using release winners_counted [of "MaxInFlight l" g] by (auto simp: counted_def gate_inv_def intro: finite_subset)
  then show ?case
    using release(2,3) place_sets [of ?g g i Outside] card_gt_0_iff [of "counted g"]
      card_Diff1_le [of "winners (MaxInFlight l) g" i]
    by (auto simp: gate_inv_def)
next
  case (drain g)
  then show ?case by (simp add: gate_inv_def drain_start_def counted_def winners_def)
next
  case (drained g deadline now)
  then show ?case by (simp add: gate_inv_def counted_def winners_def)
qed

lemma gate_reach_inv: "gate_reach l g \<Longrightarrow> gate_inv l g"
  by (induction rule: gate_reach.induct) (auto intro: gate_inv_init gate_inv_step)

text \<open>C38: backpressure holds under any interleaving. Whatever the order in which any number of requests
  run the atomic operations of \<^verbatim>\<open>Admit\<close> and of their releases, at most \<^verbatim>\<open>MaxInFlight\<close> of them hold a slot,
  and the counter is exactly the number of requests that hold or have just reserved one: no slot
  leaks.\<close>

theorem admission_bound:
  assumes "gate_reach l g" "MaxInFlight l > 0"
  shows "finite (holding g) \<and> int (card (holding g)) \<le> MaxInFlight l
    \<and> ad_inFlight (gt_admitter g) = int (card (counted g))"
proof -
  have inv: "gate_inv l g" using gate_reach_inv [OF assms(1)] .
  then have f: "finite (winners (MaxInFlight l) g)"
    using winners_counted by (auto simp: gate_inv_def intro: finite_subset)
  then have "card (holding g) \<le> card (winners (MaxInFlight l) g)" "finite (holding g)"
    using holding_winners by (auto intro: card_mono finite_subset)
  with inv assms(2) show ?thesis by (simp add: gate_inv_def)
qed

theorem admission_bound_witness:
  "int (card (holding (gate_init \<lparr>MaxInFlight = 2, PerClientRate = 0, PerClientBurst = 0\<rparr>))) \<le> 2"
  using admission_bound [OF gate_reach.start, of "\<lparr>MaxInFlight = 2, PerClientRate = 0, PerClientBurst = 0\<rparr>"] by simp

text \<open>a drain can report an empty node too early. A request that has passed the check of the draining
  flag but has not yet been counted is invisible to \<^verbatim>\<open>Drain\<close>: there is a run in which the drain has
  returned zero, and afterwards that request is let in and holds a slot.\<close>

theorem drain_misses_request:
  "\<exists>g. gate_reach \<lparr>MaxInFlight = 1, PerClientRate = 0, PerClientBurst = 0\<rparr> g
     \<and> gt_drained g \<and> ad_draining (gt_admitter g) \<and> gt_place g 0 = Holding"
proof -
  let ?l = "\<lparr>MaxInFlight = 1, PerClientRate = 0, PerClientBurst = 0\<rparr>" and ?a = "\<lambda>g. gt_admitter g"
  define g1 where "g1 = put_place 0 PastGate (gate_init ?l)"
  define g2 where "g2 = g1\<lparr>gt_admitter := drain_start (gt_admitter g1)\<rparr>"
  define g3 where "g3 = g2\<lparr>gt_drained := True\<rparr>"
  define g4 where "g4 = put_place 0 PastRate g3\<lparr>gt_admitter := gt_admitter g3\<rparr>"
  define g5 where "g5 = put_place 0 (Reserved (ad_inFlight (?a g4) + 1)) g4\<lparr>gt_admitter :=
     (?a g4)\<lparr>ad_inFlight := ad_inFlight (?a g4) + 1\<rparr>\<rparr>"
  define g6 where "g6 = put_place 0 Holding g5\<lparr>gt_admitter := (?a g5)\<lparr>ad_admitted := ad_admitted (?a g5) + 1\<rparr>\<rparr>"
  note defs = g1_def g2_def g3_def g4_def g5_def g6_def gate_init_def NewAdmitter_def drain_start_def
  have s1: "gate_step (gate_init ?l) g1" unfolding g1_def by (rule gate_step.gate_open) (simp_all add: defs)
  have s2: "gate_step g1 g2" unfolding g2_def by (rule gate_step.drain)
  have s3: "gate_step g2 g3" unfolding g3_def by (rule gate_step.drained [of _ 1 0]) (simp_all add: defs)
  have s4: "gate_step g3 g4" unfolding g4_def by (rule gate_step.rate_passed [OF _ _ refl]) (simp_all add: defs)
  have s5: "gate_step g4 g5" unfolding g5_def by (rule gate_step.reserve) (simp_all add: defs)
  have s6: "gate_step g5 g6" unfolding g6_def
    by (rule gate_step.let_in [of _ _ "ad_inFlight (?a g4) + 1"]) (simp_all add: defs)
  note r = gate_reach.start [of ?l]
  note r = gate_reach.step [OF gate_reach.step [OF gate_reach.step [OF r s1] s2] s3]
  have "gate_reach ?l g6" by (rule gate_reach.step [OF gate_reach.step [OF gate_reach.step [OF r s4] s5] s6])
  then show ?thesis by (intro exI [of _ g6]) (simp add: defs)
qed

end
