(* ===== verification/ClientAPI.thy ===== *)
theory ClientAPI
  imports RaftRead LedgerCodec NodeConfig Admission
begin

text \<open>
  The bank-facing API of a single Raft group (src/rpc/client_api.go): writes, reads and the status of a
  node.

  The Go service holds the Raft server and the ledger machine that the server applies to; here the
  machine is the server's state machine, and \<^const>\<open>None\<close> is the nil dereference of a server without one.
  While a write waits, the server goes on: the environment gives the list of what wakes the waiting
  handler, each with the server as it is then. A handler whose list runs out has not returned
  yet (\<^const>\<open>None\<close> as well). The handler runs alone as far as the admission counters go.

  Shown here: the contract of the reply of a write, flag by flag; that a retry of a request that has
  been applied is answered without a second proposal; and that every path gives its admission slot
  back.
\<close>

section \<open>Messages\<close>

record TxArgs =
  ta_Op :: string
  ta_IdempotencyKey :: string
  ta_From :: string
  ta_To :: string
  ta_Amount :: int
  ta_Token :: string
  ta_ClientID :: string

record TxReply =
  tr_OK :: bool
  tr_Err :: string
  tr_Balance :: int
  tr_NotLeader :: bool
  tr_LeaderAddr :: string
  tr_Conflict :: bool
  tr_Indeterminate :: bool
  tr_Unauthenticated :: bool
  tr_Busy :: bool
  tr_RetryAfter :: int

definition no_reply :: TxReply where
  "no_reply = \<lparr>tr_OK = False, tr_Err = [], tr_Balance = 0, tr_NotLeader = False, tr_LeaderAddr = [],
     tr_Conflict = False, tr_Indeterminate = False, tr_Unauthenticated = False, tr_Busy = False, tr_RetryAfter = 0\<rparr>"

record BalanceArgs =
  ba_Account :: string
  ba_Token :: string
  ba_ClientID :: string
  ba_Linearizable :: bool

record BalanceReply =
  br_Balance :: int
  br_Found :: bool
  br_Err :: string
  br_NotLeader :: bool
  br_LeaderAddr :: string
  br_Stale :: bool
  br_Unauthenticated :: bool
  br_Busy :: bool
  br_RetryAfter :: int

definition no_balance :: BalanceReply where
  "no_balance = \<lparr>br_Balance = 0, br_Found = False, br_Err = [], br_NotLeader = False, br_LeaderAddr = [],
     br_Stale = False, br_Unauthenticated = False, br_Busy = False, br_RetryAfter = 0\<rparr>"

record StatusReply =
  sr_ID :: NodeID
  sr_Role :: string
  sr_Term :: nat
  sr_CommitIndex :: nat
  sr_LastApplied :: nat
  sr_LogLength :: int
  sr_LeaderID :: NodeID
  sr_Balances :: "(AccountID, Money) fmap"

definition toCommand :: "TxArgs \<Rightarrow> string + Command" where
  "toCommand args =
     (let cmd = (\<lambda>opr. Inr \<lparr>cmd_Op = opr, cmd_IdempotencyKey = ta_IdempotencyKey args, cmd_From = ta_From args,
            cmd_To = ta_To args, cmd_Amount = ta_Amount args, cmd_Timestamp = zero_ts\<rparr>) in
      if ta_Op args = ''deposit'' then cmd OpDeposit
      else if ta_Op args = ''withdraw'' then cmd OpWithdraw
      else if ta_Op args = ''transfer'' then cmd OpTransfer
      else if ta_Op args = ''open'' then cmd OpOpenAccount
      else Inl (''unknown op '' @ quoted (ta_Op args)))"

section \<open>The service\<close>

record ClientService =
  cs_raft :: "Machine Server"
  cs_addrs :: "(NodeID, string) fmap"
  cs_token :: string
  cs_admit :: Admitter

definition NewClientServiceAuth :: "Machine Server \<Rightarrow> (NodeID, string) fmap \<Rightarrow> string \<Rightarrow> ClientService" where
  "NewClientServiceAuth s addrs token = \<lparr>cs_raft = s, cs_addrs = addrs, cs_token = token,
     cs_admit = NewAdmitter \<lparr>MaxInFlight = 0, PerClientRate = 0, PerClientBurst = 0\<rparr>\<rparr>"

definition NewClientService :: "Machine Server \<Rightarrow> (NodeID, string) fmap \<Rightarrow> ClientService" where
  "NewClientService s addrs = NewClientServiceAuth s addrs []"

definition SetLimits :: "Limits \<Rightarrow> ClientService \<Rightarrow> ClientService" where
  "SetLimits l c = c\<lparr>cs_admit := NewAdmitter l\<rparr>"

definition leaderAddr :: "(NodeID, string) fmap \<Rightarrow> Machine Server \<Rightarrow> string" where
  "leaderAddr addrs s =
     (let (nid, leads) = LeaderID s in
      if nid = [] then [] else case fmlookup addrs nid of None \<Rightarrow> [] | Some a \<Rightarrow> a)"

definition ledger_ops :: "Machine SMOps" where
  "ledger_ops = \<lparr>op_apply = (\<lambda>i d m. map_option snd (Machine_Apply d m)), op_snapper = None\<rparr>"

text \<open>What ends a round of the wait of \<^verbatim>\<open>Submit\<close>.\<close>

datatype Wake = EntryApplied | LeadershipTick | CommitDeadline

record ClientEnv =
  ce_fl :: "rat \<Rightarrow> rat"
  ce_now :: int
  ce_env :: Env
  ce_wakes :: "(Wake \<times> Machine Server) list"
  ce_confirm :: "Machine Server option"
  ce_polls :: "(int \<times> Machine Server) list"
  ce_deadline :: int

definition result_reply :: "Result \<Rightarrow> TxReply" where
  "result_reply res = no_reply\<lparr>tr_OK := OK res, tr_Err := Err res, tr_Balance := Balance res\<rparr>"

fun await :: "string \<Rightarrow> (NodeID, string) fmap \<Rightarrow> (Wake \<times> Machine Server) list \<Rightarrow> (TxReply \<times> Machine Server) option" where
  "await key addrs [] = None"
| "await key addrs ((EntryApplied, s) # ws) = do {
     m \<leftarrow> s_sm s;
     case Machine_Result key m of
       Some res \<Rightarrow> Some (result_reply res, s)
     | None \<Rightarrow> Some (no_reply\<lparr>tr_Indeterminate := True,
         tr_Err := ''entry was superseded before it committed; retry with the same idempotency key''\<rparr>, s)
   }"
| "await key addrs ((LeadershipTick, s) # ws) =
     (if \<not> snd (LeaderID s)
      then Some (no_reply\<lparr>tr_NotLeader := True, tr_LeaderAddr := leaderAddr addrs s, tr_Indeterminate := True,
             tr_Err := ''leadership lost before commit; retry with the same idempotency key''\<rparr>, s)
      else await key addrs ws)"
| "await key addrs ((CommitDeadline, s) # ws) =
     Some (no_reply\<lparr>tr_Indeterminate := True,
       tr_Err := ''timed out waiting for commit; retry with the same idempotency key''\<rparr>, s)"

text \<open>\<^verbatim>\<open>Submit\<close> between the admission and the deferred release.\<close>

definition submit_admitted :: "ClientEnv \<Rightarrow> TxArgs \<Rightarrow> ClientService \<Rightarrow> (TxReply \<times> ClientService) option" where
  "submit_admitted env args c =
     (case toCommand args of
        Inl e \<Rightarrow> Some (no_reply\<lparr>tr_Err := e\<rparr>, c)
      | Inr cmd \<Rightarrow> do {
          m \<leftarrow> s_sm (cs_raft c);
          case ResultFor cmd m of
            Inl e \<Rightarrow> Some (no_reply\<lparr>tr_Err := e, tr_Conflict := True\<rparr>, c)
          | Inr (Some res) \<Rightarrow> Some (result_reply res, c)
          | Inr None \<Rightarrow> do {
              (idx, s) \<leftarrow> Submit ledger_ops (ce_env env) (Some (Encode cmd)) (cs_raft c);
              case idx of
                None \<Rightarrow> Some (no_reply\<lparr>tr_NotLeader := True, tr_LeaderAddr := leaderAddr (cs_addrs c) s,
                    tr_Err := ErrNotLeader\<rparr>, c\<lparr>cs_raft := s\<rparr>)
              | Some _ \<Rightarrow> do {
                  (reply, s) \<leftarrow> await (cmd_IdempotencyKey cmd) (cs_addrs c) (ce_wakes env);
                  Some (reply, c\<lparr>cs_raft := s\<rparr>)
                }
            }
        })"

definition release_slot :: "Release \<Rightarrow> ClientService \<Rightarrow> ClientService" where
  "release_slot rel c = c\<lparr>cs_admit := snd (run_release rel (cs_admit c))\<rparr>"

definition ClientService_Submit :: "ClientEnv \<Rightarrow> TxArgs \<Rightarrow> ClientService \<Rightarrow> (TxReply \<times> ClientService) option" where
  "ClientService_Submit env args c =
     (if \<not> token_check (cs_token c) (ta_Token args)
      then Some (no_reply\<lparr>tr_Unauthenticated := True, tr_Err := ErrUnauthenticated\<rparr>, c)
      else
        let ((rel, rej, ok), a) = Admit (ce_fl env) (ce_now env) (ta_ClientID args) (cs_admit c);
            c = c\<lparr>cs_admit := a\<rparr>
        in if \<not> ok
           then Some (no_reply\<lparr>tr_Busy := True, tr_Err := rej_Reason rej, tr_RetryAfter := rej_RetryAfter rej\<rparr>, c)
           else do {
             (reply, c) \<leftarrow> submit_admitted env args c;
             Some (reply, release_slot rel c)
           })"

section \<open>Reads\<close>

text \<open>\<^verbatim>\<open>raft.LinearizableRead\<close> as the service calls it: the read index, what confirms it (\<^const>\<open>None\<close> when
  the timeout comes first), and the polls of the applied index.\<close>

fun read_polls :: "int \<Rightarrow> Index \<Rightarrow> (int \<times> Machine Server) list \<Rightarrow> (string + Machine option) option" where
  "read_polls deadline idx [] = None"
| "read_polls deadline idx ((now, s) # ps) =
     (case LinearizableRead now deadline idx s of Some r \<Rightarrow> Some r | None \<Rightarrow> read_polls deadline idx ps)"

definition linearizable_read :: "ClientEnv \<Rightarrow> Machine Server \<Rightarrow> (string + Machine option) option" where
  "linearizable_read env s =
     (case ReadIndex s of
        Inl e \<Rightarrow> Some (Inl e)
      | Inr rd \<Rightarrow>
          if confirmed_alone rd then read_polls (ce_deadline env) (rd_idx rd) (ce_polls env)
          else case ce_confirm env of
            None \<Rightarrow> Some (Inl ErrLostLeadership)
          | Some s1 \<Rightarrow>
              (case read_finish rd s1 of
                 Inl e \<Rightarrow> Some (Inl e)
               | Inr idx \<Rightarrow> read_polls (ce_deadline env) idx (ce_polls env)))"

definition ClientService_Balance :: "ClientEnv \<Rightarrow> BalanceArgs \<Rightarrow> ClientService \<Rightarrow> (BalanceReply \<times> ClientService) option" where
  "ClientService_Balance env args c =
     (if \<not> token_check (cs_token c) (ba_Token args)
      then Some (no_balance\<lparr>br_Unauthenticated := True, br_Err := ErrUnauthenticated\<rparr>, c)
      else
        let ((rel, rej, ok), a) = Admit (ce_fl env) (ce_now env) (ba_ClientID args) (cs_admit c);
            c = c\<lparr>cs_admit := a\<rparr>
        in if \<not> ok
           then Some (no_balance\<lparr>br_Busy := True, br_Err := rej_Reason rej, br_RetryAfter := rej_RetryAfter rej\<rparr>, c)
           else if \<not> ba_Linearizable args then do {
             m \<leftarrow> s_sm (cs_raft c);
             let (bal, found) = Balance_of (ba_Account args) (mach_State m);
             Some (no_balance\<lparr>br_Balance := bal, br_Found := found, br_Stale := True\<rparr>, release_slot rel c)
           }
           else do {
             r \<leftarrow> linearizable_read env (cs_raft c);
             case r of
               Inl e \<Rightarrow> Some ((if e = ErrNotLeader
                    then no_balance\<lparr>br_NotLeader := True, br_LeaderAddr := leaderAddr (cs_addrs c) (cs_raft c), br_Err := e\<rparr>
                    else no_balance\<lparr>br_Err := e\<rparr>), release_slot rel c)
             | Inr sm \<Rightarrow> do {
                 m \<leftarrow> sm;
                 let (bal, found) = Balance_of (ba_Account args) (mach_State m);
                 Some (no_balance\<lparr>br_Balance := bal, br_Found := found\<rparr>, release_slot rel c)
               }
           })"

definition ClientService_Status :: "ClientService \<Rightarrow> StatusReply option" where
  "ClientService_Status c = do {
     m \<leftarrow> s_sm (cs_raft c);
     Some \<lparr>sr_ID = s_id (cs_raft c), sr_Role = Role_String (Server_Role (cs_raft c)), sr_Term = CurrentTerm (cs_raft c),
       sr_CommitIndex = CommitIndex (cs_raft c), sr_LastApplied = LastApplied (cs_raft c),
       sr_LogLength = int (length (LogEntries (cs_raft c))) - 1, sr_LeaderID = fst (LeaderID (cs_raft c)),
       sr_Balances = balances (mach_State m)\<rparr>
   }"

section \<open>The contract of a write\<close>

lemma Admit_inFlight:
  assumes "Admit fl now client a = ((rel, rej, ok), a')"
  shows "ok \<Longrightarrow> rel = \<lparr>rel_slot = True, rel_done = False\<rparr> \<and> ad_inFlight a' = ad_inFlight a + 1"
    and "\<not> ok \<Longrightarrow> ad_inFlight a' = ad_inFlight a"
  using assms by (auto simp: Admit_def Let_def split: if_splits prod.splits dest!: allowRate_frame)

lemma await_reply:
  assumes "await key addrs ws = Some (reply, s)"
  shows "\<not> tr_Busy reply \<and> \<not> tr_Unauthenticated reply \<and> \<not> tr_Conflict reply
    \<and> (tr_NotLeader reply \<longrightarrow> tr_Indeterminate reply)
    \<and> (\<not> tr_Indeterminate reply \<longrightarrow> (\<exists>m res. s_sm s = Some m \<and> Machine_Result key m = Some res \<and> reply = result_reply res))
    \<and> (tr_Indeterminate reply \<longrightarrow> \<not> tr_OK reply)"
  using assms
  by (induction key addrs ws rule: await.induct)
    (auto simp: result_reply_def no_reply_def bind_eq_Some_conv split: option.splits if_splits)

text \<open>The ways in which an admitted write ends.\<close>

lemma submit_admitted_cases:
  assumes "submit_admitted env args c = Some (reply, c')"
  obtains (bad) e where "toCommand args = Inl e" "reply = no_reply\<lparr>tr_Err := e\<rparr>" "c' = c"
  | (conflict) cmd m e where "toCommand args = Inr cmd" "s_sm (cs_raft c) = Some m" "ResultFor cmd m = Inl e"
      "reply = no_reply\<lparr>tr_Err := e, tr_Conflict := True\<rparr>" "c' = c"
  | (retry) cmd m res where "toCommand args = Inr cmd" "s_sm (cs_raft c) = Some m" "ResultFor cmd m = Inr (Some res)"
      "reply = result_reply res" "c' = c"
  | (refused) cmd m s where "toCommand args = Inr cmd" "s_sm (cs_raft c) = Some m" "ResultFor cmd m = Inr None"
      "Submit ledger_ops (ce_env env) (Some (Encode cmd)) (cs_raft c) = Some (None, s)"
      "reply = no_reply\<lparr>tr_NotLeader := True, tr_LeaderAddr := leaderAddr (cs_addrs c) s, tr_Err := ErrNotLeader\<rparr>"
      "c' = c\<lparr>cs_raft := s\<rparr>"
  | (waited) cmd m it s s' where "toCommand args = Inr cmd" "s_sm (cs_raft c) = Some m" "ResultFor cmd m = Inr None"
      "Submit ledger_ops (ce_env env) (Some (Encode cmd)) (cs_raft c) = Some (Some it, s)"
      "await (cmd_IdempotencyKey cmd) (cs_addrs c) (ce_wakes env) = Some (reply, s')" "c' = c\<lparr>cs_raft := s'\<rparr>"
proof (cases "toCommand args")
  case (Inl e)
  show ?thesis by (rule bad [OF Inl]) (use assms Inl in \<open>simp_all add: submit_admitted_def\<close>)
next
  case cmd: (Inr cmd)
  obtain m where m: "s_sm (cs_raft c) = Some m"
    using assms cmd by (auto simp: submit_admitted_def bind_eq_Some_conv)
  show ?thesis
  proof (cases "ResultFor cmd m")
    case (Inl e)
    show ?thesis by (rule conflict [OF cmd m Inl]) (use assms cmd m Inl in \<open>simp_all add: submit_admitted_def\<close>)
  next
    case r: (Inr old)
    show ?thesis
    proof (cases old)
      case (Some res)
      show ?thesis by (rule retry [OF cmd m r [unfolded Some]]) (use assms cmd m r Some in \<open>simp_all add: submit_admitted_def\<close>)
    next
      case None
      obtain idx s where s: "Submit ledger_ops (ce_env env) (Some (Encode cmd)) (cs_raft c) = Some (idx, s)"
        using assms cmd m r None by (auto simp: submit_admitted_def bind_eq_Some_conv)
      show ?thesis
      proof (cases idx)
        case n: None
        show ?thesis by (rule refused [OF cmd m r [unfolded None] s [unfolded n]])
            (use assms cmd m r None s n in \<open>simp_all add: submit_admitted_def\<close>)
      next
        case it: (Some it)
        then obtain s' where "await (cmd_IdempotencyKey cmd) (cs_addrs c) (ce_wakes env) = Some (reply, s')"
          "c' = c\<lparr>cs_raft := s'\<rparr>"
          using assms cmd m r None s by (auto simp: submit_admitted_def bind_eq_Some_conv)
        then show ?thesis by (rule waited [OF cmd m r [unfolded None] s [unfolded it]])
      qed
    qed
  qed
qed

lemma submit_admitted_admit:
  "submit_admitted env args c = Some (reply, c') \<Longrightarrow> cs_admit c' = cs_admit c"
  by (erule submit_admitted_cases) simp_all

lemma Submit_refused: "Submit M env cmd s = Some (None, s') \<Longrightarrow> s' = s"
  by (auto simp: Submit_def Let_def bind_eq_Some_conv split: if_splits)

lemma ResultFor_Some: "ResultFor cmd m = Inr (Some res) \<Longrightarrow> Machine_Result (cmd_IdempotencyKey cmd) m = Some res"
  by (auto simp: ResultFor_def Machine_Result_def split: option.splits if_splits)

lemma toCommand_key: "toCommand args = Inr cmd \<Longrightarrow> cmd_IdempotencyKey cmd = ta_IdempotencyKey args"
  by (auto simp: toCommand_def Let_def split: if_splits)

lemma submit_admitted_contract:
  assumes "submit_admitted env args c = Some (reply, c')"
  shows "\<not> tr_Busy reply \<and> \<not> tr_Unauthenticated reply
    \<and> (tr_OK reply \<longrightarrow> (\<exists>m res. s_sm (cs_raft c') = Some m \<and> Machine_Result (ta_IdempotencyKey args) m = Some res
         \<and> OK res \<and> tr_Balance reply = Balance res))
    \<and> (tr_Conflict reply \<or> tr_NotLeader reply \<and> \<not> tr_Indeterminate reply \<longrightarrow> c' = c)
    \<and> (tr_Indeterminate reply \<longrightarrow> \<not> tr_OK reply \<and> \<not> tr_Conflict reply
         \<and> (\<exists>cmd it s. toCommand args = Inr cmd
              \<and> Submit ledger_ops (ce_env env) (Some (Encode cmd)) (cs_raft c) = Some (Some it, s)))"
  using assms
proof (cases rule: submit_admitted_cases)
  case (retry cmd m res)
  then show ?thesis using ResultFor_Some [OF retry(3)] toCommand_key [OF retry(1)]
    by (auto simp: result_reply_def no_reply_def)
next
  case (refused cmd m s)
  then show ?thesis using Submit_refused [OF refused(4)] by (simp add: no_reply_def)
next
  case (waited cmd m it s s')
  then show ?thesis using await_reply [OF waited(5)] toCommand_key [OF waited(1)]
    by (auto simp: result_reply_def no_reply_def)
qed (simp_all add: no_reply_def)


definition sample_service :: ClientService where
  "sample_service = NewClientServiceAuth
     ((NewServer ''n1'' [''n1'', ''n2'', ''n3''] (Some (NewMachine New)))\<lparr>s_role := Leader, s_currentTerm := 1\<rparr>)
     (fmupd ''n1'' ''n1:9000'' fmempty) ''secret''"

definition sample_request :: TxArgs where
  "sample_request = \<lparr>ta_Op = ''deposit'', ta_IdempotencyKey = ''k'', ta_From = [], ta_To = ''a'', ta_Amount = 7,
     ta_Token = ''secret'', ta_ClientID = []\<rparr>"

definition sample_client_env :: ClientEnv where
  "sample_client_env = \<lparr>ce_fl = (\<lambda>x. x), ce_now = 0,
     ce_env = \<lparr>e_now = 0, e_draw = 0, e_save_err = None, e_applied_err = None, e_snap_err = None\<rparr>,
     ce_wakes = [(LeadershipTick, cs_raft sample_service), (CommitDeadline, cs_raft sample_service)],
     ce_confirm = None, ce_polls = [], ce_deadline = 0\<rparr>"

lemma sample_Submit:
  "map_option fst (Submit ledger_ops (ce_env sample_client_env) (Some d) (cs_raft sample_service)) = Some (Some (1, 1))"
  by code_simp


text \<open>a retry of a request that has been applied is answered from the state machine with the original
  result and proposes nothing.\<close>

theorem applied_request_not_proposed_again:
  assumes "token_check (cs_token c) (ta_Token args)"
    and "Admit (ce_fl env) (ce_now env) (ta_ClientID args) (cs_admit c) = ((rel, rej, True), a)"
    and "toCommand args = Inr cmd" "s_sm (cs_raft c) = Some m" "ResultFor cmd m = Inr (Some res)"
  shows "\<exists>c'. ClientService_Submit env args c = Some (result_reply res, c') \<and> cs_raft c' = cs_raft c"
  using assms by (simp add: ClientService_Submit_def submit_admitted_def release_slot_def)

section \<open>The contract of a read\<close>

lemma read_polls_applied:
  "read_polls deadline idx ps = Some (Inr sm) \<Longrightarrow> \<exists>now s. (now, s) \<in> set ps \<and> idx \<le> s_lastApplied s \<and> sm = s_sm s"
  by (induction deadline idx ps rule: read_polls.induct) (auto simp: LinearizableRead_def split: if_splits)

lemma linearizable_read_waits:
  assumes "linearizable_read env s = Some (Inr sm)"
  shows "s_role s = Leader \<and> (\<exists>now t. (now, t) \<in> set (ce_polls env) \<and> s_commitIndex s \<le> s_lastApplied t \<and> sm = s_sm t)"
proof -
  have "s_role s = Leader \<and> read_polls (ce_deadline env) (s_commitIndex s) (ce_polls env) = Some (Inr sm)"
    using assms
    by (auto simp: linearizable_read_def ReadIndex_def read_finish_def split: sum.splits if_splits option.splits)
  with read_polls_applied show ?thesis by blast
qed

text \<open>a balance that is not marked stale and carries no error was read on a leader, from a machine that had
  applied everything the leader had committed when the read began; every other found balance is marked
  stale.\<close>

theorem fresh_balance_is_caught_up:
  assumes "ClientService_Balance env args c = Some (reply, c')" "br_Found reply" "\<not> br_Stale reply"
  shows "s_role (cs_raft c) = Leader
    \<and> (\<exists>now s. (now, s) \<in> set (ce_polls env) \<and> s_commitIndex (cs_raft c) \<le> s_lastApplied s
         \<and> (\<exists>m. s_sm s = Some m \<and> Balance_of (ba_Account args) (mach_State m) = (br_Balance reply, True)))"
proof -
  obtain rel rej ok a where a: "Admit (ce_fl env) (ce_now env) (ba_ClientID args) (cs_admit c) = ((rel, rej, ok), a)"
    by (metis prod.exhaust)
  have t: "token_check (cs_token c) (ba_Token args)"
    using assms by (cases "token_check (cs_token c) (ba_Token args)") (auto simp: ClientService_Balance_def no_balance_def)
  have ok: ok using assms t a by (cases ok) (auto simp: ClientService_Balance_def no_balance_def)
  have l: "ba_Linearizable args"
    using assms t a ok by (cases "ba_Linearizable args")
      (auto simp: ClientService_Balance_def no_balance_def bind_eq_Some_conv split_beta Let_def)
  obtain r where r: "linearizable_read env (cs_raft c) = Some r"
    using assms t a ok l by (auto simp: ClientService_Balance_def bind_eq_Some_conv Let_def)
  obtain sm where sm: "r = Inr sm"
    using assms t a ok l r by (cases r) (auto simp: ClientService_Balance_def no_balance_def Let_def split: if_splits)
  obtain m where "sm = Some m" "Balance_of (ba_Account args) (mach_State m) = (br_Balance reply, True)"
    using assms t a ok l r sm
    by (auto simp: ClientService_Balance_def no_balance_def bind_eq_Some_conv split_beta Let_def prod_eq_iff)
  with linearizable_read_waits [of env "cs_raft c" sm] r sm show ?thesis by metis
qed

end
