(* ===== verification/ShardCoordinator.thy ===== *)
theory ShardCoordinator
  imports ShardMachine Ring
begin

text \<open>
  The coordinator of cross-shard transfers (src/shard/coordinator.go) and the groups it talks to
  (\<^verbatim>\<open>NetworkGroup\<close> of src/rpc/shardnode.go, the node's view of one shard's Raft group).

  A group is the replica this node hosts of a shard: its machine, the index applied last, and the
  entries that are in the log behind it. What the rest of the group does is an environment script:
  between any two calls of the coordinator other proposers may append entries, entries may be
  applied, and a change of leader may cut the unapplied ones off; and each proposal is refused,
  applied, left unconfirmed at the timeout, or displaced by an entry of another leader at the same
  index. The ranges over Go maps take their order from the environment too. Timeouts appear only
  as what the environment decides.

  Shown here: a coordinator never panics; whatever the environment does, a cross-shard transfer
  never ends committed at one shard and aborted at the other, and its reply says which of the two
  can still happen.
\<close>

section \<open>Errors\<close>

datatype CoordSentinel = ErrTxAborted | ErrInDoubt | ErrNotLeader | ErrCommitUnknown

fun sentinel_text :: "CoordSentinel \<Rightarrow> string" where
  "sentinel_text ErrTxAborted = ''shard: transaction aborted''"
| "sentinel_text ErrInDoubt = ''shard: transaction in doubt; awaiting coordinator recovery''"
| "sentinel_text ErrNotLeader = ''shard: this node does not lead the shard owning that account''"
| "sentinel_text ErrCommitUnknown =
     ''shard: entry appended but commit unconfirmed; retry with the same key''"

text \<open>A Go error: a sentinel itself, a message that wraps one (\<^verbatim>\<open>%w\<close>), or another message.\<close>

datatype CoordError = Bare CoordSentinel | Wrapped CoordSentinel string | Plain string

fun Error_text :: "CoordError \<Rightarrow> string" where
  "Error_text (Bare s) = sentinel_text s"
| "Error_text (Wrapped s msg) = msg"
| "Error_text (Plain msg) = msg"

fun errors_Is :: "CoordError \<Rightarrow> CoordSentinel \<Rightarrow> bool" where
  "errors_Is (Bare s) t = (s = t)"
| "errors_Is (Wrapped s msg) t = (s = t)"
| "errors_Is (Plain msg) t = False"

text \<open>\<^verbatim>\<open>%v\<close> of an error that may be nil.\<close>

definition show_error :: "string option \<Rightarrow> string" where
  "show_error e = (case e of None \<Rightarrow> ''<nil>'' | Some msg \<Rightarrow> msg)"

section \<open>Groups\<close>

record Replica =
  rep_Machine :: ShardMachine
  rep_applied :: nat
  rep_tail :: "bytes list"

text \<open>A group with no local replica is \<^const>\<open>None\<close>.\<close>

type_synonym Groups = "(ShardID, Replica option) fmap"

datatype Move =
    Foreign bytes       \<comment> \<open>another proposer's entry reaches the log\<close>
  | ApplyNext           \<comment> \<open>the oldest unapplied entry is applied\<close>
  | CutTail nat         \<comment> \<open>a new leader keeps only so many unapplied entries\<close>

datatype Reply =
    Refuse              \<comment> \<open>this node does not lead the group: nothing is appended\<close>
  | Confirm             \<comment> \<open>the entry is applied within the timeout\<close>
  | Expire bool         \<comment> \<open>the timeout passes; does the node still lead?\<close>
  | Displace "bytes list"  \<comment> \<open>another leader's entries are applied up to the entry's index\<close>

record GroupEnv =
  ge_moves :: "(ShardID \<times> Move) list list"
  ge_reply :: "Reply list"
  ge_leads :: "bool list"
  ge_wall :: "64 word"
  ge_range :: "ShardID fset \<Rightarrow> ShardID list"
  ge_scan :: "TxID fset \<Rightarrow> TxID list"

definition script :: "'a \<Rightarrow> 'a list \<Rightarrow> nat \<Rightarrow> 'a" where
  "script dflt xs n = (if n < length xs then xs ! n else dflt)"

fun move :: "Move \<Rightarrow> Replica \<Rightarrow> Replica option" where
  "move (Foreign d) r = Some (r\<lparr>rep_tail := rep_tail r @ [d]\<rparr>)"
| "move ApplyNext r =
     (case rep_tail r of
        [] \<Rightarrow> Some r
      | d # ds \<Rightarrow> do {
          (res, m) \<leftarrow> ApplyAt (Suc (rep_applied r)) d (rep_Machine r);
          Some \<lparr>rep_Machine = m, rep_applied = Suc (rep_applied r), rep_tail = ds\<rparr>
        })"
| "move (CutTail k) r = Some (r\<lparr>rep_tail := take k (rep_tail r)\<rparr>)"

fun group_moves :: "(ShardID \<times> Move) list \<Rightarrow> Groups \<Rightarrow> Groups option" where
  "group_moves [] gs = Some gs"
| "group_moves ((sid, mv) # ms) gs =
     (case fmlookup gs sid of
        Some (Some r) \<Rightarrow> do { r \<leftarrow> move mv r; group_moves ms (fmupd sid (Some r) gs) }
      | _ \<Rightarrow> group_moves ms gs)"

section \<open>The coordinator\<close>

record Coordinator =
  co_ring :: Ring
  co_groups :: Groups
  co_clock :: Clock
  co_calls :: nat

definition NewCoordinator :: "Ring \<Rightarrow> Groups \<Rightarrow> Coordinator" where
  "NewCoordinator ring groups =
     \<lparr>co_ring = ring, co_groups = groups, co_clock = NewWithPhysical, co_calls = 0\<rparr>"

definition ShardFor :: "Coordinator \<Rightarrow> AccountID \<Rightarrow> ShardID" where
  "ShardFor c account = Lookup (co_ring c) account"

text \<open>The environment's turn before each call on a group.\<close>

definition tick :: "GroupEnv \<Rightarrow> Coordinator \<Rightarrow> Coordinator option" where
  "tick env c = do {
     gs \<leftarrow> group_moves (script [] (ge_moves env) (co_calls c)) (co_groups c);
     Some (c\<lparr>co_groups := gs, co_calls := Suc (co_calls c)\<rparr>)
   }"

abbreviation put_group :: "ShardID \<Rightarrow> Replica \<Rightarrow> Coordinator \<Rightarrow> Coordinator" where
  "put_group sid r c \<equiv> c\<lparr>co_groups := fmupd sid (Some r) (co_groups c)\<rparr>"

abbreviation zero_result :: Result where
  "zero_result \<equiv> failed []"

text \<open>\<^verbatim>\<open>NetworkGroup.Propose\<close>: the result, whether this node led the group, and the error.\<close>

definition Propose ::
  "GroupEnv \<Rightarrow> ShardID \<Rightarrow> ShardCommand \<Rightarrow> Coordinator \<Rightarrow> ((Result \<times> bool \<times> string option) \<times> Coordinator) option" where
  "Propose env sid cmd c0 = do {
     c \<leftarrow> tick env c0;
     local \<leftarrow> fmlookup (co_groups c) sid;
     case local of
       None \<Rightarrow> Some ((zero_result, False, Some (''rpc: no replica of shard '' @ sid @ '' on this node'')), c)
     | Some r \<Rightarrow>
         let idx = rep_applied r + length (rep_tail r) + 1;
             expire = (\<lambda>leads. Some ((zero_result, leads, Some (if \<not> leads
                 then ''rpc: shard '' @ sid @ '' lost leadership mid-propose''
                 else ''rpc: shard '' @ sid @ '' timed out applying entry '' @ show_nat idx)),
               put_group sid (r\<lparr>rep_tail := rep_tail r @ [EncodeCommand cmd]\<rparr>) c));
             finish = (\<lambda>ds. do {
               (rs, m) \<leftarrow> apply_log ApplyAt (rep_applied r) ds (rep_Machine r);
               Some ((AppliedResult idx m, True, None),
                 put_group sid \<lparr>rep_Machine = m, rep_applied = idx, rep_tail = []\<rparr> c)
             })
         in case script Confirm (ge_reply env) (co_calls c0) of
              Refuse \<Rightarrow> Some ((zero_result, False, None), c)
            | Confirm \<Rightarrow> finish (rep_tail r @ [EncodeCommand cmd])
            | Expire leads \<Rightarrow> expire leads
            | Displace ds \<Rightarrow> if length ds = length (rep_tail r) + 1 then finish ds else expire False
   }"

text \<open>\<^verbatim>\<open>NetworkGroup.Machine\<close> and the reads on it; a nil machine panics.\<close>

definition read_machine :: "GroupEnv \<Rightarrow> ShardID \<Rightarrow> Coordinator \<Rightarrow> (ShardMachine \<times> Coordinator) option" where
  "read_machine env sid c = do {
     c \<leftarrow> tick env c;
     local \<leftarrow> fmlookup (co_groups c) sid;
     r \<leftarrow> local;
     Some (rep_Machine r, c)
   }"

definition IsLeader :: "GroupEnv \<Rightarrow> ShardID \<Rightarrow> Coordinator \<Rightarrow> (bool \<times> Coordinator) option" where
  "IsLeader env sid c0 = do {
     c \<leftarrow> tick env c0;
     local \<leftarrow> fmlookup (co_groups c) sid;
     Some (local \<noteq> None \<and> script True (ge_leads env) (co_calls c0), c)
   }"

section \<open>Transfers\<close>

abbreviation single_cmd :: "Command \<Rightarrow> ShardCommand" where
  "single_cmd cmd \<equiv> \<lparr>sc_Op = OpSingle, sc_TxID = [], sc_Ledger = cmd, sc_Commit = False, sc_Debit = False,
     sc_Participants = [], sc_Coordinator = []\<rparr>"

abbreviation tx_cmd :: "byte \<Rightarrow> TxID \<Rightarrow> Command \<Rightarrow> bool \<Rightarrow> bool \<Rightarrow> ShardID list \<Rightarrow> ShardID \<Rightarrow> ShardCommand" where
  "tx_cmd opr txid cmd commit debit parts coord \<equiv> \<lparr>sc_Op = opr, sc_TxID = txid, sc_Ledger = cmd,
     sc_Commit = commit, sc_Debit = debit, sc_Participants = parts, sc_Coordinator = coord\<rparr>"

type_synonym Reply_to_client = "(Result \<times> CoordError option) \<times> Coordinator"

definition single :: "GroupEnv \<Rightarrow> ShardID \<Rightarrow> Command \<Rightarrow> Coordinator \<Rightarrow> Reply_to_client option" where
  "single env s cmd c =
     (case fmlookup (co_groups c) s of
        None \<Rightarrow> Some ((zero_result, Some (Plain (''shard: no group '' @ s))), c)
      | Some g \<Rightarrow> do {
          ((res, isLeader, err), c) \<leftarrow> Propose env s (single_cmd cmd) c;
          case err of
            Some e \<Rightarrow>
              if isLeader
              then Some ((zero_result, Some (Wrapped ErrCommitUnknown
                      (sentinel_text ErrCommitUnknown @ '': '' @ e))), c)
              else Some ((zero_result, Some (Plain e)), c)
          | None \<Rightarrow>
              if \<not> isLeader
              then Some ((zero_result, Some (Wrapped ErrNotLeader
                      (sentinel_text ErrNotLeader @ '' ('' @ s @ '')''))), c)
              else Some ((res, None), c)
        })"

text \<open>\<^verbatim>\<open>decide\<close>: the decision at the coordinator's group, then the outcome at both.\<close>

definition decide ::
  "GroupEnv \<Rightarrow> TxID \<Rightarrow> Command \<Rightarrow> ShardID list \<Rightarrow> ShardID \<Rightarrow> bool \<Rightarrow> ShardID \<Rightarrow> ShardID \<Rightarrow> Coordinator
     \<Rightarrow> (string option \<times> Coordinator) option" where
  "decide env txid cmd participants coordinator commit debitGroup creditGroup c = do {
     ((res, isLeader, err), c) \<leftarrow> Propose env debitGroup
        (tx_cmd OpDecision txid cmd commit True participants coordinator) c;
     if err \<noteq> None \<or> \<not> isLeader
     then Some (Some (''shard: could not log decision for '' @ txid @ '': '' @ show_error err), c)
     else do {
       ((res, isLeader, err1), c) \<leftarrow> Propose env debitGroup
          (tx_cmd OpOutcome txid cmd commit True participants coordinator) c;
       ((res, isLeader, err2), c) \<leftarrow> Propose env creditGroup
          (tx_cmd OpOutcome txid cmd commit False participants coordinator) c;
       Some (if err1 \<noteq> None then err1 else err2, c)
     }
   }"

text \<open>What \<^verbatim>\<open>twoPhase\<close> answers when the credit side did not vote yes.\<close>

definition credit_refused :: "ShardID \<Rightarrow> Result \<Rightarrow> bool \<Rightarrow> string option \<Rightarrow> Result \<times> CoordError option" where
  "credit_refused toShard creditVote isLeader err =
     (if \<not> OK creditVote \<and> Err creditVote \<noteq> [] then (creditVote, Some (Bare ErrTxAborted))
      else if \<not> isLeader then
        (failed (''credit shard '' @ toShard @ '' is not led by this node''),
         Some (Wrapped ErrNotLeader (sentinel_text ErrNotLeader @ '' (credit shard '' @ toShard @ '')'')))
      else case err of
        Some e \<Rightarrow> (failed e, Some (Wrapped ErrTxAborted
          (sentinel_text ErrTxAborted @ '': credit shard '' @ toShard @ '': '' @ e)))
      | None \<Rightarrow> (failed (''credit shard '' @ toShard @ '' voted no without a reason''), Some (Bare ErrTxAborted)))"

definition twoPhase :: "GroupEnv \<Rightarrow> TxID \<Rightarrow> Command \<Rightarrow> ShardID \<Rightarrow> ShardID \<Rightarrow> Coordinator \<Rightarrow> Reply_to_client option" where
  "twoPhase env txid cmd fromShard toShard c =
     (if fmlookup (co_groups c) fromShard = None
      then Some ((zero_result, Some (Plain (''shard: no group '' @ fromShard))), c)
      else if fmlookup (co_groups c) toShard = None
      then Some ((zero_result, Some (Plain (''shard: no group '' @ toShard))), c)
      else
        let participants = [fromShard, toShard]; coordinator = fromShard in do {
          ((debitVote, isLeader, err), c) \<leftarrow> Propose env fromShard
             (tx_cmd OpPrepare txid cmd False True participants coordinator) c;
          if \<not> isLeader
          then Some ((zero_result, Some (Wrapped ErrNotLeader
                 (sentinel_text ErrNotLeader @ '' (debit shard '' @ fromShard @ '')''))), c)
          else if err \<noteq> None
          then Some ((zero_result, Some (Plain (''shard: prepare failed on debit shard '' @ fromShard
                 @ '': '' @ show_error err))), c)
          else if \<not> OK debitVote then do {
            (e, c) \<leftarrow> decide env txid cmd participants coordinator False fromShard toShard c;
            Some ((debitVote, Some (Bare ErrTxAborted)), c)
          }
          else do {
            ((creditVote, isLeader, err), c) \<leftarrow> Propose env toShard
               (tx_cmd OpPrepare txid cmd False False participants coordinator) c;
            if err \<noteq> None \<or> \<not> isLeader \<or> \<not> OK creditVote then do {
              (e, c) \<leftarrow> decide env txid cmd participants coordinator False fromShard toShard c;
              Some (credit_refused toShard creditVote isLeader err, c)
            }
            else do {
              (e, c) \<leftarrow> decide env txid cmd participants coordinator True fromShard toShard c;
              if e \<noteq> None then Some ((zero_result, Some (Bare ErrInDoubt)), c)
              else do {
                (m, c) \<leftarrow> read_machine env fromShard c;
                Some ((succeeded (fst (Available (cmd_From cmd) (sm_State m))), None), c)
              }
            }
          }
        })"

text \<open>The stamp that \<^verbatim>\<open>Transfer\<close> puts on a command without one.\<close>

definition stamp_command :: "GroupEnv \<Rightarrow> Command \<Rightarrow> Coordinator \<Rightarrow> Command \<times> Coordinator" where
  "stamp_command env cmd c =
     (if IsZero (cmd_Timestamp cmd)
      then (let (t, clk) = Now (ge_wall env) (co_clock c)
            in (cmd\<lparr>cmd_Timestamp := t\<rparr>, c\<lparr>co_clock := clk\<rparr>))
      else (cmd, c))"

definition Transfer :: "GroupEnv \<Rightarrow> TxID \<Rightarrow> Command \<Rightarrow> Coordinator \<Rightarrow> Reply_to_client option" where
  "Transfer env txid cmd c =
     (let (cmd, c) = stamp_command env cmd c in
      if cmd_Op cmd = OpOpenAccount \<or> cmd_Op cmd = OpDeposit then single env (ShardFor c (cmd_To cmd)) cmd c
      else if cmd_Op cmd = OpWithdraw then single env (ShardFor c (cmd_From cmd)) cmd c
      else
        let fromShard = ShardFor c (cmd_From cmd); toShard = ShardFor c (cmd_To cmd) in
        if fromShard = toShard then single env fromShard cmd c
        else twoPhase env txid cmd fromShard toShard c)"

section \<open>Recovery\<close>

text \<open>The \<^verbatim>\<open>ledger.Command\<close> of a composite literal that leaves it out.\<close>

definition zero_command :: Command where
  "zero_command = \<lparr>cmd_Op = 0, cmd_IdempotencyKey = [], cmd_From = [], cmd_To = [], cmd_Amount = 0,
     cmd_Timestamp = zero_ts\<rparr>"

definition catchUp :: "GroupEnv \<Rightarrow> ShardID \<Rightarrow> Coordinator \<Rightarrow> (CoordError option \<times> Coordinator) option" where
  "catchUp env g c = do {
     ((res, isLeader, err), c) \<leftarrow> Propose env g (single_cmd zero_command) c;
     case err of
       Some e \<Rightarrow> Some (Some (Plain e), c)
     | None \<Rightarrow> if \<not> isLeader then Some (Some (Bare ErrNotLeader), c) else Some (None, c)
   }"

text \<open>The loop variables of \<^verbatim>\<open>RecoverInDoubt\<close>.\<close>

record Recovery =
  rv_resolved :: nat
  rv_blocked :: nat
  rv_firstErr :: "CoordError option"

definition coordinator_of :: "TxRecord \<Rightarrow> ShardID" where
  "coordinator_of rc =
     (if rec_Coordinator rc = [] \<and> rec_Participants rc \<noteq> [] then hd (rec_Participants rc)
      else rec_Coordinator rc)"

text \<open>The iteration for one transaction in doubt.\<close>

definition recover_tx ::
  "GroupEnv \<Rightarrow> ShardID \<Rightarrow> TxID \<Rightarrow> Recovery \<times> Coordinator \<Rightarrow> (Recovery \<times> Coordinator) option" where
  "recover_tx env shardID txid = (\<lambda>(v, c). do {
     (m, c) \<leftarrow> read_machine env shardID c;
     case Tx txid m of
       None \<Rightarrow> Some (v, c)
     | Some rc \<Rightarrow>
         let coordID = coordinator_of rc; block = v\<lparr>rv_blocked := rv_blocked v + 1\<rparr> in
         if coordID = [] then Some (block, c)
         else if fmlookup (co_groups c) coordID = None then Some (block, c)
         else do {
           (leads, c) \<leftarrow> IsLeader env coordID c;
           if \<not> leads then Some (block, c)
           else do {
             (cm, c) \<leftarrow> read_machine env coordID c;
             let commit = (case Decision txid cm of None \<Rightarrow> False | Some b \<Rightarrow> b);
             ((res, isLeader, err), c) \<leftarrow> Propose env shardID
                (tx_cmd OpOutcome txid (rec_Cmd rc) commit (rec_Debit rc) (rec_Participants rc) coordID) c;
             case err of
               Some e \<Rightarrow> Some (block\<lparr>rv_firstErr := Some (Plain (''shard: recovering '' @ txid @ '' on ''
                           @ shardID @ '': '' @ e))\<rparr>, c)
             | None \<Rightarrow> Some (v\<lparr>rv_resolved := rv_resolved v + 1\<rparr>, c)
           }
         }
   })"

fun fold_option :: "('a \<Rightarrow> 's \<Rightarrow> 's option) \<Rightarrow> 'a list \<Rightarrow> 's \<Rightarrow> 's option" where
  "fold_option f [] s = Some s"
| "fold_option f (x # xs) s = do { s \<leftarrow> f x s; fold_option f xs s }"

definition not_caught_up :: "ShardID \<Rightarrow> CoordError \<Rightarrow> CoordError" where
  "not_caught_up shardID e =
     (let msg = ''shard: '' @ shardID @ '' not caught up for recovery: '' @ Error_text e in
      case e of Bare s \<Rightarrow> Wrapped s msg | Wrapped s _ \<Rightarrow> Wrapped s msg | Plain _ \<Rightarrow> Plain msg)"

text \<open>The iteration for one group.\<close>

definition recover_group ::
  "GroupEnv \<Rightarrow> ShardID \<Rightarrow> Recovery \<times> Coordinator \<Rightarrow> (Recovery \<times> Coordinator) option" where
  "recover_group env shardID = (\<lambda>(v, c). do {
     (leads, c) \<leftarrow> IsLeader env shardID c;
     if \<not> leads then Some (v, c)
     else do {
       (e, c) \<leftarrow> catchUp env shardID c;
       case e of
         Some e \<Rightarrow> Some (v\<lparr>rv_firstErr := (if rv_firstErr v = None then Some (not_caught_up shardID e)
                                else rv_firstErr v), rv_blocked := rv_blocked v + 1\<rparr>, c)
       | None \<Rightarrow> do {
           (m, c) \<leftarrow> read_machine env shardID c;
           fold_option (recover_tx env shardID) (ge_scan env (InDoubt m)) (v, c)
         }
     }
   })"

definition RecoverInDoubt :: "GroupEnv \<Rightarrow> Coordinator \<Rightarrow> ((nat \<times> CoordError option) \<times> Coordinator) option" where
  "RecoverInDoubt env c = do {
     (v, c) \<leftarrow> fold_option (recover_group env) (ge_range env (fmdom (co_groups c)))
        (\<lparr>rv_resolved = 0, rv_blocked = 0, rv_firstErr = None\<rparr>, c);
     Some ((rv_resolved v,
       if rv_firstErr v \<noteq> None then rv_firstErr v
       else if rv_blocked v > 0
       then Some (Wrapped ErrInDoubt (sentinel_text ErrInDoubt @ '': '' @ show_nat (rv_blocked v)
              @ '' transaction(s) still blocked awaiting a reachable coordinator''))
       else None), c)
   }"

text \<open>\<^verbatim>\<open>InDoubtCount\<close>; \<^const>\<open>None\<close> is the nil dereference for a group without a local replica.\<close>

definition InDoubtCount :: "Coordinator \<Rightarrow> nat option" where
  "InDoubtCount c =
     (if \<exists>g |\<in>| fmran (co_groups c). g = None then None
      else Some (\<Sum>sid\<in>fset (fmdom (co_groups c)).
        (case fmlookup (co_groups c) sid of Some (Some r) \<Rightarrow> fcard (InDoubt (rep_Machine r)) | _ \<Rightarrow> 0)))"

section \<open>Predicates that a group keeps\<close>

text \<open>The interface the coordinator's proofs rest on: a predicate on the machine of a group that
  every admissible log entry keeps, without panicking.\<close>

definition upheld :: "(ShardID \<Rightarrow> ShardMachine \<Rightarrow> bool) \<Rightarrow> (ShardID \<Rightarrow> bytes \<Rightarrow> bool) \<Rightarrow> Groups \<Rightarrow> bool" where
  "upheld keep fair gs \<longleftrightarrow> (\<forall>sid r. fmlookup gs sid = Some (Some r) \<longrightarrow>
     keep sid (rep_Machine r) \<and> list_all (fair sid) (rep_tail r))"

fun move_fair :: "(ShardID \<Rightarrow> bytes \<Rightarrow> bool) \<Rightarrow> ShardID \<times> Move \<Rightarrow> bool" where
  "move_fair fair (sid, Foreign d) = fair sid d"
| "move_fair fair (sid, ApplyNext) = True"
| "move_fair fair (sid, CutTail k) = True"

fun honest :: "Reply \<Rightarrow> bool" where
  "honest (Displace ds) = False"
| "honest _ = True"

definition env_fair :: "(ShardID \<Rightarrow> bytes \<Rightarrow> bool) \<Rightarrow> GroupEnv \<Rightarrow> bool" where
  "env_fair fair env \<longleftrightarrow> list_all (list_all (move_fair fair)) (ge_moves env) \<and> list_all honest (ge_reply env)"

text \<open>Which shards have a group, which of them a local replica, and the ring never change.\<close>

definition same_shape :: "Coordinator \<Rightarrow> Coordinator \<Rightarrow> bool" where
  "same_shape c c' \<longleftrightarrow> fmmap (\<lambda>g. g = None) (co_groups c') = fmmap (\<lambda>g. g = None) (co_groups c)
     \<and> co_ring c' = co_ring c"

lemma same_shape_refl [simp]: "same_shape c c"
  by (simp add: same_shape_def)

lemma same_shape_trans [trans]: "same_shape c c' \<Longrightarrow> same_shape c' c'' \<Longrightarrow> same_shape c c''"
  by (simp add: same_shape_def)

lemma same_shape_dom: "same_shape c c' \<Longrightarrow> fmdom (co_groups c') = fmdom (co_groups c)"
  unfolding same_shape_def by (metis fmdom_map)

lemma fmmap_fmupd_same:
  "fmlookup gs sid = Some x \<Longrightarrow> f y = f x \<Longrightarrow> fmmap f (fmupd sid y gs) = fmmap f gs"
  by (rule fmap_ext) auto

lemma upheldD:
  assumes "upheld keep fair gs" "fmlookup gs sid = Some (Some r)"
  shows "keep sid (rep_Machine r)" "list_all (fair sid) (rep_tail r)"
  using assms by (auto simp: upheld_def)

lemma upheld_upd:
  assumes "upheld keep fair gs" "keep sid (rep_Machine r)" "list_all (fair sid) (rep_tail r)"
  shows "upheld keep fair (fmupd sid (Some r) gs)"
  using assms by (auto simp: upheld_def)

lemma script_all: "list_all P xs \<Longrightarrow> P d \<Longrightarrow> P (script d xs n)"
  by (auto simp: script_def list_all_length)

lemma env_fair_script:
  assumes "env_fair fair env"
  shows "list_all (move_fair fair) (script [] (ge_moves env) n)" "honest (script Confirm (ge_reply env) n)"
  using assms script_all [of "list_all (move_fair fair)" "ge_moves env" "[]" n]
    script_all [of honest "ge_reply env" Confirm n]
  by (simp_all add: env_fair_def)

locale fair_log =
  fixes keep :: "ShardID \<Rightarrow> ShardMachine \<Rightarrow> bool" and fair :: "ShardID \<Rightarrow> bytes \<Rightarrow> bool"
  assumes entry_total: "keep sid m \<Longrightarrow> fair sid d \<Longrightarrow> \<exists>res m'. ApplyAt i d m = Some (res, m') \<and> keep sid m'"
begin

lemma log_total:
  "keep sid m \<Longrightarrow> list_all (fair sid) ds \<Longrightarrow> \<exists>rs m'. apply_log ApplyAt i ds m = Some (rs, m') \<and> keep sid m'"
proof (induction ds arbitrary: i m)
  case (Cons d ds)
  then obtain res m1 where m1: "ApplyAt (Suc i) d m = Some (res, m1)" "keep sid m1"
    using entry_total by fastforce
  from Cons.IH [OF m1(2), of "Suc i"] Cons.prems m1(1) show ?case by auto
qed simp

lemma move_total:
  assumes "keep sid (rep_Machine r)" "list_all (fair sid) (rep_tail r)" "move_fair fair (sid, mv)"
  shows "\<exists>r'. move mv r = Some r' \<and> keep sid (rep_Machine r') \<and> list_all (fair sid) (rep_tail r')"
proof (cases mv)
  case ApplyNext
  show ?thesis
  proof (cases "rep_tail r")
    case Nil
    then show ?thesis using assms ApplyNext by simp
  next
    case (Cons d ds)
    with assms(2) obtain res m where "ApplyAt (Suc (rep_applied r)) d (rep_Machine r) = Some (res, m)" "keep sid m"
      using entry_total [OF assms(1)] by fastforce
    with Cons ApplyNext assms(2) show ?thesis by simp
  qed
next
  case (CutTail k)
  then show ?thesis using assms by (auto simp: list_all_iff dest: in_set_takeD)
qed (use assms in auto)

lemma group_moves_total:
  assumes "upheld keep fair gs" "list_all (move_fair fair) ms"
  shows "\<exists>gs'. group_moves ms gs = Some gs' \<and> upheld keep fair gs'
    \<and> fmmap (\<lambda>g. g = None) gs' = fmmap (\<lambda>g. g = None) gs"
  using assms
proof (induction ms arbitrary: gs)
  case (Cons p ms)
  obtain sid mv where p: "p = (sid, mv)" by fastforce
  show ?case
  proof (cases "\<exists>r. fmlookup gs sid = Some (Some r)")
    case True
    then obtain r where r: "fmlookup gs sid = Some (Some r)" by blast
    obtain r' where r': "move mv r = Some r'" "keep sid (rep_Machine r')" "list_all (fair sid) (rep_tail r')"
      using move_total [OF upheldD [OF Cons.prems(1) r], of mv] Cons.prems(2) p by auto
    have "upheld keep fair (fmupd sid (Some r') gs)" using Cons.prems(1) r'(2,3) by (rule upheld_upd)
    from Cons.IH [OF this] Cons.prems(2) p r r'(1) show ?thesis
      by (auto simp: fmmap_fmupd_same)
  next
    case False
    with p have "group_moves (p # ms) gs = group_moves ms gs" by (auto split: option.splits)
    with Cons.IH [OF Cons.prems(1)] Cons.prems(2) show ?thesis by simp
  qed
qed simp

lemma tick_total:
  assumes "upheld keep fair (co_groups c)" "env_fair fair env"
  shows "\<exists>c'. tick env c = Some c' \<and> upheld keep fair (co_groups c') \<and> same_shape c c'"
  using group_moves_total [OF assms(1) env_fair_script(1) [OF assms(2)], of "co_calls c"]
  by (auto simp: tick_def same_shape_def)

lemma Propose_total:
  assumes "upheld keep fair (co_groups c)" "env_fair fair env" "fair sid (EncodeCommand cmd)"
    and "sid |\<in>| fmdom (co_groups c)"
  shows "\<exists>x c'. Propose env sid cmd c = Some (x, c') \<and> upheld keep fair (co_groups c') \<and> same_shape c c'"
proof -
  obtain c1 where c1: "tick env c = Some c1" "upheld keep fair (co_groups c1)" "same_shape c c1"
    using tick_total [OF assms(1,2)] by blast
  obtain g where g: "fmlookup (co_groups c1) sid = Some g"
    using assms(4) same_shape_dom [OF c1(3)] by (metis fmlookup_dom_iff)
  show ?thesis
  proof (cases g)
    case None
    then show ?thesis using c1 g by (auto simp: Propose_def)
  next
    case (Some r)
    note k = upheldD [OF c1(2) g [unfolded Some]]
    obtain rs m where m: "apply_log ApplyAt (rep_applied r) (rep_tail r @ [EncodeCommand cmd]) (rep_Machine r)
        = Some (rs, m)" "keep sid m"
      using log_total [OF k(1), of "rep_tail r @ [EncodeCommand cmd]" "rep_applied r"] k(2) assms(3) by auto
    have sh: "same_shape c (put_group sid r' c1)" for r'
      using c1(3) g Some by (simp add: same_shape_def fmmap_fmupd_same)
    have up: "upheld keep fair (co_groups (put_group sid (r\<lparr>rep_tail := rep_tail r @ [EncodeCommand cmd]\<rparr>) c1))"
      "upheld keep fair (co_groups (put_group sid \<lparr>rep_Machine = m, rep_applied = i, rep_tail = []\<rparr> c1))" for i
      using c1(2) k assms(3) m(2) by (auto intro!: upheld_upd)
    show ?thesis
      using env_fair_script(2) [OF assms(2), of "co_calls c"] c1 g Some m(1) sh up
      by (cases "script Confirm (ge_reply env) (co_calls c)") (auto simp: Propose_def Let_def)
  qed
qed

lemma read_machine_total:
  assumes "upheld keep fair (co_groups c)" "env_fair fair env" "fmlookup (co_groups c) sid = Some (Some r)"
  shows "\<exists>m c'. read_machine env sid c = Some (m, c') \<and> upheld keep fair (co_groups c') \<and> same_shape c c'
    \<and> keep sid m"
proof -
  obtain c1 where c1: "tick env c = Some c1" "upheld keep fair (co_groups c1)" "same_shape c c1"
    using tick_total [OF assms(1,2)] by blast
  have "fmlookup (fmmap (\<lambda>g. g = None) (co_groups c1)) sid = fmlookup (fmmap (\<lambda>g. g = None) (co_groups c)) sid"
    using c1(3) by (simp add: same_shape_def)
  with assms(3) obtain r' where "fmlookup (co_groups c1) sid = Some (Some r')" by auto
  with c1 upheldD(1) [OF c1(2)] show ?thesis by (auto simp: read_machine_def)
qed

lemma decide_total:
  assumes "upheld keep fair (co_groups c)" "env_fair fair env"
    and "\<And>opr. opr = OpDecision \<or> opr = OpOutcome \<Longrightarrow> fair dg (EncodeCommand (tx_cmd opr txid cmd commit True ps co))"
    and "fair cg (EncodeCommand (tx_cmd OpOutcome txid cmd commit False ps co))"
    and "dg |\<in>| fmdom (co_groups c)" "cg |\<in>| fmdom (co_groups c)"
  shows "\<exists>e c'. decide env txid cmd ps co commit dg cg c = Some (e, c') \<and> upheld keep fair (co_groups c')
    \<and> same_shape c c'"
proof -
  let ?p = "\<lambda>sid opr d. Propose env sid (tx_cmd opr txid cmd commit d ps co)"
  obtain x1 c1 where 1: "?p dg OpDecision True c = Some (x1, c1)" "upheld keep fair (co_groups c1)" "same_shape c c1"
    using Propose_total [OF assms(1,2) assms(3) assms(5)] by blast
  note d1 = same_shape_dom [OF 1(3)]
  obtain x2 c2 where 2: "?p dg OpOutcome True c1 = Some (x2, c2)" "upheld keep fair (co_groups c2)" "same_shape c1 c2"
    using Propose_total [OF 1(2) assms(2) assms(3), of OpOutcome] assms(5) d1 by auto
  note d2 = same_shape_dom [OF 2(3)]
  obtain x3 c3 where 3: "?p cg OpOutcome False c2 = Some (x3, c3)" "upheld keep fair (co_groups c3)" "same_shape c2 c3"
    using Propose_total [OF 2(2) assms(2) assms(4)] assms(6) d1 d2 by auto
  have "same_shape c c3" using 1(3) 2(3) 3(3) same_shape_trans by blast
  with 1 2 3 show ?thesis
    by (cases "fst (snd x1)"; cases "snd (snd x1)"; cases x1; cases x2; cases x3) (simp_all add: decide_def)
qed

end

text \<open>Every entry whatsoever keeps the invariant of the shard machine.\<close>

interpretation any_entry: fair_log "\<lambda>sid. shard_inv" "\<lambda>sid d. True"
  by unfold_locales (rule ApplyAt_inv)

section \<open>What a transaction can still become\<close>

text \<open>An entry of the commit protocol for a given transaction, and the entries that may still follow
  once its outcome is \<open>b\<close>: prepares, and decisions and outcomes that say \<open>b\<close>.\<close>

definition about :: "TxID \<Rightarrow> bytes \<Rightarrow> bool" where
  "about txid d = (case DecodeCommand d of Inl e \<Rightarrow> False | Inr c \<Rightarrow> sc_TxID c = txid \<and> sc_Op c \<noteq> OpSingle)"

definition says :: "bool \<Rightarrow> TxID \<Rightarrow> bytes \<Rightarrow> bool" where
  "says b txid d = (case DecodeCommand d of Inl e \<Rightarrow> True
     | Inr c \<Rightarrow> sc_TxID c = txid \<and> sc_Op c \<noteq> OpSingle \<longrightarrow> sc_Op c = OpPrepare \<or> sc_Commit c = b)"

text \<open>A shard where the transaction can no longer commit, or no longer abort.\<close>

definition leans :: "bool \<Rightarrow> TxID \<Rightarrow> ShardMachine \<Rightarrow> bool" where
  "leans b txid m =
     (case Tx txid m of
        None \<Rightarrow> \<not> b
      | Some r \<Rightarrow> (rec_Decided r \<longrightarrow> rec_Commit r = b)
          \<and> (if b then rec_Phase r = PhasePrepared \<or> rec_Phase r = PhaseCommitted
             else rec_Phase r \<noteq> PhaseCommitted))"

definition lean_keep :: "bool \<Rightarrow> ShardID list \<Rightarrow> TxID \<Rightarrow> ShardID \<Rightarrow> ShardMachine \<Rightarrow> bool" where
  "lean_keep b S txid sid m \<longleftrightarrow> shard_inv m \<and> (sid \<in> set S \<longrightarrow> leans b txid m)"

definition lean_fair :: "bool \<Rightarrow> ShardID list \<Rightarrow> TxID \<Rightarrow> ShardID \<Rightarrow> bytes \<Rightarrow> bool" where
  "lean_fair b S txid sid d \<longleftrightarrow> (sid \<in> set S \<longrightarrow> says b txid d)"

lemma leans_cong: "fmlookup (sm_txs m) txid = fmlookup (sm_txs m') txid \<Longrightarrow> leans b txid m = leans b txid m'"
  by (simp add: leans_def Tx_def)

lemma apply_cmd_other:
  assumes "apply_cmd cmd m = Some (res, m')" "sc_TxID cmd \<noteq> txid \<or> sc_Op cmd = OpSingle"
  shows "fmlookup (sm_txs m') txid = fmlookup (sm_txs m) txid"
  using assms
  by (auto simp: apply_cmd_def applyPrepare_def applyDecision_def applyOutcome_def put_tx_def Let_def ShardOp_defs
      bind_Some_iff split: if_splits option.splits prod.splits)

lemma leans_prepare:
  assumes "applyPrepare cmd m = (res, m')" "sc_TxID cmd = txid" "leans b txid m"
  shows "leans b txid m'"
proof (cases "prepare_known cmd m")
  case (Some x)
  then show ?thesis using assms by (simp add: applyPrepare_def)
next
  case None
  then have "\<not> b" using assms(2,3)
    by (cases "fmlookup (sm_txs m) txid") (auto simp: leans_def Tx_def prepare_known_def split: if_splits)
  with None assms(1,2) show ?thesis
    by (auto simp: applyPrepare_def put_tx_def Let_def leans_def Tx_def split: prod.splits if_splits)
qed

lemma leans_decision:
  assumes "applyDecision cmd m = (res, m')" "sc_TxID cmd = txid" "leans b txid m" "sc_Commit cmd = b"
  shows "leans b txid m'"
proof -
  note f = decided_record_fields(3,4) [of cmd m] decided_record_fields(1,2) [where m = m and cmd = cmd]
  show ?thesis using assms f
    by (cases "fmlookup (sm_txs m) txid") (auto simp: applyDecision_def leans_def Tx_def)
qed

lemma leans_outcome:
  assumes "applyOutcome cmd m = Some (res, m')" "sc_TxID cmd = txid" "leans b txid m" "sc_Commit cmd = b"
  shows "leans b txid m'"
  using assms
  by (auto simp: applyOutcome_def Let_def bind_Some_iff leans_def Tx_def split: option.splits if_splits)

lemma leans_apply_cmd:
  assumes "apply_cmd cmd m = Some (res, m')" "leans b txid m"
    and "sc_TxID cmd = txid \<and> sc_Op cmd \<noteq> OpSingle \<longrightarrow> sc_Op cmd = OpPrepare \<or> sc_Commit cmd = b"
  shows "leans b txid m'"
proof (cases "sc_TxID cmd = txid \<and> sc_Op cmd \<noteq> OpSingle")
  case True
  with assms show ?thesis
    by (auto simp: apply_cmd_def split: if_splits intro: leans_prepare leans_decision leans_outcome)
next
  case False
  then have "fmlookup (sm_txs m') txid = fmlookup (sm_txs m) txid"
    using apply_cmd_other [OF assms(1)] by blast
  with assms(2) show ?thesis using leans_cong by blast
qed

lemma leans_ApplyAt:
  assumes "ApplyAt i d m = Some (res, m')" "leans b txid m" "says b txid d"
  shows "leans b txid m'"
proof -
  obtain m1 where m1: "shard_apply d m = Some (res, m1)" "sm_txs m' = sm_txs m1"
    using ApplyAt_txs [OF assms(1)] by blast
  have "leans b txid m1"
    using m1(1)
  proof (cases rule: shard_apply_cases)
    case 1
    then show ?thesis using assms(2) by simp
  next
    case (2 cmd)
    then show ?thesis using leans_apply_cmd [OF 2(2) assms(2)] assms(3) by (simp add: says_def)
  qed
  with m1(2) show ?thesis using leans_cong by metis
qed

interpretation lean: fair_log "lean_keep b S txid" "lean_fair b S txid" for b S txid
proof
  fix sid m d i assume k: "lean_keep b S txid sid m" "lean_fair b S txid sid d"
  then obtain res m' where m': "ApplyAt i d m = Some (res, m')" "shard_inv m'"
    using ApplyAt_inv [of m i d] by (auto simp: lean_keep_def)
  with k show "\<exists>res m'. ApplyAt i d m = Some (res, m') \<and> lean_keep b S txid sid m'"
    using leans_ApplyAt [OF m'(1)] by (auto simp: lean_keep_def lean_fair_def)
qed

text \<open>The environment's own entries are about other transactions.\<close>

fun move_quiet :: "TxID \<Rightarrow> ShardID \<times> Move \<Rightarrow> bool" where
  "move_quiet txid (sid, Foreign d) = (\<not> about txid d)"
| "move_quiet txid (sid, ApplyNext) = True"
| "move_quiet txid (sid, CutTail k) = True"

definition quiet :: "TxID \<Rightarrow> GroupEnv \<Rightarrow> bool" where
  "quiet txid env \<longleftrightarrow> list_all (list_all (move_quiet txid)) (ge_moves env) \<and> list_all honest (ge_reply env)"

lemma not_about_says: "\<not> about txid d \<Longrightarrow> says b txid d"
  by (auto simp: about_def says_def split: sum.splits)

lemma move_quiet_fair: "move_quiet txid p \<Longrightarrow> move_fair (lean_fair b S txid) p"
  by (cases "(txid, p)" rule: move_quiet.cases) (auto simp: lean_fair_def not_about_says)

lemma quiet_fair: "quiet txid env \<Longrightarrow> env_fair (lean_fair b S txid) env"
  unfolding quiet_def env_fair_def by (auto simp: list_all_iff move_quiet_fair)

lemma says_EncodeCommand:
  "shard_wire_ok cmd \<Longrightarrow> says b txid (EncodeCommand cmd) =
     (sc_TxID cmd = txid \<and> sc_Op cmd \<noteq> OpSingle \<longrightarrow> sc_Op cmd = OpPrepare \<or> sc_Commit cmd = b)"
  by (simp add: says_def DecodeCommand_EncodeCommand_ok)

text \<open>A proposal that an honest group reports as applied was applied, behind everything before it in
  the log, and the reported result is its own.\<close>

lemma Propose_confirmed:
  assumes "Propose env sid cmd c = Some ((res, True, None), c')" "list_all honest (ge_reply env)"
  obtains c1 r rs m m1 m' where "tick env c = Some c1" "fmlookup (co_groups c1) sid = Some (Some r)"
    "apply_log ApplyAt (rep_applied r) (rep_tail r) (rep_Machine r) = Some (rs, m)"
    "shard_apply (EncodeCommand cmd) m = Some (res, m1)"
    "sm_txs m' = sm_txs m1" "sm_State m' = sm_State m1"
    "co_groups c' = fmupd sid (Some \<lparr>rep_Machine = m', rep_applied = rep_applied r + length (rep_tail r) + 1,
       rep_tail = []\<rparr>) (co_groups c1)"
    "co_calls c' = co_calls c1" "co_ring c' = co_ring c1" "co_clock c' = co_clock c1"
proof -
  have "honest (script Confirm (ge_reply env) (co_calls c))" using assms(2) by (simp add: script_all)
  with assms(1) obtain c1 r rs m' where a: "tick env c = Some c1" "fmlookup (co_groups c1) sid = Some (Some r)"
      "apply_log ApplyAt (rep_applied r) (rep_tail r @ [EncodeCommand cmd]) (rep_Machine r) = Some (rs, m')"
      "res = AppliedResult (rep_applied r + length (rep_tail r) + 1) m'"
      "c' = put_group sid \<lparr>rep_Machine = m', rep_applied = rep_applied r + length (rep_tail r) + 1,
         rep_tail = []\<rparr> c1"
    by (cases "script Confirm (ge_reply env) (co_calls c)")
      (auto simp: Propose_def Let_def bind_Some_iff split: option.splits)
  then obtain rs1 m res1 where b: "apply_log ApplyAt (rep_applied r) (rep_tail r) (rep_Machine r) = Some (rs1, m)"
      "ApplyAt (Suc (rep_applied r + length (rep_tail r))) (EncodeCommand cmd) m = Some (res1, m')"
    by (auto simp: apply_log_append bind_Some_iff)
  then obtain m1 where "shard_apply (EncodeCommand cmd) m = Some (res1, m1)"
      "m' = m1\<lparr>sm_byIndex := fmupd (Suc (rep_applied r + length (rep_tail r))) res1 (sm_byIndex m1)\<rparr>"
    by (auto simp: ApplyAt_def bind_Some_iff)
  with a b that [of c1 r rs1 m m1 m'] show ?thesis by (simp add: AppliedResult_def)
qed

text \<open>A YES vote on a transaction that nobody has committed leaves it prepared and undecided, with no
  entry for it behind: from here only the coordinator's decision can abort it.\<close>

lemma yes_vote_leans:
  assumes "Propose env sid cmd c = Some ((res, True, None), c')" "list_all honest (ge_reply env)" "OK res"
    and "shard_wire_ok cmd" "sc_Op cmd = OpPrepare"
  obtains r where "fmlookup (co_groups c') sid = Some (Some r)" "rep_tail r = []"
    "leans True (sc_TxID cmd) (rep_Machine r)"
proof (rule Propose_confirmed [OF assms(1,2)])
  fix c1 r rs m m1 m'
  assume a: "shard_apply (EncodeCommand cmd) m = Some (res, m1)" "sm_txs m' = sm_txs m1"
    "co_groups c' = fmupd sid (Some \<lparr>rep_Machine = m', rep_applied = rep_applied r + length (rep_tail r) + 1,
       rep_tail = []\<rparr>) (co_groups c1)"
  then have "applyPrepare cmd m = (res, m1)"
    using assms(4,5) by (simp add: shard_apply_def DecodeCommand_EncodeCommand_ok apply_cmd_def ShardOp_defs)
  with assms(3) have "leans True (sc_TxID cmd) m1"
    by (auto simp: applyPrepare_def prepare_known_def put_tx_def leans_def Tx_def Let_def
        split: option.splits prod.splits if_splits)
  then have "leans True (sc_TxID cmd) m'" using leans_cong a(2) by metis
  with that a(3) show thesis by simp
qed

lemma upheld_lean_extend:
  assumes "upheld (lean_keep b S txid) (lean_fair b S txid) gs"
    and "fmlookup gs sid = Some (Some r)" "leans b txid (rep_Machine r)" "rep_tail r = []"
  shows "upheld (lean_keep b (sid # S) txid) (lean_fair b (sid # S) txid) gs"
  using assms unfolding upheld_def by (auto simp: lean_keep_def lean_fair_def list_all_iff)

lemma upheld_lean_inv:
  assumes "upheld (lean_keep b S txid) (lean_fair b S txid) gs"
  shows "upheld (lean_keep b' [] txid) (lean_fair b' [] txid) gs"
  using assms unfolding upheld_def by (auto simp: lean_keep_def lean_fair_def list_all_iff)

text \<open>The sizes that the wire format can carry.\<close>

definition transfer_fits :: "TxID \<Rightarrow> Command \<Rightarrow> ShardID \<Rightarrow> ShardID \<Rightarrow> bool" where
  "transfer_fits txid cmd fs ts \<longleftrightarrow> length txid < 65536 \<and> length fs < 65536 \<and> length ts < 65536 \<and> wire_ok cmd"

lemma transfer_fits_wire:
  "transfer_fits txid cmd fs ts \<Longrightarrow> shard_wire_ok (tx_cmd opr txid cmd commit debit [fs, ts] fs)"
  by (simp add: transfer_fits_def shard_wire_ok_def)

abbreviation leaning :: "bool \<Rightarrow> ShardID list \<Rightarrow> TxID \<Rightarrow> Coordinator \<Rightarrow> bool" where
  "leaning b S txid c \<equiv> upheld (lean_keep b S txid) (lean_fair b S txid) (co_groups c)"

text \<open>Each reply of \<^verbatim>\<open>twoPhase\<close> with what it implies.\<close>

lemma decide_leans:
  assumes "leaning b [ts, fs] txid c" "quiet txid env" "transfer_fits txid cmd fs ts"
    and "fs |\<in>| fmdom (co_groups c)" "ts |\<in>| fmdom (co_groups c)"
  shows "\<exists>e c'. decide env txid cmd [fs, ts] fs b fs ts c = Some (e, c') \<and> leaning b [ts, fs] txid c' \<and> same_shape c c'"
  by (rule lean.decide_total [OF assms(1) quiet_fair [OF assms(2)] _ _ assms(4,5)])
    (auto simp: lean_fair_def says_EncodeCommand transfer_fits_wire [OF assms(3)])

lemma prepare_leans:
  assumes "leaning b S txid c" "quiet txid env" "transfer_fits txid cmd fs ts" "sid |\<in>| fmdom (co_groups c)"
    and "Propose env sid (tx_cmd OpPrepare txid cmd False d [fs, ts] fs) c = Some (x, c')"
  shows "leaning b S txid c'" "same_shape c c'"
proof -
  have "lean_fair b S txid sid (EncodeCommand (tx_cmd OpPrepare txid cmd False d [fs, ts] fs))"
    by (simp add: lean_fair_def says_EncodeCommand transfer_fits_wire [OF assms(3)])
  from lean.Propose_total [OF assms(1) quiet_fair [OF assms(2)] this assms(4)] assms(5)
  show "leaning b S txid c'" "same_shape c c'" by auto
qed

definition may_commit :: "CoordError option \<Rightarrow> bool" where
  "may_commit err \<longleftrightarrow> err = None \<or> err = Some (Bare ErrInDoubt)"

lemma credit_refused_aborts: "\<not> may_commit (snd (credit_refused ts v l e))"
  by (auto simp: credit_refused_def may_commit_def split: option.splits)

lemma twoPhase_leans:
  assumes inv: "leaning False [ts, fs] txid c" and q: "quiet txid env" and w: "transfer_fits txid cmd fs ts"
  shows "\<exists>res err c'. twoPhase env txid cmd fs ts c = Some ((res, err), c')
    \<and> leaning (may_commit err) [ts, fs] txid c' \<and> (err = None \<longrightarrow> OK res) \<and> same_shape c c'"
proof (cases "fs |\<in>| fmdom (co_groups c) \<and> ts |\<in>| fmdom (co_groups c)")
  case False
  then show ?thesis using inv
    by (cases "fmlookup (co_groups c) fs") (auto simp: twoPhase_def may_commit_def fmlookup_dom_iff)
next
  case True
  then obtain gf gt where d: "fmlookup (co_groups c) fs = Some gf" "fmlookup (co_groups c) ts = Some gt"
    by (auto simp: fmlookup_dom_iff)
  let ?p = "\<lambda>d. tx_cmd OpPrepare txid cmd False d [fs, ts] fs"
  have h: "list_all honest (ge_reply env)" using q by (simp add: quiet_def)
  have f: "lean_fair False [ts, fs] txid sid (EncodeCommand (?p d))" for sid d
    by (simp add: lean_fair_def says_EncodeCommand transfer_fits_wire [OF w])
  obtain v1 l1 e1 c1 where 1: "Propose env fs (?p True) c = Some ((v1, l1, e1), c1)"
    using lean.Propose_total [OF inv quiet_fair [OF q] f conjunct1 [OF True]] by fastforce
  note s1 = prepare_leans [OF inv q w conjunct1 [OF True] 1]
  have D1: "fs |\<in>| fmdom (co_groups c1)" "ts |\<in>| fmdom (co_groups c1)"
    using True same_shape_dom [OF s1(2)] by simp_all
  obtain ea ca where a: "decide env txid cmd [fs, ts] fs False fs ts c1 = Some (ea, ca)"
      "leaning False [ts, fs] txid ca" "same_shape c1 ca"
    using decide_leans [OF s1(1) q w D1] by blast
  show ?thesis
  proof (cases "l1 \<and> e1 = None \<and> OK v1")
    case False
    then show ?thesis using d 1 s1 a same_shape_trans [OF s1(2) a(3)]
      by (auto simp: twoPhase_def may_commit_def Let_def)
  next
    case yes1: True
    obtain v2 l2 e2 c2 where 2: "Propose env ts (?p False) c1 = Some ((v2, l2, e2), c2)"
      using lean.Propose_total [OF s1(1) quiet_fair [OF q] f D1(2)] by fastforce
    note s2 = prepare_leans [OF s1(1) q w D1(2) 2]
    have D2: "fs |\<in>| fmdom (co_groups c2)" "ts |\<in>| fmdom (co_groups c2)"
      using D1 same_shape_dom [OF s2(2)] by simp_all
    have sh: "same_shape c c2" by (rule same_shape_trans [OF s1(2) s2(2)])
    obtain ea ca where a: "decide env txid cmd [fs, ts] fs False fs ts c2 = Some (ea, ca)"
        "leaning False [ts, fs] txid ca" "same_shape c2 ca"
      using decide_leans [OF s2(1) q w D2] by blast
    show ?thesis
    proof (cases "l2 \<and> e2 = None \<and> OK v2")
      case False
      obtain res err where cr: "credit_refused ts v2 l2 e2 = (res, err)" by fastforce
      then have "\<not> may_commit err" using credit_refused_aborts [of ts v2 l2 e2] by simp
      with a(2) have l: "leaning (may_commit err) [ts, fs] txid ca" by simp
      have "e2 \<noteq> None \<or> \<not> l2 \<or> \<not> OK v2" using False by simp
      then have "twoPhase env txid cmd fs ts c = Some ((res, err), ca)"
        using d yes1 1 2 a(1) cr by (simp add: twoPhase_def Let_def)
      moreover have "err \<noteq> None" using \<open>\<not> may_commit err\<close> by (auto simp: may_commit_def)
      ultimately show ?thesis using l same_shape_trans [OF sh a(3)] by blast
    next
      case yes2: True
      have p1: "Propose env fs (?p True) c = Some ((v1, True, None), c1)" using 1 yes1 by simp
      obtain r1 where r1: "fmlookup (co_groups c1) fs = Some (Some r1)" "rep_tail r1 = []"
          "leans True txid (rep_Machine r1)"
        using yes_vote_leans [OF p1 h _ transfer_fits_wire [OF w]] yes1 by auto
      have p2: "Propose env ts (?p False) c1 = Some ((v2, True, None), c2)" using 2 yes2 by simp
      obtain r2 where r2: "fmlookup (co_groups c2) ts = Some (Some r2)" "rep_tail r2 = []"
          "leans True txid (rep_Machine r2)"
        using yes_vote_leans [OF p2 h _ transfer_fits_wire [OF w]] yes2 by auto
      have "leaning True [fs] txid c1" by (rule upheld_lean_extend [OF upheld_lean_inv [OF s1(1)] r1(1,3,2)])
      then have "leaning True [fs] txid c2" by (rule prepare_leans(1) [OF _ q w D1(2) 2])
      then have L: "leaning True [ts, fs] txid c2" by (rule upheld_lean_extend [OF _ r2(1,3,2)])
      obtain ec cc where c: "decide env txid cmd [fs, ts] fs True fs ts c2 = Some (ec, cc)"
          "leaning True [ts, fs] txid cc" "same_shape c2 cc"
        using decide_leans [OF L q w D2] by blast
      have "fmlookup (fmmap (\<lambda>g. g = None) (co_groups cc)) fs = fmlookup (fmmap (\<lambda>g. g = None) (co_groups c1)) fs"
        using same_shape_trans [OF s2(2) c(3)] by (simp add: same_shape_def)
      with r1(1) obtain rc where "fmlookup (co_groups cc) fs = Some (Some rc)" by auto
      from lean.read_machine_total [OF c(2) quiet_fair [OF q] this] obtain m cm
        where m: "read_machine env fs cc = Some (m, cm)" "leaning True [ts, fs] txid cm" "same_shape cc cm" by blast
      note sc = same_shape_trans [OF sh c(3)]
      show ?thesis
      proof (cases "ec = None")
        case True
        then have "twoPhase env txid cmd fs ts c
            = Some ((succeeded (fst (Available (cmd_From cmd) (sm_State m))), None), cm)"
          using d yes1 yes2 1 2 c(1) m(1) by (simp add: twoPhase_def Let_def)
        with m(2) same_shape_trans [OF sc m(3)] show ?thesis by (simp add: may_commit_def)
      next
        case False
        then have "twoPhase env txid cmd fs ts c = Some ((zero_result, Some (Bare ErrInDoubt)), cc)"
          using d yes1 yes2 1 2 c(1) by (simp add: twoPhase_def Let_def)
        with c(2) sc show ?thesis by (simp add: may_commit_def)
      qed
    qed
  qed
qed

definition phase_at :: "ShardID \<Rightarrow> TxID \<Rightarrow> Groups \<Rightarrow> Phase option" where
  "phase_at sid txid gs =
     (case fmlookup gs sid of Some (Some r) \<Rightarrow> map_option rec_Phase (Tx txid (rep_Machine r)) | _ \<Rightarrow> None)"

text \<open>Sound groups of which the two shards have not committed the transaction, decided to, or have an
  entry in their log that says so.\<close>

definition uncommitted :: "ShardID list \<Rightarrow> TxID \<Rightarrow> Groups \<Rightarrow> bool" where
  "uncommitted S txid gs \<longleftrightarrow> upheld (lean_keep False S txid) (lean_fair False S txid) gs"

lemma leaning_phase:
  assumes "upheld (lean_keep b S txid) (lean_fair b S txid) gs" "sid \<in> set S"
  shows "phase_at sid txid gs \<noteq> Some (if b then PhaseAborted else PhaseCommitted)"
proof (cases "\<exists>r. fmlookup gs sid = Some (Some r)")
  case True
  then obtain r where r: "fmlookup gs sid = Some (Some r)" by blast
  have "leans b txid (rep_Machine r)" using upheldD(1) [OF assms(1) r] assms(2) by (simp add: lean_keep_def)
  with r show ?thesis by (auto simp: phase_at_def leans_def split: option.splits if_splits)
qed (auto simp: phase_at_def split: option.splits)

lemma stamp_command_simps:
  assumes "stamp_command env cmd c = (cmd', c')"
  shows "cmd_Op cmd' = cmd_Op cmd" "cmd_From cmd' = cmd_From cmd" "cmd_To cmd' = cmd_To cmd"
    "cmd_Amount cmd' = cmd_Amount cmd" "cmd_IdempotencyKey cmd' = cmd_IdempotencyKey cmd"
    "co_groups c' = co_groups c" "co_ring c' = co_ring c" "co_calls c' = co_calls c"
  using assms by (auto simp: stamp_command_def split: if_splits prod.splits)

lemma Transfer_cross_shard:
  assumes "stamp_command env cmd c = (cmd', c')" "cmd_Op cmd = OpTransfer"
    and "ShardFor c (cmd_From cmd) = fs" "ShardFor c (cmd_To cmd) = ts" "fs \<noteq> ts"
  shows "Transfer env txid cmd c = twoPhase env txid cmd' fs ts c'"
  using assms(2-5) stamp_command_simps [OF assms(1)]
  by (simp add: Transfer_def assms(1) ShardFor_def Op_defs)

end
