(* ===== verification/CoordinatorRuns.thy ===== *)
theory CoordinatorRuns
  imports ShardCoordinator
begin

text \<open>
  Whole runs of the coordinator of src/shard/coordinator.go. Whatever the environment does, a
  cross-shard transfer is not committed at one shard and aborted at the other. An undisturbed cross-shard transfer
  moves the money and reports the remaining balance. An undisturbed recovery leaves nothing in
  doubt and follows the logged decisions. Two results show where
  a transfer's safety needs its hypotheses: a recovery that overtakes a running transfer, and a
  write that another leader's entry displaced.
\<close>

section \<open>Any transfer\<close>

lemma Transfer_leans:
  assumes "uncommitted [ts, fs] txid (co_groups c)" "quiet txid env"
    and "cmd_Op cmd = OpTransfer" "transfer_fits txid cmd fs ts"
    and "ShardFor c (cmd_From cmd) = fs" "ShardFor c (cmd_To cmd) = ts" "fs \<noteq> ts"
  obtains res err c' where "Transfer env txid cmd c = Some ((res, err), c')"
    "leaning (may_commit err) [ts, fs] txid c'" "err = None \<longrightarrow> OK res"
proof -
  obtain cmd' c0 where st: "stamp_command env cmd c = (cmd', c0)" by fastforce
  note s = stamp_command_simps [OF st]
  have w: "transfer_fits txid cmd' fs ts" using assms(4) s by (simp add: transfer_fits_def wire_ok_def)
  have "leaning False [ts, fs] txid c0" using assms(1) s by (simp add: uncommitted_def)
  from twoPhase_leans [OF this assms(2) w] obtain res err c' where
    t: "twoPhase env txid cmd' fs ts c0 = Some ((res, err), c')" "leaning (may_commit err) [ts, fs] txid c'"
    "err = None \<longrightarrow> OK res" by blast
  with that t Transfer_cross_shard [OF st assms(3,5-7)] show ?thesis by simp
qed

text \<open>What that means for the phases, then and later.\<close>

lemma leaning_later:
  assumes "leaning b [ts, fs] txid c" "list_all (move_quiet txid) later"
  shows "\<exists>gs. group_moves later (co_groups c) = Some gs
    \<and> phase_at fs txid gs \<noteq> Some (if b then PhaseAborted else PhaseCommitted)
    \<and> phase_at ts txid gs \<noteq> Some (if b then PhaseAborted else PhaseCommitted)"
proof -
  have "list_all (move_fair (lean_fair b [ts, fs] txid)) later"
    using assms(2) by (auto simp: list_all_iff move_quiet_fair)
  from lean.group_moves_total [OF assms(1) this] obtain gs where
    g: "group_moves later (co_groups c) = Some gs" "upheld (lean_keep b [ts, fs] txid) (lean_fair b [ts, fs] txid) gs"
    by blast
  moreover have "phase_at fs txid gs \<noteq> Some (if b then PhaseAborted else PhaseCommitted)"
    "phase_at ts txid gs \<noteq> Some (if b then PhaseAborted else PhaseCommitted)"
    by (rule leaning_phase [OF g(2)], simp)+
  ultimately show ?thesis by blast
qed


section \<open>An undisturbed transfer\<close>

definition calm :: "GroupEnv \<Rightarrow> bool" where
  "calm env \<longleftrightarrow> list_all (\<lambda>ms. ms = []) (ge_moves env) \<and> list_all (\<lambda>r. r = Confirm) (ge_reply env)
     \<and> list_all (\<lambda>b. b) (ge_leads env)"

lemma calm_script:
  assumes "calm env"
  shows "script [] (ge_moves env) n = []" "script Confirm (ge_reply env) n = Confirm" "script True (ge_leads env) n"
  using assms script_all [of "\<lambda>ms. ms = []" "ge_moves env" "[]" n] script_all [of "\<lambda>r. r = Confirm" "ge_reply env" Confirm n]
    script_all [of "\<lambda>b. b" "ge_leads env" True n]
  by (simp_all add: calm_def)

text \<open>Only the call with number \<open>n\<close> is undisturbed.\<close>

definition calm_at :: "GroupEnv \<Rightarrow> nat \<Rightarrow> bool" where
  "calm_at env n \<longleftrightarrow> script [] (ge_moves env) n = [] \<and> script Confirm (ge_reply env) n = Confirm
     \<and> script True (ge_leads env) n"

lemma calm_calm_at: "calm env \<Longrightarrow> calm_at env n"
  by (simp add: calm_at_def calm_script)

lemma tick_calm_at: "calm_at env (co_calls c) \<Longrightarrow> tick env c = Some (c\<lparr>co_calls := Suc (co_calls c)\<rparr>)"
  by (simp add: tick_def calm_at_def)

lemmas tick_calm = tick_calm_at [OF calm_calm_at]

text \<open>The machine of a group with nothing pending.\<close>

definition machine_at :: "ShardID \<Rightarrow> Coordinator \<Rightarrow> ShardMachine option" where
  "machine_at sid c =
     (case fmlookup (co_groups c) sid of
        Some (Some r) \<Rightarrow> if rep_tail r = [] then Some (rep_Machine r) else None
      | _ \<Rightarrow> None)"

text \<open>What a machine is as far as later entries can tell: all but the results it remembers.\<close>

definition core_eq :: "ShardMachine \<Rightarrow> ShardMachine \<Rightarrow> bool" where
  "core_eq m m' \<longleftrightarrow> sm_txs m' = sm_txs m \<and> sm_State m' = sm_State m"

lemma Propose_calm_at:
  assumes "calm_at env (co_calls c)" "machine_at sid c = Some m" "shard_wire_ok cmd" "apply_cmd cmd m = Some (res, m')"
  obtains c' m1 where "Propose env sid cmd c = Some ((res, True, None), c')" "machine_at sid c' = Some m1"
    "core_eq m' m1" "\<And>s. s \<noteq> sid \<Longrightarrow> machine_at s c' = machine_at s c" "same_shape c c'"
    "co_calls c' = Suc (co_calls c)"
proof -
  from assms(2) obtain r where r: "fmlookup (co_groups c) sid = Some (Some r)" "rep_tail r = []" "m = rep_Machine r"
    by (auto simp: machine_at_def split: option.splits if_splits)
  let ?i = "Suc (rep_applied r)"
  let ?m = "m'\<lparr>sm_byIndex := fmupd ?i res (sm_byIndex m')\<rparr>"
  let ?c = "put_group sid \<lparr>rep_Machine = ?m, rep_applied = ?i, rep_tail = []\<rparr> (c\<lparr>co_calls := Suc (co_calls c)\<rparr>)"
  have "ApplyAt ?i (EncodeCommand cmd) m = Some (res, ?m)"
    using assms(3,4) by (simp add: ApplyAt_def shard_apply_def DecodeCommand_EncodeCommand_ok)
  then have "Propose env sid cmd c = Some ((res, True, None), ?c)"
    using r assms(1) tick_calm_at [OF assms(1)] by (simp add: Propose_def calm_at_def AppliedResult_def)
  moreover have "same_shape c ?c" using r by (simp add: same_shape_def fmmap_fmupd_same)
  ultimately show ?thesis by (intro that [of ?c ?m]) (simp_all add: machine_at_def core_eq_def)
qed

lemmas Propose_calm = Propose_calm_at [OF calm_calm_at]

lemma read_machine_calm_at:
  assumes "calm_at env (co_calls c)" "machine_at sid c = Some m"
  shows "read_machine env sid c = Some (m, c\<lparr>co_calls := Suc (co_calls c)\<rparr>)"
  using tick_calm_at [OF assms(1)] assms(2)
  by (auto simp: read_machine_def machine_at_def split: option.splits if_splits)

lemmas read_machine_calm = read_machine_calm_at [OF calm_calm_at]

lemma core_eq_simps:
  assumes "core_eq m m'"
  shows "sm_txs m' = sm_txs m" "sm_State m' = sm_State m" "shard_inv m' = shard_inv m" "Tx txid m' = Tx txid m"
  using assms by (simp_all add: core_eq_def shard_inv_def Tx_def)

text \<open>The steps of the protocol at the debit shard: the vote, the decision and the outcome.\<close>

abbreviation holds_leg :: "TxID \<Rightarrow> Command \<Rightarrow> bool \<Rightarrow> ShardMachine \<Rightarrow> bool" where
  "holds_leg txid cmd d m \<equiv> (case Tx txid m of None \<Rightarrow> False
     | Some r \<Rightarrow> rec_Phase r = PhasePrepared \<and> rec_Debit r = d \<and> rec_Cmd r = cmd)"

lemma debit_votes_yes:
  assumes inv: "shard_inv A" and new: "Tx txid A = None" and n: "in_int64 (cmd_Amount cmd)" "0 < cmd_Amount cmd"
    and av: "cmd_Amount cmd \<le> fst (Available (cmd_From cmd) (sm_State A))"
  obtains res A' where "apply_cmd (tx_cmd OpPrepare txid cmd False True ps co) A = Some (res, A')" "OK res"
    "shard_inv A'" "holds_leg txid cmd True A'" "balances (sm_State A') = balances (sm_State A)"
    "reserves (sm_State A') = fmupd txid \<lparr>rsv_TxID = txid, rsv_Account = cmd_From cmd, rsv_Amount = cmd_Amount cmd\<rparr>
       (reserves (sm_State A))"
proof -
  let ?c = "tx_cmd OpPrepare txid cmd False True ps co" and ?s = "sm_State A"
  have acc: "has_account ?s (cmd_From cmd)"
    using av n(2) by (auto simp: Available_def availableLocked_def split: option.splits)
  have free: "fmlookup (reserves ?s) txid = None" using shard_invD(3) [OF inv] new by (simp add: Tx_def)
  obtain res st where v: "vote ?c ?s = (res, st)" by fastforce
  then have f: "OK res" "reserves st = fmupd txid \<lparr>rsv_TxID = txid, rsv_Account = cmd_From cmd,
      rsv_Amount = cmd_Amount cmd\<rparr> (reserves ?s)" "balances st = balances ?s"
    using acc free av n(2) by (auto simp: vote_def PrepareDebit_def Available_def Let_def)
  have "prepare_known ?c A = None" using new by (simp add: prepare_known_def Tx_def)
  with v f(1) obtain A' where a: "applyPrepare ?c A = (res, A')" "sm_State A' = st" "holds_leg txid cmd True A'"
    by (simp add: applyPrepare_def put_tx_def Tx_def)
  have "shard_inv A'" using applyPrepare_inv [OF inv _ a(1)] n(1) by simp
  with a f that show ?thesis by (simp add: apply_cmd_def ShardOp_defs)
qed

lemma credit_votes_yes:
  assumes inv: "shard_inv B" and new: "Tx txid B = None" and n: "in_int64 (cmd_Amount cmd)" "0 < cmd_Amount cmd"
    and acc: "snd (Balance_of (cmd_To cmd) (sm_State B))"
  obtains res B' where "apply_cmd (tx_cmd OpPrepare txid cmd False False ps co) B = Some (res, B')" "OK res"
    "shard_inv B'" "holds_leg txid cmd False B'" "sm_State B' = sm_State B"
proof -
  let ?c = "tx_cmd OpPrepare txid cmd False False ps co"
  obtain res where v: "vote ?c (sm_State B) = (res, sm_State B)" "OK res"
    using acc n(2) by (auto simp: vote_def PrepareCredit_def Balance_of_def split: option.splits)
  have "prepare_known ?c B = None" using new by (simp add: prepare_known_def Tx_def)
  with v obtain B' where b: "applyPrepare ?c B = (res, B')" "sm_State B' = sm_State B" "holds_leg txid cmd False B'"
    by (simp add: applyPrepare_def put_tx_def Tx_def)
  have "shard_inv B'" using applyPrepare_inv [OF inv _ b(1)] n(1) by simp
  with b v(2) that show ?thesis by (simp add: apply_cmd_def ShardOp_defs)
qed

lemma decision_step:
  assumes inv: "shard_inv A" and p: "holds_leg txid cmd d A" and n: "in_int64 (cmd_Amount cmd')"
  obtains A' where "apply_cmd (tx_cmd OpDecision txid cmd' commit b ps co) A = Some (succeeded 0, A')"
    "shard_inv A'" "holds_leg txid cmd d A'" "sm_State A' = sm_State A"
proof -
  let ?c = "tx_cmd OpDecision txid cmd' commit b ps co"
  obtain r where r: "fmlookup (sm_txs A) txid = Some r" "rec_Phase r = PhasePrepared" "rec_Debit r = d" "rec_Cmd r = cmd"
    using p by (auto simp: Tx_def split: option.splits)
  obtain A' where a: "applyDecision ?c A = (succeeded 0, A')" "sm_State A' = sm_State A"
      "fmlookup (sm_txs A') txid = Some (decided_record ?c A)"
    by (simp add: applyDecision_def)
  have "shard_inv A'" using applyDecision_inv [OF inv _ a(1)] n by simp
  moreover have "holds_leg txid cmd d A'"
    using decided_record_fields(1) [of A ?c r] r a(3) by (simp add: Tx_def)
  ultimately show ?thesis using that a by (simp add: apply_cmd_def ShardOp_defs)
qed

lemma debit_commits:
  assumes inv: "shard_inv A" and p: "holds_leg txid cmd True A"
  obtains res A' b where "apply_cmd (tx_cmd OpOutcome txid cmd' True d ps co) A = Some (res, A')"
    "shard_inv A'" "fmlookup (balances (sm_State A)) (cmd_From cmd) = Some b"
    "balances (sm_State A') = fmupd (cmd_From cmd) (b - cmd_Amount cmd) (balances (sm_State A))"
    "money (sm_State A') = money (sm_State A) - cmd_Amount cmd"
    "reserves (sm_State A') = fmdrop txid (reserves (sm_State A))"
    "map_option rec_Phase (Tx txid A') = Some PhaseCommitted"
proof -
  let ?c = "tx_cmd OpOutcome txid cmd' True d ps co"
  obtain r where r: "fmlookup (sm_txs A) (sc_TxID ?c) = Some r" "rec_Phase r = PhasePrepared" "rec_Debit r" "rec_Cmd r = cmd"
    using p by (auto simp: Tx_def split: option.splits)
  obtain res A' b where o: "applyOutcome ?c A = Some (res, A')" "fmlookup (balances (sm_State A)) (cmd_From cmd) = Some b"
      "balances (sm_State A') = fmupd (cmd_From cmd) (b - cmd_Amount cmd) (balances (sm_State A))"
      "money (sm_State A') = money (sm_State A) - cmd_Amount cmd"
      "map_option rec_Phase (Tx txid A') = Some PhaseCommitted"
    using outcome_effect [OF inv r(1,2)] r(3,4) by auto
  have "reserves (sm_State A') = fmdrop txid (reserves (sm_State A))"
    using o(1) r by (auto simp: applyOutcome_def settle_def Let_def bind_Some_iff dest!: CommitDebit_frame(2))
  moreover have "shard_inv A'" using applyOutcome_inv [OF inv, of ?c] o(1) by auto
  ultimately show ?thesis using that o by (simp add: apply_cmd_def ShardOp_defs)
qed

lemma credit_commits:
  assumes inv: "shard_inv B" and p: "holds_leg txid cmd False B"
    and room: "fst (Balance_of (cmd_To cmd) (sm_State B)) + cmd_Amount cmd \<le> maxMoney"
  obtains res B' b where "apply_cmd (tx_cmd OpOutcome txid cmd' True d ps co) B = Some (res, B')"
    "shard_inv B'" "fmlookup (balances (sm_State B)) (cmd_To cmd) = Some b"
    "balances (sm_State B') = fmupd (cmd_To cmd) (b + cmd_Amount cmd) (balances (sm_State B))"
    "money (sm_State B') = money (sm_State B) + cmd_Amount cmd"
    "map_option rec_Phase (Tx txid B') = Some PhaseCommitted"
proof -
  let ?c = "tx_cmd OpOutcome txid cmd' True d ps co"
  obtain r where r: "fmlookup (sm_txs B) (sc_TxID ?c) = Some r" "rec_Phase r = PhasePrepared" "\<not> rec_Debit r" "rec_Cmd r = cmd"
    using p by (auto simp: Tx_def split: option.splits)
  obtain res B' b where o: "applyOutcome ?c B = Some (res, B')" "fmlookup (balances (sm_State B)) (cmd_To cmd) = Some b"
      "balances (sm_State B') = fmupd (cmd_To cmd) (b + cmd_Amount cmd) (balances (sm_State B))"
      "money (sm_State B') = money (sm_State B) + cmd_Amount cmd"
      "map_option rec_Phase (Tx txid B') = Some PhaseCommitted"
    using outcome_effect [OF inv r(1,2)] r(3,4) room by (auto simp: Balance_of_def)
  moreover have "shard_inv B'" using applyOutcome_inv [OF inv, of ?c] o(1) by auto
  ultimately show ?thesis using that by (simp add: apply_cmd_def ShardOp_defs)
qed

text \<open>The decision and the outcome at the debit shard.\<close>

lemma debit_leg:
  assumes env: "calm_at env (co_calls c)" "calm_at env (Suc (co_calls c))"
    and w: "transfer_fits txid cmd fs ts" and ne: "fs \<noteq> ts"
    and A: "machine_at fs c = Some A" "shard_inv A" "holds_leg txid cmd True A"
  obtains x1 c1 x2 c2 A' a where
    "Propose env fs (tx_cmd OpDecision txid cmd True True [fs, ts] fs) c = Some ((x1, True, None), c1)"
    "Propose env fs (tx_cmd OpOutcome txid cmd True True [fs, ts] fs) c1 = Some ((x2, True, None), c2)"
    "machine_at fs c2 = Some A'" "shard_inv A'" "machine_at ts c2 = machine_at ts c" "co_calls c2 = Suc (Suc (co_calls c))"
    "fmlookup (balances (sm_State A)) (cmd_From cmd) = Some a"
    "balances (sm_State A') = fmupd (cmd_From cmd) (a - cmd_Amount cmd) (balances (sm_State A))"
    "money (sm_State A') = money (sm_State A) - cmd_Amount cmd"
    "reserves (sm_State A') = fmdrop txid (reserves (sm_State A))"
    "map_option rec_Phase (Tx txid A') = Some PhaseCommitted" "same_shape c c2"
proof -
  note wire = transfer_fits_wire [OF w]
  have n: "in_int64 (cmd_Amount cmd)" using w by (simp add: transfer_fits_def wire_ok_def)
  obtain A1 where 1: "apply_cmd (tx_cmd OpDecision txid cmd True True [fs, ts] fs) A = Some (succeeded 0, A1)"
      "shard_inv A1" "holds_leg txid cmd True A1" "sm_State A1 = sm_State A"
    by (rule decision_step [OF A(2,3) n])
  obtain c1 A1' where c1: "Propose env fs (tx_cmd OpDecision txid cmd True True [fs, ts] fs) c
        = Some ((succeeded 0, True, None), c1)" "machine_at fs c1 = Some A1'" "core_eq A1 A1'"
      "machine_at ts c1 = machine_at ts c" "co_calls c1 = Suc (co_calls c)" "same_shape c c1"
    using Propose_calm_at [OF env(1) A(1) wire 1(1)] ne by metis
  note k1 = core_eq_simps [OF c1(3)]
  have "shard_inv A1'" "holds_leg txid cmd True A1'" using 1(2,3) k1 by simp_all
  from debit_commits [OF this] obtain r2 A2 a where
    2: "apply_cmd (tx_cmd OpOutcome txid cmd True True [fs, ts] fs) A1' = Some (r2, A2)" "shard_inv A2"
      "fmlookup (balances (sm_State A1')) (cmd_From cmd) = Some a"
      "balances (sm_State A2) = fmupd (cmd_From cmd) (a - cmd_Amount cmd) (balances (sm_State A1'))"
      "money (sm_State A2) = money (sm_State A1') - cmd_Amount cmd"
      "reserves (sm_State A2) = fmdrop txid (reserves (sm_State A1'))"
      "map_option rec_Phase (Tx txid A2) = Some PhaseCommitted" .
  have e2: "calm_at env (co_calls c1)" using env(2) c1(5) by simp
  obtain c2 A2' where c2: "Propose env fs (tx_cmd OpOutcome txid cmd True True [fs, ts] fs) c1
        = Some ((r2, True, None), c2)" "machine_at fs c2 = Some A2'" "core_eq A2 A2'"
      "machine_at ts c2 = machine_at ts c1" "co_calls c2 = Suc (co_calls c1)" "same_shape c1 c2"
    using Propose_calm_at [OF e2 c1(2) wire 2(1)] ne by metis
  note k2 = core_eq_simps [OF c2(3)]
  show ?thesis
    by (rule that [OF c1(1) c2(1,2), of a])
      (use 1 2 c1 c2 k1 k2 same_shape_trans [OF c1(6) c2(6)] in simp_all)
qed

lemma decide_commits:
  assumes env: "calm env" and w: "transfer_fits txid cmd fs ts" and ne: "fs \<noteq> ts"
    and A: "machine_at fs c = Some A" "shard_inv A" "holds_leg txid cmd True A"
    and B: "machine_at ts c = Some B" "shard_inv B" "holds_leg txid cmd False B"
    and room: "fst (Balance_of (cmd_To cmd) (sm_State B)) + cmd_Amount cmd \<le> maxMoney"
  obtains c' A' B' a b where "decide env txid cmd [fs, ts] fs True fs ts c = Some (None, c')"
    "machine_at fs c' = Some A'" "machine_at ts c' = Some B'" "shard_inv A'" "shard_inv B'"
    "fmlookup (balances (sm_State A)) (cmd_From cmd) = Some a"
    "balances (sm_State A') = fmupd (cmd_From cmd) (a - cmd_Amount cmd) (balances (sm_State A))"
    "reserves (sm_State A') = fmdrop txid (reserves (sm_State A))"
    "fmlookup (balances (sm_State B)) (cmd_To cmd) = Some b"
    "balances (sm_State B') = fmupd (cmd_To cmd) (b + cmd_Amount cmd) (balances (sm_State B))"
    "money (sm_State A') + money (sm_State B') = money (sm_State A) + money (sm_State B)"
    "map_option rec_Phase (Tx txid A') = Some PhaseCommitted"
    "map_option rec_Phase (Tx txid B') = Some PhaseCommitted"
proof -
  obtain x1 c1 x2 c2 A2 a where 2:
      "Propose env fs (tx_cmd OpDecision txid cmd True True [fs, ts] fs) c = Some ((x1, True, None), c1)"
      "Propose env fs (tx_cmd OpOutcome txid cmd True True [fs, ts] fs) c1 = Some ((x2, True, None), c2)"
      "machine_at fs c2 = Some A2" "shard_inv A2" "machine_at ts c2 = machine_at ts c"
      "fmlookup (balances (sm_State A)) (cmd_From cmd) = Some a"
      "balances (sm_State A2) = fmupd (cmd_From cmd) (a - cmd_Amount cmd) (balances (sm_State A))"
      "money (sm_State A2) = money (sm_State A) - cmd_Amount cmd"
      "reserves (sm_State A2) = fmdrop txid (reserves (sm_State A))"
      "map_option rec_Phase (Tx txid A2) = Some PhaseCommitted"
    by (rule debit_leg [OF calm_calm_at [OF env] calm_calm_at [OF env] w ne A])
  from credit_commits [OF B(2,3) room] obtain r3 B3 b where
    3: "apply_cmd (tx_cmd OpOutcome txid cmd True False [fs, ts] fs) B = Some (r3, B3)" "shard_inv B3"
      "fmlookup (balances (sm_State B)) (cmd_To cmd) = Some b"
      "balances (sm_State B3) = fmupd (cmd_To cmd) (b + cmd_Amount cmd) (balances (sm_State B))"
      "money (sm_State B3) = money (sm_State B) + cmd_Amount cmd"
      "map_option rec_Phase (Tx txid B3) = Some PhaseCommitted" .
  have Bc: "machine_at ts c2 = Some B" using B(1) 2(5) by simp
  obtain c3 B3' where c3: "Propose env ts (tx_cmd OpOutcome txid cmd True False [fs, ts] fs) c2
        = Some ((r3, True, None), c3)" "machine_at ts c3 = Some B3'" "core_eq B3 B3'"
      "machine_at fs c3 = machine_at fs c2"
    using Propose_calm [OF env Bc transfer_fits_wire [OF w] 3(1)] ne by metis
  note k3 = core_eq_simps [OF c3(3)]
  have "decide env txid cmd [fs, ts] fs True fs ts c = Some (None, c3)"
    using 2(1,2) c3(1) by (simp add: decide_def)
  moreover have "machine_at fs c3 = Some A2" using 2(3) c3(4) by simp
  ultimately show ?thesis
    by (rule that [of c3 A2 B3' a b]) (use 2 3 c3 k3 in simp_all)
qed

lemma Available_eq:
  assumes "ledger_inv s" "fmlookup (balances s) a = Some b"
  shows "fst (Available a s) = b - held a (reserves s)"
  using available_eq [OF assms] by (simp add: Available_def)

lemma held_drop_fresh:
  "fmlookup rs txid = None \<Longrightarrow> fmdrop txid (fmupd txid r rs) = rs"
  by (rule fmap_ext) (auto simp: fmlookup_drop)

lemma both_vote_yes:
  assumes env: "calm_at env (co_calls c)" "calm_at env (Suc (co_calls c))" and w: "transfer_fits txid cmd fs ts" and ne: "fs \<noteq> ts" and n: "0 < cmd_Amount cmd"
    and A: "machine_at fs c = Some A" "shard_inv A" "Tx txid A = None"
      "cmd_Amount cmd \<le> fst (Available (cmd_From cmd) (sm_State A))"
    and B: "machine_at ts c = Some B" "shard_inv B" "Tx txid B = None" "snd (Balance_of (cmd_To cmd) (sm_State B))"
  obtains r1 c1 r2 c2 A' B' where
    "Propose env fs (tx_cmd OpPrepare txid cmd False True [fs, ts] fs) c = Some ((r1, True, None), c1)" "OK r1"
    "Propose env ts (tx_cmd OpPrepare txid cmd False False [fs, ts] fs) c1 = Some ((r2, True, None), c2)" "OK r2"
    "machine_at fs c2 = Some A'" "shard_inv A'" "holds_leg txid cmd True A'" "balances (sm_State A') = balances (sm_State A)"
    "fmdrop txid (reserves (sm_State A')) = reserves (sm_State A)"
    "machine_at ts c2 = Some B'" "shard_inv B'" "holds_leg txid cmd False B'" "sm_State B' = sm_State B"
    "co_calls c2 = Suc (Suc (co_calls c))" "same_shape c c2"
proof -
  note wire = transfer_fits_wire [OF w]
  have n64: "in_int64 (cmd_Amount cmd)" using w by (simp add: transfer_fits_def wire_ok_def)
  obtain r1 A1 where 1: "apply_cmd (tx_cmd OpPrepare txid cmd False True [fs, ts] fs) A = Some (r1, A1)" "OK r1"
      "shard_inv A1" "holds_leg txid cmd True A1" "balances (sm_State A1) = balances (sm_State A)"
      "reserves (sm_State A1) = fmupd txid \<lparr>rsv_TxID = txid, rsv_Account = cmd_From cmd, rsv_Amount = cmd_Amount cmd\<rparr>
         (reserves (sm_State A))"
    by (rule debit_votes_yes [OF A(2,3) n64 n A(4)])
  obtain c1 A1' where c1: "Propose env fs (tx_cmd OpPrepare txid cmd False True [fs, ts] fs) c = Some ((r1, True, None), c1)"
      "machine_at fs c1 = Some A1'" "core_eq A1 A1'" "machine_at ts c1 = machine_at ts c"
      "co_calls c1 = Suc (co_calls c)" "same_shape c c1"
    using Propose_calm_at [OF env(1) A(1) wire 1(1)] ne by metis
  obtain r2 B2 where 2: "apply_cmd (tx_cmd OpPrepare txid cmd False False [fs, ts] fs) B = Some (r2, B2)" "OK r2"
      "shard_inv B2" "holds_leg txid cmd False B2" "sm_State B2 = sm_State B"
    by (rule credit_votes_yes [OF B(2,3) n64 n B(4)])
  have mB: "machine_at ts c1 = Some B" using c1(4) B(1) by simp
  have e2: "calm_at env (co_calls c1)" using env(2) c1(5) by simp
  obtain c2 B2' where c2: "Propose env ts (tx_cmd OpPrepare txid cmd False False [fs, ts] fs) c1 = Some ((r2, True, None), c2)"
      "machine_at ts c2 = Some B2'" "core_eq B2 B2'" "machine_at fs c2 = machine_at fs c1"
      "co_calls c2 = Suc (co_calls c1)" "same_shape c1 c2"
    using Propose_calm_at [OF e2 mB wire 2(1)] ne by metis
  have "fmlookup (reserves (sm_State A)) txid = None" using shard_invD(3) [OF A(2)] A(3) by (simp add: Tx_def)
  then have "fmdrop txid (reserves (sm_State A1)) = reserves (sm_State A)" using 1(6) by (simp add: held_drop_fresh)
  with that [OF c1(1) 1(2) c2(1) 2(2), of A1' B2'] show ?thesis
    using 1 2 c1 c2 core_eq_simps [OF c1(3)] core_eq_simps [OF c2(3)] same_shape_trans [OF c1(6) c2(6)] by simp
qed


section \<open>Recovery\<close>

definition verdict :: "Coordinator \<Rightarrow> TxID \<Rightarrow> TxRecord \<Rightarrow> bool" where
  "verdict c txid rc =
     (case machine_at (coordinator_of rc) c of None \<Rightarrow> False | Some cm \<Rightarrow> Decision txid cm = Some True)"

abbreviation prepared_at :: "Coordinator \<Rightarrow> ShardID \<Rightarrow> TxID \<Rightarrow> TxRecord \<Rightarrow> bool" where
  "prepared_at c sid txid rc \<equiv> (\<exists>m. machine_at sid c = Some m \<and> Tx txid m = Some rc \<and> rec_Phase rc = PhasePrepared)"

definition doubts :: "ShardID \<Rightarrow> Coordinator \<Rightarrow> TxID set" where
  "doubts sid c = {txid. \<exists>rc. prepared_at c sid txid rc}"

text \<open>Every group is here and has nothing pending, every record in doubt names a coordinator that is
  here, the record at the coordinator (when it is in doubt as well) names the same one, and what
  recovery proposes fits the wire format.\<close>

definition recoverable :: "Coordinator \<Rightarrow> bool" where
  "recoverable c \<longleftrightarrow>
     (\<forall>sid. sid |\<in>| fmdom (co_groups c) \<longrightarrow> (\<exists>m. machine_at sid c = Some m \<and> shard_inv m))
   \<and> (\<forall>sid txid rc. prepared_at c sid txid rc \<longrightarrow>
        coordinator_of rc |\<in>| fmdom (co_groups c) \<and> coordinator_of rc \<noteq> []
      \<and> (\<forall>commit. shard_wire_ok (tx_cmd OpOutcome txid (rec_Cmd rc) commit (rec_Debit rc) (rec_Participants rc)
            (coordinator_of rc)))
      \<and> (\<forall>rc'. prepared_at c (coordinator_of rc) txid rc' \<longrightarrow> coordinator_of rc' = coordinator_of rc))"

lemma recoverableD:
  assumes "recoverable c"
  shows "sid |\<in>| fmdom (co_groups c) \<Longrightarrow> \<exists>m. machine_at sid c = Some m \<and> shard_inv m"
    and "prepared_at c sid txid rc \<Longrightarrow> coordinator_of rc |\<in>| fmdom (co_groups c) \<and> coordinator_of rc \<noteq> []"
    and "prepared_at c sid txid rc \<Longrightarrow> shard_wire_ok (tx_cmd OpOutcome txid (rec_Cmd rc) commit (rec_Debit rc)
           (rec_Participants rc) (coordinator_of rc))"
    and "prepared_at c sid txid rc \<Longrightarrow> prepared_at c (coordinator_of rc) txid rc' \<Longrightarrow> coordinator_of rc' = coordinator_of rc"
  using assms unfolding recoverable_def by blast+

text \<open>A record as recovery leaves it: as it was, or settled by its coordinator's decision.\<close>

definition settled :: "bool \<Rightarrow> TxRecord \<Rightarrow> bool" where
  "settled b rc \<longleftrightarrow> rec_Phase rc = (if b then PhaseCommitted else PhaseAborted) \<and> rec_Decided rc \<and> rec_Commit rc = b"

definition kept_or_settled :: "Coordinator \<Rightarrow> ShardMachine \<Rightarrow> ShardMachine \<Rightarrow> TxID \<Rightarrow> bool" where
  "kept_or_settled c m m' txid \<longleftrightarrow> Tx txid m' = Tx txid m
     \<or> (\<exists>rc rc'. Tx txid m = Some rc \<and> rec_Phase rc = PhasePrepared \<and> Tx txid m' = Some rc' \<and> settled (verdict c txid rc) rc')"

definition progress :: "Coordinator \<Rightarrow> Coordinator \<Rightarrow> bool" where
  "progress c c' \<longleftrightarrow> fmdom (co_groups c') = fmdom (co_groups c)
   \<and> (\<forall>sid m. machine_at sid c = Some m \<longrightarrow>
        (\<exists>m'. machine_at sid c' = Some m' \<and> shard_inv m' \<and> (\<forall>txid. kept_or_settled c m m' txid)))"

lemma progressD:
  assumes "progress c c'" "machine_at sid c = Some m"
  obtains m' where "machine_at sid c' = Some m'" "shard_inv m'" "\<And>txid. kept_or_settled c m m' txid"
  using assms unfolding progress_def by blast

lemma progress_refl: "recoverable c \<Longrightarrow> progress c c"
proof -
  assume r: "recoverable c"
  have "shard_inv m" if "machine_at sid c = Some m" for sid m
  proof -
    have "sid |\<in>| fmdom (co_groups c)"
      using that by (auto simp: machine_at_def fmlookup_dom_iff split: option.splits)
    with recoverableD(1) [OF r] that show ?thesis by fastforce
  qed
  then show ?thesis by (simp add: progress_def kept_or_settled_def)
qed

lemma settled_not_prepared: "settled b rc \<Longrightarrow> rec_Phase rc \<noteq> PhasePrepared"
  by (simp add: settled_def)

lemma progress_prepared:
  assumes "progress c c'" "recoverable c" "prepared_at c' sid txid rc" "sid |\<in>| fmdom (co_groups c)"
  shows "prepared_at c sid txid rc"
proof -
  obtain m where m: "machine_at sid c = Some m" using recoverableD(1) [OF assms(2,4)] by blast
  obtain m' where m': "machine_at sid c' = Some m'" "kept_or_settled c m m' txid"
    using progressD [OF assms(1) m] by metis
  with assms(3) have "Tx txid m' = Some rc" "rec_Phase rc = PhasePrepared" by auto
  with m'(2) m settled_not_prepared show ?thesis by (auto simp: kept_or_settled_def)
qed

text \<open>What recovery has done so far does not change any verdict.\<close>

lemma progress_verdict:
  assumes p: "progress c c'" and r: "recoverable c" and rc: "prepared_at c sid txid rc"
  shows "verdict c' txid rc = verdict c txid rc"
proof -
  let ?k = "coordinator_of rc"
  obtain cm where cm: "machine_at ?k c = Some cm" using recoverableD(1,2) [OF r] rc by blast
  obtain cm' where cm': "machine_at ?k c' = Some cm'" "kept_or_settled c cm cm' txid"
    using progressD [OF p cm] by metis
  show ?thesis
  proof (cases "Tx txid cm' = Tx txid cm")
    case True
    then show ?thesis using cm cm' by (simp add: verdict_def Decision_def Tx_def)
  next
    case False
    then obtain rk rk' where k: "Tx txid cm = Some rk" "rec_Phase rk = PhasePrepared" "Tx txid cm' = Some rk'"
        "settled (verdict c txid rk) rk'"
      using cm'(2) by (auto simp: kept_or_settled_def)
    then have "prepared_at c ?k txid rk" using cm by blast
    then have "coordinator_of rk = ?k" by (rule recoverableD(4) [OF r rc])
    then have "verdict c txid rk = verdict c txid rc" by (simp add: verdict_def)
    moreover have "verdict c' txid rc = rec_Commit rk'"
      using cm'(1) k(3,4) by (simp add: verdict_def Decision_def Tx_def settled_def)
    ultimately show ?thesis using k(4) by (simp add: settled_def)
  qed
qed

lemma machine_at_calls [simp]: "machine_at sid (c\<lparr>co_calls := n\<rparr>) = machine_at sid c"
  by (simp add: machine_at_def)

lemma progress_calls [simp]: "progress c (c'\<lparr>co_calls := n\<rparr>) = progress c c'"
  by (simp add: progress_def)

lemma IsLeader_calm:
  assumes "calm env" "machine_at sid c = Some m"
  shows "IsLeader env sid c = Some (True, c\<lparr>co_calls := Suc (co_calls c)\<rparr>)"
  using assms by (auto simp: IsLeader_def tick_calm calm_script machine_at_def split: option.splits if_splits)

lemma outcome_settles:
  assumes inv: "shard_inv m" and rc: "Tx txid m = Some rc" "rec_Phase rc = PhasePrepared"
  obtains res m' rc' where "apply_cmd (tx_cmd OpOutcome txid cmd b d ps co) m = Some (res, m')" "shard_inv m'"
    "Tx txid m' = Some rc'" "settled b rc'" "\<forall>k. k \<noteq> txid \<longrightarrow> Tx k m' = Tx k m"
proof -
  let ?c = "tx_cmd OpOutcome txid cmd b d ps co"
  obtain res m' where o: "applyOutcome ?c m = Some (res, m')" "shard_inv m'" using applyOutcome_inv [OF inv] by blast
  with rc have "\<exists>rc'. Tx txid m' = Some rc' \<and> settled b rc'" "\<forall>k. k \<noteq> txid \<longrightarrow> Tx k m' = Tx k m"
    by (auto simp: applyOutcome_def Tx_def settled_def Let_def bind_Some_iff)
  with o that show ?thesis by (auto simp: apply_cmd_def ShardOp_defs)
qed

lemma progress_machine:
  assumes "progress c c'" "recoverable c" "sid |\<in>| fmdom (co_groups c)"
  obtains m where "machine_at sid c' = Some m" "shard_inv m"
proof -
  obtain m0 where "machine_at sid c = Some m0" using recoverableD(1) [OF assms(2,3)] by blast
  from progressD [OF assms(1) this] that show ?thesis by metis
qed

lemma machine_at_Some: "machine_at sid c = Some m \<Longrightarrow> \<exists>r. fmlookup (co_groups c) sid = Some (Some r)"
  by (auto simp: machine_at_def split: option.splits)

text \<open>One transaction is settled at one shard, and nothing else changes.\<close>

lemma progress_step:
  assumes p: "progress c0 c" and r: "recoverable c0" and rc: "prepared_at c0 sid txid rc"
    and m: "machine_at sid c = Some m" and m': "machine_at sid c' = Some m'" "shard_inv m'"
      "Tx txid m' = Some rc'" "settled (verdict c0 txid rc) rc'" "\<And>k. k \<noteq> txid \<Longrightarrow> Tx k m' = Tx k m"
    and o: "\<And>s. s \<noteq> sid \<Longrightarrow> machine_at s c' = machine_at s c" and d: "fmdom (co_groups c') = fmdom (co_groups c)"
  shows "progress c0 c'"
  unfolding progress_def
proof (intro conjI allI impI)
  show "fmdom (co_groups c') = fmdom (co_groups c0)" using p d by (simp add: progress_def)
next
  fix s m0 assume m0: "machine_at s c0 = Some m0"
  obtain m1 where m1: "machine_at s c = Some m1" "shard_inv m1" "\<And>k. kept_or_settled c0 m0 m1 k"
    using progressD [OF p m0] by metis
  show "\<exists>m'. machine_at s c' = Some m' \<and> shard_inv m' \<and> (\<forall>k. kept_or_settled c0 m0 m' k)"
  proof (cases "s = sid")
    case True
    have "kept_or_settled c0 m0 m' k" for k
    proof (cases "k = txid")
      case k: True
      then show ?thesis using rc m0 True m'(3,4) by (auto simp: kept_or_settled_def)
    next
      case False
      then show ?thesis using m1(1,3) m True m'(5) by (simp add: kept_or_settled_def)
    qed
    then show ?thesis using True m'(1,2) by auto
  qed (use m1 o in auto)
qed

lemma recover_tx_step:
  assumes env: "calm env" and r: "recoverable c0" and p: "progress c0 c" and sid: "sid |\<in>| fmdom (co_groups c0)"
    and d: "txid \<in> doubts sid c"
  obtains c' where "recover_tx env sid txid (v, c) = Some (v\<lparr>rv_resolved := rv_resolved v + 1\<rparr>, c')"
    "progress c0 c'" "doubts sid c' = doubts sid c - {txid}" "\<And>s. s \<noteq> sid \<Longrightarrow> machine_at s c' = machine_at s c"
proof -
  from d obtain m rc where m: "machine_at sid c = Some m" "Tx txid m = Some rc" "rec_Phase rc = PhasePrepared"
    by (auto simp: doubts_def)
  have inv: "shard_inv m" using progress_machine [OF p r sid] m(1) by force
  have rc0: "prepared_at c0 sid txid rc" using progress_prepared [OF p r _ sid] m by blast
  let ?k = "coordinator_of rc" and ?b = "verdict c0 txid rc" and ?c = "\<lambda>n. c\<lparr>co_calls := n\<rparr>"
  have k: "?k |\<in>| fmdom (co_groups c0)" "?k \<noteq> []" using recoverableD(2) [OF r rc0] by auto
  obtain cm where cm: "machine_at ?k c = Some cm" using progress_machine [OF p r k(1)] by metis
  have b: "(case Decision txid cm of None \<Rightarrow> False | Some b \<Rightarrow> b) = ?b"
    using progress_verdict [OF p r rc0, symmetric] cm
    by (cases "Decision txid cm") (simp_all add: verdict_def [of c])
  let ?cmd = "tx_cmd OpOutcome txid (rec_Cmd rc) ?b (rec_Debit rc) (rec_Participants rc) ?k"
  obtain res m1 rc' where m1: "apply_cmd ?cmd m = Some (res, m1)" "shard_inv m1" "Tx txid m1 = Some rc'" "settled ?b rc'"
      "\<forall>k. k \<noteq> txid \<longrightarrow> Tx k m1 = Tx k m"
    by (rule outcome_settles [OF inv m(2,3), where cmd = "rec_Cmd rc" and b = ?b and d = "rec_Debit rc"
          and ps = "rec_Participants rc" and co = ?k])
  let ?n = "Suc (Suc (Suc (co_calls c)))"
  have mc: "machine_at sid (?c ?n) = Some m" using m(1) by simp
  obtain c' m2 where c': "Propose env sid ?cmd (?c ?n) = Some ((res, True, None), c')" "machine_at sid c' = Some m2"
      "core_eq m1 m2" "\<And>s. s \<noteq> sid \<Longrightarrow> machine_at s c' = machine_at s (?c ?n)" "same_shape (?c ?n) c'"
    using Propose_calm [OF env mc recoverableD(3) [OF r rc0] m1(1)] by metis
  note e = core_eq_simps [OF c'(3)]
  obtain g where g: "fmlookup (co_groups c) ?k = Some (Some g)" using machine_at_Some [OF cm] by blast
  have T: "Tx k m2 = (if k = txid then Some rc' else Tx k m)" for k
    using m1(3,5) e(4) [of k] by simp
  have "recover_tx env sid txid (v, c) = Some (v\<lparr>rv_resolved := rv_resolved v + 1\<rparr>, c')"
    using read_machine_calm [OF env m(1)] m(2) k(2) g IsLeader_calm [OF env, of ?k "?c (Suc (co_calls c))" cm]
      read_machine_calm [OF env, of ?k "?c (Suc (Suc (co_calls c)))" cm] cm b c'(1)
    by (simp add: recover_tx_def Let_def)
  moreover have "progress c0 c'"
  proof (rule progress_step [OF p r rc0 m(1) c'(2) _ _ m1(4)])
    show "shard_inv m2" "Tx txid m2 = Some rc'" using m1(2,3) e by simp_all
    show "Tx k m2 = Tx k m" if "k \<noteq> txid" for k using m1(5) e(4) [of k] that by simp
    show "machine_at s c' = machine_at s c" if "s \<noteq> sid" for s using c'(4) that by simp
    show "fmdom (co_groups c') = fmdom (co_groups c)" using same_shape_dom [OF c'(5)] by simp
  qed
  moreover have "doubts sid c' = doubts sid c - {txid}"
    using settled_not_prepared [OF m1(4)] by (auto simp: doubts_def c'(2) m(1) T)
  ultimately show ?thesis using that c'(4) by simp
qed

lemma recover_txs:
  assumes env: "calm env" and r: "recoverable c0" and sid: "sid |\<in>| fmdom (co_groups c0)"
    and p: "progress c0 c" and xs: "doubts sid c = set xs" "distinct xs"
  shows "\<exists>c'. fold_option (recover_tx env sid) xs (v, c) = Some (v\<lparr>rv_resolved := rv_resolved v + length xs\<rparr>, c')
    \<and> progress c0 c' \<and> doubts sid c' = {} \<and> (\<forall>s. s \<noteq> sid \<longrightarrow> machine_at s c' = machine_at s c)"
  using p xs
proof (induction xs arbitrary: v c)
  case (Cons x xs)
  then have "x \<in> doubts sid c" by simp
  from recover_tx_step [OF env r Cons.prems(1) sid this, of v] obtain c1 where
    c1: "recover_tx env sid x (v, c) = Some (v\<lparr>rv_resolved := rv_resolved v + 1\<rparr>, c1)" "progress c0 c1"
      "doubts sid c1 = doubts sid c - {x}" "\<And>s. s \<noteq> sid \<Longrightarrow> machine_at s c1 = machine_at s c" by blast
  have "doubts sid c1 = set xs" "distinct xs" using Cons.prems(2,3) c1(3) by auto
  from Cons.IH [OF c1(2) this, of "v\<lparr>rv_resolved := rv_resolved v + 1\<rparr>"] c1(1,4) show ?case by auto
qed simp

lemma catchUp_calm:
  assumes env: "calm env" and m: "machine_at sid c = Some m"
  obtains c' m' where "catchUp env sid c = Some (None, c')" "machine_at sid c' = Some m'" "core_eq m m'"
    "\<forall>s. s \<noteq> sid \<longrightarrow> machine_at s c' = machine_at s c" "fmdom (co_groups c') = fmdom (co_groups c)"
proof -
  have "apply_cmd (single_cmd zero_command) m = Some (failed ErrMissingKey, m)"
    by (simp add: apply_cmd_def Apply_def zero_command_def recordResult_def)
  moreover have "shard_wire_ok (single_cmd zero_command)"
    by (simp add: shard_wire_ok_def wire_ok_def zero_command_def in_int64_def)
  ultimately obtain c' m' where c': "Propose env sid (single_cmd zero_command) c
        = Some ((failed ErrMissingKey, True, None), c')" "machine_at sid c' = Some m'" "core_eq m m'"
      "\<And>s. s \<noteq> sid \<Longrightarrow> machine_at s c' = machine_at s c" "same_shape c c'"
    using Propose_calm [OF env m] by metis
  then show ?thesis using that [of c' m'] same_shape_dom [OF c'(5)] by (simp add: catchUp_def)
qed

lemma progress_core:
  assumes p: "progress c0 c" and m: "machine_at sid c = Some m" and m': "machine_at sid c' = Some m'" "core_eq m m'"
    and o: "\<forall>s. s \<noteq> sid \<longrightarrow> machine_at s c' = machine_at s c" and d: "fmdom (co_groups c') = fmdom (co_groups c)"
  shows "progress c0 c'"
  unfolding progress_def
proof (intro conjI allI impI)
  show "fmdom (co_groups c') = fmdom (co_groups c0)" using p d by (simp add: progress_def)
next
  fix s m0 assume m0: "machine_at s c0 = Some m0"
  obtain m1 where m1: "machine_at s c = Some m1" "shard_inv m1" "\<And>k. kept_or_settled c0 m0 m1 k"
    using progressD [OF p m0] by metis
  show "\<exists>m'. machine_at s c' = Some m' \<and> shard_inv m' \<and> (\<forall>k. kept_or_settled c0 m0 m' k)"
  proof (cases "s = sid")
    case True
    then have "m1 = m" using m1(1) m by simp
    with True m1 m'(1) core_eq_simps [OF m'(2)] show ?thesis by (simp add: kept_or_settled_def)
  qed (use m1 o in auto)
qed

lemma InDoubt_doubts: "machine_at sid c = Some m \<Longrightarrow> fset (InDoubt m) = doubts sid c"
  by (auto simp: InDoubt_def doubts_def Tx_def fmlookup_dom_iff)

text \<open>The ranges over maps visit every key once.\<close>

definition ranges :: "GroupEnv \<Rightarrow> bool" where
  "ranges env \<longleftrightarrow> (\<forall>X. set (ge_range env X) = fset X \<and> distinct (ge_range env X))
     \<and> (\<forall>X. set (ge_scan env X) = fset X \<and> distinct (ge_scan env X))"

lemma recover_group_step:
  assumes env: "calm env" "ranges env" and r: "recoverable c0" and p: "progress c0 c" and sid: "sid |\<in>| fmdom (co_groups c0)"
  obtains c' where
    "recover_group env sid (v, c) = Some (v\<lparr>rv_resolved := rv_resolved v + card (doubts sid c)\<rparr>, c')"
    "progress c0 c'" "doubts sid c' = {}" "\<forall>s. s \<noteq> sid \<longrightarrow> machine_at s c' = machine_at s c"
proof -
  obtain m where m: "machine_at sid c = Some m" using progress_machine [OF p r sid] by metis
  let ?c = "\<lambda>n. c\<lparr>co_calls := n\<rparr>"
  have m1: "machine_at sid (?c (Suc (co_calls c))) = Some m" using m by simp
  obtain c1 m' where c1: "catchUp env sid (?c (Suc (co_calls c))) = Some (None, c1)" "machine_at sid c1 = Some m'"
      "core_eq m m'" "\<forall>s. s \<noteq> sid \<longrightarrow> machine_at s c1 = machine_at s (?c (Suc (co_calls c)))"
      "fmdom (co_groups c1) = fmdom (co_groups (?c (Suc (co_calls c))))"
    by (rule catchUp_calm [OF env(1) m1])
  let ?c1 = "c1\<lparr>co_calls := Suc (co_calls c1)\<rparr>" and ?xs = "ge_scan env (InDoubt m')"
  have "progress c0 c1"
    by (rule progress_core [OF p m c1(2,3)]) (use c1(4,5) in simp_all)
  then have p1: "progress c0 ?c1" by simp
  have d: "doubts sid ?c1 = doubts sid c"
    using c1(2) m core_eq_simps(4) [OF c1(3)] by (simp add: doubts_def)
  have xs: "doubts sid ?c1 = set ?xs" "distinct ?xs" "length ?xs = card (doubts sid c)"
    using env(2) InDoubt_doubts [of sid ?c1 m'] c1(2) d distinct_card [of ?xs] by (simp_all add: ranges_def)
  from recover_txs [OF env(1) r sid p1 xs(1,2), of v] obtain c' where
    c': "fold_option (recover_tx env sid) ?xs (v, ?c1) = Some (v\<lparr>rv_resolved := rv_resolved v + length ?xs\<rparr>, c')"
      "progress c0 c'" "doubts sid c' = {}" "\<forall>s. s \<noteq> sid \<longrightarrow> machine_at s c' = machine_at s ?c1" by blast
  have "recover_group env sid (v, c) = Some (v\<lparr>rv_resolved := rv_resolved v + card (doubts sid c)\<rparr>, c')"
    using IsLeader_calm [OF env(1) m] c1(1) read_machine_calm [OF env(1) c1(2)] c'(1) xs(3)
    by (simp add: recover_group_def)
  moreover have "\<forall>s. s \<noteq> sid \<longrightarrow> machine_at s c' = machine_at s c" using c'(4) c1(4) by simp
  ultimately show ?thesis using that c'(2,3) by blast
qed

lemma doubts_cong: "machine_at s c' = machine_at s c \<Longrightarrow> doubts s c' = doubts s c"
  by (simp add: doubts_def)

lemma recover_groups:
  assumes env: "calm env" "ranges env" and r: "recoverable c0"
    and p: "progress c0 c" and ys: "set ys \<subseteq> fset (fmdom (co_groups c0))" "distinct ys"
  shows "\<exists>c'. fold_option (recover_group env) ys (v, c)
      = Some (v\<lparr>rv_resolved := rv_resolved v + (\<Sum>s\<leftarrow>ys. card (doubts s c))\<rparr>, c')
    \<and> progress c0 c' \<and> (\<forall>s\<in>set ys. doubts s c' = {}) \<and> (\<forall>s. s \<notin> set ys \<longrightarrow> machine_at s c' = machine_at s c)"
  using p ys
proof (induction ys arbitrary: v c)
  case (Cons y ys)
  then have "y |\<in>| fmdom (co_groups c0)" by simp
  from recover_group_step [OF env r Cons.prems(1) this, of v] obtain c1 where
    c1: "recover_group env y (v, c) = Some (v\<lparr>rv_resolved := rv_resolved v + card (doubts y c)\<rparr>, c1)"
      "progress c0 c1" "doubts y c1 = {}" "\<forall>s. s \<noteq> y \<longrightarrow> machine_at s c1 = machine_at s c" by blast
  let ?v = "v\<lparr>rv_resolved := rv_resolved v + card (doubts y c)\<rparr>"
  have "set ys \<subseteq> fset (fmdom (co_groups c0))" "distinct ys" using Cons.prems by auto
  from Cons.IH [OF c1(2) this, of ?v] obtain c2 where
    c2: "fold_option (recover_group env) ys (?v, c1)
        = Some (?v\<lparr>rv_resolved := rv_resolved ?v + (\<Sum>s\<leftarrow>ys. card (doubts s c1))\<rparr>, c2)" "progress c0 c2"
      "\<forall>s\<in>set ys. doubts s c2 = {}" "\<forall>s. s \<notin> set ys \<longrightarrow> machine_at s c2 = machine_at s c1" by blast
  have y: "y \<notin> set ys" using Cons.prems(3) by simp
  have "(\<Sum>s\<leftarrow>ys. card (doubts s c1)) = (\<Sum>s\<leftarrow>ys. card (doubts s c))"
  proof (rule arg_cong [of _ _ sum_list], rule map_cong [OF refl])
    fix s assume "s \<in> set ys"
    with y have "s \<noteq> y" by blast
    with c1(4) show "card (doubts s c1) = card (doubts s c)" using doubts_cong [of s c1 c] by simp
  qed
  moreover have "doubts y c2 = {}" using c2(4) y doubts_cong [of y c2 c1] c1(3) by simp
  ultimately show ?case using c1(1,4) c2 y by (auto simp: add.assoc)
qed simp

lemma InDoubtCount_eq:
  assumes "\<And>s. s |\<in>| fmdom (co_groups c) \<Longrightarrow> \<exists>m. machine_at s c = Some m"
  shows "InDoubtCount c = Some (\<Sum>s\<in>fset (fmdom (co_groups c)). card (doubts s c))"
proof -
  have l: "\<exists>r. fmlookup (co_groups c) s = Some (Some r) \<and> fcard (InDoubt (rep_Machine r)) = card (doubts s c)"
    if s: "s |\<in>| fmdom (co_groups c)" for s
  proof -
    obtain m where m: "machine_at s c = Some m" using assms [OF s] by blast
    then obtain r where "fmlookup (co_groups c) s = Some (Some r)" "m = rep_Machine r"
      by (auto simp: machine_at_def split: option.splits if_splits)
    with InDoubt_doubts [OF m] show ?thesis by (simp add: fcard.rep_eq)
  qed
  then have "\<not> (\<exists>g |\<in>| fmran (co_groups c). g = None)" by (force simp: fmlookup_ran_iff fmlookup_dom_iff)
  moreover have "(\<Sum>sid\<in>fset (fmdom (co_groups c)).
        (case fmlookup (co_groups c) sid of Some (Some r) \<Rightarrow> fcard (InDoubt (rep_Machine r)) | _ \<Rightarrow> 0))
      = (\<Sum>s\<in>fset (fmdom (co_groups c)). card (doubts s c))"
    using l by (intro sum.cong) fastforce+
  ultimately show ?thesis by (simp add: InDoubtCount_def)
qed

lemma recovery_run:
  assumes "calm env" "ranges env" "recoverable c"
  obtains c' where "RecoverInDoubt env c = Some ((the (InDoubtCount c), None), c')" "InDoubtCount c \<noteq> None"
    "progress c c'" "InDoubtCount c' = Some 0" "\<forall>s. doubts s c' = {}"
proof -
  let ?ys = "ge_range env (fmdom (co_groups c))" and ?v = "\<lparr>rv_resolved = 0, rv_blocked = 0, rv_firstErr = None\<rparr>"
  have ys: "set ?ys = fset (fmdom (co_groups c))" "distinct ?ys" using assms(2) by (simp_all add: ranges_def)
  from recover_groups [OF assms progress_refl [OF assms(3)] _ ys(2), of ?v] ys(1) obtain c' where
    c': "fold_option (recover_group env) ?ys (?v, c)
        = Some (?v\<lparr>rv_resolved := rv_resolved ?v + (\<Sum>s\<leftarrow>?ys. card (doubts s c))\<rparr>, c')" "progress c c'"
      "\<forall>s\<in>set ?ys. doubts s c' = {}" by auto
  have n: "InDoubtCount c = Some (\<Sum>s\<leftarrow>?ys. card (doubts s c))"
    using InDoubtCount_eq [of c] recoverableD(1) [OF assms(3)] ys by (metis sum_list_distinct_conv_sum_set)
  have dom: "fmdom (co_groups c') = fmdom (co_groups c)" using c'(2) by (simp add: progress_def)
  have "\<exists>m. machine_at s c' = Some m" if "s |\<in>| fmdom (co_groups c')" for s
    using progress_machine [OF c'(2) assms(3), of s] that dom by metis
  then have n': "InDoubtCount c' = Some 0" using InDoubtCount_eq [of c'] c'(3) ys dom by simp
  have "doubts s c' = {}" for s
  proof (cases "s |\<in>| fmdom (co_groups c')")
    case False
    then show ?thesis by (auto simp: doubts_def machine_at_def fmdom_notD)
  qed (use c'(3) ys dom in auto)
  moreover have "RecoverInDoubt env c = Some ((the (InDoubtCount c), None), c')"
    using c'(1) n by (simp add: RecoverInDoubt_def)
  ultimately show ?thesis using that n n' c'(2) by simp
qed

lemma progress_phase:
  assumes "progress c c'" "prepared_at c sid txid rc" "doubts sid c' = {}"
  shows "phase_at sid txid (co_groups c') = Some (if verdict c txid rc then PhaseCommitted else PhaseAborted)"
proof -
  obtain m where m: "machine_at sid c = Some m" "Tx txid m = Some rc" "rec_Phase rc = PhasePrepared"
    using assms(2) by blast
  obtain m' where m': "machine_at sid c' = Some m'" "kept_or_settled c m m' txid"
    using progressD [OF assms(1) m(1)] by metis
  have "Tx txid m' \<noteq> Some rc" using assms(3) m'(1) m(3) by (auto simp: doubts_def)
  with m' m obtain rc' where "Tx txid m' = Some rc'" "settled (verdict c txid rc) rc'"
    by (auto simp: kept_or_settled_def)
  with m'(1) show ?thesis
    by (auto simp: phase_at_def machine_at_def settled_def split: option.splits if_splits)
qed


section \<open>Recovery against a running transfer\<close>

lemma Propose_settled:
  assumes env: "calm env" and m: "machine_at sid c = Some m" "shard_inv m"
    and r: "Tx txid m = Some r" "terminal (rec_Phase r)" and w: "shard_wire_ok cmd"
  obtains res c' m' r' where "Propose env sid cmd c = Some ((res, True, None), c')" "machine_at sid c' = Some m'"
    "shard_inv m'" "Tx txid m' = Some r'" "rec_Phase r' = rec_Phase r"
    "\<forall>s. s \<noteq> sid \<longrightarrow> machine_at s c' = machine_at s c"
proof -
  have n: "in_int64 (cmd_Amount (sc_Ledger cmd))" using w by (simp add: shard_wire_ok_def wire_ok_def)
  obtain res m1 where m1: "apply_cmd cmd m = Some (res, m1)" "shard_inv m1" using apply_cmd_inv [OF m(2) n] by blast
  obtain r' where r': "Tx txid m1 = Some r'" "rec_Phase r' = rec_Phase r"
    using apply_cmd_terminal [OF m1(1)] r by (auto simp: Tx_def)
  obtain c' m2 where c': "Propose env sid cmd c = Some ((res, True, None), c')" "machine_at sid c' = Some m2"
      "core_eq m1 m2" "\<forall>s. s \<noteq> sid \<longrightarrow> machine_at s c' = machine_at s c"
    using Propose_calm [OF env m(1) w m1(1)] by metis
  with r' m1(2) core_eq_simps [OF c'(3)] that show ?thesis by simp
qed

lemma phase_at_machine: "machine_at sid c = Some m \<Longrightarrow> phase_at sid txid (co_groups c) = map_option rec_Phase (Tx txid m)"
  by (auto simp: machine_at_def phase_at_def split: option.splits if_splits)


section \<open>Concrete runs\<close>

text \<open>Shards \<open>A\<close> and \<open>B\<close> with one account each, on a ring that places \<open>a\<close> and \<open>b\<close> there.\<close>

definition sample_ring :: Ring where
  "sample_ring = \<lparr>ring_points = [\<lparr>pt_hash = hashKey ''b'', pt_shard = ''B''\<rparr>, \<lparr>pt_hash = hashKey ''a'', pt_shard = ''A''\<rparr>],
     ring_vnodes = 1, ring_shards = [''A'', ''B'']\<rparr>"

definition replica :: "ShardMachine \<Rightarrow> Replica" where
  "replica m = \<lparr>rep_Machine = m, rep_applied = 1, rep_tail = []\<rparr>"

definition pair :: "ShardMachine \<Rightarrow> ShardMachine \<Rightarrow> Coordinator" where
  "pair A B = NewCoordinator sample_ring
     (fmupd ''A'' (Some (replica A)) (fmupd ''B'' (Some (replica B)) fmempty))"

definition sample_env :: "(ShardID \<times> Move) list list \<Rightarrow> Reply list \<Rightarrow> GroupEnv" where
  "sample_env moves replies = \<lparr>ge_moves = moves, ge_reply = replies, ge_leads = [], ge_wall = 5,
     ge_range = sorted_list_of_fset, ge_scan = sorted_list_of_fset\<rparr>"

lemma sample_ShardFor: "ShardFor (pair A B) ''a'' = ''A''" "ShardFor (pair A B) ''b'' = ''B''"
proof -
  have "Lookup sample_ring ''a'' = ''A''" "Lookup sample_ring ''b'' = ''B''" by code_simp+
  then show "ShardFor (pair A B) ''a'' = ''A''" "ShardFor (pair A B) ''b'' = ''B''"
    by (simp_all add: ShardFor_def pair_def NewCoordinator_def)
qed

abbreviation deposit :: "string \<Rightarrow> Money \<Rightarrow> Command" where
  "deposit key n \<equiv> \<lparr>cmd_Op = OpDeposit, cmd_IdempotencyKey = key, cmd_From = [], cmd_To = ''a'', cmd_Amount = n,
     cmd_Timestamp = Timestamp 1 0\<rparr>"

text \<open>a write can be acknowledged although it was never applied. When a deposed leader's entry is
  replaced by another leader's entry at the same index, the wait for that index ends, and the
  result reported for the write is the other entry's. Here a deposit of 5 is answered with success
  and the balance after somebody else's deposit of 7; the 5 are not in the account, and the
  idempotency key of the deposit is unknown to the shard.\<close>

theorem displaced_write_reported_done:
  "\<exists>c'. Transfer (sample_env [] [Displace [EncodeCommand (single_cmd (deposit ''other'' 7))]]) ''tx'' (deposit ''mine'' 5)
        (pair (idle_shard ''a'') (idle_shard ''b'')) = Some ((succeeded 17, None), c')
    \<and> map_option (\<lambda>m. (Balance_of ''a'' (sm_State m), fmlookup (applied (sm_State m)) ''mine'')) (machine_at ''A'' c')
        = Some ((17, True), None)"
proof -
  let ?e = "EncodeCommand (single_cmd (deposit ''other'' 7))" and ?A = "idle_shard ''a''"
  have dec: "DecodeCommand ?e = Inr (single_cmd (deposit ''other'' 7))"
    by (rule DecodeCommand_EncodeCommand_ok) (simp add: shard_wire_ok_def wire_ok_def in_int64_def)
  have "\<exists>m. apply_cmd (single_cmd (deposit ''other'' 7)) ?A = Some (succeeded 17, m)
      \<and> Balance_of ''a'' (sm_State m) = (17, True) \<and> fmlookup (applied (sm_State m)) ''mine'' = None"
    by (simp add: apply_cmd_def ShardOp_defs Apply_def applyLocked_def Op_defs idle_shard_def NewShardMachine_def
        has_prefix_def internalKeyPrefix_def set_balance_def record_tx_def tx_balances_def recordResult_def
        Balance_of_def maxMoney_def in_int64_def Let_def)
  then obtain m where m: "apply_cmd (single_cmd (deposit ''other'' 7)) ?A = Some (succeeded 17, m)"
      "Balance_of ''a'' (sm_State m) = (17, True)" "fmlookup (applied (sm_State m)) ''mine'' = None" by blast
  then have "\<exists>m. apply_log ApplyAt 1 [?e] ?A = Some ([succeeded 17], m) \<and> AppliedResult (Suc (Suc 0)) m = succeeded 17
      \<and> Balance_of ''a'' (sm_State m) = (17, True) \<and> fmlookup (applied (sm_State m)) ''mine'' = None"
    by (simp add: ApplyAt_def shard_apply_def dec AppliedResult_def)
  moreover have "Transfer (sample_env [] [Displace [?e]]) ''tx'' (deposit ''mine'' 5) (pair ?A (idle_shard ''b''))
      = single (sample_env [] [Displace [?e]]) ''A'' (deposit ''mine'' 5) (pair ?A (idle_shard ''b''))"
    by (simp add: Transfer_def stamp_command_def IsZero_def Op_defs sample_ShardFor)
  ultimately show ?thesis
    by (auto simp: single_def Propose_def tick_def sample_env_def script_def pair_def NewCoordinator_def replica_def
        machine_at_def Let_def simp del: apply_log.simps)
qed

lemma machine_at_pair [simp]: "machine_at ''A'' (pair A B) = Some A" "machine_at ''B'' (pair A B) = Some B"
  by (simp_all add: machine_at_def pair_def NewCoordinator_def replica_def)

lemma calm_sample: "calm (sample_env [] [])"
  by (simp add: calm_def sample_env_def)

lemma ranges_sample: "ranges (sample_env moves replies)"
  by (simp add: ranges_def sample_env_def sorted_list_of_fset_simps)

lemma fits_sample: "transfer_fits ''t'' sample_transfer ''A'' ''B''"
  by (simp add: transfer_fits_def wire_ok_def in_int64_def)

lemma uncommitted_sample: "uncommitted [''B'', ''A''] ''t'' (co_groups (pair (idle_shard ''a'') (idle_shard ''b'')))"
  using idle_shard_inv
  by (auto simp: uncommitted_def upheld_def pair_def NewCoordinator_def replica_def lean_keep_def leans_def Tx_def
      idle_shard_def NewShardMachine_def split: if_splits)



lemma in_doubt_pair:
  "prepared_at (pair debit_shard (credit_shard 1)) sid txid rc
     \<longleftrightarrow> txid = ''t'' \<and> (sid = ''A'' \<and> rc = sample_record PhasePrepared True
        \<or> sid = ''B'' \<and> rc = sample_record PhasePrepared False)"
  by (auto simp: machine_at_def pair_def NewCoordinator_def replica_def Tx_def debit_shard_def credit_shard_def
      split: if_splits)

lemma recoverable_sample: "recoverable (pair debit_shard (credit_shard 1))"
proof -
  let ?c = "pair debit_shard (credit_shard 1)"
  have i: "shard_inv (credit_shard 1)" by (rule credit_shard_inv) (simp_all add: maxMoney_def)
  have d: "fmdom (co_groups ?c) = {|''A'', ''B''|}" by (simp add: pair_def NewCoordinator_def)
  have "\<exists>m. machine_at sid ?c = Some m \<and> shard_inv m" if "sid |\<in>| fmdom (co_groups ?c)" for sid
    using that i debit_shard_inv unfolding d by auto
  then show ?thesis unfolding recoverable_def in_doubt_pair
    by (auto simp: coordinator_of_def shard_wire_ok_def wire_ok_def in_int64_def d)
qed



end
