(* ===== verification/CoordinatorRetry.thy ===== *)
theory CoordinatorRetry
  imports CoordinatorRuns
begin

text \<open>
  Retries at the coordinator of src/shard/coordinator.go. A client that gets no answer, or an answer
  that says so, is told to retry with the same idempotency key, which is the transaction id. The
  steps of the protocol are followed for a retry of a transfer of which the credit shard has not yet
  heard the outcome: the retry overwrites the commit decision and aborts the credit leg.
\<close>

lemma Propose_refused:
  assumes "script [] (ge_moves env) (co_calls c) = []" "script Confirm (ge_reply env) (co_calls c) = Refuse"
    and "machine_at sid c = Some m"
  shows "Propose env sid cmd c = Some ((zero_result, False, None), c\<lparr>co_calls := Suc (co_calls c)\<rparr>)"
  using assms by (auto simp: Propose_def tick_def machine_at_def split: option.splits if_splits)

lemma single_use:
  assumes "map_option rec_Phase (Tx txid A) = Some PhaseCommitted"
  shows "\<exists>res. apply_cmd (tx_cmd OpPrepare txid cmd False d ps co) A = Some (res, A) \<and> \<not> OK res"
  using assms by (auto simp: apply_cmd_def ShardOp_defs applyPrepare_def prepare_known_def Tx_def)

lemma decision_terminal:
  assumes "map_option rec_Phase (Tx txid A) = Some PhaseCommitted"
  obtains A' where "apply_cmd (tx_cmd OpDecision txid cmd b d ps co) A = Some (succeeded 0, A')"
    "map_option rec_Phase (Tx txid A') = Some PhaseCommitted" "sm_State A' = sm_State A" "Decision txid A' = Some b"
proof -
  let ?c = "tx_cmd OpDecision txid cmd b d ps co"
  obtain r where r: "fmlookup (sm_txs A) txid = Some r" "rec_Phase r = PhaseCommitted"
    using assms by (auto simp: Tx_def)
  with that [of "snd (applyDecision ?c A)"] decided_record_fields(1) [of A ?c r] decided_record_fields(3,4) [of ?c A]
  show ?thesis by (simp add: apply_cmd_def ShardOp_defs applyDecision_def Tx_def Decision_def)
qed

lemma outcome_terminal:
  assumes "map_option rec_Phase (Tx txid A) = Some PhaseCommitted"
  shows "apply_cmd (tx_cmd OpOutcome txid cmd b d ps co) A = Some (succeeded 0, A)"
  using assms by (auto simp: apply_cmd_def ShardOp_defs applyOutcome_def Tx_def)

lemma credit_aborts:
  assumes inv: "shard_inv B" and p: "holds_leg txid cmd False B"
  obtains res B' where "apply_cmd (tx_cmd OpOutcome txid cmd' False d ps co) B = Some (res, B')"
    "money (sm_State B') = money (sm_State B)" "map_option rec_Phase (Tx txid B') = Some PhaseAborted"
proof -
  let ?c = "tx_cmd OpOutcome txid cmd' False d ps co"
  obtain r where r: "fmlookup (sm_txs B) (sc_TxID ?c) = Some r" "rec_Phase r = PhasePrepared"
    using p by (auto simp: Tx_def split: option.splits)
  with outcome_effect [OF inv r] that show ?thesis by (auto simp: apply_cmd_def ShardOp_defs)
qed

text \<open>A transfer whose last proposal is refused: the debit shard has committed, the credit shard is
  still in doubt, and the answer is success.\<close>

lemma transfer_half_delivered:
  assumes env: "calm_at env (co_calls c)" "calm_at env (Suc (co_calls c))" "calm_at env (Suc (Suc (co_calls c)))"
      "calm_at env (Suc (Suc (Suc (co_calls c))))"
      "script [] (ge_moves env) (Suc (Suc (Suc (Suc (co_calls c))))) = []"
      "script Confirm (ge_reply env) (Suc (Suc (Suc (Suc (co_calls c))))) = Refuse"
      "calm_at env (Suc (Suc (Suc (Suc (Suc (co_calls c))))))"
    and w: "transfer_fits txid cmd fs ts" and ne: "fs \<noteq> ts" and n: "0 < cmd_Amount cmd"
    and A: "machine_at fs c = Some A" "shard_inv A" "Tx txid A = None"
      "cmd_Amount cmd \<le> fst (Available (cmd_From cmd) (sm_State A))"
    and B: "machine_at ts c = Some B" "shard_inv B" "Tx txid B = None" "snd (Balance_of (cmd_To cmd) (sm_State B))"
  obtains b c' A' B' where "twoPhase env txid cmd fs ts c = Some ((succeeded b, None), c')"
    "machine_at fs c' = Some A'" "shard_inv A'" "map_option rec_Phase (Tx txid A') = Some PhaseCommitted"
    "money (sm_State A') = money (sm_State A) - cmd_Amount cmd"
    "machine_at ts c' = Some B'" "shard_inv B'" "holds_leg txid cmd False B'" "money (sm_State B') = money (sm_State B)"
    "same_shape c c'"
proof -
  obtain r1 c1 r2 c2 A1 B1 where 1:
      "Propose env fs (tx_cmd OpPrepare txid cmd False True [fs, ts] fs) c = Some ((r1, True, None), c1)" "OK r1"
      "Propose env ts (tx_cmd OpPrepare txid cmd False False [fs, ts] fs) c1 = Some ((r2, True, None), c2)" "OK r2"
      "machine_at fs c2 = Some A1" "shard_inv A1" "holds_leg txid cmd True A1" "balances (sm_State A1) = balances (sm_State A)"
      "machine_at ts c2 = Some B1" "shard_inv B1" "holds_leg txid cmd False B1" "sm_State B1 = sm_State B"
      "co_calls c2 = Suc (Suc (co_calls c))" "same_shape c c2"
    by (rule both_vote_yes [OF env(1,2) w ne n A B])
  have e: "calm_at env (co_calls c2)" "calm_at env (Suc (co_calls c2))" using env(3,4) 1(13) by simp_all
  obtain x3 c3 x4 c4 A4 where 4:
      "Propose env fs (tx_cmd OpDecision txid cmd True True [fs, ts] fs) c2 = Some ((x3, True, None), c3)"
      "Propose env fs (tx_cmd OpOutcome txid cmd True True [fs, ts] fs) c3 = Some ((x4, True, None), c4)"
      "machine_at fs c4 = Some A4" "shard_inv A4" "machine_at ts c4 = machine_at ts c2" "co_calls c4 = Suc (Suc (co_calls c2))"
      "money (sm_State A4) = money (sm_State A1) - cmd_Amount cmd"
      "map_option rec_Phase (Tx txid A4) = Some PhaseCommitted" "same_shape c2 c4"
    by (rule debit_leg [OF e w ne 1(5,6,7)])
  have B4: "machine_at ts c4 = Some B1" using 4(5) 1(9) by simp
  let ?c = "\<lambda>n. c4\<lparr>co_calls := n\<rparr>"
  have 5: "Propose env ts (tx_cmd OpOutcome txid cmd True False [fs, ts] fs) c4
      = Some ((zero_result, False, None), ?c (Suc (co_calls c4)))"
    by (rule Propose_refused [OF _ _ B4]) (use env(5,6) 1(13) 4(6) in simp_all)
  have "read_machine env fs (?c (Suc (co_calls c4))) = Some (A4, ?c (Suc (Suc (co_calls c4))))"
    using read_machine_calm_at [of env "?c (Suc (co_calls c4))" fs A4] env(7) 1(13) 4(3,6) by simp
  moreover obtain gf gt where "fmlookup (co_groups c) fs = Some gf" "fmlookup (co_groups c) ts = Some gt"
    using machine_at_Some [OF A(1)] machine_at_Some [OF B(1)] by blast
  ultimately have "twoPhase env txid cmd fs ts c
      = Some ((succeeded (fst (Available (cmd_From cmd) (sm_State A4))), None), ?c (Suc (Suc (co_calls c4))))"
    using 1(1-4) 4(1,2) 5 by (simp add: twoPhase_def decide_def)
  then show ?thesis
    by (rule that [of _ _ A4 B1])
      (use 1 4 B4 same_shape_trans [OF 1(14) 4(9)] in \<open>simp_all add: money_def same_shape_def\<close>)
qed

text \<open>The retry finds the transaction committed at the debit shard and so gets a NO vote, on which the
  coordinator decides to abort.\<close>

lemma retry_aborts_credit:
  assumes env: "calm env" and w: "transfer_fits txid cmd fs ts" "transfer_fits txid cmd0 fs ts" and ne: "fs \<noteq> ts"
    and A: "machine_at fs c = Some A" "map_option rec_Phase (Tx txid A) = Some PhaseCommitted"
    and B: "machine_at ts c = Some B" "shard_inv B" "holds_leg txid cmd0 False B"
  obtains res c' A' B' where "twoPhase env txid cmd fs ts c = Some ((res, Some (Bare ErrTxAborted)), c')" "\<not> OK res"
    "machine_at fs c' = Some A'" "sm_State A' = sm_State A" "map_option rec_Phase (Tx txid A') = Some PhaseCommitted"
    "machine_at ts c' = Some B'" "money (sm_State B') = money (sm_State B)"
    "map_option rec_Phase (Tx txid B') = Some PhaseAborted"
proof -
  note wire = transfer_fits_wire [OF w(1)]
  obtain r1 where r1: "apply_cmd (tx_cmd OpPrepare txid cmd False True [fs, ts] fs) A = Some (r1, A)" "\<not> OK r1"
    using single_use [OF A(2)] by blast
  obtain c1 A1 where 1: "Propose env fs (tx_cmd OpPrepare txid cmd False True [fs, ts] fs) c = Some ((r1, True, None), c1)"
      "machine_at fs c1 = Some A1" "core_eq A A1" "machine_at ts c1 = machine_at ts c"
    using Propose_calm [OF env A(1) wire r1(1)] ne by metis
  note k1 = core_eq_simps [OF 1(3)]
  have "map_option rec_Phase (Tx txid A1) = Some PhaseCommitted" using A(2) k1 by simp
  then obtain A2 where a2: "apply_cmd (tx_cmd OpDecision txid cmd False True [fs, ts] fs) A1 = Some (succeeded 0, A2)"
      "map_option rec_Phase (Tx txid A2) = Some PhaseCommitted" "sm_State A2 = sm_State A1"
    using decision_terminal [of txid A1 cmd False] by metis
  obtain c2 A2' where 2: "Propose env fs (tx_cmd OpDecision txid cmd False True [fs, ts] fs) c1
        = Some ((succeeded 0, True, None), c2)" "machine_at fs c2 = Some A2'" "core_eq A2 A2'" "machine_at ts c2 = machine_at ts c1"
    using Propose_calm [OF env 1(2) wire a2(1)] ne by metis
  note k2 = core_eq_simps [OF 2(3)]
  have p2: "map_option rec_Phase (Tx txid A2') = Some PhaseCommitted" using a2(2) k2 by simp
  obtain c3 A3 where 3: "Propose env fs (tx_cmd OpOutcome txid cmd False True [fs, ts] fs) c2
        = Some ((succeeded 0, True, None), c3)" "machine_at fs c3 = Some A3" "core_eq A2' A3" "machine_at ts c3 = machine_at ts c2"
    using Propose_calm [OF env 2(2) wire outcome_terminal [OF p2]] ne by metis
  note k3 = core_eq_simps [OF 3(3)]
  have Bc: "machine_at ts c3 = Some B" using B(1) 1(4) 2(4) 3(4) by simp
  obtain r4 B4 where b4: "apply_cmd (tx_cmd OpOutcome txid cmd False False [fs, ts] fs) B = Some (r4, B4)"
      "money (sm_State B4) = money (sm_State B)" "map_option rec_Phase (Tx txid B4) = Some PhaseAborted"
    by (rule credit_aborts [OF B(2,3)])
  obtain c4 B4' where 4: "Propose env ts (tx_cmd OpOutcome txid cmd False False [fs, ts] fs) c3
        = Some ((r4, True, None), c4)" "machine_at ts c4 = Some B4'" "core_eq B4 B4'" "machine_at fs c4 = machine_at fs c3"
    using Propose_calm [OF env Bc wire b4(1)] ne by metis
  obtain gf gt where "fmlookup (co_groups c) fs = Some gf" "fmlookup (co_groups c) ts = Some gt"
    using machine_at_Some [OF A(1)] machine_at_Some [OF B(1)] by blast
  then have "twoPhase env txid cmd fs ts c = Some ((r1, Some (Bare ErrTxAborted)), c4)"
    using 1(1) 2(1) 3(1) 4(1) r1(2) by (simp add: twoPhase_def decide_def)
  moreover have "machine_at fs c4 = Some A3" using 3(2) 4(4) by simp
  ultimately show ?thesis
    using that [of r1 c4 A3 B4'] r1(2) 4(2) a2 b4 p2 k1 k2 k3 core_eq_simps [OF 4(3)] by simp
qed

text \<open>C14: retrying a transfer with its idempotency key can destroy the money. When the credit group
  refuses the last proposal of a transfer (its leader has just changed), the transfer is answered
  with success while the credit shard is still in doubt. If the client repeats the request, for
  instance because the answer got lost, the transaction id is already used, the retry counts that as
  a NO vote, and decides to abort: the answer says aborted, the debit shard stays committed, the
  credit shard aborts, and the amount is gone from the books of the two shards together.\<close>

theorem retried_transfer_loses_money:
  assumes "ge_moves env = []" "ge_reply env = [Confirm, Confirm, Confirm, Confirm, Refuse]" "ge_leads env = []"
    and "co_calls c = 0" "calm env'"
    and "cmd_Op cmd = OpTransfer" "transfer_fits txid cmd fs ts"
    and "ShardFor c (cmd_From cmd) = fs" "ShardFor c (cmd_To cmd) = ts" "fs \<noteq> ts"
    and "machine_at fs c = Some A" "shard_inv A" "Tx txid A = None"
    and "machine_at ts c = Some B" "shard_inv B" "Tx txid B = None"
    and "0 < cmd_Amount cmd" "cmd_Amount cmd \<le> fst (Available (cmd_From cmd) (sm_State A))"
    and "snd (Balance_of (cmd_To cmd) (sm_State B))"
  shows "\<exists>b c1 res c2 A' B'. Transfer env txid cmd c = Some ((succeeded b, None), c1)
    \<and> Transfer env' txid cmd c1 = Some ((res, Some (Bare ErrTxAborted)), c2) \<and> \<not> OK res
    \<and> machine_at fs c2 = Some A' \<and> machine_at ts c2 = Some B'
    \<and> map_option rec_Phase (Tx txid A') = Some PhaseCommitted
    \<and> map_option rec_Phase (Tx txid B') = Some PhaseAborted
    \<and> money (sm_State A') + money (sm_State B') = money (sm_State A) + money (sm_State B) - cmd_Amount cmd"
proof -
  obtain cmd1 c0 where s1: "stamp_command env cmd c = (cmd1, c0)" by fastforce
  note s = stamp_command_simps [OF s1]
  have w1: "transfer_fits txid cmd1 fs ts" using assms(7) s by (simp add: transfer_fits_def wire_ok_def)
  have e: "calm_at env i" if "i \<noteq> 4" for i
    using that assms(1-3) by (auto simp: calm_at_def script_def less_Suc_eq numeral_eq_Suc)
  have z: "co_calls c0 = 0" using assms(4) s by simp
  obtain b c1 A1 B1 where 1: "twoPhase env txid cmd1 fs ts c0 = Some ((succeeded b, None), c1)"
      "machine_at fs c1 = Some A1" "shard_inv A1" "map_option rec_Phase (Tx txid A1) = Some PhaseCommitted"
      "money (sm_State A1) = money (sm_State A) - cmd_Amount cmd1"
      "machine_at ts c1 = Some B1" "shard_inv B1" "holds_leg txid cmd1 False B1" "money (sm_State B1) = money (sm_State B)"
      "same_shape c0 c1"
    by (rule transfer_half_delivered [of env c0 txid cmd1 fs ts A B])
      (use assms s z e w1 in \<open>simp_all add: machine_at_def script_def\<close>)
  have sh: "ShardFor c1 (cmd_From cmd) = fs" "ShardFor c1 (cmd_To cmd) = ts"
    using assms(8,9) s(7) 1(10) by (simp_all add: ShardFor_def same_shape_def)
  obtain cmd2 c1' where s2: "stamp_command env' cmd c1 = (cmd2, c1')" by fastforce
  note t = stamp_command_simps [OF s2]
  have w2: "transfer_fits txid cmd2 fs ts" using assms(7) t by (simp add: transfer_fits_def wire_ok_def)
  have m: "machine_at fs c1' = Some A1" "machine_at ts c1' = Some B1" using 1(2,6) t(6) by (simp_all add: machine_at_def)
  obtain res c2 A2 B2 where 2: "twoPhase env' txid cmd2 fs ts c1' = Some ((res, Some (Bare ErrTxAborted)), c2)" "\<not> OK res"
      "machine_at fs c2 = Some A2" "sm_State A2 = sm_State A1" "map_option rec_Phase (Tx txid A2) = Some PhaseCommitted"
      "machine_at ts c2 = Some B2" "money (sm_State B2) = money (sm_State B1)"
      "map_option rec_Phase (Tx txid B2) = Some PhaseAborted"
    by (rule retry_aborts_credit [OF assms(5) w2 w1 assms(10) m(1) 1(4) m(2) 1(7,8)])
  have "Transfer env txid cmd c = Some ((succeeded b, None), c1)"
    using Transfer_cross_shard [OF s1 assms(6,8,9,10)] 1(1) by simp
  moreover have "Transfer env' txid cmd c1 = Some ((res, Some (Bare ErrTxAborted)), c2)"
    using Transfer_cross_shard [OF s2 assms(6) sh assms(10)] 2(1) by simp
  ultimately show ?thesis using 2 1(5,9) s(4) by auto
qed

theorem retried_transfer_loses_money_witness:
  "\<exists>b c1 res c2 A' B'.
      Transfer (sample_env [] [Confirm, Confirm, Confirm, Confirm, Refuse]) ''t'' sample_transfer
        (pair (idle_shard ''a'') (idle_shard ''b'')) = Some ((succeeded b, None), c1)
    \<and> Transfer (sample_env [] []) ''t'' sample_transfer c1 = Some ((res, Some (Bare ErrTxAborted)), c2) \<and> \<not> OK res
    \<and> machine_at ''A'' c2 = Some A' \<and> machine_at ''B'' c2 = Some B'
    \<and> money (sm_State A') + money (sm_State B')
        = money (sm_State (idle_shard ''a'')) + money (sm_State (idle_shard ''b'')) - 4"
proof -
  have a: "fst (Available ''a'' (sm_State (idle_shard ''a''))) = 10"
    using Available_eq [OF shard_invD(1) [OF idle_shard_inv [of "''a''"]], of "''a''" 10]
    by (simp add: idle_shard_def NewShardMachine_def)
  have b: "Balance_of ''b'' (sm_State (idle_shard ''b'')) = (10, True)"
    "Tx ''t'' (idle_shard ''a'') = None" "Tx ''t'' (idle_shard ''b'') = None"
    by (simp_all add: Balance_of_def idle_shard_def NewShardMachine_def Tx_def)
  have e: "ge_moves (sample_env [] rs) = []" "ge_reply (sample_env [] rs) = rs" "ge_leads (sample_env [] rs) = []"
    "co_calls (pair A B) = 0" for rs A B
    by (simp_all add: sample_env_def pair_def NewCoordinator_def)
  show ?thesis
    using retried_transfer_loses_money [OF e(1,2,3) e(4) calm_sample _ fits_sample,
        of "idle_shard ''a''" "idle_shard ''b''" "idle_shard ''a''" "idle_shard ''b''"] a b idle_shard_inv sample_ShardFor
    by (simp add: Op_defs) blast
qed

end
