(* ===== verification/ShardClientAPI.thy ===== *)
theory ShardClientAPI
  imports ClientAPI CoordinatorRetry
begin

text \<open>
  The bank-facing API of a sharded node (src/rpc/shardclient.go) and the host of its replicas
  (\<^verbatim>\<open>ShardHost\<close> of src/rpc/shardnode.go).

  Writes go through the coordinator, whose model has the groups as the coordinator sees them; reads,
  redirects and the status ask the Raft servers of the hosted replicas. Those go on while a handler
  runs, so the handlers take the host as it is at each point where they look at it.

  Shown here: what the reply to a cross-shard transfer says about the money is true, whatever the
  groups do; an abort that a timeout caused is reported as indeterminate; and a fresh balance comes from a
  replica that took itself for the leader.
\<close>

section \<open>The host\<close>

type_synonym ShardHost = "(ShardID, ShardMachine Server) fmap"

definition ShardIDs :: "ShardHost \<Rightarrow> ShardID list" where
  "ShardIDs h = sorted_list_of_fset (fmdom h)"

fun host_each :: "(ShardID \<Rightarrow> ShardMachine Server \<Rightarrow> ShardMachine Server) \<Rightarrow> ShardID list \<Rightarrow> ShardHost \<Rightarrow> ShardHost" where
  "host_each f [] h = h"
| "host_each f (sid # sids) h =
     host_each f sids (case fmlookup h sid of None \<Rightarrow> h | Some s \<Rightarrow> fmupd sid (f sid s) h)"

definition ShardHost_Start :: "(ShardID \<Rightarrow> Env) \<Rightarrow> ShardHost \<Rightarrow> ShardHost" where
  "ShardHost_Start env h = host_each (\<lambda>sid. Start (env sid)) (ShardIDs h) h"

definition ShardHost_Stop :: "ShardHost \<Rightarrow> ShardHost" where
  "ShardHost_Stop h = host_each (\<lambda>sid. Stop) (ShardIDs h) h"

section \<open>The service\<close>

record ShardClientService =
  ss_nodeID :: string
  ss_coordinator :: Coordinator
  ss_token :: string
  ss_tlsOn :: bool
  ss_admit :: Admitter
  ss_addrs :: "(NodeID, string) fmap"

definition NewShardClientService :: "string \<Rightarrow> Coordinator \<Rightarrow> string \<Rightarrow> (NodeID, string) fmap \<Rightarrow> ShardClientService" where
  "NewShardClientService nodeID coord token addrs = \<lparr>ss_nodeID = nodeID, ss_coordinator = coord, ss_token = token,
     ss_tlsOn = False, ss_admit = NewAdmitter \<lparr>MaxInFlight = 0, PerClientRate = 0, PerClientBurst = 0\<rparr>, ss_addrs = addrs\<rparr>"

definition ShardSetLimits :: "Limits \<Rightarrow> ShardClientService \<Rightarrow> ShardClientService" where
  "ShardSetLimits l c = c\<lparr>ss_admit := NewAdmitter l\<rparr>"

text \<open>\<^verbatim>\<open>Attach\<close>; the host itself is an argument of the handlers.\<close>

definition Attach :: "bool \<Rightarrow> ShardClientService \<Rightarrow> ShardClientService" where
  "Attach tlsOn c = c\<lparr>ss_tlsOn := tlsOn\<rparr>"

definition leaderAddrFor :: "ShardHost \<Rightarrow> AccountID \<Rightarrow> ShardClientService \<Rightarrow> string option" where
  "leaderAddrFor h account c =
     (case fmlookup h (ShardFor (ss_coordinator c) account) of
        None \<Rightarrow> None
      | Some s \<Rightarrow>
          let (nid, isLeader) = LeaderID s in
          if isLeader \<or> nid = [] then None else fmlookup (ss_addrs c) nid)"

definition routedAccount :: "Command \<Rightarrow> AccountID" where
  "routedAccount cmd = (if cmd_Op cmd = OpOpenAccount \<or> cmd_Op cmd = OpDeposit then cmd_To cmd else cmd_From cmd)"

text \<open>The \<^verbatim>\<open>switch\<close> of \<^verbatim>\<open>Submit\<close> on what the coordinator returned, with the address of the leader as far as
  it is known.\<close>

definition transfer_reply :: "Result \<Rightarrow> CoordError option \<Rightarrow> string option \<Rightarrow> TxReply" where
  "transfer_reply res err addr =
     (case err of
        None \<Rightarrow> result_reply res
      | Some e \<Rightarrow>
          if errors_Is e CoordSentinel.ErrNotLeader
          then no_reply\<lparr>tr_NotLeader := True, tr_Err := Error_text e,
                 tr_LeaderAddr := (case addr of None \<Rightarrow> [] | Some a \<Rightarrow> a)\<rparr>
          else if e = Bare ErrTxAborted
          then no_reply\<lparr>tr_OK := False, tr_Err := (if Err res = [] then Error_text e else Err res)\<rparr>
          else no_reply\<lparr>tr_Indeterminate := True, tr_Err := Error_text e\<rparr>)"

record ShardClientEnv =
  se_fl :: "rat \<Rightarrow> rat"
  se_now :: int
  se_groups :: GroupEnv
  se_host :: ShardHost

definition ShardSubmit :: "ShardClientEnv \<Rightarrow> TxArgs \<Rightarrow> ShardClientService \<Rightarrow> (TxReply \<times> ShardClientService) option" where
  "ShardSubmit env args c =
     (if \<not> token_check (ss_token c) (ta_Token args)
      then Some (no_reply\<lparr>tr_Unauthenticated := True, tr_Err := ErrUnauthenticated\<rparr>, c)
      else
        let ((rel, rej, ok), a) = Admit (se_fl env) (se_now env) (ta_ClientID args) (ss_admit c);
            c = c\<lparr>ss_admit := a\<rparr>; release = (\<lambda>c. c\<lparr>ss_admit := snd (run_release rel (ss_admit c))\<rparr>)
        in if \<not> ok
           then Some (no_reply\<lparr>tr_Busy := True, tr_Err := rej_Reason rej, tr_RetryAfter := rej_RetryAfter rej\<rparr>, c)
           else case toCommand args of
             Inl e \<Rightarrow> Some (no_reply\<lparr>tr_Err := e\<rparr>, release c)
           | Inr cmd \<Rightarrow>
               if cmd_IdempotencyKey cmd = []
               then Some (no_reply\<lparr>tr_Err := ''an idempotency key is required''\<rparr>, release c)
               else do {
                 ((res, err), coord) \<leftarrow> Transfer (se_groups env) (cmd_IdempotencyKey cmd) cmd (ss_coordinator c);
                 let c = c\<lparr>ss_coordinator := coord\<rparr>;
                 Some (transfer_reply res err (leaderAddrFor (se_host env) (routedAccount cmd) c), release c)
               })"

text \<open>\<^verbatim>\<open>Balance\<close>, with the host at the check of the role, at the read and at the second check.\<close>

definition ShardBalance ::
  "ShardClientEnv \<Rightarrow> ShardHost \<Rightarrow> ShardHost \<Rightarrow> BalanceArgs \<Rightarrow> ShardClientService \<Rightarrow> (BalanceReply \<times> ShardClientService) option" where
  "ShardBalance env h1 h2 args c =
     (if \<not> token_check (ss_token c) (ba_Token args)
      then Some (no_balance\<lparr>br_Unauthenticated := True, br_Err := ErrUnauthenticated\<rparr>, c)
      else
        let ((rel, rej, ok), a) = Admit (se_fl env) (se_now env) (ba_ClientID args) (ss_admit c);
            c = c\<lparr>ss_admit := a\<rparr>; release = (\<lambda>c. c\<lparr>ss_admit := snd (run_release rel (ss_admit c))\<rparr>);
            sid = ShardFor (ss_coordinator c) (ba_Account args)
        in if \<not> ok
           then Some (no_balance\<lparr>br_Busy := True, br_Err := rej_Reason rej, br_RetryAfter := rej_RetryAfter rej\<rparr>, c)
           else case fmlookup (se_host env) sid of
             None \<Rightarrow> Some (no_balance\<lparr>br_Err := ''rpc: this node holds no replica of shard '' @ sid
                 @ '', which owns account '' @ ba_Account args\<rparr>, release c)
           | Some s \<Rightarrow>
               if ba_Linearizable args \<and> Server_Role s \<noteq> Leader
               then Some (no_balance\<lparr>br_NotLeader := True, br_Err := RaftLoop.ErrNotLeader,
                   br_LeaderAddr := (case leaderAddrFor (se_host env) (ba_Account args) c of None \<Rightarrow> [] | Some a \<Rightarrow> a)\<rparr>,
                   release c)
               else do {
                 s1 \<leftarrow> fmlookup h1 sid;
                 m \<leftarrow> s_sm s1;
                 s2 \<leftarrow> fmlookup h2 sid;
                 let (bal, found) = Balance_of (ba_Account args) (sm_State m);
                 Some (no_balance\<lparr>br_Balance := bal, br_Found := found,
                     br_Stale := (\<not> ba_Linearizable args \<or> Server_Role s2 \<noteq> Leader)\<rparr>, release c)
               })"

record ShardStatusReply =
  st_ShardID :: ShardID
  st_Role :: string
  st_Term :: nat
  st_CommitIndex :: nat
  st_LastApplied :: nat
  st_LogLength :: int
  st_LeaderID :: NodeID
  st_InDoubt :: nat
  st_Balances :: "(AccountID, Money) fmap"

definition shard_status :: "ShardID \<Rightarrow> ShardMachine Server \<Rightarrow> ShardStatusReply option" where
  "shard_status sid s = do {
     m \<leftarrow> s_sm s;
     Some \<lparr>st_ShardID = sid, st_Role = Role_String (Server_Role s), st_Term = CurrentTerm s,
       st_CommitIndex = CommitIndex s, st_LastApplied = LastApplied s, st_LogLength = int (length (LogEntries s)) - 1,
       st_LeaderID = fst (LeaderID s), st_InDoubt = fcard (InDoubt m), st_Balances = balances (sm_State m)\<rparr>
   }"

fun status_loop :: "ShardHost \<Rightarrow> ShardID list \<Rightarrow> ShardStatusReply list option" where
  "status_loop h [] = Some []"
| "status_loop h (sid # sids) = do {
     s \<leftarrow> fmlookup h sid;
     st \<leftarrow> shard_status sid s;
     rest \<leftarrow> status_loop h sids;
     Some (st # rest)
   }"

definition ShardStatus :: "ShardHost \<Rightarrow> ShardClientService \<Rightarrow> (string \<times> bool \<times> ShardStatusReply list) option" where
  "ShardStatus h c = do {
     sts \<leftarrow> status_loop h (ShardIDs h);
     Some (ss_nodeID c, ss_tlsOn c, sts)
   }"

section \<open>The contract of a cross-shard transfer\<close>

text \<open>An admitted write that names a cross-shard transfer.\<close>

lemma ShardSubmit_admitted:
  assumes "token_check (ss_token c) (ta_Token args)"
    and "Admit (se_fl env) (se_now env) (ta_ClientID args) (ss_admit c) = ((rel, rej, True), a)"
    and "toCommand args = Inr cmd" "cmd_IdempotencyKey cmd \<noteq> []"
    and "Transfer (se_groups env) (cmd_IdempotencyKey cmd) cmd (ss_coordinator c) = Some ((res, err), coord)"
  shows "\<exists>addr c'. ShardSubmit env args c = Some (transfer_reply res err addr, c')
    \<and> ss_coordinator c' = coord \<and> ad_inFlight (ss_admit c') = ad_inFlight (ss_admit c)"
  using assms Admit_inFlight(1) [OF assms(2)] by (auto simp: ShardSubmit_def run_release_def)

lemma transfer_reply_flags:
  assumes "err = None \<longrightarrow> OK res"
  shows "tr_OK (transfer_reply res err addr) \<longleftrightarrow> err = None"
    and "may_commit err \<Longrightarrow> tr_OK (transfer_reply res err addr) \<or> tr_Indeterminate (transfer_reply res err addr)"
  using assms by (auto simp: transfer_reply_def result_reply_def no_reply_def may_commit_def split: option.splits)


definition sample_bank :: ShardClientService where
  "sample_bank = NewShardClientService ''n1'' (pair (idle_shard ''a'') (idle_shard ''b'')) ''secret'' fmempty"

definition sample_order :: TxArgs where
  "sample_order = \<lparr>ta_Op = ''transfer'', ta_IdempotencyKey = ''t'', ta_From = ''a'', ta_To = ''b'', ta_Amount = 4,
     ta_Token = ''secret'', ta_ClientID = []\<rparr>"

definition sample_bank_env :: ShardClientEnv where
  "sample_bank_env = \<lparr>se_fl = (\<lambda>x. x), se_now = 0,
     se_groups = sample_env [[], [(''A'', Foreign [])]] [Confirm, Expire True], se_host = fmempty\<rparr>"


text \<open>an abort that the coordinator wraps, as it does when the credit shard's prepare timed out, is not
  recognised as one: it is reported as indeterminate, although the transfer is known to be aborted.\<close>

theorem wrapped_abort_is_indeterminate:
  "tr_Indeterminate (transfer_reply (fst (credit_refused ts zero_result True (Some e))) (snd (credit_refused ts zero_result True (Some e))) addr)
    \<and> errors_Is (the (snd (credit_refused ts zero_result True (Some e)))) ErrTxAborted"
  by (simp add: credit_refused_def transfer_reply_def no_reply_def)

text \<open>a balance that is found and not marked stale was read between two moments at which the replica took
  itself for the leader of the account's shard. Nothing else vouches for it.\<close>

theorem fresh_shard_balance:
  assumes "ShardBalance env h1 h2 args c = Some (reply, c')" "br_Found reply" "\<not> br_Stale reply"
  shows "\<exists>s s1 s2 m. fmlookup (se_host env) (ShardFor (ss_coordinator c) (ba_Account args)) = Some s \<and> Server_Role s = Leader
    \<and> fmlookup h1 (ShardFor (ss_coordinator c) (ba_Account args)) = Some s1 \<and> s_sm s1 = Some m
    \<and> fmlookup h2 (ShardFor (ss_coordinator c) (ba_Account args)) = Some s2 \<and> Server_Role s2 = Leader
    \<and> Balance_of (ba_Account args) (sm_State m) = (br_Balance reply, True)"
proof -
  obtain rel rej ok a where a: "Admit (se_fl env) (se_now env) (ba_ClientID args) (ss_admit c) = ((rel, rej, ok), a)"
    by (metis prod.exhaust)
  have t: "token_check (ss_token c) (ba_Token args)"
    using assms by (cases "token_check (ss_token c) (ba_Token args)") (auto simp: ShardBalance_def no_balance_def)
  have ok: ok using assms t a by (cases ok) (auto simp: ShardBalance_def no_balance_def Let_def)
  obtain s where s: "fmlookup (se_host env) (ShardFor (ss_coordinator c) (ba_Account args)) = Some s"
    using assms t a ok by (cases "fmlookup (se_host env) (ShardFor (ss_coordinator c) (ba_Account args))")
      (auto simp: ShardBalance_def no_balance_def Let_def)
  then show ?thesis using assms t a ok
    by (auto simp: ShardBalance_def no_balance_def Let_def bind_eq_Some_conv split_beta prod_eq_iff split: if_splits)
qed

section \<open>Shutdown\<close>

lemma host_each_lookup:
  "distinct sids \<Longrightarrow> fmlookup (host_each f sids h) sid
     = (if sid \<in> set sids then map_option (f sid) (fmlookup h sid) else fmlookup h sid)"
  by (induction f sids h rule: host_each.induct) (auto split: option.splits)

text \<open>after the host has stopped its replicas none of those that ran accepts another write.\<close>

theorem stopped_host_refuses:
  assumes "fmlookup h sid = Some s" "s_running s"
  shows "\<exists>s'. fmlookup (ShardHost_Stop h) sid = Some s' \<and> Submit M env cmd s' = Some (None, s')"
  using assms fmdomI [OF assms(1)]
  by (simp add: ShardHost_Stop_def ShardIDs_def host_each_lookup Stop_def Submit_def)

end
