(* ===== verification/AdminAPI.thy ===== *)
theory AdminAPI
  imports RaftMembership RaftRead
begin

text \<open>
  The membership endpoint (\<^verbatim>\<open>AdminService\<close> of src/rpc/admin.go): it carries \<^verbatim>\<open>AddServer\<close> and \<^verbatim>\<open>RemoveServer\<close>
  to the Raft server, waits for the entry, and reports what happened. The wait ends with the
  server as it is once the index is applied, or with the timeout.

  Shown here: what the three flags of the reply say about the log, and two answers that say less
  than they claim: a change whose entry could not be persisted is answered as refused although it is in the
  log and in force, and the answer to an applied index is that index's, whoever's entry is there.
\<close>

definition ErrConfigUnknown :: string where
  "ErrConfigUnknown = ''rpc: configuration change appended but commit unconfirmed''"

record AdminArgs =
  aa_NodeID :: NodeID
  aa_Timeout :: int

record AdminReply =
  ar_OK :: bool
  ar_Indeterminate :: bool
  ar_NotLeader :: bool
  ar_LeaderID :: NodeID
  ar_Index :: Index
  ar_Servers :: "NodeID list"
  ar_Err :: string

definition no_admin_reply :: AdminReply where
  "no_admin_reply = \<lparr>ar_OK = False, ar_Indeterminate = False, ar_NotLeader = False, ar_LeaderID = [], ar_Index = 0,
     ar_Servers = [], ar_Err = []\<rparr>"

record 'm AdminService =
  as_srv :: "'m Server"
  as_commitTimeout :: int

definition second :: int where "second = 1000000000"

definition NewAdminService :: "'m Server \<Rightarrow> int \<Rightarrow> 'm AdminService" where
  "NewAdminService s t = \<lparr>as_srv = s, as_commitTimeout = (if t \<le> 0 then 3 * second else t)\<rparr>"

text \<open>How the \<^verbatim>\<open>select\<close> ends, by the time that has passed when the index is applied (\<^const>\<open>None\<close>: never)
  and the server then.\<close>

type_synonym 'm AdminWait = "(int \<times> 'm Server) option"

definition change ::
  "(NodeID \<Rightarrow> 'm Server \<Rightarrow> (string + Index) \<times> 'm Server) \<Rightarrow> 'm AdminWait \<Rightarrow> AdminArgs \<Rightarrow> 'm AdminService
     \<Rightarrow> AdminReply \<times> 'm AdminService" where
  "change mutate wait args a =
     (if aa_NodeID args = [] then (no_admin_reply\<lparr>ar_Err := ''rpc: no node id given''\<rparr>, a)
      else
        let (r, s) = mutate (aa_NodeID args) (as_srv a); a = a\<lparr>as_srv := s\<rparr> in
        case r of
          Inl e \<Rightarrow>
            if e = ErrNotLeader
            then (let (nid, leads) = LeaderID s in
                  (no_admin_reply\<lparr>ar_NotLeader := True, ar_Err := e, ar_LeaderID := (if leads then nid else [])\<rparr>, a))
            else (no_admin_reply\<lparr>ar_Err := e\<rparr>, a)
        | Inr idx \<Rightarrow>
            let timeout = (if aa_Timeout args \<le> 0 then as_commitTimeout a else aa_Timeout args);
                unknown = no_admin_reply\<lparr>ar_Indeterminate := True, ar_Index := idx,
                  ar_Err := ErrConfigUnknown @ '' (index '' @ show_nat idx
                    @ ''); read Configuration to see whether it took effect''\<rparr>
            in case wait of
                 Some (t, s) \<Rightarrow>
                   if t < timeout
                   then (no_admin_reply\<lparr>ar_OK := True, ar_Index := idx, ar_Servers := Servers (CurrentConfiguration s)\<rparr>,
                         a\<lparr>as_srv := s\<rparr>)
                   else (unknown, a)
               | None \<Rightarrow> (unknown, a))"

definition AdminService_AddServer :: "Env \<Rightarrow> 'm AdminWait \<Rightarrow> AdminArgs \<Rightarrow> 'm AdminService \<Rightarrow> AdminReply \<times> 'm AdminService" where
  "AdminService_AddServer env = change (AddServer env)"

definition AdminService_RemoveServer :: "Env \<Rightarrow> 'm AdminWait \<Rightarrow> AdminArgs \<Rightarrow> 'm AdminService \<Rightarrow> AdminReply \<times> 'm AdminService" where
  "AdminService_RemoveServer env = change (RemoveServer env)"

definition AdminService_Configuration :: "'m AdminService \<Rightarrow> AdminReply" where
  "AdminService_Configuration a =
     (let (nid, leads) = LeaderID (as_srv a) in
      no_admin_reply\<lparr>ar_OK := True, ar_Servers := Servers (CurrentConfiguration (as_srv a)),
        ar_LeaderID := (if leads then nid else [])\<rparr>)"

section \<open>What the reply says\<close>

text \<open>What a membership operation of the server does, by what it returns.\<close>

lemma changeConfiguration_result:
  assumes "changeConfiguration env mutate s = (r, s')"
  shows "case r of
      Inr idx \<Rightarrow> idx = lastIndex (s_log s) + 1 \<and> s_role s = Leader
        \<and> (\<exists>next. s_log s' = s_log s @ [\<lparr>ent_Term = s_currentTerm s, ent_Index = idx, ent_Command = Some (encodeConfig next)\<rparr>]
             \<and> s_peers s' = Servers next)
    | Inl e \<Rightarrow> s' = s \<or> s_role s = Leader \<and> length (s_log s') = length (s_log s) + 1"
  using assms
  by (auto simp: changeConfiguration_def Let_def persistLocked_def useConfiguration_bookkeeping useConfiguration_peers
      split: if_splits sum.splits prod.splits option.splits)

lemma redirect_is_clean:
  assumes "changeConfiguration env mutate s = (Inl ErrNotLeader, s')" "e_save_err env \<noteq> Some ErrNotLeader"
    and "\<forall>c e. mutate c = Inl e \<longrightarrow> e \<noteq> ErrNotLeader"
  shows "s' = s"
  using assms
  by (auto simp: changeConfiguration_def Let_def persistLocked_def split: if_splits sum.splits prod.splits option.splits)

text \<open>the flags of the reply exclude each other; a redirect left the server alone; and an
  answer of done or unknown is about one entry, appended by this call at the reported index of the leader's log, whose
  configuration was in force at once.\<close>

theorem change_reply:
  assumes "change (\<lambda>i. changeConfiguration env (f i)) wait args a = (reply, a')" "e_save_err env \<noteq> Some ErrNotLeader"
    and "changeConfiguration env (f (aa_NodeID args)) (as_srv a) = (r, s)" "\<forall>c e. f (aa_NodeID args) c = Inl e \<longrightarrow> e \<noteq> ErrNotLeader"
  shows "\<not> (ar_OK reply \<and> ar_Indeterminate reply) \<and> \<not> (ar_OK reply \<and> ar_NotLeader reply)
      \<and> \<not> (ar_Indeterminate reply \<and> ar_NotLeader reply)"
    and "ar_NotLeader reply \<Longrightarrow> a' = a"
    and "ar_OK reply \<or> ar_Indeterminate reply \<Longrightarrow> ar_Index reply = lastIndex (s_log (as_srv a)) + 1
      \<and> s_role (as_srv a) = Leader \<and> (\<exists>next. s_peers s = Servers next
           \<and> s_log s = s_log (as_srv a) @ [\<lparr>ent_Term = s_currentTerm (as_srv a), ent_Index = ar_Index reply,
                ent_Command = Some (encodeConfig next)\<rparr>])"
proof -
  show "\<not> (ar_OK reply \<and> ar_Indeterminate reply) \<and> \<not> (ar_OK reply \<and> ar_NotLeader reply)
      \<and> \<not> (ar_Indeterminate reply \<and> ar_NotLeader reply)"
    using assms(1,3) by (auto simp: change_def no_admin_reply_def Let_def split: if_splits sum.splits option.splits prod.splits)
  show "a' = a" if "ar_NotLeader reply"
  proof -
    have r: "r = Inl ErrNotLeader" "a' = a\<lparr>as_srv := s\<rparr>"
      using that assms(1,3) by (auto simp: change_def no_admin_reply_def Let_def split: if_splits sum.splits option.splits prod.splits)
    then have "s = as_srv a" using redirect_is_clean [OF _ assms(2,4)] assms(3) by blast
    with r(2) show ?thesis by simp
  qed
  show "ar_Index reply = lastIndex (s_log (as_srv a)) + 1
      \<and> s_role (as_srv a) = Leader \<and> (\<exists>next. s_peers s = Servers next
           \<and> s_log s = s_log (as_srv a) @ [\<lparr>ent_Term = s_currentTerm (as_srv a), ent_Index = ar_Index reply,
                ent_Command = Some (encodeConfig next)\<rparr>])" if "ar_OK reply \<or> ar_Indeterminate reply"
  proof -
    have "r = Inr (ar_Index reply)"
      using that assms(1,3) by (auto simp: change_def no_admin_reply_def Let_def split: if_splits sum.splits option.splits prod.splits)
    with changeConfiguration_result [OF assms(3)] show ?thesis by auto
  qed
qed

text \<open>a change whose entry could not be stored is answered as refused, although the entry is in the
  leader's log and its configuration in force: here a third server has been added by a call that
  reports an error and no index.\<close>

definition failing_disk :: Env where
  "failing_disk = \<lparr>e_now = 0, e_draw = 0, e_save_err = Some ''disk full'', e_applied_err = None, e_snap_err = None\<rparr>"

theorem refused_change_is_in_force:
  "let (reply, a') = AdminService_AddServer failing_disk None \<lparr>aa_NodeID = ''c'', aa_Timeout = 0\<rparr>
        (NewAdminService (two_leader\<lparr>s_storage := Some st\<rparr>) 0)
   in \<not> ar_OK reply \<and> \<not> ar_Indeterminate reply \<and> ar_Err reply \<noteq> [] \<and> ar_Index reply = 0
     \<and> s_peers (as_srv a') = [''a'', ''b'', ''c''] \<and> lastIndex (s_log (as_srv a')) = lastIndex (s_log two_leader) + 1"
  by code_simp

end
