(* ===== verification/Fleet.thy ===== *)
theory Fleet
  imports RaftMembership RaftRead ShardMachine Ring
begin

text \<open>
  Clusters of shard groups as the demo runs them (src/sim/shardcluster.go, placement.go, colocated.go
  and rereplicate.go): machines, the shards placed on them, and replicas added to and removed from a
  live shard.

  A group is its members and their Raft servers, each with its own shard machine; the network
  between them is not part of it. The seeds of the servers' random generators have no counterpart,
  the draws being part of the environment of a server. While a call waits for an entry the servers go on: the
  environment gives them as they are afterwards, or \<^const>\<open>None\<close> for a timeout.

  Shown here: a placed shard has exactly as many replicas as asked for, on different machines, and
  knows exactly them as its peers; the shards are spread evenly; adding and removing replicas keeps members
  and servers in step; and an addition that timed out leaves the leader with a larger quorum.
\<close>

section \<open>Groups\<close>

record ShardGroup =
  sg_ID :: ShardID
  sg_IDs :: "NodeID list"
  sg_Nodes :: "(NodeID, ShardMachine Server) fmap"

fun leader_scan :: "(NodeID, ShardMachine Server) fmap \<Rightarrow> NodeID list \<Rightarrow> NodeID \<Rightarrow> Term \<Rightarrow> NodeID" where
  "leader_scan nodes [] best bestTerm = best"
| "leader_scan nodes (i # ids) best bestTerm =
     (case fmlookup nodes i of
        None \<Rightarrow> leader_scan nodes ids best bestTerm
      | Some s \<Rightarrow>
          if Server_Role s \<noteq> Leader then leader_scan nodes ids best bestTerm
          else if best = [] \<or> CurrentTerm s > bestTerm then leader_scan nodes ids i (CurrentTerm s)
          else leader_scan nodes ids best bestTerm)"

definition group_leader :: "ShardGroup \<Rightarrow> NodeID" where
  "group_leader g = leader_scan (sg_Nodes g) (sg_IDs g) [] 0"

record ShardCluster =
  sl_Ring :: Ring
  sl_Groups :: "(ShardID, ShardGroup) fmap"

definition simConfig :: Config where
  "simConfig = \<lparr>ElectionTimeoutMin = 250, ElectionTimeoutMax = 500, HeartbeatInterval = 40\<rparr>"

definition shard_name :: "nat \<Rightarrow> ShardID" where
  "shard_name i = ''shard-'' @ show_nat i"

definition node_name :: "nat \<Rightarrow> NodeID" where
  "node_name i = ''node-'' @ show_nat (i + 1)"

definition new_replica :: "ShardID \<Rightarrow> NodeID list \<Rightarrow> NodeID \<Rightarrow> ShardMachine Server" where
  "new_replica sid peers nid = NewServerWith nid peers (Some (NewShardMachine sid New)) SnapshotTransport simConfig"

text \<open>The inner loop over the members of a shard. Opening the files of a durable replica may fail; a
  cluster in memory opens none.\<close>

type_synonym Opener = "(NodeID \<Rightarrow> ShardID \<Rightarrow> string + Store) option"

fun build_nodes ::
  "Opener \<Rightarrow> ShardID \<Rightarrow> NodeID list \<Rightarrow> NodeID list \<Rightarrow> (NodeID, ShardMachine Server) fmap
     \<Rightarrow> string + (NodeID, ShardMachine Server) fmap" where
  "build_nodes files sid peers [] nodes = Inr nodes"
| "build_nodes files sid peers (nid # nids) nodes =
     (let srv = new_replica sid peers nid in
      case files of
        None \<Rightarrow> build_nodes files sid peers nids (fmupd nid srv nodes)
      | Some opn \<Rightarrow>
          (case opn nid sid of
             Inl e \<Rightarrow> Inl (''sim: open applied file for '' @ nid @ ''/'' @ sid @ '': '' @ e)
           | Inr st \<Rightarrow> build_nodes files sid peers nids (fmupd nid (SetStorage (Some st) srv) nodes)))"

text \<open>The outer loop: the groups of the shards, with the members that \<open>holders\<close> gives the shard of that number.\<close>

fun build_groups ::
  "Opener \<Rightarrow> (nat \<Rightarrow> NodeID list) \<Rightarrow> nat list \<Rightarrow> (ShardID, ShardGroup) fmap \<Rightarrow> string + (ShardID, ShardGroup) fmap" where
  "build_groups files holders [] gs = Inr gs"
| "build_groups files holders (si # sis) gs =
     (let sid = shard_name si; ids = holders si in
      case build_nodes files sid ids ids fmempty of
        Inl e \<Rightarrow> Inl e
      | Inr nodes \<Rightarrow> build_groups files holders sis (fmupd sid \<lparr>sg_ID = sid, sg_IDs = ids, sg_Nodes = nodes\<rparr> gs))"

definition holders :: "nat \<Rightarrow> nat \<Rightarrow> nat \<Rightarrow> NodeID list" where
  "holders nNodes rf si = map (\<lambda>k. node_name ((si + k) mod nNodes)) [0..<rf]"

definition NewPlacedClusterWithStorage ::
  "(point list \<Rightarrow> point list) \<Rightarrow> int \<Rightarrow> int \<Rightarrow> int \<Rightarrow> Opener \<Rightarrow> string + ShardCluster" where
  "NewPlacedClusterWithStorage srt nShards nNodes rf files =
     (if rf < 1 then Inl ''sim: replication factor must be at least 1''
      else if rf > nNodes
      then Inl (''sim: replication factor '' @ show_int rf @ '' exceeds '' @ show_int nNodes
             @ '' machines; a shard cannot have more replicas than there are machines to put them on'')
      else case build_groups files (holders (nat nNodes) (nat rf)) [0..<nat nShards] fmempty of
             Inl e \<Rightarrow> Inl e
           | Inr gs \<Rightarrow> Inr \<lparr>sl_Ring = NewRing srt (map shard_name [0..<nat nShards]) DefaultVNodes, sl_Groups = gs\<rparr>)"

definition NewPlacedCluster :: "(point list \<Rightarrow> point list) \<Rightarrow> int \<Rightarrow> int \<Rightarrow> int \<Rightarrow> string + ShardCluster" where
  "NewPlacedCluster srt nShards nNodes rf = NewPlacedClusterWithStorage srt nShards nNodes rf None"

text \<open>Every shard on every machine.\<close>

definition NewColocatedCluster :: "(point list \<Rightarrow> point list) \<Rightarrow> int \<Rightarrow> int \<Rightarrow> string + ShardCluster" where
  "NewColocatedCluster srt nShards nNodes =
     (case build_groups None (\<lambda>si. map node_name [0..<nat nNodes]) [0..<nat nShards] fmempty of
        Inl e \<Rightarrow> Inl e
      | Inr gs \<Rightarrow> Inr \<lparr>sl_Ring = NewRing srt (map shard_name [0..<nat nShards]) DefaultVNodes, sl_Groups = gs\<rparr>)"

definition Cluster_Holders :: "ShardID \<Rightarrow> ShardCluster \<Rightarrow> NodeID list" where
  "Cluster_Holders sid sc = (case fmlookup (sl_Groups sc) sid of None \<Rightarrow> [] | Some g \<Rightarrow> sg_IDs g)"

section \<open>Adding and removing replicas\<close>

text \<open>\<^verbatim>\<open>replicaSeed\<close>, in 64-bit arithmetic.\<close>

definition replicaSeed :: "ShardID \<Rightarrow> NodeID \<Rightarrow> int" where
  "replicaSeed sid nid =
     (let h = foldl (\<lambda>h b. (h XOR ucast b) * 1099511628211) (1469598103934665603 :: 64 word) (bytes_of (sid @ ''|'' @ nid))
      in sint (if sint h < 0 then - h else h))"

definition withoutNode :: "NodeID list \<Rightarrow> NodeID \<Rightarrow> NodeID list" where
  "withoutNode ids drp = filter (\<lambda>i. i \<noteq> drp) ids"

type_synonym Wait = "(NodeID, ShardMachine Server) fmap \<Rightarrow> (NodeID, ShardMachine Server) fmap option"

abbreviation put_shard :: "ShardID \<Rightarrow> ShardGroup \<Rightarrow> ShardCluster \<Rightarrow> ShardCluster" where
  "put_shard sid g sc \<equiv> sc\<lparr>sl_Groups := fmupd sid g (sl_Groups sc)\<rparr>"

definition AddReplica :: "Env \<Rightarrow> Wait \<Rightarrow> ShardID \<Rightarrow> NodeID \<Rightarrow> ShardCluster \<Rightarrow> string option \<times> ShardCluster" where
  "AddReplica env wait sid nid sc =
     (case fmlookup (sl_Groups sc) sid of
        None \<Rightarrow> (Some (''sim: unknown shard '' @ sid), sc)
      | Some g \<Rightarrow>
          if nid |\<in>| fmdom (sg_Nodes g) then (Some (''sim: '' @ nid @ '' already holds a replica of '' @ sid), sc)
          else let leaderID = group_leader g in
          if leaderID = []
          then (Some (''sim: shard '' @ sid @ '' has no leader; a shard below quorum cannot be re-replicated ''
                  @ ''because there is no majority to copy committed entries from''), sc)
          else case fmlookup (sg_Nodes g) leaderID of
            None \<Rightarrow> (Some (''sim: shard '' @ sid @ '' leader '' @ leaderID @ '' vanished mid-heal''), sc)
          | Some leader \<Rightarrow>
              let peers = sg_IDs g @ [nid];
                  srv = Start env (new_replica sid peers nid);
                  (r, leader) = AddServer env nid leader;
                  g = g\<lparr>sg_Nodes := fmupd leaderID leader (sg_Nodes g)\<rparr>
              in (case r of
                    Inl e \<Rightarrow> (Some (''sim: adding '' @ nid @ '' to '' @ sid @ '': '' @ e), put_shard sid g sc)
                  | Inr idx \<Rightarrow>
                      (case wait (sg_Nodes g) of
                         None \<Rightarrow> (Some (''sim: adding '' @ nid @ '' to '' @ sid
                              @ '': configuration change did not commit within 3s; the shard has no majority to accept it''),
                            put_shard sid g sc)
                       | Some nodes \<Rightarrow>
                           (None, put_shard sid (g\<lparr>sg_Nodes := fmupd nid srv nodes, sg_IDs := peers\<rparr>) sc))))"

definition RemoveReplica :: "Env \<Rightarrow> Wait \<Rightarrow> ShardID \<Rightarrow> NodeID \<Rightarrow> ShardCluster \<Rightarrow> string option \<times> ShardCluster" where
  "RemoveReplica env wait sid nid sc =
     (case fmlookup (sl_Groups sc) sid of
        None \<Rightarrow> (Some (''sim: unknown shard '' @ sid), sc)
      | Some g \<Rightarrow>
          if nid |\<notin>| fmdom (sg_Nodes g) then (Some (''sim: '' @ nid @ '' holds no replica of '' @ sid), sc)
          else let leaderID = group_leader g in
          if leaderID = []
          then (Some (''sim: shard '' @ sid @ '' has no leader; cannot change configuration''), sc)
          else case fmlookup (sg_Nodes g) leaderID of
            None \<Rightarrow> (Some (''sim: shard '' @ sid @ '' leader '' @ leaderID @ '' vanished mid-change''), sc)
          | Some leader \<Rightarrow>
              let (r, leader) = RemoveServer env nid leader;
                  g = g\<lparr>sg_Nodes := fmupd leaderID leader (sg_Nodes g)\<rparr>
              in (case r of
                    Inl e \<Rightarrow> (Some (''sim: removing '' @ nid @ '' from '' @ sid @ '': '' @ e), put_shard sid g sc)
                  | Inr idx \<Rightarrow>
                      (case wait (sg_Nodes g) of
                         None \<Rightarrow> (Some (''sim: removing '' @ nid @ '' from '' @ sid
                              @ '': configuration change did not commit within 3s''), put_shard sid g sc)
                       | Some nodes \<Rightarrow>
                           (None, put_shard sid (g\<lparr>sg_Nodes := fmdrop nid nodes, sg_IDs := withoutNode (sg_IDs g) nid\<rparr>) sc))))"

section \<open>Names\<close>

definition digits_val :: "string \<Rightarrow> nat" where
  "digits_val = foldl (\<lambda>a c. 10 * a + (of_char c - 48)) 0"

lemma digits_val_show: "digits_val (show_nat n) = n"
proof (induction n rule: less_induct)
  case (less n)
  have d: "(of_char (char_of (48 + k) :: char) :: nat) - 48 = k" if "k < 10" for k using that by simp
  show ?case
  proof (cases "n < 10")
    case True
    then show ?thesis using d [of n] by (subst show_nat.simps) (simp add: digits_val_def)
  next
    case False
    then have "digits_val (show_nat (n div 10)) = n div 10" using less.IH by simp
    then show ?thesis using False d [of "n mod 10"] by (subst show_nat.simps) (simp add: digits_val_def)
  qed
qed

lemma show_nat_inject [simp]: "show_nat m = show_nat n \<longleftrightarrow> m = n"
  by (metis digits_val_show)

lemma node_name_inject [simp]: "node_name i = node_name j \<longleftrightarrow> i = j"
  by (simp add: node_name_def)

lemma shard_name_inject [simp]: "shard_name i = shard_name j \<longleftrightarrow> i = j"
  by (simp add: shard_name_def)

section \<open>Placement\<close>

lemma mod_shift_less:
  fixes a k k' n :: nat
  assumes "(a + k) mod n = (a + k') mod n" "k \<le> k'" "k' < n"
  shows "k = k'"
proof -
  have "n dvd (a + k') - (a + k)" using assms(1,2) by (subst mod_eq_dvd_iff_nat [symmetric]) simp_all
  then have "n dvd k' - k" by simp
  then show ?thesis using assms(2,3) by (auto dest: dvd_imp_le)
qed

lemma mod_shift_inj:
  fixes a k k' n :: nat
  assumes "(a + k) mod n = (a + k') mod n" "k < n" "k' < n"
  shows "k = k'"
  using mod_shift_less [of a k n k'] mod_shift_less [of a k' n k] assms by (cases "k \<le> k'") simp_all

lemma holders_distinct: "rf \<le> n \<Longrightarrow> distinct (holders n rf si)"
  unfolding holders_def by (auto simp: distinct_map inj_on_def dest!: mod_shift_inj)

lemma length_holders [simp]: "length (holders n rf si) = rf"
  by (simp add: holders_def)

lemma holders_machines: "0 < n \<Longrightarrow> set (holders n rf si) \<subseteq> node_name ` {..<n}"
  by (auto simp: holders_def)

lemma new_replica_simps [simp]:
  "s_id (new_replica sid peers nid) = nid" "s_peers (new_replica sid peers nid) = peers"
  "s_id (SetStorage st s) = s_id s" "s_peers (SetStorage st s) = s_peers s"
  by (simp_all add: new_replica_def NewServerWith_def SetStorage_def)

lemma build_nodes_ok:
  assumes "build_nodes files sid peers nids nodes = Inr nodes'"
  shows "fset (fmdom nodes') = fset (fmdom nodes) \<union> set nids"
    "fmlookup nodes' i = Some s \<Longrightarrow> i \<in> set nids \<and> s_id s = i \<and> s_peers s = peers \<or> fmlookup nodes i = Some s"
  using assms
  by (induction files sid peers nids nodes rule: build_nodes.induct)
    (fastforce simp: Let_def split: option.splits sum.splits if_splits)+

lemma build_groups_other:
  "build_groups files hs sis gs = Inr gs' \<Longrightarrow> sid \<notin> shard_name ` set sis \<Longrightarrow> fmlookup gs' sid = fmlookup gs sid"
  by (induction files hs sis gs rule: build_groups.induct) (auto simp: Let_def split: sum.splits)

lemma build_groups_ok:
  assumes "build_groups files hs sis gs = Inr gs'" "si \<in> set sis" "distinct sis"
  shows "\<exists>nodes. build_nodes files (shard_name si) (hs si) (hs si) fmempty = Inr nodes
      \<and> fmlookup gs' (shard_name si) = Some \<lparr>sg_ID = shard_name si, sg_IDs = hs si, sg_Nodes = nodes\<rparr>"
  using assms
proof (induction sis arbitrary: gs)
  case (Cons x sis)
  obtain nodes where n: "build_nodes files (shard_name x) (hs x) (hs x) fmempty = Inr nodes"
    "build_groups files hs sis (fmupd (shard_name x) \<lparr>sg_ID = shard_name x, sg_IDs = hs x, sg_Nodes = nodes\<rparr> gs) = Inr gs'"
    using Cons.prems(1) by (auto simp: Let_def split: sum.splits)
  show ?case
  proof (cases "si = x")
    case True
    then have "shard_name si \<notin> shard_name ` set sis" using Cons.prems(3) by auto
    from build_groups_other [OF n(2) this] n(1) True show ?thesis by simp
  next
    case False
    then show ?thesis using Cons.IH [OF n(2)] Cons.prems by simp
  qed
qed simp

text \<open>a placed shard has exactly the replicas asked for, on that many different machines of the cluster,
  and each replica counts exactly them, so that its majority does not grow with the cluster.\<close>

theorem placed_shard:
  assumes "NewPlacedClusterWithStorage srt nShards nNodes rf files = Inr sc" "si < nat nShards"
  shows "\<exists>g. fmlookup (sl_Groups sc) (shard_name si) = Some g \<and> length (sg_IDs g) = nat rf \<and> distinct (sg_IDs g)
    \<and> set (sg_IDs g) \<subseteq> node_name ` {..<nat nNodes} \<and> fset (fmdom (sg_Nodes g)) = set (sg_IDs g)
    \<and> (\<forall>i s. fmlookup (sg_Nodes g) i = Some s \<longrightarrow>
         s_id s = i \<and> s_peers s = sg_IDs g \<and> majority (s_peers s) = nat rf div 2 + 1)"
proof -
  let ?hs = "holders (nat nNodes) (nat rf)"
  have rf: "1 \<le> rf" "rf \<le> nNodes" and b: "build_groups files ?hs [0..<nat nShards] fmempty = Inr (sl_Groups sc)"
    using assms(1) by (auto simp: NewPlacedClusterWithStorage_def split: if_splits sum.splits)
  obtain nodes where n: "build_nodes files (shard_name si) (?hs si) (?hs si) fmempty = Inr nodes"
    "fmlookup (sl_Groups sc) (shard_name si) = Some \<lparr>sg_ID = shard_name si, sg_IDs = ?hs si, sg_Nodes = nodes\<rparr>"
    using build_groups_ok [OF b, of si] assms(2) by auto
  have "nat rf \<le> nat nNodes" "0 < nat nNodes" using rf by simp_all
  then show ?thesis
    using n(2) holders_distinct [of "nat rf" "nat nNodes" si] holders_machines [of "nat nNodes" "nat rf" si]
      build_nodes_ok [OF n(1)] by (auto simp: majority_def)
qed

text \<open>the shards are spread evenly: of any as many consecutive shards as there are machines, each machine
  holds as many as the replication factor.\<close>

theorem placement_even:
  assumes "i < n" "rf \<le> n"
  shows "card {si \<in> {m..<m + n}. node_name i \<in> set (holders n rf si)} = rf"
proof -
  let ?f = "\<lambda>k. m + nat ((int i - int m - int k) mod int n)"
  have n: "0 < int n" using assms(1) by simp
  have mem: "node_name i \<in> set (holders n rf si) \<longleftrightarrow> (\<exists>k < rf. (si + k) mod n = i)" for si
    by (auto simp: holders_def)
  have "{si \<in> {m..<m + n}. node_name i \<in> set (holders n rf si)} = ?f ` {..<rf}"
  proof (intro set_eqI iffI)
    fix si assume "si \<in> {si \<in> {m..<m + n}. node_name i \<in> set (holders n rf si)}"
    then obtain k where k: "k < rf" "(si + k) mod n = i" "m \<le> si" "si < m + n" using mem by auto
    have "(int i - int m - int k) mod int n = ((int si + int k) mod int n - int m - int k) mod int n"
      using k(2) by (metis of_nat_add of_nat_mod)
    also have "\<dots> = ((int si + int k) mod int n - (int m + int k)) mod int n" by (simp add: diff_diff_eq)
    also have "\<dots> = (int si - int m) mod int n" unfolding mod_diff_left_eq by simp
    also have "\<dots> = int si - int m" using k by (intro mod_pos_pos_trivial) auto
    finally have "si = ?f k" using k(3) by simp
    then show "si \<in> ?f ` {..<rf}" using k(1) by blast
  next
    fix si assume "si \<in> ?f ` {..<rf}"
    then obtain k where k: "k < rf" "si = ?f k" by blast
    have b: "0 \<le> (int i - int m - int k) mod int n" "(int i - int m - int k) mod int n < int n"
      using n by simp_all
    have "int ((si + k) mod n) = (int m + (int i - int m - int k) mod int n + int k) mod int n"
      using k(2) b(1) by (simp add: zmod_int)
    also have "\<dots> = ((int m + int k) + (int i - int m - int k) mod int n) mod int n" by (simp add: ac_simps)
    also have "\<dots> = int i mod int n" unfolding mod_add_right_eq by simp
    finally have "(si + k) mod n = i" using assms(1) by simp
    then show "si \<in> {si \<in> {m..<m + n}. node_name i \<in> set (holders n rf si)}"
      using mem k b by auto
  qed
  moreover have "inj_on ?f {..<rf}"
  proof (rule inj_onI)
    fix k k' assume k: "k \<in> {..<rf}" "k' \<in> {..<rf}" "?f k = ?f k'"
    have "(int i - int m - int k) mod int n = (int i - int m - int k') mod int n"
      using k(3) n by (simp add: nat_eq_iff)
    then have "int n dvd int k' - int k" by (simp add: mod_eq_dvd_iff)
    then show "k = k'" using k(1,2) assms(2) zdvd_not_zless [of "int k' - int k" "int n"] zdvd_not_zless [of "int k - int k'" "int n"]
      by (cases k k' rule: linorder_cases) (auto simp: dvd_diff_commute)
  qed
  ultimately show ?thesis by (simp add: card_image)
qed

section \<open>Changes of the replica set\<close>

lemma AddReplica_cases:
  assumes "AddReplica env wait sid nid sc = (e, sc')"
  obtains (refused) msg where "e = Some msg" "sc' = sc"
  | (tried) g l leader r leader' msg where "fmlookup (sl_Groups sc) sid = Some g" "nid |\<notin>| fmdom (sg_Nodes g)"
      "group_leader g = l" "fmlookup (sg_Nodes g) l = Some leader" "AddServer env nid leader = (r, leader')" "e = Some msg"
      "sc' = put_shard sid (g\<lparr>sg_Nodes := fmupd l leader' (sg_Nodes g)\<rparr>) sc"
  | (changed) g l leader idx leader' nodes where "fmlookup (sl_Groups sc) sid = Some g" "nid |\<notin>| fmdom (sg_Nodes g)"
      "group_leader g = l" "fmlookup (sg_Nodes g) l = Some leader" "AddServer env nid leader = (Inr idx, leader')"
      "wait (fmupd l leader' (sg_Nodes g)) = Some nodes" "e = None"
      "sc' = put_shard sid (g\<lparr>sg_Nodes := fmupd nid (Start env (new_replica sid (sg_IDs g @ [nid]) nid)) nodes,
         sg_IDs := sg_IDs g @ [nid]\<rparr>) sc"
proof (cases "fmlookup (sl_Groups sc) sid")
  case None
  then have "e \<noteq> None \<and> sc' = sc" using assms by (auto simp: AddReplica_def)
  then show ?thesis using refused by blast
next
  case g: (Some g)
  show ?thesis
  proof (cases "nid |\<in>| fmdom (sg_Nodes g) \<or> group_leader g = [] \<or> fmlookup (sg_Nodes g) (group_leader g) = None")
    case True
    then have "e \<noteq> None \<and> sc' = sc" using assms g by (auto simp: AddReplica_def Let_def split: if_splits)
    then show ?thesis using refused by blast
  next
    case False
    then obtain leader where l: "nid |\<notin>| fmdom (sg_Nodes g)" "group_leader g \<noteq> []"
      "fmlookup (sg_Nodes g) (group_leader g) = Some leader" by auto
    obtain r leader' where a: "AddServer env nid leader = (r, leader')" by fastforce
    show ?thesis
    proof (cases "\<exists>idx nodes. r = Inr idx \<and> wait (fmupd (group_leader g) leader' (sg_Nodes g)) = Some nodes")
      case True
      then obtain idx nodes where r: "r = Inr idx" "wait (fmupd (group_leader g) leader' (sg_Nodes g)) = Some nodes" by blast
      show ?thesis
        by (rule changed [OF g l(1) refl l(3) a [unfolded r(1)] r(2)])
          (use assms g l a r in \<open>simp_all add: AddReplica_def Let_def\<close>)
    next
      case False
      then obtain msg where "e = Some msg" "sc' = put_shard sid (g\<lparr>sg_Nodes := fmupd (group_leader g) leader' (sg_Nodes g)\<rparr>) sc"
        using assms g l a by (auto simp: AddReplica_def Let_def split: sum.splits option.splits)
      then show ?thesis by (rule tried [OF g l(1) refl l(3) a])
    qed
  qed
qed

lemma RemoveReplica_cases:
  assumes "RemoveReplica env wait sid nid sc = (e, sc')"
  obtains (refused) msg where "e = Some msg" "sc' = sc"
  | (tried) g l leader r leader' msg where "fmlookup (sl_Groups sc) sid = Some g" "nid |\<in>| fmdom (sg_Nodes g)"
      "group_leader g = l" "fmlookup (sg_Nodes g) l = Some leader" "RemoveServer env nid leader = (r, leader')" "e = Some msg"
      "sc' = put_shard sid (g\<lparr>sg_Nodes := fmupd l leader' (sg_Nodes g)\<rparr>) sc"
  | (changed) g l leader idx leader' nodes where "fmlookup (sl_Groups sc) sid = Some g" "nid |\<in>| fmdom (sg_Nodes g)"
      "group_leader g = l" "fmlookup (sg_Nodes g) l = Some leader" "RemoveServer env nid leader = (Inr idx, leader')"
      "wait (fmupd l leader' (sg_Nodes g)) = Some nodes" "e = None"
      "sc' = put_shard sid (g\<lparr>sg_Nodes := fmdrop nid nodes, sg_IDs := withoutNode (sg_IDs g) nid\<rparr>) sc"
proof (cases "fmlookup (sl_Groups sc) sid")
  case None
  then have "e \<noteq> None \<and> sc' = sc" using assms by (auto simp: RemoveReplica_def)
  then show ?thesis using refused by blast
next
  case g: (Some g)
  show ?thesis
  proof (cases "nid |\<notin>| fmdom (sg_Nodes g) \<or> group_leader g = [] \<or> fmlookup (sg_Nodes g) (group_leader g) = None")
    case True
    then have "e \<noteq> None \<and> sc' = sc" using assms g by (auto simp: RemoveReplica_def Let_def split: if_splits)
    then show ?thesis using refused by blast
  next
    case False
    then obtain leader where l: "nid |\<in>| fmdom (sg_Nodes g)" "group_leader g \<noteq> []"
      "fmlookup (sg_Nodes g) (group_leader g) = Some leader" by auto
    obtain r leader' where a: "RemoveServer env nid leader = (r, leader')" by fastforce
    show ?thesis
    proof (cases "\<exists>idx nodes. r = Inr idx \<and> wait (fmupd (group_leader g) leader' (sg_Nodes g)) = Some nodes")
      case True
      then obtain idx nodes where r: "r = Inr idx" "wait (fmupd (group_leader g) leader' (sg_Nodes g)) = Some nodes" by blast
      show ?thesis
        by (rule changed [OF g l(1) refl l(3) a [unfolded r(1)] r(2)])
          (use assms g l a r in \<open>simp_all add: RemoveReplica_def Let_def\<close>)
    next
      case False
      then obtain msg where "e = Some msg" "sc' = put_shard sid (g\<lparr>sg_Nodes := fmupd (group_leader g) leader' (sg_Nodes g)\<rparr>) sc"
        using assms g l a by (auto simp: RemoveReplica_def Let_def split: sum.splits option.splits)
      then show ?thesis by (rule tried [OF g l(1) refl l(3) a])
    qed
  qed
qed

text \<open>The members of a group and its servers are in step. Waiting changes what servers hold, not which
  there are.\<close>

definition fleet_ok :: "ShardCluster \<Rightarrow> bool" where
  "fleet_ok sc \<longleftrightarrow> (\<forall>sid g. fmlookup (sl_Groups sc) sid = Some g \<longrightarrow>
     distinct (sg_IDs g) \<and> fset (fmdom (sg_Nodes g)) = set (sg_IDs g))"

definition steady :: "Wait \<Rightarrow> bool" where
  "steady wait \<longleftrightarrow> (\<forall>nodes nodes'. wait nodes = Some nodes' \<longrightarrow> fmdom nodes' = fmdom nodes)"

lemma fleet_okD:
  assumes "fleet_ok sc" "fmlookup (sl_Groups sc) sid = Some g"
  shows "distinct (sg_IDs g)" "fset (fmdom (sg_Nodes g)) = set (sg_IDs g)"
  using assms by (auto simp: fleet_ok_def)

lemma fleet_ok_put:
  assumes "fleet_ok sc" "distinct (sg_IDs g)" "fset (fmdom (sg_Nodes g)) = set (sg_IDs g)"
  shows "fleet_ok (put_shard sid g sc)"
  using assms by (auto simp: fleet_ok_def)

lemma fleet_ok_leader:
  assumes "fleet_ok sc" "fmlookup (sl_Groups sc) sid = Some g" "fmlookup (sg_Nodes g) l = Some leader"
  shows "fleet_ok (put_shard sid (g\<lparr>sg_Nodes := fmupd l leader' (sg_Nodes g)\<rparr>) sc)"
  using fleet_ok_put [OF assms(1), of "g\<lparr>sg_Nodes := fmupd l leader' (sg_Nodes g)\<rparr>" sid] fleet_okD [OF assms(1,2)]
    fmdomI [OF assms(3)] by (simp add: insert_absorb)

lemma Holders_put [simp]:
  "Cluster_Holders sid (put_shard s g sc) = (if s = sid then sg_IDs g else Cluster_Holders sid sc)"
  by (simp add: Cluster_Holders_def)

lemma AddReplica_members:
  assumes "AddReplica env wait sid nid sc = (e, sc')" "fleet_ok sc" "steady wait"
  shows "fleet_ok sc' \<and> sl_Ring sc' = sl_Ring sc
    \<and> Cluster_Holders s sc' = (if s = sid \<and> e = None then Cluster_Holders sid sc @ [nid] else Cluster_Holders s sc)
    \<and> (e = None \<longrightarrow> nid \<notin> set (Cluster_Holders sid sc))"
  using assms(1)
proof (cases rule: AddReplica_cases)
  case (tried g l leader r leader' msg)
  then show ?thesis
    using fleet_ok_leader [OF assms(2) tried(1,4)] by (auto simp: Cluster_Holders_def)
next
  case (changed g l leader idx leader' nodes)
  note d = fleet_okD [OF assms(2) changed(1)]
  have "fset (fmdom nodes) = set (sg_IDs g)"
    using assms(3) changed(6) d(2) fmdomI [OF changed(4)] by (simp add: steady_def insert_absorb)
  moreover have "nid \<notin> set (sg_IDs g)" using changed(2) d(2) by auto
  ultimately show ?thesis
    using changed d fleet_ok_put [OF assms(2), of "g\<lparr>sg_Nodes := fmupd nid (Start env (new_replica sid (sg_IDs g @ [nid]) nid)) nodes,
         sg_IDs := sg_IDs g @ [nid]\<rparr>" sid] by (auto simp: Cluster_Holders_def)
qed (use assms(2) in simp)

lemma RemoveReplica_members:
  assumes "RemoveReplica env wait sid nid sc = (e, sc')" "fleet_ok sc" "steady wait"
  shows "fleet_ok sc' \<and> sl_Ring sc' = sl_Ring sc
    \<and> Cluster_Holders s sc' = (if s = sid \<and> e = None then withoutNode (Cluster_Holders sid sc) nid else Cluster_Holders s sc)
    \<and> (e = None \<longrightarrow> nid \<in> set (Cluster_Holders sid sc))"
  using assms(1)
proof (cases rule: RemoveReplica_cases)
  case (tried g l leader r leader' msg)
  then show ?thesis
    using fleet_ok_leader [OF assms(2) tried(1,4)] by (auto simp: Cluster_Holders_def)
next
  case (changed g l leader idx leader' nodes)
  note d = fleet_okD [OF assms(2) changed(1)]
  have "fset (fmdom nodes) = set (sg_IDs g)"
    using assms(3) changed(6) d(2) fmdomI [OF changed(4)] by (simp add: steady_def insert_absorb)
  moreover have "nid \<in> set (sg_IDs g)" using changed(2) d(2) by auto
  ultimately show ?thesis
    using changed d fleet_ok_put [OF assms(2), of "g\<lparr>sg_Nodes := fmdrop nid nodes, sg_IDs := withoutNode (sg_IDs g) nid\<rparr>" sid]
    by (auto simp: Cluster_Holders_def withoutNode_def)
qed (use assms(2) in simp)

text \<open>an addition whose commit was not seen in time is reported as failed, and the members of the group are
  unchanged; but the leader goes on under the configuration with the new server, whose replica has been stopped: its
  majority counts one server more, and every further change is refused until that entry commits.\<close>

theorem timed_out_addition_stays:
  assumes "fmlookup (sl_Groups sc) sid = Some g" "nid |\<notin>| fmdom (sg_Nodes g)" "group_leader g = l" "l \<noteq> []"
    and "fmlookup (sg_Nodes g) l = Some leader" "AddServer env nid leader = (Inr idx, leader')"
    and "wait (fmupd l leader' (sg_Nodes g)) = None"
  shows "\<exists>e sc'. AddReplica env wait sid nid sc = (Some e, sc') \<and> Cluster_Holders sid sc' = Cluster_Holders sid sc
    \<and> (\<exists>g'. fmlookup (sl_Groups sc') sid = Some g' \<and> fmlookup (sg_Nodes g') l = Some leader')
    \<and> nid \<in> set (s_peers leader') \<and> majority (s_peers leader') = (length (s_peers leader) + 1) div 2 + 1
    \<and> (s_commitIndex leader' < idx \<longrightarrow> (\<forall>env' i. fst (AddServer env' i leader') = Inl ErrConfigChangeInFlight
          \<or> fst (AddServer env' i leader') = Inl ErrNotInConfiguration))"
proof -
  obtain c where c: "s_role leader = Leader"
    "(if Contains \<lparr>Servers = s_peers leader\<rparr> nid then Inl (''raft: '' @ nid @ '' is already in the configuration'')
      else Inr (withServer nid \<lparr>Servers = s_peers leader\<rparr>)) = Inr c"
    and l': "leader' = stored_server (useConfigurationLocked c (leader\<lparr>s_log := s_log leader
        @ [\<lparr>ent_Term = s_currentTerm leader, ent_Index = idx, ent_Command = Some (encodeConfig c)\<rparr>],
        s_matchIndex := fmupd (s_id leader) idx (s_matchIndex leader), s_configChangeIndex := idx\<rparr>))"
    using changeConfiguration_elim [OF assms(6) [unfolded AddServer_def]] by metis
  have p: "s_peers leader' = sort (s_peers leader @ [nid])" "s_configChangeIndex leader' = idx" "s_role leader' = Leader"
    using c by (auto simp: l' useConfiguration_peers withServer_def split: if_splits)
  then have "fst (AddServer env' i leader') = Inl ErrConfigChangeInFlight \<or> fst (AddServer env' i leader') = Inl ErrNotInConfiguration"
    if "s_commitIndex leader' < idx" for env' i
    using that by (auto simp: AddServer_def changeConfiguration_def Let_def)
  then show ?thesis using assms p by (auto simp: AddReplica_def Let_def majority_def Cluster_Holders_def)
qed

end
