(* ===== verification/EventLog.thy ===== *)
theory EventLog
  imports Prelude "HOL-Library.Multiset"
begin

text \<open>
  The structured event log of the demo server (src/demo/eventlog.go): a bounded buffer with filters.
  The time that an event is stamped with is an argument.

  Shown here: the buffer holds exactly the latest events, in order, with consecutive sequence
  numbers; what a query returns; and that the lists of filter values are sorted and without duplicates
  whatever the order in which Go ranges over the sets they come from, by the code's own insertion sort.
\<close>

section \<open>The buffer\<close>

type_synonym EventKind = string

definition KindClient :: EventKind where "KindClient = ''client''"
definition KindRaft :: EventKind where "KindRaft = ''raft''"
definition KindControl :: EventKind where "KindControl = ''control''"
definition KindDrift :: EventKind where "KindDrift = ''drift''"

record Event =
  ev_Seq :: "64 word"
  ev_At :: string
  ev_Kind :: EventKind
  ev_Text :: string
  ev_Account :: string
  ev_Shard :: string
  ev_Node :: string
  ev_Outcome :: string

record eventLog =
  el_events :: "Event list"
  el_seq :: "64 word"
  el_max :: int

definition newEventLog :: "int \<Rightarrow> eventLog" where
  "newEventLog m = \<lparr>el_events = [], el_seq = 0, el_max = m\<rparr>"

text \<open>\<^verbatim>\<open>xs[len(xs)-max:]\<close> when there are more than \<open>max\<close>: a negative bound is out of range and panics.\<close>

definition keep_last :: "int \<Rightarrow> 'a list \<Rightarrow> 'a list option" where
  "keep_last m xs =
     (if int (length xs) > m then (if m < 0 then None else Some (drop (length xs - nat m) xs)) else Some xs)"

definition el_add :: "string \<Rightarrow> Event \<Rightarrow> eventLog \<Rightarrow> eventLog option" where
  "el_add now e l =
     (let l = l\<lparr>el_seq := el_seq l + 1\<rparr>;
          e = e\<lparr>ev_Seq := el_seq l\<rparr>;
          e = (if ev_At e = [] then e\<lparr>ev_At := now\<rparr> else e)
      in do {
        evs \<leftarrow> keep_last (el_max l) (el_events l @ [e]);
        Some (l\<lparr>el_events := evs\<rparr>)
      })"

definition el_snapshot :: "eventLog \<Rightarrow> Event list" where
  "el_snapshot l = el_events l"

definition el_lines :: "eventLog \<Rightarrow> string list" where
  "el_lines l = map (\<lambda>e. ev_At e @ ''  '' @ ev_Text e) (el_snapshot l)"

section \<open>Filters\<close>

record EventFilter =
  ef_Account :: string
  ef_Shard :: string
  ef_Node :: string
  ef_Kind :: EventKind
  ef_ExcludeKind :: EventKind

text \<open>\<^verbatim>\<open>strings.EqualFold\<close> on names of ASCII letters, which fold to lower case.\<close>

definition lower :: "char \<Rightarrow> char" where
  "lower c = (let n = (of_char c :: nat) in if 65 \<le> n \<and> n \<le> 90 then char_of (n + 32) else c)"

definition EqualFold :: "string \<Rightarrow> string \<Rightarrow> bool" where
  "EqualFold s t \<longleftrightarrow> map lower s = map lower t"

definition matches :: "EventFilter \<Rightarrow> Event \<Rightarrow> bool" where
  "matches f e =
     (if ef_Account f \<noteq> [] \<and> \<not> EqualFold (ev_Account e) (ef_Account f) then False
      else if ef_Shard f \<noteq> [] \<and> \<not> EqualFold (ev_Shard e) (ef_Shard f) then False
      else if ef_Node f \<noteq> [] \<and> \<not> EqualFold (ev_Node e) (ef_Node f) then False
      else if ef_Kind f \<noteq> [] \<and> ev_Kind e \<noteq> ef_Kind f then False
      else if ef_ExcludeKind f \<noteq> [] \<and> ev_Kind e = ef_ExcludeKind f then False
      else True)"

definition Events :: "EventFilter \<Rightarrow> int \<Rightarrow> eventLog \<Rightarrow> Event list" where
  "Events f limit l =
     (let out = filter (matches f) (el_snapshot l) in
      if limit > 0 \<and> int (length out) > limit then drop (length out - nat limit) out else out)"

section \<open>Filter values\<close>

text \<open>The two loops of \<^verbatim>\<open>sortStrings\<close>.\<close>

fun sift :: "'a :: linorder list \<Rightarrow> nat \<Rightarrow> 'a list" where
  "sift s 0 = s"
| "sift s (Suc j) = (if s ! Suc j < s ! j then sift (s[Suc j := s ! j, j := s ! Suc j]) j else s)"

definition sortStrings :: "'a :: linorder list \<Rightarrow> 'a list" where
  "sortStrings s = fold (\<lambda>i s. sift s i) [1..<length s] s"

text \<open>One axis: the non-empty values, collected in a set, ranged over in any order, and sorted.\<close>

definition axis :: "(string fset \<Rightarrow> string list) \<Rightarrow> (Event \<Rightarrow> string) \<Rightarrow> Event list \<Rightarrow> string list" where
  "axis walk f evs = sortStrings (walk (fset_of_list (filter (\<lambda>v. v \<noteq> []) (map f evs))))"

definition EventAxes :: "(string fset \<Rightarrow> string list) \<Rightarrow> eventLog \<Rightarrow> (string, string list) fmap" where
  "EventAxes walk l =
     fmap_of_list [(''accounts'', axis walk ev_Account (el_snapshot l)),
       (''shards'', axis walk ev_Shard (el_snapshot l)), (''nodes'', axis walk ev_Node (el_snapshot l))]"

section \<open>Both logs of the server\<close>

record DemoLog =
  dl_eventLog :: "eventLog option"
  dl_events :: "string list"

definition logEvent :: "string \<Rightarrow> Event \<Rightarrow> DemoLog \<Rightarrow> DemoLog option" where
  "logEvent now e d =
     (case dl_eventLog d of
        None \<Rightarrow> Some d
      | Some l \<Rightarrow> do {
          l \<leftarrow> el_add now e l;
          evs \<leftarrow> keep_last 200 (dl_events d @ [now @ ''  '' @ ev_Text e]);
          Some (d\<lparr>dl_eventLog := Some l, dl_events := evs\<rparr>)
        })"

section \<open>What the buffer holds\<close>

definition stamped :: "nat \<Rightarrow> string \<times> Event \<Rightarrow> Event" where
  "stamped n = (\<lambda>(now, e). e\<lparr>ev_Seq := word_of_nat n, ev_At := (if ev_At e = [] then now else ev_At e)\<rparr>)"

fun add_all :: "(string \<times> Event) list \<Rightarrow> eventLog \<Rightarrow> eventLog option" where
  "add_all [] l = Some l"
| "add_all ((now, e) # es) l = do { l \<leftarrow> el_add now e l; add_all es l }"

lemma keep_last_Some: "0 \<le> m \<Longrightarrow> keep_last m xs = Some (drop (length xs - nat m) xs)"
  by (auto simp: keep_last_def)

lemma drop_last_snoc:
  assumes "k = length xs - m"
  shows "drop (length (drop k xs @ [y]) - m) (drop k xs @ [y]) = drop (length xs + 1 - m) (xs @ [y])"
proof (cases "length xs \<le> m")
  case False
  have "drop k xs @ [y] = drop k (xs @ [y])" "length (drop k xs @ [y]) - m = 1" "1 + k = length xs + 1 - m"
    using False assms by simp_all
  then show ?thesis by (metis drop_drop)
qed (use assms in simp)

text \<open>the log after any events is the latest of them, as many as the bound allows, in the order of their
  arrival, each with its number and its time.\<close>

theorem log_keeps_latest:
  assumes "0 \<le> m"
  shows "\<exists>l. add_all es (newEventLog m) = Some l \<and> el_max l = m \<and> el_seq l = word_of_nat (length es)
    \<and> el_snapshot l = drop (length es - nat m) (map2 stamped [1..<Suc (length es)] es)"
proof (induction es rule: rev_induct)
  case Nil
  show ?case by (simp add: newEventLog_def el_snapshot_def)
next
  case (snoc x es)
  obtain now e where x: "x = (now, e)" by fastforce
  obtain l where l: "add_all es (newEventLog m) = Some l" "el_max l = m" "el_seq l = word_of_nat (length es)"
    "el_snapshot l = drop (length es - nat m) (map2 stamped [1..<Suc (length es)] es)" using snoc.IH by blast
  have app: "add_all (es @ [(now, e)]) k = Option.bind (add_all es k) (el_add now e)" for k
    by (induction es k rule: add_all.induct) (auto simp: bind_eq_None_conv split: bind_splits)
  let ?old = "map2 stamped [1..<Suc (length es)] es"
  have up: "[1..<Suc (Suc k)] = [1..<Suc k] @ [Suc k]" for k by simp
  have len: "length ?old = length es" by (simp del: upt_Suc)
  have new: "map2 stamped [1..<Suc (length (es @ [x]))] (es @ [x]) = ?old @ [stamped (Suc (length es)) (now, e)]"
    unfolding x length_append_singleton up by (simp del: upt_Suc)
  have "el_add now e l = do {
      evs \<leftarrow> keep_last m (el_events l @ [stamped (Suc (length es)) (now, e)]);
      Some (l\<lparr>el_seq := el_seq l + 1, el_events := evs\<rparr>) }"
    using l(2,3) by (cases "ev_At e = []") (simp_all add: el_add_def Let_def stamped_def add.commute)
  then have "el_add now e l = Some (l\<lparr>el_seq := el_seq l + 1, el_events :=
      drop (length (el_events l @ [stamped (Suc (length es)) (now, e)]) - nat m) (el_events l @ [stamped (Suc (length es)) (now, e)])\<rparr>)"
    by (simp only: keep_last_Some [OF assms] bind.bind_lunit)
  moreover have "drop (length (el_events l @ [stamped (Suc (length es)) (now, e)]) - nat m) (el_events l @ [stamped (Suc (length es)) (now, e)])
      = drop (length (es @ [x]) - nat m) (map2 stamped [1..<Suc (length (es @ [x]))] (es @ [x]))"
  proof -
    have k: "length es - nat m = length ?old - nat m" unfolding len by (rule refl)
    have s: "length (es @ [x]) - nat m = length ?old + 1 - nat m" unfolding len by simp
    have o: "el_events l = drop (length es - nat m) ?old" using l(4) unfolding el_snapshot_def .
    show ?thesis unfolding new o s by (rule drop_last_snoc [OF k])
  qed
  ultimately have a: "el_add now e l = Some (l\<lparr>el_seq := el_seq l + 1,
      el_events := drop (length (es @ [x]) - nat m) (map2 stamped [1..<Suc (length (es @ [x]))] (es @ [x]))\<rparr>)"
    by (simp only:)
  have "add_all (es @ [x]) (newEventLog m) = el_add now e l"
    unfolding x app l(1) by simp
  moreover have "el_seq l + 1 = word_of_nat (length (es @ [x]))" using l(3) by simp
  ultimately show ?case using a l(2) by (simp only: el_snapshot_def) (simp del: upt_Suc drop_append)
qed

text \<open>a query gives the events of the buffer that match, the latest ones if there are more than asked for.\<close>

lemma Events_latest:
  assumes "0 < limit"
  shows "\<exists>older. filter (matches f) (el_snapshot l) = older @ Events f limit l" "length (Events f limit l) \<le> nat limit"
proof -
  let ?out = "filter (matches f) (el_snapshot l)"
  have "?out = take (length ?out - nat limit) ?out @ Events f limit l"
  proof (cases "int (length ?out) > limit")
    case True
    then have "Events f limit l = drop (length ?out - nat limit) ?out"
      unfolding Events_def Let_def using assms by (simp only: simp_thms if_True)
    then show ?thesis by (simp only: append_take_drop_id)
  next
    case False
    then have "Events f limit l = ?out" "length ?out - nat limit = 0"
      unfolding Events_def Let_def by simp_all
    then show ?thesis by simp
  qed
  then show "\<exists>older. ?out = older @ Events f limit l" by (rule exI)
  show "length (Events f limit l) \<le> nat limit" using assms by (auto simp: Events_def Let_def)
qed

lemma matches_zero: "matches \<lparr>ef_Account = [], ef_Shard = [], ef_Node = [], ef_Kind = [], ef_ExcludeKind = []\<rparr> e"
  by (simp add: matches_def)

section \<open>The sort\<close>

lemma sift_props:
  assumes "j < length s" "sorted (take j s)"
  shows "length (sift s j) = length s \<and> drop (Suc j) (sift s j) = drop (Suc j) s
    \<and> mset (take (Suc j) (sift s j)) = mset (take (Suc j) s) \<and> sorted (take (Suc j) (sift s j))"
  using assms
proof (induction s j rule: sift.induct)
  case (1 s)
  then show ?case by (cases s) auto
next
  case (2 s j)
  let ?a = "s ! j" and ?b = "s ! Suc j"
  have tk: "take (Suc j) s = take j s @ [?a]" "take (Suc (Suc j)) s = take j s @ [?a, ?b]"
    using "2.prems"(1) by (simp_all add: take_Suc_conv_app_nth)
  have pre: "sorted (take j s @ [?a])" using "2.prems"(2) tk(1) by simp
  show ?case
  proof (cases "?b < ?a")
    case False
    then have "sorted (take (Suc (Suc j)) s)" using pre unfolding tk(2) by (fastforce simp: sorted_append)
    then show ?thesis using False by simp
  next
    case True
    let ?s = "s[Suc j := ?a, j := ?b]"
    have l: "j < length ?s" "Suc j < length ?s" using "2.prems"(1) by simp_all
    have t0: "take j ?s = take j s" by simp
    have t1: "take (Suc j) ?s = take j s @ [?b]" using l(1) by (simp add: take_Suc_conv_app_nth)
    have n: "?s ! Suc j = ?a" using l by simp
    have ih: "length (sift ?s j) = length ?s" "drop (Suc j) (sift ?s j) = drop (Suc j) ?s"
      "mset (take (Suc j) (sift ?s j)) = mset (take (Suc j) ?s)" "sorted (take (Suc j) (sift ?s j))"
      using "2.IH" [OF True l(1)] pre t0 by (simp_all add: sorted_append)
    have d: "drop (Suc (Suc j)) (sift ?s j) = drop (Suc (Suc j)) s"
    proof -
      have "drop 1 (drop (Suc j) (sift ?s j)) = drop 1 (drop (Suc j) ?s)" using ih(2) by simp
      then show ?thesis using l by simp
    qed
    have "sift ?s j ! Suc j = ?a"
    proof -
      have "drop (Suc j) (sift ?s j) ! 0 = drop (Suc j) ?s ! 0" using ih(2) by simp
      then show ?thesis using l ih(1) n by simp
    qed
    then have t2: "take (Suc (Suc j)) (sift ?s j) = take (Suc j) (sift ?s j) @ [?a]"
      using l ih(1) by (simp add: take_Suc_conv_app_nth [of "Suc j"])
    have "set (take (Suc j) (sift ?s j)) = set (take j s @ [?b])"
      using ih(3) t1 by (metis set_mset_mset)
    then have "\<forall>x \<in> set (take (Suc j) (sift ?s j)). x \<le> ?a"
      using pre True by (auto simp: sorted_append)
    then have "sorted (take (Suc (Suc j)) (sift ?s j))" unfolding t2 using ih(4) by (simp add: sorted_append)
    moreover have "mset (take (Suc (Suc j)) (sift ?s j)) = mset (take (Suc (Suc j)) s)"
      unfolding t2 tk(2) using ih(3) t1 by simp
    ultimately show ?thesis using True ih(1) d by simp
  qed
qed

lemma sort_loop:
  "n \<le> length s \<Longrightarrow> 1 \<le> n \<Longrightarrow> let t = fold (\<lambda>i s. sift s i) [1..<n] s in
     length t = length s \<and> sorted (take n t) \<and> mset t = mset s"
proof (induction n)
  case (Suc n)
  show ?case
  proof (cases "n = 0")
    case True
    then show ?thesis using Suc.prems(1) by (cases s) (auto simp: Let_def)
  next
    case False
    let ?t = "fold (\<lambda>i s. sift s i) [1..<n] s"
    have t: "length ?t = length s" "sorted (take n ?t)" "mset ?t = mset s" using Suc False by (auto simp: Let_def)
    note p = sift_props [of n ?t]
    have p: "length (sift ?t n) = length ?t" "drop (Suc n) (sift ?t n) = drop (Suc n) ?t"
      "mset (take (Suc n) (sift ?t n)) = mset (take (Suc n) ?t)" "sorted (take (Suc n) (sift ?t n))"
      using sift_props [of n ?t] t Suc.prems(1) by auto
    have "mset (sift ?t n) = mset (take (Suc n) (sift ?t n)) + mset (drop (Suc n) (sift ?t n))"
      by (metis append_take_drop_id mset_append)
    also have "\<dots> = mset ?t" unfolding p(2,3) by (metis append_take_drop_id mset_append)
    finally show ?thesis using p t False by (simp add: Let_def)
  qed
qed simp

lemma sortStrings_sort: "sortStrings s = sort s"
proof (cases s)
  case (Cons x xs)
  then have "sorted (sortStrings s)" "mset (sortStrings s) = mset s"
    using sort_loop [of "length s" s] by (auto simp: sortStrings_def Let_def)
  then show ?thesis by (metis mset_sort properties_for_sort)
qed (simp add: sortStrings_def)

text \<open>the values offered for a filter are the non-empty ones that occur, each once and sorted, whatever the
  order in which the set was ranged over.\<close>

theorem axis_sorted:
  assumes "\<And>S. distinct (walk S) \<and> set (walk S) = fset S"
  shows "axis walk f evs = sorted_list_of_set {v. v \<noteq> [] \<and> v \<in> f ` set evs}"
proof -
  let ?S = "fset_of_list (filter (\<lambda>v. v \<noteq> []) (map f evs))"
  have s: "set (walk ?S) = {v. v \<noteq> [] \<and> v \<in> f ` set evs}"
    using assms [of ?S] by (auto simp: fset_of_list.rep_eq)
  have "distinct (walk ?S)" using assms by blast
  then have "sort (walk ?S) = sorted_list_of_set (set (walk ?S))"
    by (simp only: sorted_list_of_set_sort_remdups distinct_remdups_id)
  then show ?thesis unfolding axis_def sortStrings_sort s .
qed

end
