(* ===== verification/Healing.thy ===== *)
theory Healing
  imports Fleet EventLog
begin

text \<open>
  The policy of re-replication in the demo server (src/demo/heal.go): which shards lack live replicas,
  which of them may be healed, and on which machine.

  Shown here: healing never touches a shard without a live majority, only ever adds a live machine
  that held no replica and retires a dead one after that, and leaves every shard with at least as many
  members and live members as before.
\<close>

record DemoCluster =
  dc_sc :: ShardCluster
  dc_replicationFactor :: int
  dc_nodes :: int
  dc_crashed :: "(NodeID, bool) fmap"
  dc_log :: DemoLog

record UnderReplicated =
  ur_Shard :: ShardID
  ur_Live :: nat
  ur_Configured :: int
  ur_Quorum :: nat
  ur_Healable :: bool
  ur_Dead :: "NodeID list"
  ur_Spares :: "NodeID list"

definition is_crashed :: "DemoCluster \<Rightarrow> NodeID \<Rightarrow> bool" where
  "is_crashed c i = (case fmlookup (dc_crashed c) i of None \<Rightarrow> False | Some b \<Rightarrow> b)"

text \<open>One iteration of \<^verbatim>\<open>UnderReplicatedShards\<close>; \<^const>\<open>None\<close> for a shard at full replication.\<close>

definition under_replicated :: "DemoCluster \<Rightarrow> ShardID \<Rightarrow> UnderReplicated option" where
  "under_replicated c sid =
     (let holders = Cluster_Holders sid (dc_sc c);
          dead = filter (is_crashed c) holders;
          live = length (filter (\<lambda>h. \<not> is_crashed c h) holders)
      in if dead = [] \<and> int (length holders) \<ge> dc_replicationFactor c then None
         else
           let quorum = length holders div 2 + 1;
               spares = filter (\<lambda>i. i \<notin> set holders \<and> \<not> is_crashed c i) (map node_name [0..<nat (dc_nodes c)])
           in Some \<lparr>ur_Shard = sid, ur_Live = live, ur_Configured = dc_replicationFactor c, ur_Quorum = quorum,
                ur_Healable = (live \<ge> quorum), ur_Dead = dead, ur_Spares = spares\<rparr>)"

definition UnderReplicatedShards :: "DemoCluster \<Rightarrow> UnderReplicated list" where
  "UnderReplicatedShards c = List.map_filter (under_replicated c) (ring_shards (sl_Ring (dc_sc c)))"

record HealResult =
  hr_Shard :: ShardID
  hr_Added :: NodeID
  hr_Removed :: NodeID
  hr_Skipped :: string

definition heal_event :: "string \<Rightarrow> ShardID \<Rightarrow> NodeID \<Rightarrow> string \<Rightarrow> string \<Rightarrow> DemoCluster \<Rightarrow> DemoCluster option" where
  "heal_event now sid nid outcome msg c = do {
     l \<leftarrow> logEvent now \<lparr>ev_Seq = 0, ev_At = [], ev_Kind = KindRaft, ev_Text = msg, ev_Account = [], ev_Shard = sid,
            ev_Node = nid, ev_Outcome = outcome\<rparr> (dc_log c);
     Some (c\<lparr>dc_log := l\<rparr>)
   }"

record HealEnv =
  hv_env :: Env
  hv_now :: string
  hv_add :: "ShardID \<Rightarrow> Wait"
  hv_remove :: "ShardID \<Rightarrow> Wait"

text \<open>One iteration of \<^verbatim>\<open>Heal\<close>: the result to report, if any.\<close>

definition heal_shard :: "HealEnv \<Rightarrow> UnderReplicated \<Rightarrow> DemoCluster \<Rightarrow> (HealResult option \<times> DemoCluster) option" where
  "heal_shard env u c =
     (let sid = ur_Shard u; event = heal_event (hv_now env) sid;
          skip = (\<lambda>msg. \<lparr>hr_Shard = sid, hr_Added = [], hr_Removed = [], hr_Skipped = msg\<rparr>) in
      if \<not> ur_Healable u then
        let msg = ''below quorum ('' @ show_nat (ur_Live u) @ ''/'' @ show_int (ur_Configured u) @ '' live, need ''
              @ show_nat (ur_Quorum u) @ '') - cannot re-replicate without a majority to copy from; revive a machine holding it''
        in do { c \<leftarrow> event [] ''refused'' (sid @ '' NOT healed: '' @ msg) c; Some (Some (skip msg), c) }
      else case ur_Dead u of
        [] \<Rightarrow> Some (None, c)
      | dead # _ \<Rightarrow>
          (case ur_Spares u of
             [] \<Rightarrow>
               let msg = ''no spare machine available to hold a new replica''
               in do { c \<leftarrow> event [] ''refused'' (sid @ '' NOT healed: '' @ msg) c; Some (Some (skip msg), c) }
           | spare # _ \<Rightarrow>
               (case AddReplica (hv_env env) (hv_add env sid) sid spare (dc_sc c) of
                  (Some e, sc) \<Rightarrow> do {
                    c \<leftarrow> event [] ''refused'' (sid @ '' heal failed: '' @ e) (c\<lparr>dc_sc := sc\<rparr>);
                    Some (Some (skip e), c)
                  }
                | (None, sc) \<Rightarrow> do {
                    c \<leftarrow> event spare ''ok'' (sid @ '' re-replicated onto '' @ spare @ '' (was '' @ show_nat (ur_Live u) @ ''/''
                           @ show_int (ur_Configured u) @ '' live)'') (c\<lparr>dc_sc := sc\<rparr>);
                    let res = (skip [])\<lparr>hr_Added := spare\<rparr>;
                    case RemoveReplica (hv_env env) (hv_remove env sid) sid dead (dc_sc c) of
                      (Some e, sc) \<Rightarrow>
                        let msg = ''added '' @ spare @ '' but could not retire '' @ dead @ '': '' @ e in do {
                          c \<leftarrow> event [] [] (sid @ '': '' @ msg) (c\<lparr>dc_sc := sc\<rparr>);
                          Some (Some (res\<lparr>hr_Skipped := msg\<rparr>), c)
                        }
                    | (None, sc) \<Rightarrow> do {
                        c \<leftarrow> event dead ''ok'' (sid @ '' retired dead replica '' @ dead) (c\<lparr>dc_sc := sc\<rparr>);
                        Some (Some (res\<lparr>hr_Removed := dead\<rparr>), c)
                      }
                  })))"

fun heal_loop :: "HealEnv \<Rightarrow> UnderReplicated list \<Rightarrow> DemoCluster \<Rightarrow> (HealResult list \<times> DemoCluster) option" where
  "heal_loop env [] c = Some ([], c)"
| "heal_loop env (u # us) c = do {
     (r, c) \<leftarrow> heal_shard env u c;
     (rs, c) \<leftarrow> heal_loop env us c;
     Some (case r of None \<Rightarrow> rs | Some r \<Rightarrow> r # rs, c)
   }"

definition Heal :: "HealEnv \<Rightarrow> DemoCluster \<Rightarrow> (HealResult list \<times> DemoCluster) option" where
  "Heal env c = heal_loop env (UnderReplicatedShards c) c"

section \<open>A freshly placed cluster\<close>

lemma build_nodes_total: "\<exists>nodes'. build_nodes None sid peers nids nodes = Inr nodes'"
  by (induction nids arbitrary: nodes) (simp_all add: Let_def)

lemma build_groups_total: "\<exists>gs'. build_groups None hs sis gs = Inr gs'"
proof (induction sis arbitrary: gs)
  case (Cons si sis)
  obtain nodes where "build_nodes None (shard_name si) (hs si) (hs si) fmempty = Inr nodes" using build_nodes_total by blast
  then show ?case using Cons.IH by (simp add: Let_def)
qed simp

lemma placed_fleet_ok:
  assumes "NewPlacedClusterWithStorage srt nShards nNodes rf files = Inr sc"
  shows "fleet_ok sc" "distinct (ring_shards (sl_Ring sc))"
proof -
  have b: "build_groups files (holders (nat nNodes) (nat rf)) [0..<nat nShards] fmempty = Inr (sl_Groups sc)"
    and r: "sl_Ring sc = NewRing srt (map shard_name [0..<nat nShards]) DefaultVNodes"
    using assms by (auto simp: NewPlacedClusterWithStorage_def split: if_splits sum.splits)
  show "distinct (ring_shards (sl_Ring sc))" by (simp add: r NewRing_def Let_def distinct_map inj_on_def)
  show "fleet_ok sc" unfolding fleet_ok_def
  proof (intro allI impI)
    fix sid g assume g: "fmlookup (sl_Groups sc) sid = Some g"
    then have "sid \<in> shard_name ` set [0..<nat nShards]" using build_groups_other [OF b, of sid] by fastforce
    then obtain si where "si < nat nShards" "sid = shard_name si" by auto
    with placed_shard [OF assms] g show "distinct (sg_IDs g) \<and> fset (fmdom (sg_Nodes g)) = set (sg_IDs g)" by fastforce
  qed
qed

section \<open>What healing does to a shard\<close>

lemma heal_event_frame:
  assumes "heal_event now sid nid outcome msg c = Some c'"
  shows "dc_sc c' = dc_sc c" "dc_crashed c' = dc_crashed c"
  using assms by (auto simp: heal_event_def bind_eq_Some_conv)

definition live_of :: "DemoCluster \<Rightarrow> NodeID list \<Rightarrow> nat" where
  "live_of c ids = length (filter (\<lambda>h. \<not> is_crashed c h) ids)"

text \<open>The members before and after: unchanged; or a live newcomer joined, in which case a majority was
  alive, and a dead one may have left.\<close>

definition healed :: "DemoCluster \<Rightarrow> NodeID list \<Rightarrow> NodeID list \<Rightarrow> bool" where
  "healed c H H' \<longleftrightarrow> H' = H \<or> (length H div 2 + 1 \<le> live_of c H \<and>
     (\<exists>spare. spare \<notin> set H \<and> \<not> is_crashed c spare
        \<and> (H' = H @ [spare] \<or> (\<exists>dead \<in> set H. is_crashed c dead \<and> H' = withoutNode (H @ [spare]) dead))))"

lemma under_replicated_Some:
  assumes "under_replicated c sid = Some u"
  shows "ur_Shard u = sid" "ur_Healable u \<longleftrightarrow> length (Cluster_Holders sid (dc_sc c)) div 2 + 1 \<le> live_of c (Cluster_Holders sid (dc_sc c))"
    "set (ur_Dead u) = {i \<in> set (Cluster_Holders sid (dc_sc c)). is_crashed c i}"
    "\<forall>i \<in> set (ur_Spares u). i \<notin> set (Cluster_Holders sid (dc_sc c)) \<and> \<not> is_crashed c i"
  using assms by (auto simp: under_replicated_def Let_def live_of_def split: if_splits)

definition log_ok :: "DemoCluster \<Rightarrow> bool" where
  "log_ok c \<longleftrightarrow> (\<forall>l. dl_eventLog (dc_log c) = Some l \<longrightarrow> 0 \<le> el_max l)"

lemma heal_event_total:
  assumes "log_ok c"
  shows "\<exists>c'. heal_event now sid nid outcome msg c = Some c' \<and> log_ok c' \<and> dc_sc c' = dc_sc c \<and> dc_crashed c' = dc_crashed c"
proof (cases "dl_eventLog (dc_log c)")
  case None
  then show ?thesis using assms by (simp add: heal_event_def logEvent_def log_ok_def)
next
  case (Some l)
  then have m: "0 \<le> el_max l" using assms by (simp add: log_ok_def)
  have "\<exists>l'. el_add now e l = Some l' \<and> el_max l' = el_max l" for e
    using m by (simp add: el_add_def Let_def keep_last_Some)
  then obtain l' where "el_add now \<lparr>ev_Seq = 0, ev_At = [], ev_Kind = KindRaft, ev_Text = msg, ev_Account = [], ev_Shard = sid,
      ev_Node = nid, ev_Outcome = outcome\<rparr> l = Some l'" "el_max l' = el_max l" by blast
  then show ?thesis using Some m by (simp add: heal_event_def logEvent_def keep_last_Some log_ok_def)
qed

lemma is_crashed_cong: "dc_crashed c = dc_crashed c' \<Longrightarrow> is_crashed c = is_crashed c'"
  by (rule ext) (simp add: is_crashed_def)

text \<open>What the iteration for one shard guarantees, from the report made at the start.\<close>

definition step_ok :: "DemoCluster \<Rightarrow> ShardID \<Rightarrow> DemoCluster \<Rightarrow> DemoCluster \<Rightarrow> bool" where
  "step_ok c0 sid c c' \<longleftrightarrow> log_ok c' \<and> fleet_ok (dc_sc c') \<and> dc_crashed c' = dc_crashed c
     \<and> (\<forall>s. s \<noteq> sid \<longrightarrow> Cluster_Holders s (dc_sc c') = Cluster_Holders s (dc_sc c))
     \<and> healed c0 (Cluster_Holders sid (dc_sc c0)) (Cluster_Holders sid (dc_sc c'))"

lemma heal_shard_step:
  assumes u: "under_replicated c0 sid = Some u"
    and same: "Cluster_Holders sid (dc_sc c) = Cluster_Holders sid (dc_sc c0)" "dc_crashed c = dc_crashed c0"
    and c: "fleet_ok (dc_sc c)" "log_ok c" and env: "\<forall>s. steady (hv_add env s) \<and> steady (hv_remove env s)"
  shows "\<exists>r c'. heal_shard env u c = Some (r, c') \<and> step_ok c0 sid c c'"
proof -
  note r = under_replicated_Some [OF u]
  let ?H = "Cluster_Holders sid (dc_sc c0)"
  have quiet: "step_ok c0 sid c c'" if "log_ok c'" "fleet_ok (dc_sc c')" "dc_crashed c' = dc_crashed c"
      "\<forall>s. Cluster_Holders s (dc_sc c') = Cluster_Holders s (dc_sc c)" for c'
    using that same(1) by (simp add: step_ok_def healed_def)
  show ?thesis
  proof (cases "ur_Healable u \<and> ur_Dead u \<noteq> [] \<and> ur_Spares u \<noteq> []")
    case False
    define msg where "msg = (if ur_Healable u then ''no spare machine available to hold a new replica'' else
      ''below quorum ('' @ show_nat (ur_Live u) @ ''/'' @ show_int (ur_Configured u) @ '' live, need ''
              @ show_nat (ur_Quorum u) @ '') - cannot re-replicate without a majority to copy from; revive a machine holding it'')"
    obtain c' where c': "heal_event (hv_now env) sid [] ''refused'' (sid @ '' NOT healed: '' @ msg) c = Some c'" "log_ok c'"
        "dc_sc c' = dc_sc c" "dc_crashed c' = dc_crashed c"
      using heal_event_total [OF c(2)] by blast
    have "(\<exists>r. heal_shard env u c = Some (r, c')) \<or> (\<exists>r. heal_shard env u c = Some (r, c))"
      using False c'(1) r(1) unfolding heal_shard_def Let_def msg_def
      by (cases "ur_Healable u"; cases "ur_Dead u"; cases "ur_Spares u") auto
    then show ?thesis using quiet [of c'] quiet [of c] c c' by auto
  next
    case True
    then obtain dead ds spare ss where l: "ur_Healable u" "ur_Dead u = dead # ds" "ur_Spares u = spare # ss"
      by (auto simp: neq_Nil_conv)
    have dead: "dead \<in> set ?H" "is_crashed c0 dead" and spare: "spare \<notin> set ?H" "\<not> is_crashed c0 spare"
      and q: "length ?H div 2 + 1 \<le> live_of c0 ?H"
      using r l by auto
    obtain e1 sc1 where a: "AddReplica (hv_env env) (hv_add env sid) sid spare (dc_sc c) = (e1, sc1)" by fastforce
    have m1: "fleet_ok sc1" "\<forall>s. Cluster_Holders s sc1 = (if s = sid \<and> e1 = None then ?H @ [spare] else Cluster_Holders s (dc_sc c))"
      using AddReplica_members [OF a c(1)] env same(1) by auto
    show ?thesis
    proof (cases e1)
      case (Some e)
      have "log_ok (c\<lparr>dc_sc := sc1\<rparr>)" using c(2) by (simp add: log_ok_def)
      from heal_event_total [OF this] obtain c' where c':
        "heal_event (hv_now env) sid [] ''refused'' (sid @ '' heal failed: '' @ e) (c\<lparr>dc_sc := sc1\<rparr>) = Some c'" "log_ok c'"
        "dc_sc c' = sc1" "dc_crashed c' = dc_crashed c" by fastforce
      have "\<exists>r. heal_shard env u c = Some (r, c')" using l a Some c'(1) r(1) by (simp add: heal_shard_def)
      then show ?thesis using quiet [of c'] c' m1 Some by auto
    next
      case None
      have "log_ok (c\<lparr>dc_sc := sc1\<rparr>)" using c(2) by (simp add: log_ok_def)
      from heal_event_total [OF this] obtain c1 where c1:
        "heal_event (hv_now env) sid spare ''ok'' (sid @ '' re-replicated onto '' @ spare @ '' (was '' @ show_nat (ur_Live u) @ ''/''
             @ show_int (ur_Configured u) @ '' live)'') (c\<lparr>dc_sc := sc1\<rparr>) = Some c1" "log_ok c1"
        "dc_sc c1 = sc1" "dc_crashed c1 = dc_crashed c" by fastforce
      obtain e2 sc2 where b: "RemoveReplica (hv_env env) (hv_remove env sid) sid dead sc1 = (e2, sc2)" by fastforce
      have m2: "fleet_ok sc2" "\<forall>s. Cluster_Holders s sc2 = (if s = sid \<and> e2 = None then withoutNode (?H @ [spare]) dead else Cluster_Holders s sc1)"
        using RemoveReplica_members [OF b m1(1)] env m1(2) None by auto
      define outcome where "outcome = (case e2 of None \<Rightarrow> (dead, ''ok'', sid @ '' retired dead replica '' @ dead)
        | Some e \<Rightarrow> ([], [], sid @ '': '' @ ''added '' @ spare @ '' but could not retire '' @ dead @ '': '' @ e))"
      have "log_ok (c1\<lparr>dc_sc := sc2\<rparr>)" using c1(2) by (simp add: log_ok_def)
      from heal_event_total [OF this] obtain c2 where c2:
        "heal_event (hv_now env) sid (fst outcome) (fst (snd outcome)) (snd (snd outcome)) (c1\<lparr>dc_sc := sc2\<rparr>) = Some c2" "log_ok c2"
        "dc_sc c2 = sc2" "dc_crashed c2 = dc_crashed c1" by fastforce
      have "\<exists>r. heal_shard env u c = Some (r, c2)"
        using l a None b c1(1,3) c2(1) r(1) by (cases e2) (simp_all add: heal_shard_def outcome_def Let_def)
      moreover have "healed c0 ?H (Cluster_Holders sid sc2)"
        using m1(2) m2(2) None dead spare q unfolding healed_def by auto
      then have "step_ok c0 sid c c2"
        using c2 c1 m2 m1(2) None by (simp add: step_ok_def)
      ultimately show ?thesis by blast
    qed
  qed
qed

lemma heal_loop_steps:
  assumes "list_all (\<lambda>u. under_replicated c0 (ur_Shard u) = Some u) us" "distinct (map ur_Shard us)"
    and "\<forall>u \<in> set us. Cluster_Holders (ur_Shard u) (dc_sc c) = Cluster_Holders (ur_Shard u) (dc_sc c0)"
    and "dc_crashed c = dc_crashed c0" "fleet_ok (dc_sc c)" "log_ok c" "\<forall>s. steady (hv_add env s) \<and> steady (hv_remove env s)"
  shows "\<exists>rs c'. heal_loop env us c = Some (rs, c') \<and> fleet_ok (dc_sc c')
    \<and> (\<forall>s. if s \<in> ur_Shard ` set us then healed c0 (Cluster_Holders s (dc_sc c0)) (Cluster_Holders s (dc_sc c'))
         else Cluster_Holders s (dc_sc c') = Cluster_Holders s (dc_sc c))"
  using assms
proof (induction us arbitrary: c)
  case (Cons u us)
  obtain r c1 where 1: "heal_shard env u c = Some (r, c1)" "step_ok c0 (ur_Shard u) c c1"
    using heal_shard_step [of c0 "ur_Shard u" u c env] Cons.prems by auto
  have "\<forall>v \<in> set us. Cluster_Holders (ur_Shard v) (dc_sc c1) = Cluster_Holders (ur_Shard v) (dc_sc c0)"
  proof
    fix v assume v: "v \<in> set us"
    then have "ur_Shard v \<noteq> ur_Shard u" using Cons.prems(2) by (metis distinct.simps(2) image_eqI list.simps(9) set_map)
    then show "Cluster_Holders (ur_Shard v) (dc_sc c1) = Cluster_Holders (ur_Shard v) (dc_sc c0)"
      using 1(2) Cons.prems(3) v by (simp add: step_ok_def)
  qed
  moreover have "dc_crashed c1 = dc_crashed c0" "fleet_ok (dc_sc c1)" "log_ok c1"
    using 1(2) Cons.prems(4) by (simp_all add: step_ok_def)
  ultimately obtain rs c' where 2: "heal_loop env us c1 = Some (rs, c')" "fleet_ok (dc_sc c')"
    "\<forall>s. if s \<in> ur_Shard ` set us then healed c0 (Cluster_Holders s (dc_sc c0)) (Cluster_Holders s (dc_sc c'))
         else Cluster_Holders s (dc_sc c') = Cluster_Holders s (dc_sc c1)"
    using Cons.IH [of c1] Cons.prems(1,2,7) by auto
  have "if s \<in> ur_Shard ` set (u # us) then healed c0 (Cluster_Holders s (dc_sc c0)) (Cluster_Holders s (dc_sc c'))
         else Cluster_Holders s (dc_sc c') = Cluster_Holders s (dc_sc c)" for s
  proof (cases "s = ur_Shard u")
    case True
    then have "s \<notin> ur_Shard ` set us" using Cons.prems(2) by auto
    then have "Cluster_Holders s (dc_sc c') = Cluster_Holders s (dc_sc c1)" using 2(3) by metis
    then show ?thesis using True 1(2) by (simp add: step_ok_def)
  next
    case False
    then have "Cluster_Holders s (dc_sc c1) = Cluster_Holders s (dc_sc c)" using 1(2) by (simp add: step_ok_def)
    then show ?thesis using 2(3) False by (metis image_insert insert_iff list.simps(15))
  qed
  then show ?case using 1(1) 2(1,2) by simp
qed simp

lemma UnderReplicatedShards_reports:
  "list_all (\<lambda>u. under_replicated c (ur_Shard u) = Some u) (List.map_filter (under_replicated c) xs)"
  "distinct xs \<Longrightarrow> distinct (map ur_Shard (List.map_filter (under_replicated c) xs))"
  "ur_Shard ` set (List.map_filter (under_replicated c) xs) \<subseteq> set xs"
proof -
  have s: "ur_Shard u = x" if "under_replicated c x = Some u" for u x using under_replicated_Some(1) [OF that] .
  show sub: "ur_Shard ` set (List.map_filter (under_replicated c) ys) \<subseteq> set ys" for ys
    by (induction ys) (auto simp: map_filter_simps s split: option.splits)
  show "list_all (\<lambda>u. under_replicated c (ur_Shard u) = Some u) (List.map_filter (under_replicated c) xs)"
    by (induction xs) (auto simp: map_filter_simps s split: option.splits)
  show "distinct xs \<Longrightarrow> distinct (map ur_Shard (List.map_filter (under_replicated c) xs))"
  proof (induction xs)
    case (Cons x xs)
    then show ?case using sub [of xs] by (auto simp: map_filter_simps s split: option.splits)
  qed (simp add: map_filter_simps)
qed

lemma filter_withoutNode: "P d = False \<Longrightarrow> filter P (withoutNode ids d) = filter P ids"
  unfolding withoutNode_def by (induction ids) auto

lemma healed_effect:
  assumes "healed c H H'" "distinct H"
  shows "(live_of c H < length H div 2 + 1 \<longrightarrow> H' = H)
    \<and> length H \<le> length H' \<and> live_of c H \<le> live_of c H' \<and> distinct H'
    \<and> (\<forall>i. i \<in> set H' \<and> i \<notin> set H \<longrightarrow> \<not> is_crashed c i) \<and> (\<forall>i. i \<in> set H \<and> i \<notin> set H' \<longrightarrow> is_crashed c i)"
proof -
  have len: "length (withoutNode (H @ [s]) d) = length H" if "d \<in> set H" "s \<notin> set H" for s d
  proof -
    have "filter (\<lambda>i. i \<noteq> d) H = remove1 d H" using distinct_remove1_removeAll [OF assms(2), of d]
      by (simp add: removeAll_filter_not_eq eq_commute)
    then have "length (filter (\<lambda>i. i \<noteq> d) H) = length H - 1" using that by (simp add: length_remove1)
    moreover have "0 < length H" "s \<noteq> d" using that by (auto intro: length_pos_if_in_set)
    ultimately show ?thesis by (simp add: withoutNode_def)
  qed
  consider (same) "H' = H" | (added) spare where "length H div 2 + 1 \<le> live_of c H" "spare \<notin> set H" "\<not> is_crashed c spare" "H' = H @ [spare]"
    | (swapped) spare dead where "length H div 2 + 1 \<le> live_of c H" "spare \<notin> set H" "\<not> is_crashed c spare" "dead \<in> set H" "is_crashed c dead"
        "H' = withoutNode (H @ [spare]) dead"
    using assms(1) unfolding healed_def by blast
  note cs = this
  show ?thesis
  proof (intro conjI)
    show "live_of c H < length H div 2 + 1 \<longrightarrow> H' = H" using cs by cases auto
    show "length H \<le> length H'" using cs by cases (auto simp: len)
    show "distinct H'" using cs assms(2) by cases (auto simp: withoutNode_def)
    show "live_of c H \<le> live_of c H'" using cs by cases (auto simp: live_of_def filter_withoutNode)
    show "\<forall>i. i \<in> set H' \<and> i \<notin> set H \<longrightarrow> \<not> is_crashed c i" using cs by cases (auto simp: withoutNode_def)
    show "\<forall>i. i \<in> set H \<and> i \<notin> set H' \<longrightarrow> is_crashed c i" using cs by cases (auto simp: withoutNode_def)
  qed
qed

text \<open>C34: healing is safe. It returns; a shard without a live majority keeps exactly its members; in every other
  shard only live machines join and only dead ones leave, no machine is a member twice, and neither the number of
  members nor that of live members goes down, whichever of the configuration changes commit in time.\<close>

theorem Heal_is_safe:
  assumes "fleet_ok (dc_sc c)" "log_ok c" "distinct (ring_shards (sl_Ring (dc_sc c)))"
    and "\<forall>s. steady (hv_add env s) \<and> steady (hv_remove env s)"
  shows "\<exists>rs c'. Heal env c = Some (rs, c') \<and> fleet_ok (dc_sc c')
    \<and> (\<forall>sid. let H = Cluster_Holders sid (dc_sc c); H' = Cluster_Holders sid (dc_sc c') in
    (live_of c H < length H div 2 + 1 \<longrightarrow> H' = H)
    \<and> length H \<le> length H' \<and> live_of c H \<le> live_of c H' \<and> distinct H'
    \<and> (\<forall>i. i \<in> set H' \<and> i \<notin> set H \<longrightarrow> \<not> is_crashed c i) \<and> (\<forall>i. i \<in> set H \<and> i \<notin> set H' \<longrightarrow> is_crashed c i))"
proof -
  obtain rs c' where h: "Heal env c = Some (rs, c')" "fleet_ok (dc_sc c')"
    "\<forall>s. if s \<in> ur_Shard ` set (UnderReplicatedShards c)
       then healed c (Cluster_Holders s (dc_sc c)) (Cluster_Holders s (dc_sc c'))
       else Cluster_Holders s (dc_sc c') = Cluster_Holders s (dc_sc c)"
    using heal_loop_steps [of c "UnderReplicatedShards c" c env] assms
      UnderReplicatedShards_reports(1,2) [where c = c and xs = "ring_shards (sl_Ring (dc_sc c))"]
    unfolding Heal_def UnderReplicatedShards_def by auto
  have "healed c (Cluster_Holders s (dc_sc c)) (Cluster_Holders s (dc_sc c'))" for s
    using h(3) by (auto simp: healed_def split: if_splits)
  moreover have "distinct (Cluster_Holders s (dc_sc c))" for s
    using fleet_okD(1) [OF assms(1)] by (simp add: Cluster_Holders_def split: option.splits)
  ultimately have "let H = Cluster_Holders s (dc_sc c); H' = Cluster_Holders s (dc_sc c') in
    (live_of c H < length H div 2 + 1 \<longrightarrow> H' = H)
    \<and> length H \<le> length H' \<and> live_of c H \<le> live_of c H' \<and> distinct H'
    \<and> (\<forall>i. i \<in> set H' \<and> i \<notin> set H \<longrightarrow> \<not> is_crashed c i) \<and> (\<forall>i. i \<in> set H \<and> i \<notin> set H' \<longrightarrow> is_crashed c i)" for s
    unfolding Let_def by (rule healed_effect)
  with h(1,2) show ?thesis by blast
qed

definition sample_demo :: "ShardCluster \<Rightarrow> DemoCluster" where
  "sample_demo sc = \<lparr>dc_sc = sc, dc_replicationFactor = 3, dc_nodes = 4, dc_crashed = fmupd ''node-1'' True fmempty,
     dc_log = \<lparr>dl_eventLog = Some (newEventLog 500), dl_events = []\<rparr>\<rparr>"

theorem Heal_is_safe_witness:
  "\<exists>sc rs c'. NewPlacedCluster (\<lambda>ps. ps) 2 4 3 = Inr sc
    \<and> Heal \<lparr>hv_env = \<lparr>e_now = 0, e_draw = 0, e_save_err = None, e_applied_err = None, e_snap_err = None\<rparr>, hv_now = [],
        hv_add = (\<lambda>s nodes. Some nodes), hv_remove = (\<lambda>s nodes. None)\<rparr> (sample_demo sc) = Some (rs, c') \<and> fleet_ok (dc_sc c')"
proof -
  obtain gs where "build_groups None (holders 4 3) [0..<2] fmempty = Inr gs" using build_groups_total by blast
  then obtain sc where sc: "NewPlacedCluster (\<lambda>ps. ps) 2 4 3 = Inr sc"
    by (simp add: NewPlacedCluster_def NewPlacedClusterWithStorage_def)
  have "fleet_ok (dc_sc (sample_demo sc))" "distinct (ring_shards (sl_Ring (dc_sc (sample_demo sc))))"
    using placed_fleet_ok [OF sc [unfolded NewPlacedCluster_def]] by (simp_all add: sample_demo_def)
  moreover have "log_ok (sample_demo sc)" by (simp add: log_ok_def sample_demo_def newEventLog_def)
  ultimately show ?thesis
    using sc Heal_is_safe [of "sample_demo sc" "\<lparr>hv_env = \<lparr>e_now = 0, e_draw = 0, e_save_err = None, e_applied_err = None,
        e_snap_err = None\<rparr>, hv_now = [], hv_add = (\<lambda>s nodes. Some nodes), hv_remove = (\<lambda>s nodes. None)\<rparr>"]
    by (auto simp: steady_def)
qed

end
