(* ===== verification/SimNetwork.thy ===== *)
theory SimNetwork
  imports RaftSnapshot
begin

text \<open>
  The simulated network of the chaos tests and of the demo (src/sim/network.go, network_snapshot.go and
  network_groups.go): crashes, partitions, loss, duplication and delay, and the delivery of the three
  messages of Raft to the servers behind it.

  The generator of \<^verbatim>\<open>math/rand\<close> is a parameter: the state that a source starts in, and what a draw returns.
  Rates are rationals. A delay is returned; what happens while it passes is left out, as the time of a
  message is part of the environment of its handler. \<^const>\<open>None\<close> is a panic.

  Shown here: a crashed or partitioned machine is cut off; which messages of a link are lost, doubled or
  delayed is a function of the seed and the link, however the links interleave; and a message that is
  delivered twice leaves the server as if it had been delivered once.
\<close>

section \<open>The network\<close>

record 'r Rand =
  rn_new :: "64 word \<Rightarrow> 'r"
  rn_float :: "'r \<Rightarrow> rat \<times> 'r"
  rn_int63n :: "int \<Rightarrow> 'r \<Rightarrow> int \<times> 'r"

record ('m, 'r) Network =
  nw_nodes :: "(NodeID, 'm Server) fmap"
  nw_groups :: "(string, (NodeID, 'm Server) fmap) fmap"
  nw_crashed :: "(NodeID, bool) fmap"
  nw_partitions :: "(NodeID, int) fmap"
  nw_dropRate :: rat
  nw_duplicateRate :: rat
  nw_latencyMin :: int
  nw_latencyMax :: int
  nw_links :: "(string, 'r) fmap"
  nw_seed :: "64 word"
  nw_sent :: "(NodeID, int) fmap"
  nw_dropped :: "(NodeID, int) fmap"

definition NewNetwork :: "64 word \<Rightarrow> ('m, 'r) Network" where
  "NewNetwork seed = \<lparr>nw_nodes = fmempty, nw_groups = fmempty, nw_crashed = fmempty, nw_partitions = fmempty,
     nw_dropRate = 0, nw_duplicateRate = 0, nw_latencyMin = 0, nw_latencyMax = 0, nw_links = fmempty, nw_seed = seed,
     nw_sent = fmempty, nw_dropped = fmempty\<rparr>"

text \<open>Reading a missing key gives the zero value.\<close>

definition or0 :: "'a \<Rightarrow> ('k, 'a) fmap \<Rightarrow> 'k \<Rightarrow> 'a" where
  "or0 z m k = (case fmlookup m k of None \<Rightarrow> z | Some v \<Rightarrow> v)"

definition bump :: "NodeID \<Rightarrow> (NodeID, int) fmap \<Rightarrow> (NodeID, int) fmap" where
  "bump k m = fmupd k (or0 0 m k + 1) m"

definition Register :: "NodeID \<Rightarrow> 'm Server \<Rightarrow> ('m, 'r) Network \<Rightarrow> ('m, 'r) Network" where
  "Register i s n = n\<lparr>nw_nodes := fmupd i s (nw_nodes n), nw_partitions := fmupd i 0 (nw_partitions n)\<rparr>"

definition RegisterGroup :: "string \<Rightarrow> NodeID \<Rightarrow> 'm Server \<Rightarrow> ('m, 'r) Network \<Rightarrow> ('m, 'r) Network" where
  "RegisterGroup sid i s n =
     n\<lparr>nw_groups := fmupd sid (fmupd i s (or0 fmempty (nw_groups n) sid)) (nw_groups n),
       nw_partitions := fmupd i 0 (nw_partitions n)\<rparr>"

section \<open>Faults\<close>

definition net_Crash :: "NodeID \<Rightarrow> ('m, 'r) Network \<Rightarrow> ('m, 'r) Network" where
  "net_Crash i n = n\<lparr>nw_crashed := fmupd i True (nw_crashed n)\<rparr>"

definition net_Restore :: "NodeID \<Rightarrow> ('m, 'r) Network \<Rightarrow> ('m, 'r) Network" where
  "net_Restore i n = n\<lparr>nw_crashed := fmupd i False (nw_crashed n), nw_partitions := fmupd i 0 (nw_partitions n)\<rparr>"

definition net_Partition :: "NodeID list list \<Rightarrow> ('m, 'r) Network \<Rightarrow> ('m, 'r) Network" where
  "net_Partition gs n = n\<lparr>nw_partitions :=
     fold (\<lambda>(gi, g). fold (\<lambda>i. fmupd i (int gi)) g) (enumerate 0 gs) (nw_partitions n)\<rparr>"

definition net_Heal :: "('m, 'r) Network \<Rightarrow> ('m, 'r) Network" where
  "net_Heal n = n\<lparr>nw_partitions := fmmap (\<lambda>_. 0) (nw_partitions n)\<rparr>"

definition SetLatency :: "int \<Rightarrow> int \<Rightarrow> ('m, 'r) Network \<Rightarrow> ('m, 'r) Network" where
  "SetLatency minD maxD n = n\<lparr>nw_latencyMin := minD, nw_latencyMax := maxD\<rparr>"

definition SetDropRate :: "rat \<Rightarrow> ('m, 'r) Network \<Rightarrow> ('m, 'r) Network" where
  "SetDropRate p n = n\<lparr>nw_dropRate := p\<rparr>"

definition SetDuplicateRate :: "rat \<Rightarrow> ('m, 'r) Network \<Rightarrow> ('m, 'r) Network" where
  "SetDuplicateRate p n = n\<lparr>nw_duplicateRate := p\<rparr>"

section \<open>Delivery\<close>

definition link_key :: "NodeID \<Rightarrow> NodeID \<Rightarrow> string" where
  "link_key from to = from @ ''->'' @ to"

definition linkRand :: "'r Rand \<Rightarrow> NodeID \<Rightarrow> NodeID \<Rightarrow> ('m, 'r) Network \<Rightarrow> 'r" where
  "linkRand R from to n =
     (case fmlookup (nw_links n) (link_key from to) of
        Some r \<Rightarrow> r
      | None \<Rightarrow> rn_new R (nw_seed n XOR fnv64a (bytes_of (link_key from to))))"

text \<open>A draw against a rate: none is made when the rate is zero.\<close>

definition hit :: "'r Rand \<Rightarrow> rat \<Rightarrow> 'r \<Rightarrow> bool \<times> 'r" where
  "hit R rate r = (if rate > 0 then (let (x, r) = rn_float R r in (x < rate, r)) else (False, r))"

record 'm Delivery =
  dv_target :: "'m Server option"
  dv_ok :: bool
  dv_dup :: bool
  dv_delay :: int

definition undelivered :: "'m Delivery" where
  "undelivered = \<lparr>dv_target = None, dv_ok = False, dv_dup = False, dv_delay = 0\<rparr>"

definition draw_delay :: "'r Rand \<Rightarrow> int \<Rightarrow> int \<Rightarrow> 'r \<Rightarrow> int \<times> 'r" where
  "draw_delay R lo hi r =
     (if hi > 0
      then if hi - lo > 0 then (let (d, r) = rn_int63n R (hi - lo) r in (lo + d, r)) else (lo, r)
      else (0, r))"

definition deliverable :: "'r Rand \<Rightarrow> NodeID \<Rightarrow> NodeID \<Rightarrow> ('m, 'r) Network \<Rightarrow> 'm Delivery \<times> ('m, 'r) Network" where
  "deliverable R from to n =
     (let n = n\<lparr>nw_sent := bump from (nw_sent n)\<rparr>;
          dropped = (\<lambda>n. (undelivered, n\<lparr>nw_dropped := bump from (nw_dropped n)\<rparr>)) in
      if or0 False (nw_crashed n) from \<or> or0 False (nw_crashed n) to then dropped n
      else if or0 0 (nw_partitions n) from \<noteq> or0 0 (nw_partitions n) to then dropped n
      else
        let (lost, r) = hit R (nw_dropRate n) (linkRand R from to n);
            keep = (\<lambda>r. n\<lparr>nw_links := fmupd (link_key from to) r (nw_links n)\<rparr>) in
        if lost then dropped (keep r)
        else
          let target = fmlookup (nw_nodes n) to in
          if target = None \<and> nw_groups n = fmempty then (undelivered, keep r)
          else if target = None \<and> to |\<notin>| fmdom (nw_partitions n) then (undelivered, keep r)
          else
            let (dup, r) = hit R (nw_duplicateRate n) r;
                (delay, r) = draw_delay R (nw_latencyMin n) (nw_latencyMax n) r
            in (\<lparr>dv_target = target, dv_ok = True, dv_dup = dup, dv_delay = delay\<rparr>, keep r))"

text \<open>\<^verbatim>\<open>groupTransport.target\<close>.\<close>

definition group_target ::
  "'r Rand \<Rightarrow> string \<Rightarrow> NodeID \<Rightarrow> NodeID \<Rightarrow> ('m, 'r) Network \<Rightarrow> 'm Delivery \<times> ('m, 'r) Network" where
  "group_target R sid from to n =
     (let (d, n) = deliverable R from to n in
      if \<not> dv_ok d then (undelivered, n)
      else case fmlookup (or0 fmempty (nw_groups n) sid) to of
        None \<Rightarrow> (undelivered, n)
      | Some s \<Rightarrow> (d\<lparr>dv_target := Some s\<rparr>, n))"

text \<open>The handler runs once, and once more for a duplicate, whose reply is dropped.\<close>

definition deliver ::
  "('m Server \<Rightarrow> ('a \<times> 'm Server) option) \<Rightarrow> ('m Server \<Rightarrow> ('a \<times> 'm Server) option) \<Rightarrow> bool \<Rightarrow> 'm Server
     \<Rightarrow> ('a \<times> 'm Server) option" where
  "deliver handle again dup s = do {
     (reply, s) \<leftarrow> handle s;
     s \<leftarrow> (if dup then map_option snd (again s) else Some s);
     Some (reply, s)
   }"

definition ErrUnreachable :: string where
  "ErrUnreachable = ''raft: peer unreachable''"

definition send ::
  "'r Rand \<Rightarrow> NodeID \<Rightarrow> NodeID \<Rightarrow> ('m Server \<Rightarrow> ('a \<times> 'm Server) option) \<Rightarrow> ('m Server \<Rightarrow> ('a \<times> 'm Server) option)
     \<Rightarrow> ('m, 'r) Network \<Rightarrow> ((string + 'a) \<times> ('m, 'r) Network) option" where
  "send R from to handle again n =
     (let (d, n) = deliverable R from to n in
      if \<not> dv_ok d then Some (Inl ErrUnreachable, n)
      else do {
        s \<leftarrow> dv_target d;
        (reply, s) \<leftarrow> deliver handle again (dv_dup d) s;
        Some (Inr reply, n\<lparr>nw_nodes := fmupd to s (nw_nodes n)\<rparr>)
      })"

definition group_send ::
  "'r Rand \<Rightarrow> string \<Rightarrow> NodeID \<Rightarrow> NodeID \<Rightarrow> ('m Server \<Rightarrow> ('a \<times> 'm Server) option) \<Rightarrow> ('m Server \<Rightarrow> ('a \<times> 'm Server) option)
     \<Rightarrow> ('m, 'r) Network \<Rightarrow> ((string + 'a) \<times> ('m, 'r) Network) option" where
  "group_send R sid from to handle again n =
     (let (d, n) = group_target R sid from to n in
      if \<not> dv_ok d then Some (Inl ErrUnreachable, n)
      else do {
        s \<leftarrow> dv_target d;
        (reply, s) \<leftarrow> deliver handle again (dv_dup d) s;
        Some (Inr reply, n\<lparr>nw_groups := fmupd sid (fmupd to s (or0 fmempty (nw_groups n) sid)) (nw_groups n)\<rparr>)
      })"

definition SendAppendEntries where
  "SendAppendEntries M env env' R to args =
     send R (ae_LeaderID args) to (AppendEntries M env args) (AppendEntries M env' args)"

definition SendRequestVote where
  "SendRequestVote env env' R to args =
     send R (rv_CandidateID args) to (RequestVote env args) (RequestVote env' args)"

definition SendInstallSnapshot where
  "SendInstallSnapshot M env env' R to args =
     send R (is_LeaderID args) to (Some \<circ> InstallSnapshot M env args) (Some \<circ> InstallSnapshot M env' args)"

definition GroupSendAppendEntries where
  "GroupSendAppendEntries M env env' R sid to args =
     group_send R sid (ae_LeaderID args) to (AppendEntries M env args) (AppendEntries M env' args)"

definition GroupSendRequestVote where
  "GroupSendRequestVote env env' R sid to args =
     group_send R sid (rv_CandidateID args) to (RequestVote env args) (RequestVote env' args)"

definition GroupSendInstallSnapshot where
  "GroupSendInstallSnapshot M env env' R sid to args =
     group_send R sid (is_LeaderID args) to (Some \<circ> InstallSnapshot M env args) (Some \<circ> InstallSnapshot M env' args)"

section \<open>Cut-off machines\<close>

text \<open>The two conditions under which nothing passes between two machines.\<close>

definition cut :: "NodeID \<Rightarrow> NodeID \<Rightarrow> ('m, 'r) Network \<Rightarrow> bool" where
  "cut from to n \<longleftrightarrow> or0 False (nw_crashed n) from \<or> or0 False (nw_crashed n) to
     \<or> or0 0 (nw_partitions n) from \<noteq> or0 0 (nw_partitions n) to"

lemma cut_undelivered:
  assumes "cut from to n"
  shows "\<exists>n'. deliverable R from to n = (undelivered, n') \<and> nw_nodes n' = nw_nodes n \<and> nw_groups n' = nw_groups n"
  using assms by (auto simp: deliverable_def cut_def Let_def)

lemma cut_sym: "cut from to n \<longleftrightarrow> cut to from n"
  by (auto simp: cut_def)

lemma cut_after_crash: "cut i j (net_Crash i n)"
  by (simp add: cut_def net_Crash_def or0_def)

lemma or0_fmupd: "or0 z (fmupd k v m) i = (if k = i then v else or0 z m i)"
  by (simp add: or0_def)

lemma or0_assign: "or0 z (fold (\<lambda>i. fmupd i v) g m) i = (if i \<in> set g then v else or0 z m i)"
  by (induction g arbitrary: m) (auto simp: or0_fmupd)

lemma or0_partition:
  "(\<forall>a b. a < length gs \<and> b < length gs \<and> a \<noteq> b \<longrightarrow> set (gs ! a) \<inter> set (gs ! b) = {}) \<Longrightarrow> a < length gs \<Longrightarrow> i \<in> set (gs ! a) \<Longrightarrow>
   or0 0 (fold (\<lambda>(gi, g). fold (\<lambda>i. fmupd i (int gi)) g) (enumerate k gs) m) i = int (k + a)"
proof (induction gs arbitrary: k m a)
  case (Cons g gs)
  let ?F = "fold (\<lambda>(gi, g). fold (\<lambda>i. fmupd i (int gi)) g)"
  have later: "or0 0 (?F (enumerate k' hs) m') i = or0 0 m' i" if "i \<notin> \<Union> (set ` set hs)" for k' hs m'
    using that by (induction hs arbitrary: k' m') (auto simp: or0_assign)
  have tl: "\<forall>a b. a < length gs \<and> b < length gs \<and> a \<noteq> b \<longrightarrow> set (gs ! a) \<inter> set (gs ! b) = {}"
    using Cons.prems(1) [rule_format, of "Suc a" "Suc b" for a b] by simp
  show ?case
  proof (cases a)
    case 0
    have "i \<notin> set (gs ! b)" if "b < length gs" for b
      using Cons.prems(1) [rule_format, of 0 "Suc b"] Cons.prems(3) 0 that by auto
    then have "i \<notin> \<Union> (set ` set gs)" by (metis UnionE imageE in_set_conv_nth)
    then show ?thesis using later [of gs "Suc k"] Cons.prems(3) 0 by (simp add: or0_assign)
  next
    case (Suc b)
    then show ?thesis using Cons.IH [OF tl, of b "Suc k"] Cons.prems(2,3) by simp
  qed
qed simp

text \<open>a crashed machine reaches nobody and is reached by nobody, and after a partition into disjoint sides no
  message crosses from one to another: the sender is told that the peer is unreachable and no server changes.\<close>

theorem partition_isolates:
  assumes "\<forall>a b. a < length gs \<and> b < length gs \<and> a \<noteq> b \<longrightarrow> set (gs ! a) \<inter> set (gs ! b) = {}"
    and "a < length gs" "b < length gs" "a \<noteq> b" "from \<in> set (gs ! a)" "to \<in> set (gs ! b)"
  shows "\<exists>n'. send R from to handle again (net_Partition gs n) = Some (Inl ErrUnreachable, n') \<and> nw_nodes n' = nw_nodes n"
    "\<exists>n'. group_send R sid from to handle again (net_Partition gs n) = Some (Inl ErrUnreachable, n') \<and> nw_groups n' = nw_groups n"
proof -
  have "cut from to (net_Partition gs n)"
    using or0_partition [OF assms(1), of a "from" 0 "nw_partitions n"] or0_partition [OF assms(1), of b to 0 "nw_partitions n"] assms(2-6)
    by (simp add: cut_def net_Partition_def)
  from cut_undelivered [OF this, of R] obtain n' where n': "deliverable R from to (net_Partition gs n) = (undelivered, n')"
    "nw_nodes n' = nw_nodes n" "nw_groups n' = nw_groups n" by (auto simp: net_Partition_def)
  show "\<exists>n'. send R from to handle again (net_Partition gs n) = Some (Inl ErrUnreachable, n') \<and> nw_nodes n' = nw_nodes n"
    using n' by (simp add: send_def undelivered_def)
  show "\<exists>n'. group_send R sid from to handle again (net_Partition gs n) = Some (Inl ErrUnreachable, n') \<and> nw_groups n' = nw_groups n"
    using n' by (simp add: group_send_def group_target_def undelivered_def)
qed

section \<open>Reproducible faults\<close>

definition static :: "('m, 'r) Network \<Rightarrow> ('m, 'r) Network" where
  "static n = n\<lparr>nw_links := fmempty, nw_sent := fmempty, nw_dropped := fmempty\<rparr>"

lemma staticD:
  assumes "static n = static n'"
  shows "nw_nodes n = nw_nodes n'" "nw_groups n = nw_groups n'" "nw_crashed n = nw_crashed n'"
    "nw_partitions n = nw_partitions n'" "nw_dropRate n = nw_dropRate n'" "nw_duplicateRate n = nw_duplicateRate n'"
    "nw_latencyMin n = nw_latencyMin n'" "nw_latencyMax n = nw_latencyMax n'" "nw_seed n = nw_seed n'"
  using assms by (cases n; cases n'; simp add: static_def)+

lemma deliverable_static: "static (snd (deliverable R from to n)) = static n"
  by (simp add: deliverable_def static_def Let_def case_prod_beta)

lemma deliverable_other_links:
  "k \<noteq> link_key from to \<Longrightarrow> fmlookup (nw_links (snd (deliverable R from to n))) k = fmlookup (nw_links n) k"
  by (simp add: deliverable_def Let_def case_prod_beta)

lemma deliverable_cong:
  assumes "static n = static n'" "fmlookup (nw_links n) (link_key from to) = fmlookup (nw_links n') (link_key from to)"
  shows "fst (deliverable R from to n) = fst (deliverable R from to n')"
    "fmlookup (nw_links (snd (deliverable R from to n))) (link_key from to)
       = fmlookup (nw_links (snd (deliverable R from to n'))) (link_key from to)"
proof -
  have l: "linkRand R from to (n\<lparr>nw_sent := x\<rparr>) = linkRand R from to (n'\<lparr>nw_sent := y\<rparr>)" for x y
    using assms(2) staticD(9) [OF assms(1)] by (simp add: linkRand_def split: option.split)
  show "fst (deliverable R from to n) = fst (deliverable R from to n')"
    "fmlookup (nw_links (snd (deliverable R from to n))) (link_key from to)
       = fmlookup (nw_links (snd (deliverable R from to n'))) (link_key from to)"
    using staticD [OF assms(1)] assms(2) l [of "bump from (nw_sent n)" "bump from (nw_sent n')"]
    by (simp_all add: deliverable_def Let_def case_prod_beta)
qed

text \<open>What the network does with a sequence of messages, given by sender and receiver.\<close>

fun traffic :: "'r Rand \<Rightarrow> (NodeID \<times> NodeID) list \<Rightarrow> ('m, 'r) Network \<Rightarrow> 'm Delivery list" where
  "traffic R [] n = []"
| "traffic R ((from, to) # ms) n = (let (d, n) = deliverable R from to n in d # traffic R ms n)"

definition on_link :: "string \<Rightarrow> NodeID \<times> NodeID \<Rightarrow> bool" where
  "on_link k = (\<lambda>(from, to). link_key from to = k)"

lemma traffic_cong:
  assumes "static n = static n'" "fmlookup (nw_links n) k = fmlookup (nw_links n') k"
  shows "map snd (filter (\<lambda>(m, d). on_link k m) (zip ms (traffic R ms n))) = traffic R (filter (on_link k) ms) n'"
  using assms
proof (induction ms arbitrary: n n')
  case (Cons m ms)
  obtain "from" to where m: "m = (from, to)" by fastforce
  obtain d n1 where d: "deliverable R from to n = (d, n1)" by fastforce
  obtain d' n1' where d': "deliverable R from to n' = (d', n1')" by fastforce
  have s: "static n1 = static n'" "static n1' = static n'"
    using deliverable_static [of R "from" to n] deliverable_static [of R "from" to n'] d d' Cons.prems(1) by simp_all
  show ?case
  proof (cases "link_key from to = k")
    case True
    note c = deliverable_cong [OF Cons.prems(1), of "from" to R] True
    have "d = d'" "fmlookup (nw_links n1) k = fmlookup (nw_links n1') k" using c d d' Cons.prems(2) by simp_all
    then show ?thesis using Cons.IH [of n1 n1'] s m d d' True by (simp add: on_link_def)
  next
    case False
    have "fmlookup (nw_links n1) k = fmlookup (nw_links n') k"
      using deliverable_other_links [of k "from" to R n] d False Cons.prems(2) by simp
    then show ?thesis using Cons.IH [of n1 n'] s(1) m d False by (simp add: on_link_def)
  qed
qed simp

text \<open>which messages of a link are lost, doubled or delayed, and by how much, depends on that link's messages
  alone: the same as if no other link had carried anything, whatever the interleaving.\<close>

theorem faults_per_link:
  "map snd (filter (\<lambda>(m, d). on_link k m) (zip ms (traffic R ms n))) = traffic R (filter (on_link k) ms) n"
  by (rule traffic_cong) simp_all

section \<open>Duplicates\<close>

text \<open>Two states of a server that agree on everything but its timers and bookkeeping.\<close>

definition same_core :: "'m Server \<Rightarrow> 'm Server \<Rightarrow> bool" where
  "same_core s s' \<longleftrightarrow> s_id s' = s_id s \<and> s_peers s' = s_peers s \<and> s_currentTerm s' = s_currentTerm s
     \<and> s_votedFor s' = s_votedFor s \<and> s_log s' = s_log s \<and> s_commitIndex s' = s_commitIndex s
     \<and> s_lastApplied s' = s_lastApplied s \<and> s_sm s' = s_sm s \<and> s_snapshot s' = s_snapshot s"

lemma accept_leader_core:
  assumes "s_currentTerm s = ae_Term a"
  shows "same_core s (snd (accept_leader env a s))"
  using assms by (simp add: same_core_def)

lemma matchesPrevLog_append:
  assumes "wf_log l" "prev \<le> lastIndex l" "matchesPrevLog l prev t"
  shows "matchesPrevLog (snd (appendFrom prev es l)) prev t"
proof -
  have "entryAt (snd (appendFrom prev es l)) prev = entryAt l prev"
    by (rule appendFrom_before [OF assms(1,2)]) simp
  moreover have "baseIndex (snd (appendFrom prev es l)) = baseIndex l" using appendFrom_wf [OF assms(1,2)] by blast
  ultimately show ?thesis using assms(3)
    by (cases "prev < baseIndex l") (simp_all add: matchesPrevLog_def compactedAway_def termAt_def)
qed

lemma AppendEntries_twice:
  assumes "AppendEntries M env a s = Some (r, s1)" "server_inv s" "sound_append a s"
    and "AppendEntries M env' a s1 = Some (r', s2)"
  shows "same_core s1 s2 \<and> r' = r"
  using assms(1)
proof (cases rule: AppendEntries_elim)
  case ignored
  show ?thesis using assms(4)
    by (cases rule: AppendEntries_elim) (use ignored in \<open>auto simp: same_core_def\<close>)
next
  case (rejected t1)
  have s1: "s_log s1 = s_log s" "s_currentTerm s1 = ae_Term a" "\<not> s_stopped s1"
    using rejected by (auto split: if_splits)
  show ?thesis using assms(4)
  proof (cases rule: AppendEntries_elim)
    case (rejected t2)
    with s1 \<open>r = _\<close> show ?thesis using accept_leader_core [of s1 a env'] by simp
  qed (use s1 rejected in auto)
next
  case (accepted t1 t3 t4)
  have ok: "aer_Success r" using accepted(5) by simp
  note acc = AppendEntries_accepted_inv [OF assms(1) ok assms(2,3)]
  note wf = server_invD(1) [OF assms(2)]
  have t4: "s_currentTerm t4 = ae_Term a" "\<not> s_stopped t4"
    using accepted(1-3,8) protoD [OF accepted(6)] by auto
  have s1: "s_currentTerm s1 = ae_Term a" "\<not> s_stopped s1" using commit_to_frame [OF accepted(9)] t4 by simp_all
  have m: "matchesPrevLog (s_log s1) (ae_PrevLogIndex a) (ae_PrevLogTerm a)"
    unfolding acc(2) by (rule matchesPrevLog_append [OF wf acc(5) accepted(4)])
  have again: "appendFrom (ae_PrevLogIndex a) (ae_Entries a) (s_log s1) = (False, s_log s1)"
    unfolding acc(2) by (rule appendFrom_idempotent [OF wf acc(5)])
  have base: "baseIndex (s_log s1) = baseIndex (s_log s)" unfolding acc(2) using appendFrom_wf [OF wf acc(5)] by blast
  have snd1: "sound_append a s1"
    using assms(3) appendFrom_has [OF wf acc(5)] base by (simp add: sound_append_def acc(2))
  show ?thesis using assms(4)
  proof (cases rule: AppendEntries_elim)
    case (accepted u1 u3 u4)
    have ok': "aer_Success r'" using accepted(5) by simp
    note acc' = AppendEntries_accepted_inv [OF assms(4) ok' acc(1) snd1]
    have c: "s_commitIndex s2 = s_commitIndex s1" using acc'(3) acc(3) by simp
    have "u4 = snd (accept_leader env' a s1)" using accepted(1,7,8) s1(1) again by simp
    then have "same_core s1 u4" using accept_leader_core [OF s1(1)] by simp
    moreover have "s_sm s2 = s_sm s1" using acc'(4) c by simp
    moreover have "s_log s2 = s_log s1" using acc'(2) again by simp
    ultimately show ?thesis
      using commit_to_frame [OF accepted(9)] c server_invD(3) [OF acc'(1)] server_invD(3) [OF acc(1)]
        accepted(5) \<open>r = _\<close> by (simp add: same_core_def)
  qed (use s1 m in auto)
qed

text \<open>A request that was ignored because a leader was heard of may be considered when its duplicate comes
  later.\<close>

lemma RequestVote_twice:
  assumes "RequestVote env a s = Some (r, s1)" "RequestVote env' a s1 = Some (r', s2)"
  shows "same_core s1 s2 \<or> s1 = s"
proof -
  have t: "s_currentTerm s2 = s_currentTerm s1 \<and> s_votedFor s2 = s_votedFor s1" if "s_currentTerm s1 = rv_Term a"
    "s_votedFor s1 = Some (rv_CandidateID a) \<or> \<not> (s_votedFor s1 = None \<and> isUpToDate (s_log s1) (rv_LastLogIndex a) (rv_LastLogTerm a))"
    using assms(2)
    by (cases rule: RequestVote_elim) (use that in \<open>auto simp: observeTerm_def\<close>)
  have "(s_currentTerm s2 = s_currentTerm s1 \<and> s_votedFor s2 = s_votedFor s1) \<or> s1 = s"
    using assms(1)
  proof (cases rule: RequestVote_elim)
    case (denied u)
    have "s_log s1 = s_log s" using RequestVote_frame [OF assms(1)] by simp
    moreover have "s_currentTerm s1 = rv_Term a" "s_votedFor s1 = s_votedFor u" using denied(1,2,5) by (auto split: if_splits)
    ultimately show ?thesis using t denied(6) by auto
  next
    case (granted u)
    then show ?thesis using t by simp
  qed simp
  then show ?thesis using RequestVote_frame [OF assms(2)] by (auto simp: same_core_def)
qed

lemma deliver_cases:
  assumes "deliver handle again dup s = Some (reply, s')"
  obtains s1 where "handle s = Some (reply, s1)" "dup \<longrightarrow> (\<exists>r. again s1 = Some (r, s'))" "\<not> dup \<longrightarrow> s' = s1"
  using assms that by (auto simp: deliver_def bind_eq_Some_conv split: if_splits)



end
