(* ===== verification/Spec2Isabelle.thy ===== *)
theory Spec2Isabelle
  imports Hlc Ledger LedgerCodec LedgerSnapshot TwoPC ShardMachine ShardSnapshot Ring Storage RaftShard RaftMembership
    RaftSafety ShardClientAPI AdminAPI Healing SimNetwork
begin

text \<open>
  A verification development for core-bank: a bank on a replicated double-entry ledger (src/ledger), its own
  Raft (src/raft) with durable storage (src/storage), sharding with two-phase commit (src/shard), the node's
  endpoints (src/rpc), and the simulated network and fleet that its tests and demo run on (src/sim, src/demo).

  \<^emph>\<open>How the program works.\<close> A client request enters at an endpoint (\<^verbatim>\<open>ClientService\<close> or
  \<^verbatim>\<open>ShardClientService\<close>), passes authentication and admission, and becomes an encoded command.
  With one group it is submitted to Raft. With shards the ring gives the shard of each account: a request
  within one shard goes to its group, one across two shards to the coordinator, which logs prepares, a
  decision and outcomes in both groups. Each Raft group persists its log before it answers, replicates it,
  and applies committed entries to its state machine (a ledger or a shard). Logs are compacted into snapshots of the
  machine, which are sent to followers that fall behind and read back on restart.

  \<^emph>\<open>Conventions.\<close> A struct is a record whose field names carry a short prefix; a handler is one definition that
  takes and returns the record; code that releases the lock around a call is one definition per locked
  section, and another section may run in between. \<^const>\<open>None\<close> is a panic, or, in a handler that waits on a
  list of wake-ups, a list that ended first; an error is \<^const>\<open>Inl\<close> of its text or an optional text.
  Clocks, random draws, failing system calls and the choices of other machines are
  arguments. \<^verbatim>\<open>int64\<close> money is an integer with the wrap-around written out; sequence numbers, hashes,
  clock readings and lengths on the wire are words or are bounded by their width; Raft terms and indices are naturals, with
  the 64-bit bound stated where they are encoded.

  \<^emph>\<open>The theories\<close>, from the bottom:

  \<^item> \<^verbatim>\<open>Prelude\<close>: bytes and strings, little-endian integers, short reads, crc32 and FNV, number formatting, finite maps.
  \<^item> \<^verbatim>\<open>Hlc\<close> (src/hlc/hlc.go): stamps respect happened-before; exactly when a clock advances, the wrap of its counter included.
  \<^item> \<^verbatim>\<open>Ledger\<close> (src/ledger/ledger.go, reserve.go): every run keeps the books balanced, changes the total
    by what enters or leaves, and answers a retry with the first result.
  \<^item> \<^verbatim>\<open>LedgerCodec\<close> (src/ledger/codec.go): \<^verbatim>\<open>Encode\<close>, \<^verbatim>\<open>Decode\<close>, \<^verbatim>\<open>Machine\<close>; the round trip, and where it ends.
  \<^item> \<^verbatim>\<open>SnapReader\<close>, \<^verbatim>\<open>LedgerSnapshot\<close> (src/ledger/snapshot.go): a snapshot restores to the state it was taken of, and any
    truncation of it is refused with the ledger untouched.
  \<^item> \<^verbatim>\<open>TwoPC\<close>, \<^verbatim>\<open>ShardMachine\<close>, \<^verbatim>\<open>ShardSnapshot\<close> (src/shard/twopc.go, machine.go, snapshot.go): a YES vote can always be
    kept, terminal records are final, a transfer conserves money across both shards, and compaction is
    invisible up to timestamps.
  \<^item> \<^verbatim>\<open>Ring\<close> (src/shard/ring.go): lookup by binary search is the nearest point clockwise; adding a shard moves keys only to it.
  \<^item> \<^verbatim>\<open>ShardCoordinator\<close>, \<^verbatim>\<open>CoordinatorRuns\<close>, \<^verbatim>\<open>CoordinatorRetry\<close> (src/shard/coordinator.go, \<^verbatim>\<open>NetworkGroup\<close> of
    src/rpc/shardnode.go): transfers never split, complete when undisturbed, and recovery settles what is in
    doubt; and the runs in which a concurrent recovery, a displaced entry or a retry breaks these promises.
  \<^item> \<^verbatim>\<open>Storage\<close> (src/storage): framed records, the write-ahead log after a torn append, and atomic replacement of
    a file under power loss at any point.
  \<^item> \<^verbatim>\<open>StateMachine\<close>: what Raft asks of a machine (src/raft/types.go, snapshot.go), as the locales \<open>replicated_machine\<close> and
    \<open>snapshotting_machine\<close>; the ledger and the shard interpret them.
  \<^item> \<^verbatim>\<open>RaftLog\<close>, \<^verbatim>\<open>RaftConfig\<close>, \<^verbatim>\<open>RaftState\<close>, \<^verbatim>\<open>RaftTimer\<close> (src/raft/log.go, types.go, membership.go, persist.go, health_priority.go):
    the data of a server and its encodings.
  \<^item> \<^verbatim>\<open>RaftServer\<close>, \<^verbatim>\<open>RaftLoop\<close>, \<^verbatim>\<open>RaftMembership\<close>, \<^verbatim>\<open>RaftSnapshot\<close>, \<^verbatim>\<open>RaftRead\<close> (src/raft/server.go, loop.go, membership.go,
    snapshot.go, read.go, health.go): every section of a server, with its invariant, the contracts of the handlers, the commit
    rule, and where self-removal and reads by a new leader go wrong.
  \<^item> \<^verbatim>\<open>RaftDisk\<close>, \<^verbatim>\<open>RaftShard\<close>: what a server leaves on disk, and that a crashed shard replica comes back as it was.
  \<^item> \<^verbatim>\<open>RaftSpec\<close>, \<^verbatim>\<open>RaftCluster\<close>, \<^verbatim>\<open>RaftSafety\<close>: the protocol as an inductive step relation with its safety proofs; a cluster of the
    servers above under loss, delay, duplication, reordering, crashes and restarts; and the refinement of the first
    by the second, from which election safety, permanence of committed entries, leader completeness and equal
    machines follow for the code.
  \<^item> \<^verbatim>\<open>Admission\<close>, \<^verbatim>\<open>NodeConfig\<close> (src/rpc/admission.go, drain.go, peers.go, security.go): limits, draining, parsing and identities.
  \<^item> \<^verbatim>\<open>ClientAPI\<close>, \<^verbatim>\<open>ShardClientAPI\<close>, \<^verbatim>\<open>AdminAPI\<close> (src/rpc/client_api.go, shardclient.go, shardnode.go, admin.go): what a reply means.
  \<^item> \<^verbatim>\<open>SimNetwork\<close> (src/sim/network.go, network_groups.go, network_snapshot.go): partitions isolate, faults depend only on
    the seed and the link, duplicates have the effect of one delivery.
  \<^item> \<^verbatim>\<open>Fleet\<close>, \<^verbatim>\<open>EventLog\<close>, \<^verbatim>\<open>Healing\<close> (src/sim/placement.go, colocated.go, rereplicate.go, src/demo/eventlog.go, heal.go): placement,
    adding and removing replicas, the bounded event log, and that healing is safe.

  \<^emph>\<open>Interfaces.\<close> \<open>replicated_machine\<close> and \<open>snapshotting_machine\<close> (extended by \<open>raft_machine\<close> on the side of Raft) carry the
  argument from a machine to its replicas; \<open>go_sort\<close> is what the library documents of \<^verbatim>\<open>sort.Slice\<close>; \<open>fair_log\<close>
  is an invariant of the groups' machines kept by every entry the environment may add. Each is interpreted on the model's definitions.

  \<^emph>\<open>Bounds and assumptions.\<close> Loops are structural recursions over lists and numbers the code itself
  iterates over, or functions with a measure; none has an arbitrary fuel. The encodings are exact within
  the widths of their length fields, which \<open>transfer_fits\<close>, \<open>state_fits\<close> and similar predicates state. In the cluster model the members
  are fixed, logs are not compacted, client commands are neither empty nor configuration entries, and a server restarts only if its state fits its
  encoding; compaction and membership are treated on single servers. \<^verbatim>\<open>make\<close> fails beyond the 48-bit address space. The
  arithmetic of the token bucket is rational with a rounding function as a parameter, bounded in its theorem. Case folding of event filters
  is that of ASCII. The order of ranging over a Go map is a parameter wherever it shows, and the random
  generator of the simulated network always is.

  \<^emph>\<open>Not modelled.\<close> Sockets, TLS, \<^verbatim>\<open>gob\<close> and \<^verbatim>\<open>net/rpc\<close> (src/rpc/rpc.go, snapshot_rpc.go): the cluster model allows every loss, delay and
  duplication instead. Metrics and logging (src/obs, the observability adapters), the \<^verbatim>\<open>main\<close> programs, the HTTP handlers
  of the demo, the web pages, and the harness of src/sim that starts goroutines and polls them.
\<close>

end
